(* ===== verification/Prelude.thy ===== *)
theory Prelude
  imports Main "HOL-Library.Multiset" "HOL-Library.Word" "HOL-Library.Monad_Syntax"
begin

text \<open>
  Shared vocabulary of the development: the machine types of the C sources (LP64), the
  reads and writes of a C array that make an access outside the array an explicit
  failure, list slices and block copies, the truncating division of C, counted loops,
  and the generic lemmas on lists and options that the component theories use.

  \<^item> \<open>mem_simps\<close> collects the rewriting rules for array reads, writes and slices;
  \<^item> \<open>loop_simps\<close> collects the unfolding rules of the counted loops.
\<close>

named_theorems mem_simps \<open>array reads, writes and slices\<close>
named_theorems loop_simps \<open>counted loops\<close>

unbundle bit_operations_syntax

type_synonym byte = "8 word"
type_synonym cint = "32 word"
type_synonym clong = "64 word"
type_synonym size_t = "64 word"

section \<open>Array accesses\<close>

text \<open>
  A C array is a list; a pointer into it is an \<open>int\<close> index, so that a pointer one
  before the first element (reached by the right pointer of a partitioning sweep) is a
  value.  An access outside the array is undefined behaviour in C and \<open>None\<close> here.
\<close>

definition rd :: "'a list \<Rightarrow> int \<Rightarrow> 'a option" where
  "rd a i = (if 0 \<le> i \<and> i < int (length a) then Some (a ! nat i) else None)"

definition wr :: "'a list \<Rightarrow> int \<Rightarrow> 'a \<Rightarrow> 'a list option" where
  "wr a i x = (if 0 \<le> i \<and> i < int (length a) then Some (a[nat i := x]) else None)"

lemma rd_in [mem_simps]: "0 \<le> i \<Longrightarrow> i < int (length a) \<Longrightarrow> rd a i = Some (a ! nat i)"
  by (simp add: rd_def)

lemma rd_nat [mem_simps]: "i < length a \<Longrightarrow> rd a (int i) = Some (a ! i)"
  by (simp add: rd_def)

lemma rd_SomeD: "rd a i = Some x \<Longrightarrow> 0 \<le> i \<and> i < int (length a) \<and> x = a ! nat i"
  by (auto simp: rd_def split: if_splits)

lemma rd_None_iff: "rd a i = None \<longleftrightarrow> i < 0 \<or> int (length a) \<le> i"
  by (auto simp: rd_def)

lemma wr_in [mem_simps]: "0 \<le> i \<Longrightarrow> i < int (length a) \<Longrightarrow> wr a i x = Some (a[nat i := x])"
  by (simp add: wr_def)

lemma wr_nat [mem_simps]: "i < length a \<Longrightarrow> wr a (int i) x = Some (a[i := x])"
  by (simp add: wr_def)

lemma wr_SomeD: "wr a i x = Some b \<Longrightarrow> 0 \<le> i \<and> i < int (length a) \<and> b = a[nat i := x]"
  by (auto simp: wr_def split: if_splits)

lemma wr_length: "wr a i x = Some b \<Longrightarrow> length b = length a"
  by (auto dest: wr_SomeD)

lemma rd_window: "i < length m \<Longrightarrow> rd (xs @ m @ ys) (int (length xs + i)) = Some (m ! i)"
  by (simp add: rd_def nth_append nat_add_distrib)

lemma mset_swap_update:
  assumes "i < length a" "j < length a"
  shows "mset (a[i := a ! j, j := a ! i]) = mset a"
  using assms mset_swap by blast

section \<open>Slices and block copies\<close>

definition seg :: "'a list \<Rightarrow> nat \<Rightarrow> nat \<Rightarrow> 'a list" where
  "seg a lo n = take n (drop lo a)"

text \<open>\<open>blit a lo xs\<close> overwrites \<open>a\<close> from index \<open>lo\<close> with \<open>xs\<close>.\<close>

definition blit :: "'a list \<Rightarrow> nat \<Rightarrow> 'a list \<Rightarrow> 'a list" where
  "blit a lo xs = take lo a @ xs @ drop (lo + length xs) a"

lemma length_seg [mem_simps]: "lo + n \<le> length a \<Longrightarrow> length (seg a lo n) = n"
  by (simp add: seg_def)

lemma length_blit [mem_simps]:
  "lo + length xs \<le> length a \<Longrightarrow> length (blit a lo xs) = length a"
  by (simp add: blit_def)

lemma seg_nth [mem_simps]: "i < n \<Longrightarrow> lo + n \<le> length a \<Longrightarrow> seg a lo n ! i = a ! (lo + i)"
  by (simp add: seg_def)

lemma seg_append_mid [mem_simps]:
  "length xs = lo \<Longrightarrow> length m = n \<Longrightarrow> seg (xs @ m @ ys) lo n = m"
  by (simp add: seg_def)

lemma blit_append_mid [mem_simps]:
  "length xs = lo \<Longrightarrow> length m = length zs \<Longrightarrow> blit (xs @ m @ ys) lo zs = xs @ zs @ ys"
  by (simp add: blit_def)

lemma blit_nth:
  "lo + length xs \<le> length a \<Longrightarrow> i < length a \<Longrightarrow>
   blit a lo xs ! i = (if lo \<le> i \<and> i < lo + length xs then xs ! (i - lo) else a ! i)"
  by (auto simp: blit_def nth_append)

lemma blit_seg_nth:
  assumes "si + n \<le> length from" "di + n \<le> length to" "p < length to"
  shows "blit to di (seg from si n) ! p
       = (if di \<le> p \<and> p < di + n then from ! (si + (p - di)) else to ! p)"
  using assms by (auto simp: blit_nth length_seg seg_nth less_diff_conv2 add.commute)

lemma seg_blit [mem_simps]: "lo + length xs \<le> length a \<Longrightarrow> seg (blit a lo xs) lo (length xs) = xs"
  by (simp add: blit_def seg_def)

lemma seg_eq_nth:
  assumes "seg a i n = seg b j n" "k < n" "i + n \<le> length a" "j + n \<le> length b"
  shows "a ! (i + k) = b ! (j + k)"
  using assms by (metis seg_nth)

lemma seg_eqI:
  assumes "i + n \<le> length a" "j + n \<le> length b" "\<And>k. k < n \<Longrightarrow> a ! (i + k) = b ! (j + k)"
  shows "seg a i n = seg b j n"
  using assms by (intro nth_equalityI) (auto simp: length_seg seg_nth)

lemma seg_whole: "seg a 0 (length a) = a"
  by (simp add: seg_def)

lemma take_seg_drop:
  "lo + n \<le> length a \<Longrightarrow> a = take lo a @ seg a lo n @ drop (lo + n) a"
  by (metis append_take_drop_id drop_drop seg_def add.commute)

lemma seg_split:
  "lo + (m + n) \<le> length a \<Longrightarrow> seg a lo (m + n) = seg a lo m @ seg a (lo + m) n"
  by (simp add: seg_def take_add drop_drop add.commute)

lemma nth_seg_set:
  assumes "lo + n \<le> length a"
  shows "x \<in> set (seg a lo n) \<longleftrightarrow> (\<exists>i. lo \<le> i \<and> i < lo + n \<and> x = a ! i)"
proof
  assume "x \<in> set (seg a lo n)"
  then obtain k where "k < n" "x = a ! (lo + k)"
    using assms by (auto simp: in_set_conv_nth seg_def)
  then show "\<exists>i. lo \<le> i \<and> i < lo + n \<and> x = a ! i" by (intro exI [of _ "lo + k"]) simp
next
  assume "\<exists>i. lo \<le> i \<and> i < lo + n \<and> x = a ! i"
  then obtain i where i: "lo \<le> i" "i < lo + n" "x = a ! i" by blast
  then have "seg a lo n ! (i - lo) = x" using assms by (simp add: seg_nth)
  moreover have "i - lo < length (seg a lo n)" using i assms by (simp add: seg_def)
  ultimately show "x \<in> set (seg a lo n)" by (metis nth_mem)
qed

text \<open>A list that agrees with another outside a window, up to the window's content.\<close>

lemma frame_window:
  assumes len: "length b = length a" and win: "lo + n \<le> length a"
    and out: "\<And>i. i < length a \<Longrightarrow> i < lo \<or> lo + n \<le> i \<Longrightarrow> b ! i = a ! i"
  shows "b = take lo a @ seg b lo n @ drop (lo + n) a"
proof -
  have "take lo b = take lo a"
    using len win by (intro nth_equalityI) (auto simp: out)
  moreover have "drop (lo + n) b = drop (lo + n) a"
    using len win by (intro nth_equalityI) (auto simp: out)
  ultimately show ?thesis
    using take_seg_drop [of lo n b] len win by simp
qed

lemma mset_window:
  assumes "length b = length a" "lo + n \<le> length a" "mset b = mset a"
    and "\<And>i. i < length a \<Longrightarrow> i < lo \<or> lo + n \<le> i \<Longrightarrow> b ! i = a ! i"
  shows "mset (seg b lo n) = mset (seg a lo n)"
proof -
  have "mset (take lo a @ seg b lo n @ drop (lo + n) a)
      = mset (take lo a @ seg a lo n @ drop (lo + n) a)"
    using frame_window [OF assms(1,2,4)] take_seg_drop [OF assms(2)] assms(3) by simp
  then show ?thesis by simp
qed

section \<open>Options\<close>

lemma bind_Some_iff:
  "Option.bind x f = Some y \<longleftrightarrow> (\<exists>z. x = Some z \<and> f z = Some y)"
  by (cases x) auto

section \<open>Integer division of C\<close>

text \<open>C99 truncates towards zero; the remainder has the sign of the dividend.\<close>

definition cdiv :: "int \<Rightarrow> int \<Rightarrow> int" where
  "cdiv a b = sgn a * sgn b * (\<bar>a\<bar> div \<bar>b\<bar>)"

definition crem :: "int \<Rightarrow> int \<Rightarrow> int" where
  "crem a b = a - b * cdiv a b"

lemma cdiv_nonneg: "0 \<le> a \<Longrightarrow> 0 < b \<Longrightarrow> cdiv a b = a div b"
  by (cases "a = 0") (simp_all add: cdiv_def)

lemma crem_nonneg: "0 \<le> a \<Longrightarrow> 0 < b \<Longrightarrow> crem a b = a mod b"
  by (simp add: crem_def cdiv_nonneg minus_mult_div_eq_mod)

text \<open>Conversion of a size to \<open>int\<close>, which keeps the low 32 bits.\<close>

definition to_int :: "nat \<Rightarrow> int" where
  "to_int n = signed_take_bit 31 (int n)"

lemma to_int_small: "n < 2 ^ 31 \<Longrightarrow> to_int n = int n"
  by (simp add: to_int_def signed_take_bit_int_eq_self)

section \<open>Counted loops\<close>

text \<open>\<open>for (i = lo; i < hi; i++) s = body i s\<close>\<close>

definition for_up :: "nat \<Rightarrow> nat \<Rightarrow> (nat \<Rightarrow> 's \<Rightarrow> 's) \<Rightarrow> 's \<Rightarrow> 's" where
  "for_up lo hi body s = fold body [lo..<hi] s"

lemma for_up_done [loop_simps]: "hi \<le> lo \<Longrightarrow> for_up lo hi body s = s"
  by (simp add: for_up_def)

lemma for_up_step [loop_simps]:
  "lo < hi \<Longrightarrow> for_up lo hi body s = for_up (Suc lo) hi body (body lo s)"
  by (simp add: for_up_def upt_conv_Cons)

lemma for_up_last [loop_simps]:
  "lo \<le> hi \<Longrightarrow> for_up lo (Suc hi) body s = body hi (for_up lo hi body s)"
  by (simp add: for_up_def)

lemma for_up_invariant:
  assumes "lo \<le> hi" "P lo s" "\<And>i s. lo \<le> i \<Longrightarrow> i < hi \<Longrightarrow> P i s \<Longrightarrow> P (Suc i) (body i s)"
  shows "P hi (for_up lo hi body s)"
proof -
  have "P k (for_up lo k body s)" if "lo \<le> k" "k \<le> hi" for k
    using that
  proof (induction k rule: dec_induct)
    case base
    then show ?case using assms(2) by (simp add: for_up_done)
  next
    case (step k)
    then show ?case using assms(3) by (simp add: for_up_last)
  qed
  then show ?thesis using assms(1) by simp
qed

text \<open>Loops whose body can fail.\<close>

fun foldM :: "('x \<Rightarrow> 's \<Rightarrow> 's option) \<Rightarrow> 'x list \<Rightarrow> 's \<Rightarrow> 's option" where
  "foldM body [] s = Some s"
| "foldM body (x # xs) s = do { s1 \<leftarrow> body x s; foldM body xs s1 }"

definition for_m :: "nat \<Rightarrow> nat \<Rightarrow> (nat \<Rightarrow> 's \<Rightarrow> 's option) \<Rightarrow> 's \<Rightarrow> 's option" where
  "for_m lo hi body s = foldM body [lo..<hi] s"

lemma foldM_append: "foldM body (xs @ ys) s = do { s1 \<leftarrow> foldM body xs s; foldM body ys s1 }"
  by (induction xs arbitrary: s) (auto split: bind_splits)

lemma for_m_done [loop_simps]: "hi \<le> lo \<Longrightarrow> for_m lo hi body s = Some s"
  by (simp add: for_m_def)

lemma for_m_step [loop_simps]: "lo < hi \<Longrightarrow> for_m lo hi body s = do { s1 \<leftarrow> body lo s; for_m (Suc lo) hi body s1 }"
  by (simp add: for_m_def upt_conv_Cons)

lemma for_m_last [loop_simps]: "lo \<le> hi \<Longrightarrow> for_m lo (Suc hi) body s = do { s1 \<leftarrow> for_m lo hi body s; body hi s1 }"
  by (simp add: for_m_def foldM_append split: bind_splits)

text \<open>A loop with an invariant that determines the state.\<close>

lemma for_m_follows:
  assumes "lo \<le> hi" "f lo = s" "\<And>i. lo \<le> i \<Longrightarrow> i < hi \<Longrightarrow> body i (f i) = Some (f (Suc i))"
  shows "for_m lo hi body s = Some (f hi)"
proof -
  have "for_m lo k body s = Some (f k)" if "lo \<le> k" "k \<le> hi" for k
    using that by (induction k rule: dec_induct) (simp_all add: for_m_done for_m_last assms(2,3))
  then show ?thesis using assms(1) by simp
qed

text \<open>The array after the first \<open>i\<close> entries from position \<open>p\<close> have been written.\<close>

definition written :: "'a list \<Rightarrow> nat \<Rightarrow> (nat \<Rightarrow> 'a) \<Rightarrow> nat \<Rightarrow> 'a list" where
  "written a p f n = blit a p (map f [0..<n])"

lemma written_0 [simp]: "written a p f 0 = a"
  by (simp add: written_def blit_def)

lemma length_written [simp]: "p + n \<le> length a \<Longrightarrow> length (written a p f n) = length a"
  by (simp add: written_def length_blit)

lemma written_nth:
  "p + n \<le> length a \<Longrightarrow> i < length a \<Longrightarrow> written a p f n ! i = (if p \<le> i \<and> i < p + n then f (i - p) else a ! i)"
  by (simp add: written_def blit_nth less_diff_conv2)

lemma written_Suc: "p + n < length a \<Longrightarrow> (written a p f n)[p + n := f n] = written a p f (Suc n)"
  by (rule nth_equalityI) (auto simp: written_nth nth_list_update less_Suc_eq)

lemma wr_written: "p + n < length a \<Longrightarrow> wr (written a p f n) (int (p + n)) (f n) = Some (written a p f (Suc n))"
  by (simp add: wr_nat written_Suc del: of_nat_add)

end
