(* ===== verification/Pqsort.thy ===== *)
theory Pqsort
  imports Prelude
begin

text \<open>
  The serial part of the parallel quicksort of
  \<open>src/CMU15-213/26-parallelism/pqsort/pqsort.c\<close>: pivot choice, the partitioning
  sweep, \<open>partition_serial\<close>, \<open>qsort_serial\<close>, the comparison function handed to the
  library's \<open>qsort\<close>, and the cut-over parameters set by \<open>init_task\<close>.

  The array is a list of 64-bit words (\<open>data_t\<close> is \<open>long unsigned\<close>); pointers into
  it are integers, so \<open>base + i\<close> is pointer arithmetic; every access is checked, and a
  function that would touch memory outside the array returns \<open>None\<close>.
\<close>

type_synonym data_t = "64 word"

section \<open>Definitions\<close>

definition pivot :: "int \<Rightarrow> int \<Rightarrow> int" where
  "pivot base nele = base + nele div 2"

definition swap :: "data_t list \<Rightarrow> int \<Rightarrow> int \<Rightarrow> data_t list option" where
  "swap a p1 p2 = do {
     x1 \<leftarrow> rd a p1;
     x2 \<leftarrow> rd a p2;
     a1 \<leftarrow> wr a p1 x2;
     wr a1 p2 x1 }"

definition dcomp :: "data_t \<Rightarrow> data_t \<Rightarrow> int" where
  "dcomp x1 x2 = (if \<not> x2 \<le> x1 then -1 else if x1 = x2 then 0 else 1)"

text \<open>The two inner loops of the sweep.\<close>

function sweep_left :: "data_t list \<Rightarrow> int \<Rightarrow> int \<Rightarrow> data_t \<Rightarrow> int option" where
  "sweep_left a left right pval =
     (if left \<le> right
      then do { x \<leftarrow> rd a left;
                if x \<le> pval then sweep_left a (left + 1) right pval else Some left }
      else Some left)"
  by pat_completeness auto
termination
  by (relation "measure (\<lambda>(a, left, right, pval). nat (right - left + 1))") auto

function sweep_right :: "data_t list \<Rightarrow> int \<Rightarrow> int \<Rightarrow> data_t \<Rightarrow> int option" where
  "sweep_right a left right pval =
     (if left \<le> right
      then do { x \<leftarrow> rd a right;
                if pval \<le> x then sweep_right a left (right - 1) pval else Some right }
      else Some right)"
  by pat_completeness auto
termination
  by (relation "measure (\<lambda>(a, left, right, pval). nat (right - left + 1))") auto

declare sweep_left.simps [simp del] sweep_right.simps [simp del]

text \<open>Bounds of the inner loops, needed for the termination of the outer one.\<close>

lemma sweep_left_bounds:
  "sweep_left a left right pval = Some k \<Longrightarrow> left \<le> k \<and> k \<le> max left (right + 1)"
proof (induction a left right pval rule: sweep_left.induct)
  case (1 a left right pval)
  show ?case
    using "1.IH" "1.prems"
    by (subst (asm) (2) sweep_left.simps) (fastforce simp: bind_Some_iff split: if_splits)
qed

lemma sweep_right_bounds:
  "sweep_right a left right pval = Some k \<Longrightarrow> k \<le> right \<and> min right (left - 1) \<le> k"
proof (induction a left right pval rule: sweep_right.induct)
  case (1 a left right pval)
  show ?case
    using "1.IH" "1.prems"
    by (subst (asm) (2) sweep_right.simps) (fastforce simp: bind_Some_iff split: if_splits)
qed

function partition_loop ::
  "data_t list \<Rightarrow> int \<Rightarrow> int \<Rightarrow> data_t \<Rightarrow> (int \<times> data_t list) option" where
  "partition_loop a left right pval = do {
     l \<leftarrow> sweep_left a left right pval;
     r \<leftarrow> sweep_right a l right pval;
     if l < r
     then do { a' \<leftarrow> swap a l r; partition_loop a' (l + 1) (r - 1) pval }
     else Some (l, a) }"
  by pat_completeness auto
termination
proof (relation "measure (\<lambda>(a, left, right, pval). nat (right - left + 1))", simp)
  fix a left right pval l r a'
  assume "sweep_left a left right pval = Some l" "sweep_right a l right pval = Some r" "l < r"
  then show "((a', l + 1, r - 1, pval), a, left, right, pval)
      \<in> measure (\<lambda>(a, left, right, pval). nat (right - left + 1))"
    using sweep_left_bounds sweep_right_bounds by fastforce
qed

declare partition_loop.simps [simp del]

definition partition_sweep ::
  "data_t list \<Rightarrow> int \<Rightarrow> int \<Rightarrow> data_t \<Rightarrow> (int \<times> data_t list) option" where
  "partition_sweep a base nele pval = do {
     (left, a') \<leftarrow> partition_loop a base (base + nele - 1) pval;
     Some (left - base, a') }"

definition partition_serial :: "data_t list \<Rightarrow> int \<Rightarrow> int \<Rightarrow> (int \<times> data_t list) option" where
  "partition_serial a base nele = do {
     let p = pivot base nele;
     pval \<leftarrow> rd a p;
     a1 \<leftarrow> swap a p (base + nele - 1);
     (pindex, a2) \<leftarrow> partition_sweep a1 base (nele - 1) pval;
     a3 \<leftarrow> swap a2 (base + pindex) (base + nele - 1);
     Some (pindex, a3) }"

lemma partition_loop_bounds:
  "partition_loop a left right pval = Some (k, b) \<Longrightarrow> left \<le> k \<and> k \<le> max left (right + 1)"
proof (induction a left right pval rule: partition_loop.induct)
  case (1 a left right pval)
  from "1.prems" obtain l r where
    l: "sweep_left a left right pval = Some l" and r: "sweep_right a l right pval = Some r"
    and res: "(if l < r then do { a' \<leftarrow> swap a l r; partition_loop a' (l + 1) (r - 1) pval }
               else Some (l, a)) = Some (k, b)"
    by (subst (asm) partition_loop.simps) (auto simp: bind_Some_iff)
  note bnds = sweep_left_bounds [OF l] sweep_right_bounds [OF r]
  show ?case
  proof (cases "l < r")
    case True
    with res obtain a' where "swap a l r = Some a'"
      and "partition_loop a' (l + 1) (r - 1) pval = Some (k, b)"
      by (auto simp: bind_Some_iff)
    with "1.IH" [OF l r True] bnds True show ?thesis by fastforce
  next
    case False
    with res bnds show ?thesis by simp
  qed
qed

lemma partition_serial_bounds:
  "partition_serial a base nele = Some (m, b) \<Longrightarrow> 0 < nele \<Longrightarrow> 0 \<le> m \<and> m < nele"
  by (auto simp: partition_serial_def partition_sweep_def Let_def bind_Some_iff split: prod.splits
      dest!: partition_loop_bounds)

function qsort_serial :: "data_t list \<Rightarrow> int \<Rightarrow> int \<Rightarrow> data_t list option" where
  "qsort_serial a base nele =
     (if nele \<le> 1 then Some a
      else if nele = 2 then do {
        x0 \<leftarrow> rd a base;
        x1 \<leftarrow> rd a (base + 1);
        if x1 < x0 then swap a base (base + 1) else Some a }
      else do {
        (m, a1) \<leftarrow> partition_serial a base nele;
        a2 \<leftarrow> (if 1 < m then qsort_serial a1 base m else Some a1);
        if m + 1 < nele - 1 then qsort_serial a2 (base + m + 1) (nele - m - 1) else Some a2 })"
  by pat_completeness auto
termination
  by (relation "measure (\<lambda>(a, base, nele). nat nele)")
    (auto dest: partition_serial_bounds)

declare qsort_serial.simps [simp del]

section \<open>The partitioning sweep\<close>

lemma swap_in:
  assumes "0 \<le> i" "i < int (length a)" "0 \<le> j" "j < int (length a)"
  shows "swap a i j = Some (a[nat i := a ! nat j, nat j := a ! nat i])"
  using assms by (simp add: swap_def mem_simps)

lemma sweep_left_spec:
  assumes "0 \<le> left" "left \<le> right + 1" "right < int (length a)"
  obtains k where "sweep_left a left right pval = Some k" "left \<le> k" "k \<le> right + 1"
    "\<And>i. left \<le> i \<Longrightarrow> i < k \<Longrightarrow> a ! nat i \<le> pval" "k \<le> right \<Longrightarrow> pval < a ! nat k"
proof -
  have "\<exists>k. sweep_left a left right pval = Some k \<and> left \<le> k \<and> k \<le> right + 1
      \<and> (\<forall>i. left \<le> i \<longrightarrow> i < k \<longrightarrow> a ! nat i \<le> pval) \<and> (k \<le> right \<longrightarrow> pval < a ! nat k)"
    using assms
  proof (induction a left right pval rule: sweep_left.induct)
    case (1 a left right pval)
    show ?case
    proof (cases "left \<le> right \<and> a ! nat left \<le> pval")
      case True
      then have r: "rd a left = Some (a ! nat left)" using "1.prems" by (simp add: mem_simps)
      obtain k where "sweep_left a (left + 1) right pval = Some k" "left + 1 \<le> k" "k \<le> right + 1"
        "\<forall>i. left + 1 \<le> i \<longrightarrow> i < k \<longrightarrow> a ! nat i \<le> pval" "k \<le> right \<longrightarrow> pval < a ! nat k"
        using "1.IH" [OF _ r] True "1.prems" by auto
      moreover have "a ! nat i \<le> pval" if "left \<le> i" "i < k" for i
        using True that calculation(4) by (cases "i = left") auto
      ultimately show ?thesis using True r by (subst sweep_left.simps) auto
    next
      case False
      then show ?thesis using "1.prems" by (subst sweep_left.simps) (auto simp: mem_simps)
    qed
  qed
  then show ?thesis using that by blast
qed

lemma sweep_right_spec:
  assumes "0 \<le> left" "left \<le> right + 1" "right < int (length a)"
  obtains k where "sweep_right a left right pval = Some k" "left - 1 \<le> k" "k \<le> right"
    "\<And>i. k < i \<Longrightarrow> i \<le> right \<Longrightarrow> pval \<le> a ! nat i" "left \<le> k \<Longrightarrow> a ! nat k < pval"
proof -
  have "\<exists>k. sweep_right a left right pval = Some k \<and> left - 1 \<le> k \<and> k \<le> right
      \<and> (\<forall>i. k < i \<longrightarrow> i \<le> right \<longrightarrow> pval \<le> a ! nat i) \<and> (left \<le> k \<longrightarrow> a ! nat k < pval)"
    using assms
  proof (induction a left right pval rule: sweep_right.induct)
    case (1 a left right pval)
    show ?case
    proof (cases "left \<le> right \<and> pval \<le> a ! nat right")
      case True
      then have r: "rd a right = Some (a ! nat right)" using "1.prems" by (simp add: mem_simps)
      obtain k where "sweep_right a left (right - 1) pval = Some k" "left - 1 \<le> k" "k \<le> right - 1"
        "\<forall>i. k < i \<longrightarrow> i \<le> right - 1 \<longrightarrow> pval \<le> a ! nat i" "left \<le> k \<longrightarrow> a ! nat k < pval"
        using "1.IH" [OF _ r] True "1.prems" by auto
      moreover have "pval \<le> a ! nat i" if "k < i" "i \<le> right" for i
        using True that calculation(4) by (cases "i = right") auto
      ultimately show ?thesis using True r by (subst sweep_right.simps) auto
    next
      case False
      then show ?thesis using "1.prems" by (subst sweep_right.simps) (auto simp: mem_simps)
    qed
  qed
  then show ?thesis using that by blast
qed

text \<open>
  What the sweep establishes on the indices from \<open>left\<close> to \<open>right\<close>: memory safety, a
  permutation of the window, and the split at the returned index.
\<close>

definition sweep_post ::
  "data_t list \<Rightarrow> int \<Rightarrow> int \<Rightarrow> data_t \<Rightarrow> int \<Rightarrow> data_t list \<Rightarrow> bool" where
  "sweep_post a left right pval k b \<longleftrightarrow>
     left \<le> k \<and> k \<le> right + 1 \<and> length b = length a \<and> mset b = mset a
     \<and> (\<forall>i. left \<le> i \<longrightarrow> i < k \<longrightarrow> b ! nat i \<le> pval)
     \<and> (\<forall>i. k \<le> i \<longrightarrow> i \<le> right \<longrightarrow> pval \<le> b ! nat i)
     \<and> (\<forall>i. 0 \<le> i \<longrightarrow> i < left \<or> right < i \<longrightarrow> b ! nat i = a ! nat i)"

lemma sweep_post_extend:
  assumes post: "sweep_post a' (l + 1) (r - 1) pval k b"
    and b0: "0 \<le> left" "left \<le> l" "l < r" "r \<le> right" "right < int (length a)"
    and a': "a' = a[nat l := a ! nat r, nat r := a ! nat l]"
    and lo: "\<And>i. left \<le> i \<Longrightarrow> i < l \<Longrightarrow> a ! nat i \<le> pval" and hi: "\<And>i. r < i \<Longrightarrow> i \<le> right \<Longrightarrow> pval \<le> a ! nat i"
    and ends: "pval \<le> a ! nat l" "a ! nat r \<le> pval"
  shows "sweep_post a left right pval k b"
proof -
  have out: "b ! nat i = a' ! nat i" if "0 \<le> i" "i \<le> l \<or> r \<le> i" for i
    using post that by (auto simp: sweep_post_def)
  have a'_other: "a' ! nat i = a ! nat i" if "0 \<le> i" "i \<noteq> l" "i \<noteq> r" for i
    using that b0 by (auto simp: a' nth_list_update)
  have al: "a' ! nat l = a ! nat r" and ar: "a' ! nat r = a ! nat l"
    using b0 by (auto simp: a' nth_list_update)
  have "b ! nat i \<le> pval" if "left \<le> i" "i < k" for i
  proof (cases "i \<le> l")
    case True
    then show ?thesis using out [of i] a'_other [of i] al lo [of i] ends that b0 by (cases "i = l") auto
  next
    case False
    then show ?thesis using post that by (auto simp: sweep_post_def)
  qed
  moreover have "pval \<le> b ! nat i" if "k \<le> i" "i \<le> right" for i
  proof (cases "r \<le> i")
    case True
    then show ?thesis using out [of i] a'_other [of i] ar hi [of i] ends that b0 by (cases "i = r") auto
  next
    case False
    then show ?thesis using post that by (auto simp: sweep_post_def)
  qed
  moreover have "b ! nat i = a ! nat i" if "0 \<le> i" "i < left \<or> right < i" for i
    using out [of i] a'_other [of i] that b0 by auto
  moreover have "mset b = mset a" "length b = length a"
    using post b0 mset_swap_update [of "nat l" a "nat r"] by (auto simp: sweep_post_def a')
  ultimately show ?thesis using post b0 by (auto simp: sweep_post_def)
qed

lemma partition_loop_spec:
  "0 \<le> left \<Longrightarrow> left \<le> right + 1 \<Longrightarrow> right < int (length a) \<Longrightarrow>
   \<exists>k b. partition_loop a left right pval = Some (k, b) \<and> sweep_post a left right pval k b"
proof (induction a left right pval rule: partition_loop.induct)
  case (1 a left right pval)
  obtain l where l: "sweep_left a left right pval = Some l" "left \<le> l" "l \<le> right + 1"
    "\<And>i. left \<le> i \<Longrightarrow> i < l \<Longrightarrow> a ! nat i \<le> pval" "l \<le> right \<Longrightarrow> pval < a ! nat l"
    using sweep_left_spec "1.prems" by blast
  obtain r where r: "sweep_right a l right pval = Some r" "l - 1 \<le> r" "r \<le> right"
    "\<And>i. r < i \<Longrightarrow> i \<le> right \<Longrightarrow> pval \<le> a ! nat i" "l \<le> r \<Longrightarrow> a ! nat r < pval"
    by (rule sweep_right_spec [OF _ l(3) "1.prems"(3)]) (use l(2) "1.prems"(1) in auto)
  show ?case
  proof (cases "l < r")
    case True
    define a' where "a' = a[nat l := a ! nat r, nat r := a ! nat l]"
    have sw: "swap a l r = Some a'"
      using swap_in [of l a r] True l(2) r(3) "1.prems" by (simp add: a'_def)
    have "length a' = length a" by (simp add: a'_def)
    then obtain k b where kb: "partition_loop a' (l + 1) (r - 1) pval = Some (k, b)"
      "sweep_post a' (l + 1) (r - 1) pval k b"
      using "1.IH" [OF l(1) r(1) True sw] True l(2) r(3) "1.prems" by auto
    have "sweep_post a left right pval k b"
      by (rule sweep_post_extend [OF kb(2)]) (use True l r "1.prems" in \<open>auto simp: a'_def\<close>)
    then show ?thesis
      using kb l(1) r(1) sw True by (subst partition_loop.simps) auto
  next
    case False
    have "l = r + 1" using False l(5) r(2,3,5) by (cases "l = r") auto
    then have "sweep_post a left right pval l a"
      using l r by (auto simp: sweep_post_def)
    then show ?thesis
      using l(1) r(1) False by (subst partition_loop.simps) auto
  qed
qed

text \<open>On a list split at the window, the sweep permutes the window and splits it.\<close>

lemma partition_sweep_split:
  fixes pval :: data_t
  obtains m1 m2 where
    "partition_sweep (xs @ m @ ys) (int (length xs)) (int (length m)) pval
       = Some (int (length m1), xs @ m1 @ m2 @ ys)"
    "mset (m1 @ m2) = mset m" "\<forall>x \<in> set m1. x \<le> pval" "\<forall>x \<in> set m2. pval \<le> x"
proof -
  let ?a = "xs @ m @ ys" and ?lo = "int (length xs)" and ?hi = "int (length xs) + int (length m) - 1"
  obtain k b where kb: "partition_loop ?a ?lo ?hi pval = Some (k, b)"
    and post: "sweep_post ?a ?lo ?hi pval k b"
    using partition_loop_spec [of ?lo ?hi ?a pval] by auto
  define n where "n = nat (k - ?lo)"
  have n: "n \<le> length m" "k = ?lo + int n"
    using post by (auto simp: n_def sweep_post_def)
  have win: "length b = length ?a" "mset b = mset ?a"
    "\<And>i. i < length ?a \<Longrightarrow> i < length xs \<or> length xs + length m \<le> i \<Longrightarrow> b ! i = ?a ! i"
    using post by (auto simp: sweep_post_def dest!: spec [of _ "int _"])
  define w where "w = seg b (length xs) (length m)"
  have b: "b = xs @ w @ ys"
    using frame_window [OF win(1), of "length xs" "length m"] win(3) by (simp add: w_def)
  have len: "length w = length m" using win(1) by (simp add: w_def seg_def)
  have "mset w = mset m"
    using win(2) by (simp add: b)
  moreover have "\<forall>x \<in> set (take n w). x \<le> pval"
  proof
    fix x assume "x \<in> set (take n w)"
    then obtain i where i: "i < n" "x = w ! i" using n len by (auto simp: in_set_conv_nth)
    then have "b ! nat (?lo + int i) \<le> pval" using post n by (auto simp: sweep_post_def)
    then show "x \<le> pval" using i n len by (simp add: b nat_add_distrib nth_append)
  qed
  moreover have "\<forall>x \<in> set (drop n w). pval \<le> x"
  proof
    fix x assume "x \<in> set (drop n w)"
    then obtain i where i: "i < length m - n" "x = w ! (n + i)" using n len by (auto simp: in_set_conv_nth)
    then have "pval \<le> b ! nat (?lo + int (n + i))" using post n by (auto simp: sweep_post_def)
    moreover have "n + i < length m" using i by simp
    ultimately show "pval \<le> x" using i n len by (simp add: b nat_add_distrib nth_append)
  qed
  moreover have "partition_sweep ?a ?lo (int (length m)) pval = Some (int (length (take n w)), xs @ take n w @ drop n w @ ys)"
    using kb n len by (simp add: partition_sweep_def b min_absorb2 flip: append_assoc)
  ultimately show ?thesis using that [of "take n w" "drop n w"] by simp
qed

lemma partition_sweep_block:
  fixes pval :: data_t
  assumes win: "lo + n \<le> length a"
  obtains nl b where "partition_sweep a (int lo) (int n) pval = Some (int nl, b)" "nl \<le> n"
    "length b = length a" "mset (seg b lo n) = mset (seg a lo n)"
    "\<And>k. k < nl \<Longrightarrow> b ! (lo + k) \<le> pval" "\<And>k. nl \<le> k \<Longrightarrow> k < n \<Longrightarrow> pval \<le> b ! (lo + k)"
    "\<And>i. i < lo \<or> lo + n \<le> i \<Longrightarrow> b ! i = a ! i"
proof -
  define xs m ys where "xs = take lo a" and "m = seg a lo n" and "ys = drop (lo + n) a"
  have a: "a = xs @ m @ ys" unfolding xs_def m_def ys_def using win by (rule take_seg_drop)
  have lx: "length xs = lo" "length m = n" using win by (auto simp: xs_def m_def length_seg)
  obtain m1 m2 where sweep: "partition_sweep a (int lo) (int n) pval = Some (int (length m1), xs @ (m1 @ m2) @ ys)"
    and ms: "mset (m1 @ m2) = mset m" "\<forall>x \<in> set m1. x \<le> pval" "\<forall>x \<in> set m2. pval \<le> x"
    using partition_sweep_split [of xs m ys pval] by (auto simp: a [symmetric] lx [symmetric])
  have lm: "length (m1 @ m2) = n" using mset_eq_length [OF ms(1)] lx by simp
  let ?b = "xs @ (m1 @ m2) @ ys"
  have cell: "?b ! (lo + k) = (m1 @ m2) ! k" if "k < n" for k
    using that lm lx by (auto simp: nth_append)
  show ?thesis
  proof (rule that [OF sweep])
    show "length m1 \<le> n" "length ?b = length a" using lm lx a by auto
    show "mset (seg ?b lo n) = mset (seg a lo n)"
      using seg_append_mid [of xs lo "m1 @ m2" n ys] lx lm ms(1) by (simp add: m_def)
    show "?b ! (lo + k) \<le> pval" if "k < length m1" for k
      using cell [of k] that lm ms(2) by (simp add: nth_append)
    show "pval \<le> ?b ! (lo + k)" if "length m1 \<le> k" "k < n" for k
      using cell [of k] that lm ms(3) by (simp add: nth_append)
    show "?b ! i = a ! i" if "i < lo \<or> lo + n \<le> i" for i
      using that lm lx by (subst a) (auto simp: nth_append add.assoc)
  qed
qed

section \<open>Serial partition and quicksort\<close>

lemma swap_window:
  assumes "i < length m" "j < length m"
  shows "swap (xs @ m @ ys) (int (length xs + i)) (int (length xs + j))
       = Some (xs @ m[i := m ! j, j := m ! i] @ ys)"
  using assms swap_in [of "int (length xs + i)" "xs @ m @ ys" "int (length xs + j)"]
  by (simp add: nth_append list_update_append del: of_nat_add)

lemma update_last: "m \<noteq> [] \<Longrightarrow> m[length m - 1 := x] = butlast m @ [x]"
  by (metis append_butlast_last_id length_butlast list_update_length)

text \<open>Swapping the first element of the right part with the pivot behind it.\<close>

lemma swap_pivot_back:
  obtains m2' where "swap (xs @ m1 @ m2 @ p # ys) (int (length xs + length m1))
      (int (length xs + length m1 + length m2)) = Some (xs @ m1 @ p # m2' @ ys)"
    "mset m2' = mset m2"
proof -
  have sw: "swap (xs @ m1 @ m2 @ p # ys) (int (length xs + length m1))
      (int (length xs + length m1 + length m2))
      = Some (xs @ m1 @ (m2 @ [p])[0 := p, length m2 := (m2 @ [p]) ! 0] @ ys)"
    using swap_window [of 0 "m2 @ [p]" "length m2" "xs @ m1" ys] by simp
  show ?thesis
  proof (cases m2)
    case Nil
    then show ?thesis using that [of "[]"] sw by simp
  next
    case (Cons y zs)
    then show ?thesis using that [of "zs @ [y]"] sw by (simp add: list_update_append)
  qed
qed

lemma pivot_to_end:
  assumes "m \<noteq> []"
  obtains u p where "rd (xs @ m @ ys) (pivot (int (length xs)) (int (length m))) = Some p"
    "swap (xs @ m @ ys) (pivot (int (length xs)) (int (length m))) (int (length xs) + int (length m) - 1)
       = Some (xs @ u @ p # ys)"
    "mset (u @ [p]) = mset m" "length u + 1 = length m"
proof -
  let ?a = "xs @ m @ ys" and ?n = "length m"
  have n: "?n div 2 < ?n" "0 < ?n" using assms by auto
  define p where "p = m ! (?n div 2)"
  define m' where "m' = m[?n div 2 := m ! (?n - 1), ?n - 1 := p]"
  define u where "u = butlast m'"
  have m'_eq: "m' = u @ [p]"
    using n update_last [of "m[?n div 2 := m ! (?n - 1)]" p] by (auto simp: m'_def u_def)
  have "mset m' = mset m"
    using mset_swap_update [of "?n div 2" m "?n - 1"] n by (simp add: m'_def p_def)
  then have perm: "mset (u @ [p]) = mset m" by (simp only: m'_eq)
  have pv: "pivot (int (length xs)) (int ?n) = int (length xs + ?n div 2)"
    by (simp add: pivot_def zdiv_int)
  have "rd ?a (int (length xs + ?n div 2)) = Some p"
    using n by (simp only: rd_window p_def)
  moreover have lst: "int (length xs) + int ?n - 1 = int (length xs + (?n - 1))" using n(2) by linarith
  have "swap ?a (int (length xs + ?n div 2)) (int (length xs + (?n - 1))) = Some (xs @ m' @ ys)"
    using swap_window [of "?n div 2" m "?n - 1" xs ys] n(1) diff_less [OF zero_less_one n(2)]
    by (simp only: m'_def p_def)
  then have "swap ?a (int (length xs + ?n div 2)) (int (length xs + (?n - 1))) = Some (xs @ u @ p # ys)"
    by (simp add: m'_eq)
  ultimately show ?thesis
    using that [of p u] perm mset_eq_length [OF perm] by (simp only: pv lst length_append_singleton Suc_eq_plus1)
qed

lemma partition_serial_split:
  assumes "m \<noteq> []"
  obtains m1 m2 p where
    "partition_serial (xs @ m @ ys) (int (length xs)) (int (length m))
       = Some (int (length m1), xs @ m1 @ p # m2 @ ys)"
    "mset (m1 @ p # m2) = mset m" "\<forall>x \<in> set m1. x \<le> p" "\<forall>x \<in> set m2. p \<le> x"
proof -
  let ?a = "xs @ m @ ys" and ?n = "length m"
  obtain u p where up: "rd ?a (pivot (int (length xs)) (int ?n)) = Some p"
    "swap ?a (pivot (int (length xs)) (int ?n)) (int (length xs) + int ?n - 1) = Some (xs @ u @ p # ys)"
    "mset (u @ [p]) = mset m" "length u + 1 = ?n"
    using pivot_to_end [OF assms] .
  obtain m1 m2 where sp: "partition_sweep (xs @ u @ p # ys) (int (length xs)) (int (length u)) p
       = Some (int (length m1), xs @ m1 @ m2 @ p # ys)"
    "mset (m1 @ m2) = mset u" "\<forall>x \<in> set m1. x \<le> p" "\<forall>x \<in> set m2. p \<le> x"
    using partition_sweep_split [of xs u "p # ys" p] by blast
  obtain m2' where bk: "swap (xs @ m1 @ m2 @ p # ys) (int (length xs + length m1))
      (int (length xs + length m1 + length m2)) = Some (xs @ m1 @ p # m2' @ ys)" "mset m2' = mset m2"
    by (rule swap_pivot_back)
  have "length u = length m1 + length m2" using sp(2) by (metis length_append mset_eq_length)
  then have e: "int ?n - 1 = int (length u)"
    "int (length xs + length m1 + length m2) = int (length xs) + int ?n - 1"
    "int (length xs + length m1) = int (length xs) + int (length m1)"
    using up(4) by auto
  have "partition_serial ?a (int (length xs)) (int ?n) = Some (int (length m1), xs @ m1 @ p # m2' @ ys)"
    using sp(1) bk(1) up(1,2) unfolding e(2,3) by (simp add: partition_serial_def e(1))
  moreover have "mset (m1 @ p # m2') = mset m" using up(3) sp(2) bk(2) by simp
  moreover have "\<forall>x \<in> set m2'. p \<le> x" using sp(4) mset_eq_setD [OF bk(2)] by simp
  ultimately show ?thesis using that sp(3) by blast
qed

lemma sort_partition:
  fixes p :: "'a :: linorder"
  assumes "mset (m1 @ p # m2) = mset m" "\<forall>x \<in> set m1. x \<le> p" "\<forall>x \<in> set m2. p \<le> x"
  shows "sort m1 @ p # sort m2 = sort m"
proof (rule properties_for_sort [symmetric])
  show "mset (sort m1 @ p # sort m2) = mset m" using assms(1) by simp
  show "sorted (sort m1 @ p # sort m2)"
    using assms(2,3) by (fastforce simp: sorted_append)
qed

lemma sort_short: "length m \<le> 1 \<Longrightarrow> sort m = m"
  by (cases m) auto

lemma qsort_serial_window:
  "qsort_serial (xs @ m @ ys) (int (length xs)) (int (length m)) = Some (xs @ sort m @ ys)"
proof (induction "length m" arbitrary: xs m ys rule: less_induct)
  case less
  consider "length m \<le> 1" | "length m = 2" | "2 < length m" by linarith
  then show ?case
  proof cases
    case 1
    then show ?thesis by (subst qsort_serial.simps) (simp add: sort_short)
  next
    case 2
    then obtain x y where m: "m = [x, y]"
      by (metis (no_types, opaque_lifting) One_nat_def length_0_conv length_Suc_conv numeral_2_eq_2)
    have "rd (xs @ m @ ys) (int (length xs)) = Some x" "rd (xs @ m @ ys) (int (length xs) + 1) = Some y"
      using rd_window [of 0 m xs ys] rd_window [of 1 m xs ys] by (simp_all add: m add.commute)
    then show ?thesis
      using swap_window [of 0 m 1 xs ys] by (subst qsort_serial.simps) (auto simp: m add.commute)
  next
    case 3
    obtain m1 m2 p where part:
      "partition_serial (xs @ m @ ys) (int (length xs)) (int (length m))
         = Some (int (length m1), xs @ m1 @ p # m2 @ ys)"
      and split: "mset (m1 @ p # m2) = mset m" "\<forall>x \<in> set m1. x \<le> p" "\<forall>x \<in> set m2. p \<le> x"
      by (rule partition_serial_split [of m xs ys]) (use 3 in auto)
    have len: "length m = length m1 + length m2 + 1" using mset_eq_length [OF split(1)] by simp
    have left: "(if 1 < int (length m1) then qsort_serial (xs @ m1 @ p # m2 @ ys) (int (length xs)) (int (length m1))
        else Some (xs @ m1 @ p # m2 @ ys)) = Some (xs @ sort m1 @ p # m2 @ ys)"
      using less.hyps [of m1 xs "p # m2 @ ys"] len by (auto simp: sort_short)
    have right: "(if 1 < int (length m2)
        then qsort_serial (xs @ sort m1 @ p # m2 @ ys) (int (Suc (length xs + length m1))) (int (length m2))
        else Some (xs @ sort m1 @ p # m2 @ ys)) = Some (xs @ (sort m1 @ p # sort m2) @ ys)"
      using less.hyps [of m2 "xs @ sort m1 @ [p]" ys] len by (auto simp: sort_short)
    have sizes: "int (length m) - int (length m1) - 1 = int (length m2)"
      "2 + int (length m1) < int (length m) \<longleftrightarrow> 1 < int (length m2)"
      "int (length xs) + int (length m1) + 1 = int (Suc (length xs + length m1))"
      using len by auto
    show ?thesis
      using 3 part left right sort_partition [OF split]
      by (subst qsort_serial.simps) (auto simp: sizes simp del: of_nat_add of_nat_Suc split: if_splits)
  qed
qed

text \<open>The library's \<open>qsort\<close> is specified by the order of \<open>dcomp\<close>.\<close>

lemma dcomp_order:
  "dcomp x y < 0 \<longleftrightarrow> x < y" "dcomp x y = 0 \<longleftrightarrow> x = y" "0 < dcomp x y \<longleftrightarrow> y < x"
  by (auto simp: dcomp_def)

text \<open>The slices of a partitioned window.\<close>

lemma split_at_pivot:
  assumes "length xs = lo" "n = length m1 + length m2 + 1"
  shows "seg (xs @ m1 @ p # m2 @ ys) lo n = m1 @ p # m2"
    "seg (xs @ m1 @ p # m2 @ ys) lo (length m1) = m1"
    "seg (xs @ m1 @ p # m2 @ ys) (lo + length m1 + 1) (n - length m1 - 1) = m2"
    "(xs @ m1 @ p # m2 @ ys) ! (lo + length m1) = p"
  using assms by (simp_all add: seg_def nth_append)

section \<open>Properties\<close>

text \<open>
  C7 (qsort_serial). On every range inside the array, \<open>qsort_serial\<close> terminates without an
  access outside the array, leaves the elements outside the range as they were and the
  elements of the range sorted.
\<close>

theorem qsort_serial_sorts:
  assumes "base + nele \<le> length a"
  shows "\<exists>b. qsort_serial a (int base) (int nele) = Some b \<and> length b = length a
    \<and> sorted (seg b base nele) \<and> mset (seg b base nele) = mset (seg a base nele)
    \<and> take base b = take base a \<and> drop (base + nele) b = drop (base + nele) a"
proof -
  let ?m = "seg a base nele"
  have len: "length ?m = nele" "length (take base a) = base" using assms by (simp_all add: mem_simps)
  have "qsort_serial (take base a @ ?m @ drop (base + nele) a) (int (length (take base a))) (int (length ?m))
      = Some (take base a @ sort ?m @ drop (base + nele) a)"
    by (rule qsort_serial_window)
  then show ?thesis
    unfolding len take_seg_drop [OF assms, symmetric] using assms len
    by (intro exI [of _ "take base a @ sort ?m @ drop (base + nele) a"]) (simp add: mem_simps)
qed

theorem qsort_serial_sorts_witness:
  "1 + 5 \<le> length [9, 5, 3, 7, 1, 3, 0 :: data_t] \<and>
   (\<exists>b. qsort_serial [9, 5, 3, 7, 1, 3, 0] (int 1) (int 5) = Some b \<and> sorted (seg b 1 5))"
  using qsort_serial_sorts [of 1 5 "[9, 5, 3, 7, 1, 3, 0]"] by auto

text \<open>
  C8 (partition_serial). On every non-empty range, \<open>partition_serial\<close> permutes the range and
  returns the offset of a pivot with no larger element on its left and no smaller one on
  its right; elements outside the range keep their values.
\<close>

theorem partition_serial_partitions:
  assumes "base + nele \<le> length a" "0 < nele"
  shows "\<exists>k b. partition_serial a (int base) (int nele) = Some (int k, b) \<and> k < nele
    \<and> length b = length a \<and> mset (seg b base nele) = mset (seg a base nele)
    \<and> (\<forall>x \<in> set (seg b base k). x \<le> b ! (base + k))
    \<and> (\<forall>x \<in> set (seg b (base + k + 1) (nele - k - 1)). b ! (base + k) \<le> x)
    \<and> take base b = take base a \<and> drop (base + nele) b = drop (base + nele) a"
proof -
  let ?m = "seg a base nele" and ?xs = "take base a" and ?ys = "drop (base + nele) a"
  have len: "length ?m = nele" "length ?xs = base" and ne: "?m \<noteq> []"
    using assms by (auto simp: mem_simps seg_def)
  obtain m1 m2 p where
    part: "partition_serial (?xs @ ?m @ ?ys) (int (length ?xs)) (int (length ?m))
       = Some (int (length m1), ?xs @ m1 @ p # m2 @ ?ys)"
    and split: "mset (m1 @ p # m2) = mset ?m" "\<forall>x \<in> set m1. x \<le> p" "\<forall>x \<in> set m2. p \<le> x"
    by (rule partition_serial_split [OF ne])
  have lm: "nele = length m1 + length m2 + 1" using mset_eq_length [OF split(1)] len by simp
  note pivot_window = split_at_pivot [OF len(2) lm, of p ?ys]
  show ?thesis
    using part split pivot_window lm len assms(1) unfolding take_seg_drop [OF assms(1), symmetric] len
    by (intro exI [of _ "length m1"] exI [of _ "?xs @ m1 @ p # m2 @ ?ys"]) simp
qed

theorem partition_serial_partitions_witness:
  "0 + 4 \<le> length [4, 2, 8, 3 :: data_t] \<and> (0 :: nat) < 4 \<and>
   (\<exists>k b. partition_serial [4, 2, 8, 3] (int 0) (int 4) = Some (int k, b) \<and> k < 4)"
  using partition_serial_partitions [of 0 4 "[4, 2, 8, 3]"] by auto

text \<open>
  Dcomp. The comparison function handed to the library sort decides the order of the
  data for all values, also where a difference of the two values would wrap around.
\<close>

theorem dcomp_decides:
  "(dcomp x y < 0 \<longleftrightarrow> x < y) \<and> (dcomp x y = 0 \<longleftrightarrow> x = y) \<and> (0 < dcomp x y \<longleftrightarrow> y < x)
   \<and> dcomp y x = - dcomp x y"
  by (auto simp: dcomp_def)

end
