(* ===== verification/Scheduling.thy ===== *)
theory Scheduling
  imports Prelude
begin

text \<open>
  Threads under an arbitrary scheduler.  A concurrent program is a function that performs
  the next atomic action of thread \<open>t\<close> on the shared state (a finished thread does
  nothing, \<open>None\<close> is a memory error); a schedule is the list of the thread numbers that
  run, one action each.  The locale \<open>scheduled\<close> is the interface the component theories
  use: an invariant kept by every action and, for every thread, the number of actions it
  still has to do.  \<open>join_all\<close> is the wait of the creating thread for all its threads.
\<close>

fun run_sched :: "(nat \<Rightarrow> 's \<Rightarrow> 's option) \<Rightarrow> nat list \<Rightarrow> 's \<Rightarrow> 's option" where
  "run_sched step [] s = Some s"
| "run_sched step (t # ts) s = do { s' \<leftarrow> step t s; run_sched step ts s' }"

text \<open>After an arbitrary schedule, the joining thread waits for the threads in order.\<close>

definition join_all :: "nat \<Rightarrow> nat \<Rightarrow> nat list" where
  "join_all n k = concat (map (replicate k) [0..<n])"

lemma run_sched_append:
  "run_sched step (xs @ ys) s = do { s' \<leftarrow> run_sched step xs s; run_sched step ys s' }"
proof (induction xs arbitrary: s)
  case (Cons x xs)
  then show ?case by (cases "step x s") auto
qed simp

lemma count_join_all: "t < n \<Longrightarrow> count_list (join_all n k) t = k"
proof (induction n)
  case (Suc n)
  have *: "count_list (join_all n k) n = 0"
    by (auto simp: join_all_def)
  have "count_list (replicate k n) t = (if t = n then k else 0)"
    by (induction k) auto
  with Suc * show ?case by (auto simp: join_all_def less_Suc_eq)
qed simp

locale scheduled =
  fixes step :: "nat \<Rightarrow> 's \<Rightarrow> 's option"
    and inv :: "'s \<Rightarrow> bool"
    and work :: "nat \<Rightarrow> 's \<Rightarrow> nat"
  assumes step_ok: "inv s \<Longrightarrow> \<exists>s'. step t s = Some s' \<and> inv s'"
    and step_work: "inv s \<Longrightarrow> step t s = Some s' \<Longrightarrow> work t s' = work t s - 1"
    and step_other: "inv s \<Longrightarrow> step t s = Some s' \<Longrightarrow> u \<noteq> t \<Longrightarrow> work u s' = work u s"
begin

text \<open>Under every schedule: no memory error, the invariant, and the remaining work.\<close>

lemma run_total:
  assumes "inv s"
  shows "\<exists>s'. run_sched step ts s = Some s' \<and> inv s'
    \<and> (\<forall>t. work t s' = work t s - count_list ts t)"
  using assms
proof (induction ts arbitrary: s)
  case Nil
  then show ?case by simp
next
  case (Cons u ts)
  from step_ok [OF Cons.prems] obtain s1 where s1: "step u s = Some s1" "inv s1" by blast
  from Cons.IH [OF s1(2)] obtain s' where s': "run_sched step ts s1 = Some s'" "inv s'"
    "\<forall>t. work t s' = work t s1 - count_list ts t" by blast
  have "work t s1 = work t s - (if t = u then 1 else 0)" for t
    using step_work [OF Cons.prems s1(1)] step_other [OF Cons.prems s1(1)] by auto
  then show ?case using s1 s' by auto
qed

lemma join_finishes:
  assumes "inv s" "\<And>t. t < n \<Longrightarrow> work t s \<le> k"
  obtains s' where "run_sched step (ts @ join_all n k) s = Some s'" "inv s'"
    "\<And>t. t < n \<Longrightarrow> work t s' = 0"
proof -
  obtain s' where s': "run_sched step (ts @ join_all n k) s = Some s'" "inv s'"
    "\<forall>t. work t s' = work t s - count_list (ts @ join_all n k) t"
    using run_total [OF assms(1)] by blast
  moreover have "work t s' = 0" if "t < n" for t
    using s'(3) that assms(2) [OF that] by (simp add: count_join_all trans_le_add2)
  ultimately show ?thesis using that by blast
qed

end

end
