(* ===== verification/Pqsort_Par.thy ===== *)
theory Pqsort_Par
  imports Pqsort Scheduling
begin

text \<open>
  The block decomposition of \<open>pqsort.c\<close> and the parallel block copy \<open>dcopy_parallel\<close> with its
  \<open>copy_thread\<close>s, run under an arbitrary schedule.  \<open>size_t\<close> values are naturals; the
  conversions to \<open>int\<close> that the C code makes (\<open>int nblock\<close>, \<open>int npb\<close>) are written out as
  \<open>to_int\<close>.
\<close>

section \<open>Blocks\<close>

text \<open>Start and length of block \<open>b\<close>; the last block takes the rest.\<close>

definition blocks :: "nat \<Rightarrow> nat \<Rightarrow> nat \<Rightarrow> (nat \<times> nat) list" where
  "blocks n nblock npb =
     map (\<lambda>b. (b * npb, if b < nblock - 1 then npb else n - b * npb)) [0..<nblock]"

lemma length_blocks [simp]: "length (blocks n nblock npb) = nblock"
  by (simp add: blocks_def)

lemma blocks_prefix:
  assumes "k * npb \<le> n" "lo + n \<le> length a"
  shows "concat (map (\<lambda>b. seg a (lo + b * npb) npb) [0..<k]) = seg a lo (k * npb)"
  using assms
proof (induction k)
  case (Suc k)
  have "seg a lo (k * npb + npb) = seg a lo (k * npb) @ seg a (lo + k * npb) npb"
    using Suc.prems by (intro seg_split) simp
  then show ?case using Suc by (simp add: add.commute)
qed (simp add: seg_def)

lemma blocks_cover:
  assumes "0 < nblock" "nblock * npb \<le> n" "lo + n \<le> length a"
  shows "concat (map (\<lambda>(s, l). seg a (lo + s) l) (blocks n nblock npb)) = seg a lo n"
proof -
  obtain k where k: "nblock = Suc k" using assms(1) by (cases nblock) auto
  have kn: "k * npb \<le> n" using assms(2) by (simp add: k)
  have "concat (map (\<lambda>(s, l). seg a (lo + s) l) (blocks n nblock npb))
      = concat (map (\<lambda>b. seg a (lo + b * npb) npb) [0..<k]) @ seg a (lo + k * npb) (n - k * npb)"
    by (auto simp: blocks_def k comp_def intro!: arg_cong [of _ _ concat])
  also have "\<dots> = seg a lo (k * npb) @ seg a (lo + k * npb) (n - k * npb)"
    using blocks_prefix [OF kn assms(3)] by simp
  also have "\<dots> = seg a lo n"
    using seg_split [of lo "k * npb" "n - k * npb" a] kn assms(3) by simp
  finally show ?thesis .
qed

lemma blocks_nth:
  "t < nblock \<Longrightarrow> blocks n nblock npb ! t = (t * npb, if t < nblock - 1 then npb else n - t * npb)"
  by (simp add: blocks_def)

lemma blocks_within:
  assumes "nblock * npb \<le> n" "t < nblock" "blocks n nblock npb ! t = (s, l)"
  shows "s + l \<le> n"
proof -
  have "(t + 1) * npb \<le> nblock * npb" using assms(2) by (intro mult_le_mono1) simp
  then show ?thesis using assms by (auto simp: blocks_nth split: if_splits)
qed

lemma blocks_disjoint:
  assumes "t < nblock" "u < nblock" "t < u" "blocks n nblock npb ! t = (s, l)" "blocks n nblock npb ! u = (s', l')"
  shows "s + l \<le> s'"
proof -
  have "t < nblock - 1" using assms by simp
  moreover have "(t + 1) * npb \<le> u * npb" using assms(3) by (intro mult_le_mono1) simp
  ultimately show ?thesis using assms by (auto simp: blocks_nth)
qed

lemma blocks_position:
  assumes "0 < nblock" "nblock * npb \<le> n" "p < n"
  obtains t s l where "t < nblock" "blocks n nblock npb ! t = (s, l)" "s \<le> p" "p < s + l"
proof (cases "p < (nblock - 1) * npb")
  case True
  then have n0: "0 < npb" by (cases npb) auto
  let ?t = "p div npb"
  have "?t < nblock - 1" using True n0 by (simp add: less_mult_imp_div_less)
  moreover have "?t * npb \<le> p" "p < ?t * npb + npb"
    using n0 dividend_less_div_times [of npb p] by simp_all
  ultimately show ?thesis
    using that [of ?t "?t * npb" npb] by (simp add: blocks_nth)
next
  case False
  then show ?thesis
    using that [of "nblock - 1" "(nblock - 1) * npb" "n - (nblock - 1) * npb"] assms
    by (simp add: blocks_nth)
qed

section \<open>Parallel copy\<close>

definition bcopy :: "'a list \<Rightarrow> nat \<Rightarrow> 'a list \<Rightarrow> nat \<Rightarrow> nat \<Rightarrow> 'a list option" where
  "bcopy from si to di n =
     (if si + n \<le> length from \<and> di + n \<le> length to then Some (blit to di (seg from si n)) else None)"

text \<open>
  \<open>copy_thread\<close>: the task record (\<open>src\<close>, \<open>dest\<close>, \<open>nele\<close>) and one block copy.  The
  state is the destination array and, per thread, whether it has run.
\<close>

record copy_task =
  ct_src :: nat
  ct_dest :: nat
  ct_nele :: nat

definition new_copy_task :: "nat \<Rightarrow> nat \<Rightarrow> nat \<Rightarrow> copy_task" where
  "new_copy_task src dest nele = \<lparr>ct_src = src, ct_dest = dest, ct_nele = nele\<rparr>"

type_synonym copy_state = "data_t list \<times> bool list"

definition copy_thread ::
  "data_t list \<Rightarrow> copy_task list \<Rightarrow> nat \<Rightarrow> copy_state \<Rightarrow> copy_state option" where
  "copy_thread base tasks t = (\<lambda>(dest, finished).
     if t < length tasks \<and> \<not> finished ! t
     then do { d \<leftarrow> bcopy base (ct_src (tasks ! t)) dest (ct_dest (tasks ! t)) (ct_nele (tasks ! t));
               Some (d, finished[t := True]) }
     else Some (dest, finished))"

definition dcopy_tasks :: "nat \<Rightarrow> nat \<Rightarrow> nat \<Rightarrow> nat \<Rightarrow> copy_task list" where
  "dcopy_tasks src dest nele block_size =
     (let nblock = to_int ((nele + block_size - 1) div block_size);
          npb = to_int (nele div nat nblock)
      in map (\<lambda>(s, l). new_copy_task (src + s) (dest + s) l) (blocks nele (nat nblock) (nat npb)))"

definition dcopy_parallel ::
  "nat list \<Rightarrow> data_t list \<Rightarrow> nat \<Rightarrow> data_t list \<Rightarrow> nat \<Rightarrow> nat \<Rightarrow> nat \<Rightarrow> data_t list option" where
  "dcopy_parallel sched base src scratch dest nele block_size =
     (let tasks = dcopy_tasks src dest nele block_size in
      do { (d, _) \<leftarrow> run_sched (copy_thread base tasks) (sched @ join_all (length tasks) 1)
                      (scratch, replicate (length tasks) False);
           Some d })"

text \<open>
  The invariant of the copy threads: with \<open>goal\<close> the intended final array, every cell
  that no unfinished thread is going to write already holds its final value.
\<close>

definition copy_inv ::
  "data_t list \<Rightarrow> copy_task list \<Rightarrow> data_t list \<Rightarrow> copy_state \<Rightarrow> bool" where
  "copy_inv base tasks goal = (\<lambda>(dest, finished).
     length dest = length goal \<and> length finished = length tasks
     \<and> (\<forall>c \<in> set tasks. ct_src c + ct_nele c \<le> length base \<and> ct_dest c + ct_nele c \<le> length goal
          \<and> seg goal (ct_dest c) (ct_nele c) = seg base (ct_src c) (ct_nele c))
     \<and> (\<forall>p < length goal.
          (\<forall>t < length tasks. \<not> finished ! t \<longrightarrow>
             \<not> (ct_dest (tasks ! t) \<le> p \<and> p < ct_dest (tasks ! t) + ct_nele (tasks ! t)))
          \<longrightarrow> dest ! p = goal ! p))"

lemma copy_thread_step:
  assumes inv: "copy_inv base tasks goal s"
  obtains s' where "copy_thread base tasks t s = Some s'" "copy_inv base tasks goal s'"
proof -
  obtain dest finished where s: "s = (dest, finished)" by (cases s)
  show ?thesis
  proof (cases "t < length tasks \<and> \<not> finished ! t")
    case False
    then show ?thesis using that [of s] inv by (auto simp: s copy_thread_def)
  next
    case True
    let ?c = "tasks ! t" and ?f = "finished[t := True]"
    let ?d = "blit dest (ct_dest ?c) (seg base (ct_src ?c) (ct_nele ?c))"
    have c: "?c \<in> set tasks" using True by simp
    have lens: "length dest = length goal" "length finished = length tasks"
      "ct_src ?c + ct_nele ?c \<le> length base" "ct_dest ?c + ct_nele ?c \<le> length goal"
      "seg base (ct_src ?c) (ct_nele ?c) = seg goal (ct_dest ?c) (ct_nele ?c)"
      using inv c by (auto simp: s copy_inv_def)
    have cell: "?d ! p = (if ct_dest ?c \<le> p \<and> p < ct_dest ?c + ct_nele ?c then goal ! p else dest ! p)"
      if "p < length goal" for p
      using that lens by (simp add: blit_seg_nth)
    have "?d ! p = goal ! p" if p: "p < length goal"
      and free: "\<forall>u < length tasks. \<not> ?f ! u \<longrightarrow>
             \<not> (ct_dest (tasks ! u) \<le> p \<and> p < ct_dest (tasks ! u) + ct_nele (tasks ! u))" for p
    proof (cases "ct_dest ?c \<le> p \<and> p < ct_dest ?c + ct_nele ?c")
      case False
      then have "\<not> (ct_dest (tasks ! u) \<le> p \<and> p < ct_dest (tasks ! u) + ct_nele (tasks ! u))"
        if "u < length tasks" "\<not> finished ! u" for u
        using free that by (cases "u = t") auto
      then have "dest ! p = goal ! p" using inv p by (simp add: s copy_inv_def)
      then show ?thesis using False cell [OF p] by simp
    qed (use cell [OF p] in simp)
    then have "copy_inv base tasks goal (?d, ?f)"
      using inv lens by (auto simp: s copy_inv_def length_blit length_seg)
    moreover have "copy_thread base tasks t s = Some (?d, ?f)"
      using True lens by (simp add: s copy_thread_def bcopy_def)
    ultimately show ?thesis using that by blast
  qed
qed

definition copy_work :: "nat \<Rightarrow> copy_state \<Rightarrow> nat" where
  "copy_work t = (\<lambda>(dest, finished). if t < length finished \<and> \<not> finished ! t then 1 else 0)"

interpretation copy: scheduled "copy_thread base tasks" "copy_inv base tasks goal" copy_work
  for base tasks goal
proof
  show "\<exists>s'. copy_thread base tasks t s = Some s' \<and> copy_inv base tasks goal s'"
    if "copy_inv base tasks goal s" for s t
    using copy_thread_step [OF that] by blast
  show "copy_work t s' = copy_work t s - 1"
    if "copy_inv base tasks goal s" "copy_thread base tasks t s = Some s'" for s t s'
    using that by (auto simp: copy_thread_def copy_work_def copy_inv_def bind_Some_iff split: prod.splits if_splits)
  show "copy_work u s' = copy_work u s"
    if "copy_inv base tasks goal s" "copy_thread base tasks t s = Some s'" "u \<noteq> t" for s t u s'
    using that by (auto simp: copy_thread_def copy_work_def copy_inv_def bind_Some_iff split: prod.splits if_splits)
qed

text \<open>The tasks of \<open>dcopy_parallel\<close> establish the invariant.\<close>

lemma dcopy_init:
  assumes nb: "0 < nblock" "nblock * npb \<le> nele"
    and mem: "src + nele \<le> length base" "dest + nele \<le> length scratch"
    and tasks: "tasks = map (\<lambda>(s, l). new_copy_task (src + s) (dest + s) l) (blocks nele nblock npb)"
    and goal: "goal = blit scratch dest (seg base src nele)"
  shows "copy_inv base tasks goal (scratch, replicate (length tasks) False)"
proof -
  have lg: "length goal = length scratch" using mem by (simp add: goal length_blit length_seg)
  have task: "ct_src c + ct_nele c \<le> length base \<and> ct_dest c + ct_nele c \<le> length goal
      \<and> seg goal (ct_dest c) (ct_nele c) = seg base (ct_src c) (ct_nele c)" if c_in: "c \<in> set tasks" for c
  proof -
    obtain s l where sl: "(s, l) \<in> set (blocks nele nblock npb)"
      and c: "c = new_copy_task (src + s) (dest + s) l"
      using c_in by (auto simp: tasks)
    obtain t where t: "t < nblock" "blocks nele nblock npb ! t = (s, l)"
      using sl by (auto simp: in_set_conv_nth)
    have "s + l \<le> nele" using blocks_within [OF nb(2) t] .
    moreover have "seg goal (dest + s) l = seg base (src + s) l"
      using calculation mem lg by (intro seg_eqI) (auto simp: goal blit_seg_nth add.assoc)
    ultimately show ?thesis using mem lg by (simp add: c new_copy_task_def)
  qed
  have cell: "scratch ! p = goal ! p" if p: "p < length goal"
    and free: "\<forall>t < length tasks. \<not> (ct_dest (tasks ! t) \<le> p \<and> p < ct_dest (tasks ! t) + ct_nele (tasks ! t))" for p
  proof (rule ccontr)
    assume "scratch ! p \<noteq> goal ! p"
    then have w: "dest \<le> p" "p - dest < nele" using p mem lg by (auto simp: goal blit_seg_nth split: if_splits)
    obtain t s l where "t < nblock" "blocks nele nblock npb ! t = (s, l)" "s \<le> p - dest" "p - dest < s + l"
      using blocks_position [OF nb w(2)] .
    then show False using free w(1) by (auto simp: tasks new_copy_task_def dest!: spec [of _ t])
  qed
  show ?thesis using task cell by (simp add: copy_inv_def lg)
qed

lemma copy_inv_finished:
  assumes "copy_inv base tasks goal (d, f)" "\<And>t. t < length tasks \<Longrightarrow> copy_work t (d, f) = 0"
  shows "d = goal"
proof -
  have "f ! t" if "t < length tasks" for t
    using assms(1) assms(2) [OF that] that by (auto simp: copy_work_def copy_inv_def split: if_splits)
  then show ?thesis using assms(1) by (intro nth_equalityI) (auto simp: copy_inv_def)
qed

lemma dcopy_parallel_copies:
  assumes "0 < nele" "nele + block_size < 2 ^ 31" "0 < block_size"
    and mem: "src + nele \<le> length base" "dest + nele \<le> length scratch"
  shows "dcopy_parallel sched base src scratch dest nele block_size
       = Some (blit scratch dest (seg base src nele))"
proof -
  define nblock where "nblock = (nele + block_size - 1) div block_size"
  define npb where "npb = nele div nblock"
  define tasks where "tasks = map (\<lambda>(s, l). new_copy_task (src + s) (dest + s) l) (blocks nele nblock npb)"
  define goal where "goal = blit scratch dest (seg base src nele)"
  have nb: "0 < nblock" "nblock * npb \<le> nele"
    using assms(1,3) by (simp_all add: nblock_def npb_def div_greater_zero_iff)
  have "nblock \<le> nele + block_size - 1" "npb \<le> nele"
    unfolding nblock_def npb_def by (rule div_le_dividend)+
  then have "nblock < 2 ^ 31" "npb < 2 ^ 31" using assms(2) by linarith+
  then have tasks: "dcopy_tasks src dest nele block_size = tasks"
    by (simp add: dcopy_tasks_def Let_def to_int_small tasks_def nblock_def npb_def)
  have init: "copy_inv base tasks goal (scratch, replicate (length tasks) False)"
    by (rule dcopy_init [OF nb mem tasks_def goal_def])
  obtain d f where df: "run_sched (copy_thread base tasks) (sched @ join_all (length tasks) 1)
        (scratch, replicate (length tasks) False) = Some (d, f)" "copy_inv base tasks goal (d, f)"
    "\<And>t. t < length tasks \<Longrightarrow> copy_work t (d, f) = 0"
    using copy.join_finishes [OF init, of "length tasks" 1 sched] by (auto simp: copy_work_def)
  then show ?thesis
    using copy_inv_finished [OF df(2,3)] by (simp add: dcopy_parallel_def tasks goal_def Let_def)
qed

section \<open>Properties\<close>

text \<open>
  Dcopy_parallel. Whatever the interleaving of the copy tasks, the parallel copy writes
  exactly the source range to the destination range, without an access outside the arrays,
  as long as the number of elements and the block size fit the \<open>int\<close> variables of the code.
\<close>

theorem dcopy_parallel_correct:
  assumes "0 < nele" "nele + block_size < 2 ^ 31" "0 < block_size"
    and "src + nele \<le> length base" "dest + nele \<le> length scratch"
  shows "\<exists>out. dcopy_parallel sched base src scratch dest nele block_size = Some out
    \<and> length out = length scratch \<and> seg out dest nele = seg base src nele
    \<and> (\<forall>i < length scratch. (i < dest \<or> dest + nele \<le> i) \<longrightarrow> out ! i = scratch ! i)"
  using dcopy_parallel_copies [OF assms] assms(4,5) seg_blit [of dest "seg base src nele" scratch]
  by (auto simp: blit_nth mem_simps)

theorem dcopy_parallel_correct_witness:
  "(0 :: nat) < 5 \<and> (5 :: nat) + 2 < 2 ^ 31 \<and>
   (\<exists>out. dcopy_parallel [2, 0, 2, 1] [1, 2, 3, 4, 5, 6 :: data_t] 1 [0, 0, 0, 0, 0] 0 5 2 = Some out
      \<and> seg out 0 5 = [2, 3, 4, 5, 6])"
  using dcopy_parallel_correct [of 5 2 1 "[1, 2, 3, 4, 5, 6]" 0 "[0, 0, 0, 0, 0]" "[2, 0, 2, 1]"]
  by (auto simp: seg_def)

end
