(* ===== verification/Partition_Par.thy ===== *)
theory Partition_Par
  imports Pqsort_Par
begin

text \<open>
  \<open>partition_parallel\<close> of \<open>pqsort.c\<close>: its partition threads share the two cursors
  \<open>next_left_index\<close> and \<open>next_right_index\<close> under a mutex and write the parts of their
  blocks to the destinations they reserved.  The invariant uses a ghost function \<open>W\<close>
  that gives, for every reserved destination cell, the value it will hold in the end.
\<close>

section \<open>Definitions\<close>

text \<open>Where a partition thread stands: before the sweep, before the reservation, before the
  first copy, before the second copy, returned.\<close>

datatype pthread =
    PStart
  | PSwept nat
  | PReserved nat nat nat
  | PCopied nat nat nat
  | PDone

record partition_t =
  par_base :: "data_t list"
  par_scratch :: "data_t list"
  next_left_index :: nat
  next_right_index :: nat
  threads :: "pthread list"

definition init_partition :: "data_t list \<Rightarrow> nat \<Rightarrow> data_t list \<Rightarrow> nat \<Rightarrow> partition_t" where
  "init_partition base nele scratch nthreads =
     \<lparr>par_base = base, par_scratch = scratch, next_left_index = 0, next_right_index = nele,
      threads = replicate nthreads PStart\<rparr>"

text \<open>
  The next action of thread \<open>t\<close>; \<open>tasks\<close> gives \<open>src_index\<close> and \<open>nele\<close> of every
  partition task, \<open>B\<close> and \<open>S\<close> are the offsets of \<open>base\<close> and \<open>scratch_base\<close>.
  Taking more cells than are left from \<open>next_right_index\<close> would wrap: \<open>None\<close>.
\<close>

definition partition_thread ::
  "nat \<Rightarrow> nat \<Rightarrow> data_t \<Rightarrow> (nat \<times> nat) list \<Rightarrow> nat \<Rightarrow> partition_t \<Rightarrow> partition_t option" where
  "partition_thread B S pval tasks t s =
     (if t < length tasks then
        let (src_index, nele) = tasks ! t in
        case threads s ! t of
          PStart \<Rightarrow> do {
            (nleft, sc) \<leftarrow> partition_sweep (par_scratch s) (int (S + src_index)) (int nele) pval;
            Some (s\<lparr>par_scratch := sc, threads := (threads s)[t := PSwept (nat nleft)]\<rparr>) }
        | PSwept nleft \<Rightarrow>
            let nright = nele - nleft in
            if next_right_index s < nright then None
            else Some (s\<lparr>next_left_index := next_left_index s + nleft,
                         next_right_index := next_right_index s - nright,
                         threads := (threads s)[t :=
                           PReserved nleft (next_left_index s) (next_right_index s - nright)]\<rparr>)
        | PReserved nleft left_index right_index \<Rightarrow> do {
            b \<leftarrow> bcopy (par_scratch s) (S + src_index) (par_base s) (B + left_index) nleft;
            Some (s\<lparr>par_base := b, threads := (threads s)[t := PCopied nleft left_index right_index]\<rparr>) }
        | PCopied nleft left_index right_index \<Rightarrow> do {
            b \<leftarrow> bcopy (par_scratch s) (S + src_index + nleft) (par_base s) (B + right_index) (nele - nleft);
            Some (s\<lparr>par_base := b, threads := (threads s)[t := PDone]\<rparr>) }
        | PDone \<Rightarrow> Some s
      else Some s)"

definition partition_parallel ::
  "nat list \<Rightarrow> nat list \<Rightarrow> data_t list \<Rightarrow> nat \<Rightarrow> nat \<Rightarrow> data_t list \<Rightarrow> nat \<Rightarrow> nat
   \<Rightarrow> (nat \<times> data_t list \<times> data_t list) option" where
  "partition_parallel copy_sched sched base B nele scratch S block_size = do {
     let p = pivot (int B) (int nele);
     pval \<leftarrow> rd base p;
     base1 \<leftarrow> swap base p (int B + int nele - 1);
     scratch1 \<leftarrow> dcopy_parallel copy_sched base1 B scratch S (nele - 1) block_size;
     let nblock = to_int ((nele + block_size - 2) div block_size);
     let npb = (nele - 1) div nat nblock;
     let tasks = blocks (nele - 1) (nat nblock) npb;
     s \<leftarrow> run_sched (partition_thread B S pval tasks) (sched @ join_all (length tasks) 4)
            (init_partition base1 (nele - 1) scratch1 (length tasks));
     let left_size = next_left_index s;
     base2 \<leftarrow> swap (par_base s) (int B + int left_size) (int B + int nele - 1);
     Some (left_size, base2, par_scratch s) }"

section \<open>The invariant\<close>

text \<open>The destination cells a thread is still going to write.\<close>

fun writes_left :: "pthread \<Rightarrow> nat \<Rightarrow> bool" where
  "writes_left (PReserved nl li ri) p \<longleftrightarrow> li \<le> p \<and> p < li + nl"
| "writes_left _ p \<longleftrightarrow> False"

fun writes_right :: "nat \<Rightarrow> pthread \<Rightarrow> nat \<Rightarrow> bool" where
  "writes_right l (PReserved nl li ri) p \<longleftrightarrow> ri \<le> p \<and> p < ri + (l - nl)"
| "writes_right l (PCopied nl li ri) p \<longleftrightarrow> ri \<le> p \<and> p < ri + (l - nl)"
| "writes_right l _ p \<longleftrightarrow> False"

definition pending_left :: "partition_t \<Rightarrow> nat \<Rightarrow> bool" where
  "pending_left s p \<longleftrightarrow> (\<exists>t < length (threads s). writes_left (threads s ! t) p)"

definition pending_right :: "(nat \<times> nat) list \<Rightarrow> partition_t \<Rightarrow> nat \<Rightarrow> bool" where
  "pending_right tasks s p \<longleftrightarrow> (\<exists>t < length (threads s). writes_right (snd (tasks ! t)) (threads s ! t) p)"

text \<open>Thread-local part: what a thread knows of its block and of its destinations.\<close>

fun thread_ok :: "nat \<Rightarrow> data_t \<Rightarrow> data_t list \<Rightarrow> nat \<Rightarrow> (nat \<Rightarrow> data_t) \<Rightarrow> partition_t \<Rightarrow> nat \<times> nat \<Rightarrow> pthread \<Rightarrow> bool" where
  "thread_ok S pval C0 n W s (src, l) PStart \<longleftrightarrow> seg (par_scratch s) (S + src) l = seg C0 (S + src) l"
| "thread_ok S pval C0 n W s (src, l) (PSwept nl) \<longleftrightarrow>
     nl \<le> l \<and> mset (seg (par_scratch s) (S + src) l) = mset (seg C0 (S + src) l)
     \<and> (\<forall>k < nl. par_scratch s ! (S + src + k) \<le> pval)
     \<and> (\<forall>k. nl \<le> k \<longrightarrow> k < l \<longrightarrow> pval \<le> par_scratch s ! (S + src + k))"
| "thread_ok S pval C0 n W s (src, l) (PReserved nl li ri) \<longleftrightarrow>
     nl \<le> l \<and> li + nl \<le> next_left_index s \<and> next_right_index s \<le> ri \<and> ri + (l - nl) \<le> n
     \<and> (\<forall>k < nl. W (li + k) = par_scratch s ! (S + src + k))
     \<and> (\<forall>k < l - nl. W (ri + k) = par_scratch s ! (S + src + nl + k))"
| "thread_ok S pval C0 n W s (src, l) (PCopied nl li ri) \<longleftrightarrow>
     nl \<le> l \<and> next_right_index s \<le> ri \<and> ri + (l - nl) \<le> n
     \<and> (\<forall>k < l - nl. W (ri + k) = par_scratch s ! (S + src + nl + k))"
| "thread_ok S pval C0 n W s (src, l) PDone \<longleftrightarrow> True"

fun reserved :: "pthread \<Rightarrow> bool" where
  "reserved PStart = False"
| "reserved (PSwept _) = False"
| "reserved _ = True"

text \<open>
  Global part: the shape of the arrays and the cursors, the amount and the values that are
  reserved, and the destination cells, which hold their final value unless a thread is
  still going to write them.
\<close>

definition shape_ok :: "nat \<Rightarrow> nat \<Rightarrow> (nat \<times> nat) list \<Rightarrow> data_t list \<Rightarrow> data_t list \<Rightarrow> partition_t \<Rightarrow> bool" where
  "shape_ok B n tasks A0 C0 s \<longleftrightarrow>
     length (threads s) = length tasks
     \<and> length (par_base s) = length A0 \<and> length (par_scratch s) = length C0
     \<and> (\<forall>i < length A0. i < B \<or> B + n \<le> i \<longrightarrow> par_base s ! i = A0 ! i)
     \<and> next_left_index s \<le> next_right_index s \<and> next_right_index s \<le> n"

definition reserved_size :: "(nat \<times> nat) list \<Rightarrow> pthread list \<Rightarrow> nat" where
  "reserved_size tasks ths = (\<Sum>t < length tasks. if reserved (ths ! t) then snd (tasks ! t) else 0)"

definition reserved_mset :: "nat \<Rightarrow> data_t list \<Rightarrow> (nat \<times> nat) list \<Rightarrow> pthread list \<Rightarrow> data_t multiset" where
  "reserved_mset S C0 tasks ths = (\<Sum>t < length tasks.
     if reserved (ths ! t) then mset (seg C0 (S + fst (tasks ! t)) (snd (tasks ! t))) else {#})"

definition sums_ok :: "nat \<Rightarrow> nat \<Rightarrow> (nat \<times> nat) list \<Rightarrow> data_t list \<Rightarrow> (nat \<Rightarrow> data_t) \<Rightarrow> partition_t \<Rightarrow> bool" where
  "sums_ok S n tasks C0 W s \<longleftrightarrow>
     next_left_index s + (n - next_right_index s) = reserved_size tasks (threads s)
     \<and> mset (map W [0..<next_left_index s]) + mset (map W [next_right_index s..<n])
         = reserved_mset S C0 tasks (threads s)"

definition cells_ok :: "nat \<Rightarrow> data_t \<Rightarrow> nat \<Rightarrow> (nat \<times> nat) list \<Rightarrow> (nat \<Rightarrow> data_t) \<Rightarrow> partition_t \<Rightarrow> bool" where
  "cells_ok B pval n tasks W s \<longleftrightarrow>
     (\<forall>p < next_left_index s. W p \<le> pval \<and> (\<not> pending_left s p \<longrightarrow> par_base s ! (B + p) = W p))
     \<and> (\<forall>p. next_right_index s \<le> p \<longrightarrow> p < n \<longrightarrow>
          pval \<le> W p \<and> (\<not> pending_right tasks s p \<longrightarrow> par_base s ! (B + p) = W p))"

definition part_inv ::
  "nat \<Rightarrow> nat \<Rightarrow> data_t \<Rightarrow> nat \<Rightarrow> (nat \<times> nat) list \<Rightarrow> data_t list \<Rightarrow> data_t list \<Rightarrow> (nat \<Rightarrow> data_t) \<Rightarrow> partition_t \<Rightarrow> bool" where
  "part_inv B S pval n tasks A0 C0 W s \<longleftrightarrow>
     shape_ok B n tasks A0 C0 s
     \<and> (\<forall>t < length tasks. thread_ok S pval C0 n W s (tasks ! t) (threads s ! t))
     \<and> sums_ok S n tasks C0 W s \<and> cells_ok B pval n tasks W s"

text \<open>The blocks: inside the window, pairwise disjoint, and together of its size.\<close>

definition tasks_ok :: "nat \<Rightarrow> (nat \<times> nat) list \<Rightarrow> bool" where
  "tasks_ok n tasks \<longleftrightarrow>
     (\<forall>t < length tasks. fst (tasks ! t) + snd (tasks ! t) \<le> n)
     \<and> (\<forall>t < length tasks. \<forall>u < length tasks. t \<noteq> u \<longrightarrow>
          fst (tasks ! t) + snd (tasks ! t) \<le> fst (tasks ! u) \<or> fst (tasks ! u) + snd (tasks ! u) \<le> fst (tasks ! t))
     \<and> (\<Sum>t < length tasks. snd (tasks ! t)) = n"

lemma tasks_ok_within: "tasks_ok n tasks \<Longrightarrow> t < length tasks \<Longrightarrow> tasks ! t = (src, l) \<Longrightarrow> src + l \<le> n"
  by (fastforce simp: tasks_ok_def)

lemma tasks_ok_disjoint:
  "tasks_ok n tasks \<Longrightarrow> t < length tasks \<Longrightarrow> u < length tasks \<Longrightarrow> t \<noteq> u \<Longrightarrow> tasks ! t = (src, l) \<Longrightarrow>
   tasks ! u = (src', l') \<Longrightarrow> src + l \<le> src' \<or> src' + l' \<le> src"
  by (fastforce simp: tasks_ok_def)

lemma part_inv_thread:
  "part_inv B S pval n tasks A0 C0 W s \<Longrightarrow> t < length tasks \<Longrightarrow> tasks ! t = (src, l) \<Longrightarrow>
   thread_ok S pval C0 n W s (src, l) (threads s ! t)"
  unfolding part_inv_def by metis

lemma part_inv_lengths:
  "part_inv B S pval n tasks A0 C0 W s \<Longrightarrow>
   length (par_scratch s) = length C0 \<and> length (par_base s) = length A0 \<and> length (threads s) = length tasks"
  by (simp add: part_inv_def shape_ok_def)

lemma sum_flip:
  fixes f g :: "nat \<Rightarrow> 'a :: comm_monoid_add"
  assumes "t < m" "f t = 0" "\<And>u. u < m \<Longrightarrow> u \<noteq> t \<Longrightarrow> g u = f u"
  shows "(\<Sum>u < m. g u) = g t + (\<Sum>u < m. f u)"
proof -
  have "(\<Sum>u < m. g u) = g t + (\<Sum>u \<in> {..<m} - {t}. g u)"
    using assms(1) by (subst sum.remove [of _ t]) auto
  also have "(\<Sum>u \<in> {..<m} - {t}. g u) = (\<Sum>u \<in> {..<m} - {t}. f u)"
    using assms(3) by (intro sum.cong) auto
  also have "g t + \<dots> = g t + (\<Sum>u < m. f u)"
    using assms(1,2) by (subst (2) sum.remove [of _ t]) auto
  finally show ?thesis .
qed

text \<open>What a thread knows survives the steps of the others.\<close>

lemma thread_ok_frame:
  assumes "thread_ok S pval C0 n W s (src, l) ph"
    and cells: "\<And>k. k < l \<Longrightarrow> par_scratch s' ! (S + src + k) = par_scratch s ! (S + src + k)"
    and len: "S + src + l \<le> length (par_scratch s)" "length (par_scratch s') = length (par_scratch s)"
    and cur: "next_left_index s \<le> next_left_index s'" "next_right_index s' \<le> next_right_index s"
    and W': "\<And>p. p < next_left_index s \<or> next_right_index s \<le> p \<Longrightarrow> W' p = W p"
  shows "thread_ok S pval C0 n W' s' (src, l) ph"
proof -
  have seg: "seg (par_scratch s') (S + src) l = seg (par_scratch s) (S + src) l"
    using cells len by (intro seg_eqI) auto
  show ?thesis
    using assms(1) cells cur W' seg by (cases ph) (auto simp: add.assoc)
qed

lemma pending_left_upd:
  assumes "t < length (threads s)" "threads s' = (threads s)[t := ph]"
    and "writes_left (threads s ! t) p \<Longrightarrow> writes_left ph p" "pending_left s p"
  shows "pending_left s' p"
proof -
  obtain u where u: "u < length (threads s)" "writes_left (threads s ! u) p"
    using assms(4) by (auto simp: pending_left_def)
  then have "writes_left (threads s' ! u) p" using assms(1-3) by (cases "u = t") auto
  then show ?thesis using u assms(2) by (auto simp: pending_left_def)
qed

lemma pending_right_upd:
  assumes "t < length (threads s)" "threads s' = (threads s)[t := ph]"
    and "writes_right (snd (tasks ! t)) (threads s ! t) p \<Longrightarrow> writes_right (snd (tasks ! t)) ph p"
    and "pending_right tasks s p"
  shows "pending_right tasks s' p"
proof -
  obtain u where u: "u < length (threads s)" "writes_right (snd (tasks ! u)) (threads s ! u) p"
    using assms(4) by (auto simp: pending_right_def)
  then have "writes_right (snd (tasks ! u)) (threads s' ! u) p" using assms(1-3) by (cases "u = t") auto
  then show ?thesis using u assms(2) by (auto simp: pending_right_def)
qed

lemma pending_keep:
  assumes "t < length (threads s)" "\<not> reserved (threads s ! t)" "threads s' = (threads s)[t := ph]"
  shows "pending_left s p \<Longrightarrow> pending_left s' p" "pending_right tasks s p \<Longrightarrow> pending_right tasks s' p"
  using assms pending_left_upd [OF assms(1,3), of p] pending_right_upd [OF assms(1,3), of tasks p]
  by (cases "threads s ! t"; simp)+

lemma reserved_keep:
  assumes "t < length (threads s)" "reserved ph = reserved (threads s ! t)"
  shows "reserved_size tasks ((threads s)[t := ph]) = reserved_size tasks (threads s)"
    "reserved_mset S C0 tasks ((threads s)[t := ph]) = reserved_mset S C0 tasks (threads s)"
proof -
  have "reserved ((threads s)[t := ph] ! u) = reserved (threads s ! u)" for u
    using assms by (cases "u = t") auto
  then show "reserved_size tasks ((threads s)[t := ph]) = reserved_size tasks (threads s)"
    "reserved_mset S C0 tasks ((threads s)[t := ph]) = reserved_mset S C0 tasks (threads s)"
    by (simp_all add: reserved_size_def reserved_mset_def)
qed

lemma reserved_add:
  assumes "t < length tasks" "length ths = length tasks" "tasks ! t = (src, l)" "\<not> reserved (ths ! t)" "reserved ph"
  shows "reserved_size tasks (ths[t := ph]) = l + reserved_size tasks ths"
    "reserved_mset S C0 tasks (ths[t := ph]) = mset (seg C0 (S + src) l) + reserved_mset S C0 tasks ths"
  unfolding reserved_size_def reserved_mset_def
  using assms by (subst sum_flip [OF assms(1)]; auto)+

text \<open>First action: the sweep of the thread's own block.\<close>

lemma part_step_sweep:
  assumes inv: "part_inv B S pval n tasks A0 C0 W s" and ok: "tasks_ok n tasks"
    and mem: "S + n \<le> length C0"
    and t: "t < length tasks" "tasks ! t = (src, l)" "threads s ! t = PStart"
  obtains s' where "partition_thread B S pval tasks t s = Some s'" "part_inv B S pval n tasks A0 C0 W s'"
    "\<exists>nl. threads s' = (threads s)[t := PSwept nl]"
proof -
  let ?sc = "par_scratch s"
  note win = tasks_ok_within [OF ok t(1,2)]
  have lens: "length ?sc = length C0" "length (threads s) = length tasks"
    using part_inv_lengths [OF inv] by auto
  obtain nl sc where sweep: "partition_sweep ?sc (int (S + src)) (int l) pval = Some (int nl, sc)"
    and post: "nl \<le> l" "length sc = length ?sc" "mset (seg sc (S + src) l) = mset (seg ?sc (S + src) l)"
      "\<And>k. k < nl \<Longrightarrow> sc ! (S + src + k) \<le> pval" "\<And>k. nl \<le> k \<Longrightarrow> k < l \<Longrightarrow> pval \<le> sc ! (S + src + k)"
    and frame: "\<And>i. i < S + src \<or> S + src + l \<le> i \<Longrightarrow> sc ! i = ?sc ! i"
    using partition_sweep_block [of "S + src" l ?sc pval] win mem lens by auto
  define s' where "s' = s\<lparr>par_scratch := sc, threads := (threads s)[t := PSwept nl]\<rparr>"
  have "thread_ok S pval C0 n W s' (tasks ! u) (threads s' ! u)" if u: "u < length tasks" for u
  proof (cases "u = t")
    case True
    have "seg ?sc (S + src) l = seg C0 (S + src) l"
      using part_inv_thread [OF inv t(1,2)] t(3) by simp
    then show ?thesis using True t post lens by (auto simp: s'_def)
  next
    case False
    obtain src' l' where u': "tasks ! u = (src', l')" by fastforce
    note dis = tasks_ok_disjoint [OF ok t(1) u _ t(2) u'] and win' = tasks_ok_within [OF ok u u']
    have "thread_ok S pval C0 n W s' (src', l') (threads s ! u)"
      using part_inv_thread [OF inv u u'] dis False win' mem lens post(2) by (elim thread_ok_frame) (auto intro!: frame simp: s'_def)
    then show ?thesis using False u' t by (simp add: s'_def)
  qed
  moreover have "sums_ok S n tasks C0 W s'" "cells_ok B pval n tasks W s'" "shape_ok B n tasks A0 C0 s'"
    using inv reserved_keep [of t s "PSwept nl"] pending_keep [of t s s' "PSwept nl"] t lens post(2)
    by (auto simp: part_inv_def sums_ok_def cells_ok_def shape_ok_def s'_def)
  ultimately have "part_inv B S pval n tasks A0 C0 W s'" by (simp add: part_inv_def)
  moreover have "partition_thread B S pval tasks t s = Some s'"
    using t sweep by (simp add: partition_thread_def s'_def)
  ultimately show ?thesis using that by (auto simp: s'_def)
qed

text \<open>Second action: the reservation.  There is room, and the ghost values are extended.\<close>

lemma reserve_room:
  assumes inv: "part_inv B S pval n tasks A0 C0 W s" and ok: "tasks_ok n tasks"
    and t: "t < length tasks" "tasks ! t = (src, l)" "\<not> reserved (threads s ! t)"
  shows "next_left_index s + l \<le> next_right_index s"
proof -
  have "reserved_size tasks (threads s) + l = reserved_size tasks ((threads s)[t := PDone])"
    using reserved_add [of t tasks "threads s" src l PDone] t part_inv_lengths [OF inv] by simp
  also have "\<dots> \<le> (\<Sum>u < length tasks. snd (tasks ! u))"
    unfolding reserved_size_def by (intro sum_mono) simp
  also have "\<dots> = n" using ok by (simp add: tasks_ok_def)
  finally show ?thesis using inv by (auto simp: part_inv_def sums_ok_def shape_ok_def)
qed

definition ghost_extend ::
  "(nat \<Rightarrow> data_t) \<Rightarrow> data_t list \<Rightarrow> nat \<Rightarrow> nat \<Rightarrow> nat \<Rightarrow> nat \<Rightarrow> nat \<Rightarrow> nat \<Rightarrow> data_t" where
  "ghost_extend W sc lo a nl c nr = (\<lambda>p.
     if a \<le> p \<and> p < a + nl then sc ! (lo + (p - a))
     else if c \<le> p \<and> p < c + nr then sc ! (lo + nl + (p - c)) else W p)"

lemma ghost_extend_mset:
  assumes "a + nl \<le> c" "c + nr \<le> n" "lo + (nl + nr) \<le> length sc"
  shows "mset (map (ghost_extend W sc lo a nl c nr) [0..<a + nl])
         + mset (map (ghost_extend W sc lo a nl c nr) [c..<n])
       = mset (seg sc lo (nl + nr)) + (mset (map W [0..<a]) + mset (map W [c + nr..<n]))"
proof -
  let ?W = "ghost_extend W sc lo a nl c nr"
  have "map ?W [0..<a + nl] = map W [0..<a] @ seg sc lo nl"
    using assms by (intro nth_equalityI) (auto simp: ghost_extend_def nth_append length_seg seg_nth)
  moreover have "map ?W [c..<n] = seg sc (lo + nl) nr @ map W [c + nr..<n]"
    using assms by (intro nth_equalityI) (auto simp: ghost_extend_def nth_append length_seg seg_nth)
  moreover have "mset (seg sc lo (nl + nr)) = mset (seg sc lo nl) + mset (seg sc (lo + nl) nr)"
    using assms by (simp add: seg_split)
  ultimately show ?thesis by simp
qed

lemma part_step_reserve:
  assumes inv: "part_inv B S pval n tasks A0 C0 W s" and ok: "tasks_ok n tasks"
    and mem: "S + n \<le> length C0"
    and t: "t < length tasks" "tasks ! t = (src, l)" "threads s ! t = PSwept nl"
  obtains s' W' where "partition_thread B S pval tasks t s = Some s'"
    "part_inv B S pval n tasks A0 C0 W' s'"
    "\<exists>nl li ri. threads s' = (threads s)[t := PReserved nl li ri]"
proof -
  let ?a = "next_left_index s" and ?b = "next_right_index s" and ?nr = "l - nl" and ?sc = "par_scratch s"
  let ?c = "?b - ?nr"
  note win = tasks_ok_within [OF ok t(1,2)] and lens = part_inv_lengths [OF inv]
  have sw: "nl \<le> l" "mset (seg ?sc (S + src) l) = mset (seg C0 (S + src) l)"
    "\<And>k. k < nl \<Longrightarrow> ?sc ! (S + src + k) \<le> pval" "\<And>k. nl \<le> k \<Longrightarrow> k < l \<Longrightarrow> pval \<le> ?sc ! (S + src + k)"
    using part_inv_thread [OF inv t(1,2)] t(3) by auto
  have room: "?a + nl \<le> ?c" "?nr \<le> ?b" "?c + ?nr = ?b" "?b \<le> n"
    using reserve_room [OF inv ok t(1,2)] t(3) sw(1) inv by (auto simp: part_inv_def shape_ok_def)
  define W' where "W' = ghost_extend W ?sc (S + src) ?a nl ?c ?nr"
  have W'_old: "W' p = W p" if "p < ?a \<or> ?b \<le> p" for p
    using that room by (auto simp: W'_def ghost_extend_def)
  have W'_left: "W' (?a + k) = ?sc ! (S + src + k)" if "k < nl" for k
    using that by (auto simp: W'_def ghost_extend_def)
  have W'_right: "W' (?c + k) = ?sc ! (S + src + nl + k)" if "k < ?nr" for k
    using that room by (auto simp: W'_def ghost_extend_def)
  define s' where "s' = s\<lparr>next_left_index := ?a + nl, next_right_index := ?c,
      threads := (threads s)[t := PReserved nl ?a ?c]\<rparr>"
  have other: "threads s' ! u = threads s ! u" if "u \<noteq> t" for u using that by (simp add: s'_def)
  have this_t: "threads s' ! t = PReserved nl ?a ?c" using t(1) lens by (simp add: s'_def)
  have "thread_ok S pval C0 n W' s' (tasks ! u) (threads s' ! u)" if u: "u < length tasks" for u
  proof (cases "u = t")
    case True
    then show ?thesis using t(2) this_t sw(1) room W'_left W'_right by (auto simp: s'_def)
  next
    case False
    obtain src' l' where u': "tasks ! u = (src', l')" by fastforce
    have "thread_ok S pval C0 n W' s' (src', l') (threads s ! u)"
      using part_inv_thread [OF inv u u'] tasks_ok_within [OF ok u u'] mem lens room W'_old
      by (elim thread_ok_frame) (auto simp: s'_def)
    then show ?thesis using other [OF False] u' by simp
  qed
  moreover have "sums_ok S n tasks C0 W' s'"
    using inv ghost_extend_mset [of ?a nl ?c ?nr n "S + src" ?sc W] room sw(1,2) win mem lens t
      reserved_add [of t tasks "threads s" src l "PReserved nl ?a ?c"]
    by (auto simp: W'_def s'_def part_inv_def sums_ok_def)
  moreover have "cells_ok B pval n tasks W' s'"
    unfolding cells_ok_def
  proof (intro conjI allI impI)
    fix p assume p: "p < next_left_index s'"
    show "W' p \<le> pval"
      using p inv sw(3) [of "p - ?a"] W'_left [of "p - ?a"] W'_old [of p]
      by (cases "p < ?a") (auto simp: s'_def part_inv_def cells_ok_def)
    show "par_base s' ! (B + p) = W' p" if "\<not> pending_left s' p"
    proof (cases "p < ?a")
      case True
      then show ?thesis using inv pending_keep(1) [of t s s' _ p] that W'_old [of p] t lens
        by (auto simp: s'_def part_inv_def cells_ok_def)
    next
      case False
      then show ?thesis using that p this_t lens t(1) by (auto simp: pending_left_def s'_def)
    qed
  next
    fix p assume p: "next_right_index s' \<le> p" "p < n"
    show "pval \<le> W' p"
    proof (cases "?b \<le> p")
      case True
      then show ?thesis using p inv W'_old [of p] by (auto simp: part_inv_def cells_ok_def)
    next
      case False
      then obtain k where "p = ?c + k" "k < ?nr" using p room by (auto simp: s'_def le_iff_add)
      then show ?thesis using W'_right [of k] sw(4) [of "nl + k"] by (simp add: add.assoc)
    qed
    show "par_base s' ! (B + p) = W' p" if "\<not> pending_right tasks s' p"
    proof (cases "?b \<le> p")
      case True
      then show ?thesis using inv pending_keep(2) [of t s s' _ tasks p] that W'_old [of p] t lens p
        by (auto simp: s'_def part_inv_def cells_ok_def)
    next
      case False
      then show ?thesis using that p this_t lens t(1,2) room by (auto simp: pending_right_def s'_def)
    qed
  qed
  moreover have "shape_ok B n tasks A0 C0 s'"
    using inv room by (auto simp: part_inv_def shape_ok_def s'_def)
  ultimately have "part_inv B S pval n tasks A0 C0 W' s'" by (simp add: part_inv_def)
  moreover have "partition_thread B S pval tasks t s = Some s'"
    using t room by (simp add: partition_thread_def s'_def Let_def)
  moreover have "\<exists>nl li ri. threads s' = (threads s)[t := PReserved nl li ri]"
    by (auto simp: s'_def)
  ultimately show ?thesis by (intro that)
qed

text \<open>Third and fourth action: the copies write the ghost values.\<close>

lemma cells_ok_write:
  assumes cells: "cells_ok B pval n tasks W s"
    and cur: "next_left_index s' = next_left_index s" "next_right_index s' = next_right_index s" "next_left_index s \<le> n"
    and upd: "\<And>p. p < n \<Longrightarrow> par_base s' ! (B + p) = W p \<or> (par_base s' ! (B + p) = par_base s ! (B + p)
      \<and> (pending_left s p \<longrightarrow> pending_left s' p) \<and> (pending_right tasks s p \<longrightarrow> pending_right tasks s' p))"
  shows "cells_ok B pval n tasks W s'"
  unfolding cells_ok_def
proof (intro conjI allI impI)
  fix p assume p: "p < next_left_index s'"
  then have p': "p < next_left_index s" "p < n" using cur by auto
  show "W p \<le> pval" using cells p' by (simp add: cells_ok_def)
  show "par_base s' ! (B + p) = W p" if "\<not> pending_left s' p"
    using upd [OF p'(2)] cells p' that by (auto simp: cells_ok_def)
next
  fix p assume p: "next_right_index s' \<le> p" "p < n"
  then have p': "next_right_index s \<le> p" using cur by simp
  show "pval \<le> W p" using cells p p' by (simp add: cells_ok_def)
  show "par_base s' ! (B + p) = W p" if "\<not> pending_right tasks s' p"
    using upd [OF p(2)] cells p p' that by (auto simp: cells_ok_def)
qed

lemma part_step_copy_left:
  assumes inv: "part_inv B S pval n tasks A0 C0 W s" and ok: "tasks_ok n tasks"
    and mem: "S + n \<le> length C0" "B + n \<le> length A0"
    and t: "t < length tasks" "tasks ! t = (src, l)" "threads s ! t = PReserved nl li ri"
  obtains s' where "partition_thread B S pval tasks t s = Some s'" "part_inv B S pval n tasks A0 C0 W s'"
    "threads s' = (threads s)[t := PCopied nl li ri]"
proof -
  let ?sc = "par_scratch s"
  note win = tasks_ok_within [OF ok t(1,2)] and lens = part_inv_lengths [OF inv]
  have res: "nl \<le> l" "li + nl \<le> next_left_index s" "\<And>k. k < nl \<Longrightarrow> W (li + k) = ?sc ! (S + src + k)"
    using part_inv_thread [OF inv t(1,2)] t(3) by auto
  have cur: "next_left_index s \<le> next_right_index s" "next_right_index s \<le> n"
    using inv by (auto simp: part_inv_def shape_ok_def)
  define b where "b = blit (par_base s) (B + li) (seg ?sc (S + src) nl)"
  define s' where "s' = s\<lparr>par_base := b, threads := (threads s)[t := PCopied nl li ri]\<rparr>"
  have cell: "b ! i = (if B + li \<le> i \<and> i < B + li + nl then ?sc ! (S + src + (i - (B + li))) else par_base s ! i)"
    if "i < length A0" for i
    unfolding b_def using that win res mem cur lens by (intro blit_seg_nth) auto
  have cellW: "b ! (B + p) = (if li \<le> p \<and> p < li + nl then W p else par_base s ! (B + p))" if "p < n" for p
    using that cell [of "B + p"] mem res(3) [of "p - li"] by auto
  have lb: "length b = length A0"
    using win res mem cur lens by (simp add: b_def length_blit length_seg)
  have "thread_ok S pval C0 n W s' (tasks ! u) (threads s' ! u)" if u: "u < length tasks" for u
  proof -
    obtain src' l' where u': "tasks ! u = (src', l')" by fastforce
    have "thread_ok S pval C0 n W s' (src', l') (threads s ! u)"
      using part_inv_thread [OF inv u u'] tasks_ok_within [OF ok u u'] mem lens
      by (elim thread_ok_frame) (auto simp: s'_def)
    then show ?thesis using u' t lens by (cases "u = t") (auto simp: s'_def)
  qed
  moreover have "sums_ok S n tasks C0 W s'"
    using inv reserved_keep [of t s "PCopied nl li ri"] t lens by (auto simp: part_inv_def sums_ok_def s'_def)
  moreover have "shape_ok B n tasks A0 C0 s'"
    using inv cell lb res(2) cur by (auto simp: part_inv_def shape_ok_def s'_def)
  moreover have pl: "pending_left s' p" if "pending_left s p" "\<not> (li \<le> p \<and> p < li + nl)" for p
    using pending_left_upd [of t s s' _ p] that t lens by (auto simp: s'_def)
  moreover have pr: "pending_right tasks s' p" if "pending_right tasks s p" for p
    using pending_right_upd [of t s s' _ tasks p] that t lens by (auto simp: s'_def)
  moreover have "cells_ok B pval n tasks W s'"
  proof (rule cells_ok_write)
    show "cells_ok B pval n tasks W s" using inv by (simp add: part_inv_def)
    show "next_left_index s' = next_left_index s" "next_right_index s' = next_right_index s"
      by (simp_all add: s'_def)
    show "next_left_index s \<le> n" using cur by simp
    fix p assume "p < n"
    then show "par_base s' ! (B + p) = W p \<or> (par_base s' ! (B + p) = par_base s ! (B + p)
      \<and> (pending_left s p \<longrightarrow> pending_left s' p) \<and> (pending_right tasks s p \<longrightarrow> pending_right tasks s' p))"
      using cellW [of p] pl [of p] pr [of p] by (cases "li \<le> p \<and> p < li + nl") (simp_all add: s'_def)
  qed
  ultimately have "part_inv B S pval n tasks A0 C0 W s'" by (simp add: part_inv_def)
  moreover have "partition_thread B S pval tasks t s = Some s'"
    using t win res mem cur lens by (simp add: partition_thread_def s'_def bcopy_def b_def)
  ultimately show ?thesis using that by (auto simp: s'_def)
qed

lemma part_step_copy_right:
  assumes inv: "part_inv B S pval n tasks A0 C0 W s" and ok: "tasks_ok n tasks"
    and mem: "S + n \<le> length C0" "B + n \<le> length A0"
    and t: "t < length tasks" "tasks ! t = (src, l)" "threads s ! t = PCopied nl li ri"
  obtains s' where "partition_thread B S pval tasks t s = Some s'" "part_inv B S pval n tasks A0 C0 W s'"
    "threads s' = (threads s)[t := PDone]"
proof -
  let ?sc = "par_scratch s" and ?nr = "l - nl"
  note win = tasks_ok_within [OF ok t(1,2)] and lens = part_inv_lengths [OF inv]
  have res: "nl \<le> l" "next_right_index s \<le> ri" "ri + ?nr \<le> n"
    "\<And>k. k < ?nr \<Longrightarrow> W (ri + k) = ?sc ! (S + src + nl + k)"
    using part_inv_thread [OF inv t(1,2)] t(3) by auto
  have cur: "next_left_index s \<le> next_right_index s" "next_right_index s \<le> n"
    using inv by (auto simp: part_inv_def shape_ok_def)
  define b where "b = blit (par_base s) (B + ri) (seg ?sc (S + src + nl) ?nr)"
  define s' where "s' = s\<lparr>par_base := b, threads := (threads s)[t := PDone]\<rparr>"
  have cell: "b ! i = (if B + ri \<le> i \<and> i < B + ri + ?nr then ?sc ! (S + src + nl + (i - (B + ri))) else par_base s ! i)"
    if "i < length A0" for i
    unfolding b_def using that win res mem cur lens by (intro blit_seg_nth) auto
  have cellW: "b ! (B + p) = (if ri \<le> p \<and> p < ri + ?nr then W p else par_base s ! (B + p))" if "p < n" for p
    using that cell [of "B + p"] mem res(4) [of "p - ri"] by auto
  have lb: "length b = length A0"
    using win res mem cur lens by (simp add: b_def length_blit length_seg)
  have "thread_ok S pval C0 n W s' (tasks ! u) (threads s' ! u)" if u: "u < length tasks" for u
  proof -
    obtain src' l' where u': "tasks ! u = (src', l')" by fastforce
    have "thread_ok S pval C0 n W s' (src', l') (threads s ! u)"
      using part_inv_thread [OF inv u u'] tasks_ok_within [OF ok u u'] mem lens
      by (elim thread_ok_frame) (auto simp: s'_def)
    then show ?thesis using u' t lens by (cases "u = t") (auto simp: s'_def)
  qed
  moreover have "sums_ok S n tasks C0 W s'"
    using inv reserved_keep [of t s PDone] t lens by (auto simp: part_inv_def sums_ok_def s'_def)
  moreover have "shape_ok B n tasks A0 C0 s'"
    using inv cell lb res(3) cur by (auto simp: part_inv_def shape_ok_def s'_def)
  moreover have pl: "pending_left s' p" if "pending_left s p" for p
    using pending_left_upd [of t s s' _ p] that t lens by (auto simp: s'_def)
  moreover have pr: "pending_right tasks s' p" if "pending_right tasks s p" "\<not> (ri \<le> p \<and> p < ri + ?nr)" for p
    using pending_right_upd [of t s s' _ tasks p] that t lens by (auto simp: s'_def)
  moreover have "cells_ok B pval n tasks W s'"
  proof (rule cells_ok_write)
    show "cells_ok B pval n tasks W s" using inv by (simp add: part_inv_def)
    show "next_left_index s' = next_left_index s" "next_right_index s' = next_right_index s"
      by (simp_all add: s'_def)
    show "next_left_index s \<le> n" using cur by simp
    fix p assume "p < n"
    then show "par_base s' ! (B + p) = W p \<or> (par_base s' ! (B + p) = par_base s ! (B + p)
      \<and> (pending_left s p \<longrightarrow> pending_left s' p) \<and> (pending_right tasks s p \<longrightarrow> pending_right tasks s' p))"
      using cellW [of p] pl [of p] pr [of p] by (cases "ri \<le> p \<and> p < ri + ?nr") (simp_all add: s'_def)
  qed
  ultimately have "part_inv B S pval n tasks A0 C0 W s'" by (simp add: part_inv_def)
  moreover have "partition_thread B S pval tasks t s = Some s'"
    using t win res mem cur lens by (simp add: partition_thread_def s'_def bcopy_def b_def add.assoc)
  ultimately show ?thesis using that by (auto simp: s'_def)
qed

section \<open>All schedules\<close>

definition par_inv ::
  "nat \<Rightarrow> nat \<Rightarrow> data_t \<Rightarrow> nat \<Rightarrow> (nat \<times> nat) list \<Rightarrow> data_t list \<Rightarrow> data_t list \<Rightarrow> partition_t \<Rightarrow> bool" where
  "par_inv B S pval n tasks A0 C0 s \<longleftrightarrow>
     tasks_ok n tasks \<and> S + n \<le> length C0 \<and> B + n \<le> length A0
     \<and> (\<exists>W. part_inv B S pval n tasks A0 C0 W s)"

fun phase_work :: "pthread \<Rightarrow> nat" where
  "phase_work PStart = 4"
| "phase_work (PSwept _) = 3"
| "phase_work (PReserved _ _ _) = 2"
| "phase_work (PCopied _ _ _) = 1"
| "phase_work PDone = 0"

definition part_work :: "nat \<Rightarrow> partition_t \<Rightarrow> nat" where
  "part_work t s = (if t < length (threads s) then phase_work (threads s ! t) else 0)"

lemma partition_thread_step:
  assumes inv: "par_inv B S pval n tasks A0 C0 s"
  obtains s' ph where "partition_thread B S pval tasks t s = Some s'" "par_inv B S pval n tasks A0 C0 s'"
    "threads s' = (threads s)[t := ph]" "t < length tasks \<Longrightarrow> phase_work ph = phase_work (threads s ! t) - 1"
proof -
  have ok: "tasks_ok n tasks" and mem: "S + n \<le> length C0" "B + n \<le> length A0"
    using inv by (auto simp: par_inv_def)
  obtain W where W: "part_inv B S pval n tasks A0 C0 W s" using inv by (auto simp: par_inv_def)
  have pack: "par_inv B S pval n tasks A0 C0 s'" if "part_inv B S pval n tasks A0 C0 W' s'" for s' W'
    using that ok mem by (auto simp: par_inv_def)
  show ?thesis
  proof (cases "t < length tasks")
    case False
    then show ?thesis
      using that [of s "threads s ! t"] inv part_inv_lengths [OF W] by (simp add: partition_thread_def)
  next
    case True
    obtain src l where t: "tasks ! t = (src, l)" by fastforce
    show ?thesis
    proof (cases "threads s ! t")
      case PStart
      show ?thesis using part_step_sweep [OF W ok mem(1) True t PStart] pack that PStart
        by (metis phase_work.simps(1,2) diff_Suc_1 eval_nat_numeral(2) semiring_norm(26,27,28))
    next
      case (PSwept nl)
      show ?thesis using part_step_reserve [OF W ok mem(1) True t PSwept] pack that PSwept
        by (metis phase_work.simps(2,3) diff_Suc_1 eval_nat_numeral(3) numeral_2_eq_2)
    next
      case (PReserved nl li ri)
      show ?thesis using part_step_copy_left [OF W ok mem True t PReserved] pack that PReserved
        by (metis phase_work.simps(3,4) diff_Suc_1 numeral_2_eq_2 One_nat_def)
    next
      case (PCopied nl li ri)
      show ?thesis using part_step_copy_right [OF W ok mem True t PCopied] pack that PCopied
        by (metis phase_work.simps(4,5) diff_self_eq_0)
    next
      case PDone
      then show ?thesis
        using that [of s PDone] inv True t list_update_id [of "threads s" t]
        by (simp add: partition_thread_def)
    qed
  qed
qed

lemma par_inv_threads: "par_inv B S pval n tasks A0 C0 s \<Longrightarrow> length (threads s) = length tasks"
  using part_inv_lengths by (auto simp: par_inv_def)

interpretation par: scheduled "partition_thread B S pval tasks" "par_inv B S pval n tasks A0 C0" part_work
  for B S pval n tasks A0 C0
proof
  fix s t assume inv: "par_inv B S pval n tasks A0 C0 s"
  show "\<exists>s'. partition_thread B S pval tasks t s = Some s' \<and> par_inv B S pval n tasks A0 C0 s'"
    using partition_thread_step [OF inv] by metis
  fix s' u assume st: "partition_thread B S pval tasks t s = Some s'"
  obtain ph where ph: "threads s' = (threads s)[t := ph]"
    "t < length tasks \<Longrightarrow> phase_work ph = phase_work (threads s ! t) - 1"
    using partition_thread_step [OF inv, of t] st by (metis option.inject)
  show "part_work t s' = part_work t s - 1"
    using ph par_inv_threads [OF inv] by (auto simp: part_work_def)
  show "part_work u s' = part_work u s" if "u \<noteq> t"
    using ph that by (auto simp: part_work_def)
qed

text \<open>When all threads have returned, the window holds the ghost values.\<close>

lemma part_inv_final:
  assumes inv: "part_inv B S pval n tasks A0 C0 W s" and ok: "tasks_ok n tasks" and mem: "B + n \<le> length A0"
    and fin: "\<And>t. t < length tasks \<Longrightarrow> threads s ! t = PDone"
  defines "k \<equiv> next_left_index s"
  shows "k \<le> n" "seg (par_base s) B n = map W [0..<n]"
    "\<And>p. p < k \<Longrightarrow> W p \<le> pval" "\<And>p. k \<le> p \<Longrightarrow> p < n \<Longrightarrow> pval \<le> W p"
    "mset (map W [0..<n]) = (\<Sum>t < length tasks. mset (seg C0 (S + fst (tasks ! t)) (snd (tasks ! t))))"
proof -
  note lens = part_inv_lengths [OF inv]
  have "reserved_size tasks (threads s) = n"
    using fin ok by (simp add: reserved_size_def tasks_ok_def)
  then have kr: "next_right_index s = k" "k \<le> n"
    using inv by (auto simp: part_inv_def sums_ok_def shape_ok_def k_def)
  have none: "\<not> pending_left s p" "\<not> pending_right tasks s p" for p
    using fin lens by (auto simp: pending_left_def pending_right_def)
  show "k \<le> n" by (rule kr(2))
  show W: "W p \<le> pval" if "p < k" for p using inv that by (auto simp: part_inv_def cells_ok_def k_def)
  show "pval \<le> W p" if "k \<le> p" "p < n" for p using inv that kr by (auto simp: part_inv_def cells_ok_def)
  have cell: "par_base s ! (B + p) = W p" if "p < n" for p
    using inv that kr none by (cases "p < k") (auto simp: part_inv_def cells_ok_def k_def)
  show "seg (par_base s) B n = map W [0..<n]"
    using cell mem lens by (intro nth_equalityI) (auto simp: length_seg seg_nth)
  have "[0..<n] = [0..<k] @ [k..<n]"
    using upt_add_eq_append [of 0 k "n - k"] kr(2) by simp
  then have "mset (map W [0..<n]) = mset (map W [0..<k]) + mset (map W [k..<n])"
    by (metis map_append mset_append)
  also have "\<dots> = reserved_mset S C0 tasks (threads s)"
    using inv kr by (auto simp: part_inv_def sums_ok_def k_def)
  finally show "mset (map W [0..<n]) = (\<Sum>t < length tasks. mset (seg C0 (S + fst (tasks ! t)) (snd (tasks ! t))))"
    using fin by (simp add: reserved_mset_def)
qed

lemma blocks_tasks_ok:
  assumes "0 < nblock" "nblock * npb \<le> n"
  shows "tasks_ok n (blocks n nblock npb)"
proof -
  let ?bs = "blocks n nblock npb"
  have within: "fst (?bs ! t) + snd (?bs ! t) \<le> n" if "t < nblock" for t
    using blocks_within [OF assms(2) that] by (cases "?bs ! t") auto
  have lt: "fst (?bs ! t) + snd (?bs ! t) \<le> fst (?bs ! u)" if "t < u" "u < nblock" for t u
    using blocks_disjoint [of t nblock u n npb] that by (cases "?bs ! t"; cases "?bs ! u") auto
  have "n = length (concat (map (\<lambda>(s, l). seg (replicate n ()) (0 + s) l) ?bs))"
    using blocks_cover [OF assms, of 0 "replicate n ()"] by (simp add: seg_def)
  also have "\<dots> = (\<Sum>t < nblock. length (seg (replicate n ()) (fst (?bs ! t)) (snd (?bs ! t))))"
    by (simp add: length_concat sum_list_sum_nth lessThan_atLeast0 case_prod_unfold)
  also have "\<dots> = (\<Sum>t < nblock. snd (?bs ! t))"
    using within by (intro sum.cong) (auto simp: length_seg)
  finally show ?thesis
    using within lt by (auto simp: tasks_ok_def) (metis linorder_neqE_nat)
qed

lemma blocks_mset:
  assumes "0 < nblock" "nblock * npb \<le> n" "lo + n \<le> length a"
  shows "(\<Sum>t < nblock. mset (seg a (lo + fst (blocks n nblock npb ! t)) (snd (blocks n nblock npb ! t))))
       = mset (seg a lo n)"
  using blocks_cover [OF assms]
  by (simp add: mset_concat sum_list_sum_nth lessThan_atLeast0 case_prod_unfold flip: blocks_cover [OF assms])

text \<open>The partition threads, run to completion under any schedule.\<close>

lemma partition_threads_spec:
  assumes nb: "0 < nblock" "nblock * npb \<le> n" and mem: "B + n \<le> length base" "S + n \<le> length scratch"
    and tasks: "tasks = blocks n nblock npb"
  obtains s m1 m2 where
    "run_sched (partition_thread B S pval tasks) (sched @ join_all (length tasks) 4)
       (init_partition base n scratch (length tasks)) = Some s"
    "next_left_index s = length m1" "par_base s = take B base @ m1 @ m2 @ drop (B + n) base"
    "mset (m1 @ m2) = mset (seg scratch S n)" "\<forall>x \<in> set m1. x \<le> pval" "\<forall>x \<in> set m2. pval \<le> x"
    "length (par_scratch s) = length scratch"
proof -
  let ?s0 = "init_partition base n scratch (length tasks)"
  have ok: "tasks_ok n tasks" using blocks_tasks_ok [OF nb] by (simp add: tasks)
  have "part_inv B S pval n tasks base scratch W ?s0" for W
    by (auto simp: part_inv_def shape_ok_def sums_ok_def cells_ok_def init_partition_def
        reserved_size_def reserved_mset_def split: prod.splits)
      (metis thread_ok.simps(1) surj_pair partition_t.select_convs(2))
  then have init: "par_inv B S pval n tasks base scratch ?s0" using ok mem by (auto simp: par_inv_def)
  obtain s where s: "run_sched (partition_thread B S pval tasks) (sched @ join_all (length tasks) 4) ?s0 = Some s"
    "par_inv B S pval n tasks base scratch s" "\<And>t. t < length tasks \<Longrightarrow> part_work t s = 0"
    using par.join_finishes [OF init, of "length tasks" 4 sched] by (auto simp: part_work_def init_partition_def)
  obtain W where W: "part_inv B S pval n tasks base scratch W s" using s(2) by (auto simp: par_inv_def)
  have "threads s ! t = PDone" if "t < length tasks" for t
    using s(3) [OF that] that par_inv_threads [OF s(2)] by (cases "threads s ! t") (auto simp: part_work_def)
  note final = part_inv_final [OF W ok mem(1) this]
  let ?k = "next_left_index s" and ?w = "map W [0..<n]"
  have "par_base s = take B base @ seg (par_base s) B n @ drop (B + n) base"
    using W mem by (intro frame_window) (auto simp: part_inv_def shape_ok_def)
  then have "par_base s = take B base @ take ?k ?w @ drop ?k ?w @ drop (B + n) base"
    using final(2) by (simp flip: append_assoc)
  moreover have "mset (take ?k ?w @ drop ?k ?w) = mset (seg scratch S n)"
    using final(5) blocks_mset [OF nb mem(2)] by (simp add: tasks)
  moreover have "\<forall>x \<in> set (take ?k ?w). x \<le> pval" "\<forall>x \<in> set (drop ?k ?w). pval \<le> x"
    using final(1,3,4) by (auto simp: take_map drop_map)
  ultimately show ?thesis
    using that [OF s(1), of "take ?k ?w" "drop ?k ?w"] final(1) part_inv_lengths [OF W] by simp
qed

text \<open>
  \<open>partition_parallel\<close> has the contract of \<open>partition_serial\<close>, under every schedule of
  its copy threads and of its partition threads.
\<close>

lemma partition_parallel_split:
  assumes n: "2 \<le> length m" "length m + block_size < 2 ^ 31" "0 < block_size"
    and sc: "S + length m \<le> length scratch"
  obtains m1 m2 p scratch' where
    "partition_parallel copy_sched sched (xs @ m @ ys) (length xs) (length m) scratch S block_size
       = Some (length m1, xs @ m1 @ p # m2 @ ys, scratch')"
    "mset (m1 @ p # m2) = mset m" "\<forall>x \<in> set m1. x \<le> p" "\<forall>x \<in> set m2. p \<le> x"
    "length scratch' = length scratch"
proof -
  let ?n = "length m - 1"
  obtain u p where up: "rd (xs @ m @ ys) (pivot (int (length xs)) (int (length m))) = Some p"
    "swap (xs @ m @ ys) (pivot (int (length xs)) (int (length m))) (int (length xs) + int (length m) - 1)
       = Some (xs @ u @ p # ys)" "mset (u @ [p]) = mset m" "length u + 1 = length m"
    using pivot_to_end [of m xs ys] n(1) by force
  define sc1 where "sc1 = blit scratch S (seg (xs @ u @ p # ys) (length xs) ?n)"
  have su: "seg (xs @ u @ p # ys) (length xs) ?n = u"
    using up(4) by (intro seg_append_mid) auto
  have dcopy: "dcopy_parallel copy_sched (xs @ u @ p # ys) (length xs) scratch S ?n block_size = Some sc1"
    unfolding sc1_def using n sc up(4) by (intro dcopy_parallel_copies) auto
  have "?n = length u" using up(4) by simp
  then have sc1: "length sc1 = length scratch" "seg sc1 S ?n = u"
    unfolding sc1_def su using sc up(4) by (auto simp: mem_simps)
  define nblock where "nblock = (length m + block_size - 2) div block_size"
  define tasks where "tasks = blocks ?n nblock (?n div nblock)"
  have nb: "0 < nblock" "nblock * (?n div nblock) \<le> ?n"
    using n by (simp_all add: nblock_def div_greater_zero_iff)
  have "nblock \<le> length m + block_size - 2" unfolding nblock_def by (rule div_le_dividend)
  then have ti: "to_int ((length m + block_size - 2) div block_size) = int nblock"
    using n(2) unfolding nblock_def [symmetric] by (intro to_int_small) linarith
  obtain s m1 m2 where s: "run_sched (partition_thread (length xs) S p tasks) (sched @ join_all (length tasks) 4)
       (init_partition (xs @ u @ p # ys) ?n sc1 (length tasks)) = Some s"
    "next_left_index s = length m1"
    "par_base s = take (length xs) (xs @ u @ p # ys) @ m1 @ m2 @ drop (length xs + ?n) (xs @ u @ p # ys)"
    "mset (m1 @ m2) = mset (seg sc1 S ?n)" "\<forall>x \<in> set m1. x \<le> p" "\<forall>x \<in> set m2. p \<le> x"
    "length (par_scratch s) = length sc1"
    by (rule partition_threads_spec [OF nb _ _ tasks_def, of "length xs" "xs @ u @ p # ys" S sc1 p sched])
      (use up(4) sc sc1 in auto)
  have base: "par_base s = xs @ m1 @ m2 @ p # ys" using s(3) up(4) by simp
  obtain m2' where bk: "swap (xs @ m1 @ m2 @ p # ys) (int (length xs + length m1))
      (int (length xs + length m1 + length m2)) = Some (xs @ m1 @ p # m2' @ ys)" "mset m2' = mset m2"
    by (rule swap_pivot_back)
  have lu: "length u = length m1 + length m2" using s(4) sc1(2) by (metis length_append mset_eq_length)
  have e: "int (length xs + length m1 + length m2) = int (length xs) + int (length m) - 1"
    using up(4) lu by auto
  have "partition_parallel copy_sched sched (xs @ m @ ys) (length xs) (length m) scratch S block_size
       = Some (length m1, xs @ m1 @ p # m2' @ ys, par_scratch s)"
    using up(1,2) dcopy s(1,2) bk(1) unfolding e
    by (simp add: partition_parallel_def ti base tasks_def Let_def)
  moreover have "mset (m1 @ p # m2') = mset m" using up(3) s(4) sc1(2) bk(2) by simp
  moreover have "\<forall>x \<in> set m2'. p \<le> x" using s(6) mset_eq_setD [OF bk(2)] by simp
  ultimately show ?thesis using that s(5,7) sc1(1) by metis
qed

section \<open>Properties\<close>

text \<open>
  C2 (partition_parallel). Whatever the interleaving of the copy tasks and of the partition
  threads, including the order in which the threads claim their target ranges from the
  shared counters, the parallel partition keeps the contract of the serial one: a
  permutation of the range around a pivot, nothing outside the range changed.
\<close>

theorem partition_parallel_partitions:
  assumes "2 \<le> nele" "nele + block_size < 2 ^ 31" "0 < block_size"
    and "base + nele \<le> length a" "S + nele \<le> length scratch"
  shows "\<exists>k b sc. partition_parallel copy_sched sched a base nele scratch S block_size = Some (k, b, sc)
    \<and> k < nele \<and> length b = length a \<and> mset (seg b base nele) = mset (seg a base nele)
    \<and> (\<forall>x \<in> set (seg b base k). x \<le> b ! (base + k))
    \<and> (\<forall>x \<in> set (seg b (base + k + 1) (nele - k - 1)). b ! (base + k) \<le> x)
    \<and> take base b = take base a \<and> drop (base + nele) b = drop (base + nele) a"
proof -
  let ?m = "seg a base nele" and ?xs = "take base a" and ?ys = "drop (base + nele) a"
  have len: "length ?m = nele" "length ?xs = base" using assms by (auto simp: mem_simps)
  have a: "?xs @ ?m @ ?ys = a" using take_seg_drop [OF assms(4)] by simp
  obtain m1 m2 p sc where
    part: "partition_parallel copy_sched sched (?xs @ ?m @ ?ys) (length ?xs) (length ?m) scratch S block_size
       = Some (length m1, ?xs @ m1 @ p # m2 @ ?ys, sc)"
    and split: "mset (m1 @ p # m2) = mset ?m" "\<forall>x \<in> set m1. x \<le> p" "\<forall>x \<in> set m2. p \<le> x"
    by (rule partition_parallel_split [where xs = ?xs and m = ?m and ys = ?ys and S = S and scratch = scratch
          and block_size = block_size and copy_sched = copy_sched and sched = sched])
      (use assms len in auto)
  let ?b = "?xs @ m1 @ p # m2 @ ?ys"
  have lm: "nele = length m1 + length m2 + 1" using mset_eq_length [OF split(1)] len by simp
  note segs = split_at_pivot [OF len(2) lm, of p ?ys]
  show ?thesis
    using part split segs lm len assms(4) unfolding a len
    by (intro exI [of _ "length m1"] exI [of _ ?b] exI [of _ sc]) simp
qed

theorem partition_parallel_partitions_witness:
  "(2 :: nat) \<le> 4 \<and> (4 :: nat) + 2 < 2 ^ 31 \<and>
   (\<exists>k b sc. partition_parallel [1, 0] [1, 0, 0, 1] [4, 2, 8, 3 :: data_t] 0 4 [0, 0, 0, 0] 0 2 = Some (k, b, sc)
      \<and> k < 4 \<and> mset (seg b 0 4) = mset [4, 2, 8, 3])"
  using partition_parallel_partitions [of 4 2 0 "[4, 2, 8, 3]" 0 "[0, 0, 0, 0]" "[1, 0]" "[1, 0, 0, 1]"]
  by (auto simp: seg_def)

end
