(* ===== verification/Tqsort.thy ===== *)
theory Tqsort
  imports Partition_Par
begin

text \<open>
  The multi-threaded quicksort \<open>tqsort\<close> of \<open>pqsort.c\<close>: the cut-over sizes computed by
  \<open>init_task\<close>, the choice between serial and parallel partitioning, \<open>sort_thread\<close> and
  \<open>tqsort_helper\<close>, which either sorts serially or spawns a new task.

  The pending sort tasks are a list; a schedule says which of them runs next (and with
  which interleavings its own copy and partition threads run).  Sort tasks work on
  disjoint ranges of both arrays, so each is one step.  After an arbitrary schedule,
  \<open>join_tasks\<close> waits for the remaining tasks, the oldest first.
\<close>

section \<open>Definitions\<close>

record tuning =
  serial_sort_fraction :: nat
  serial_partition_fraction :: nat
  use_qsort_lib :: bool
  nele_max_sort_serial :: nat
  nele_max_partition_serial :: nat

definition init_task :: "tuning \<Rightarrow> nat \<Rightarrow> tuning" where
  "init_task c nele = c\<lparr>
     nele_max_sort_serial :=
       (if 1 < serial_sort_fraction c
        then (let k = nele div serial_sort_fraction c in if k < 2 then 2 else k) else nele),
     nele_max_partition_serial :=
       (if 1 < serial_partition_fraction c
        then (let k = nele div serial_partition_fraction c in if k < 2 then 2 else k) else nele)\<rparr>"

text \<open>The library's \<open>qsort\<close> with a comparison function, as an insertion sort.\<close>

fun insert_by :: "('a \<Rightarrow> 'a \<Rightarrow> int) \<Rightarrow> 'a \<Rightarrow> 'a list \<Rightarrow> 'a list" where
  "insert_by cmp x [] = [x]"
| "insert_by cmp x (y # ys) = (if cmp x y \<le> 0 then x # y # ys else y # insert_by cmp x ys)"

definition qsort_by :: "('a \<Rightarrow> 'a \<Rightarrow> int) \<Rightarrow> 'a list \<Rightarrow> 'a list" where
  "qsort_by cmp xs = foldr (insert_by cmp) xs []"

definition qsort_lib :: "data_t list \<Rightarrow> nat \<Rightarrow> nat \<Rightarrow> data_t list option" where
  "qsort_lib a base nele =
     (if base + nele \<le> length a then Some (blit a base (qsort_by dcomp (seg a base nele))) else None)"

definition partition_c ::
  "tuning \<Rightarrow> nat list \<Rightarrow> nat list \<Rightarrow> data_t list \<Rightarrow> nat \<Rightarrow> nat \<Rightarrow> data_t list \<Rightarrow> nat
   \<Rightarrow> (nat \<times> data_t list \<times> data_t list) option" where
  "partition_c c copy_sched sched a base nele scratch scratch_base =
     (if nele \<le> nele_max_partition_serial c
      then do { (m, a') \<leftarrow> partition_serial a (int base) (int nele); Some (nat m, a', scratch) }
      else partition_parallel copy_sched sched a base nele scratch scratch_base (nele_max_partition_serial c))"

record sort_task_t =
  st_base :: nat
  st_nele :: nat
  st_scratch :: nat

record tq_state =
  tq_base :: "data_t list"
  tq_scratch :: "data_t list"
  tq_pending :: "sort_task_t list"

definition tqsort_helper :: "tuning \<Rightarrow> nat \<Rightarrow> nat \<Rightarrow> nat \<Rightarrow> tq_state \<Rightarrow> tq_state option" where
  "tqsort_helper c base nele scratch_base s =
     (if nele \<le> nele_max_sort_serial c
      then do { a \<leftarrow> (if use_qsort_lib c then qsort_lib (tq_base s) base nele
                       else qsort_serial (tq_base s) (int base) (int nele));
                Some (s\<lparr>tq_base := a\<rparr>) }
      else Some (s\<lparr>tq_pending := tq_pending s @
                 [\<lparr>st_base = base, st_nele = nele, st_scratch = scratch_base\<rparr>]\<rparr>))"

definition sort_thread ::
  "tuning \<Rightarrow> nat list \<Rightarrow> nat list \<Rightarrow> sort_task_t \<Rightarrow> tq_state \<Rightarrow> tq_state option" where
  "sort_thread c copy_sched sched t s = (let base = st_base t; nele = st_nele t; scratch_base = st_scratch t in
     do {
       (m, a, sc) \<leftarrow> partition_c c copy_sched sched (tq_base s) base nele (tq_scratch s) scratch_base;
       let s1 = s\<lparr>tq_base := a, tq_scratch := sc\<rparr>;
       s2 \<leftarrow> (if 1 < m then tqsort_helper c base m scratch_base s1 else Some s1);
       (if m + 1 < nele - 1 then tqsort_helper c (base + m + 1) (nele - m - 1) (scratch_base + m + 1) s2
        else Some s2) })"

text \<open>A schedule entry: which pending task runs, and the schedules of its own threads.\<close>

type_synonym tq_sched = "(nat \<times> nat list \<times> nat list) list"

fun run_tasks :: "tuning \<Rightarrow> tq_sched \<Rightarrow> tq_state \<Rightarrow> tq_state option" where
  "run_tasks c [] s = Some s"
| "run_tasks c ((i, copy_sched, sched) # es) s =
     (if i < length (tq_pending s)
      then do { s' \<leftarrow> sort_thread c copy_sched sched (tq_pending s ! i)
                        (s\<lparr>tq_pending := take i (tq_pending s) @ drop (Suc i) (tq_pending s)\<rparr>);
                run_tasks c es s' }
      else run_tasks c es s)"

definition tqsort ::
  "tuning \<Rightarrow> tq_sched \<Rightarrow> data_t list \<Rightarrow> nat \<Rightarrow> nat \<Rightarrow> data_t list \<Rightarrow> nat \<Rightarrow> tq_state option" where
  "tqsort c es a base nele scratch scratch_base = do {
     let c1 = init_task c nele;
     s \<leftarrow> tqsort_helper c1 base nele scratch_base
            \<lparr>tq_base = a, tq_scratch = scratch, tq_pending = []\<rparr>;
     run_tasks c1 (es @ replicate nele (0, [], [])) s }"

section \<open>The library sort\<close>

lemma insert_by_dcomp: "insert_by dcomp x ys = insort x ys"
proof (induction ys)
  case (Cons y ys)
  then show ?case using dcomp_order(3) [of x y] by (auto simp: not_less)
qed simp

lemma qsort_by_dcomp: "qsort_by dcomp xs = sort xs"
  by (induction xs) (simp_all add: qsort_by_def insert_by_dcomp)

section \<open>Sorting disjoint ranges\<close>

definition sort_range :: "nat \<Rightarrow> nat \<Rightarrow> 'a :: linorder list \<Rightarrow> 'a list" where
  "sort_range b n a = blit a b (sort (seg a b n))"

lemma length_sort_range [simp]: "b + n \<le> length a \<Longrightarrow> length (sort_range b n a) = length a"
  by (simp add: sort_range_def mem_simps)

lemma sort_range_window: "length xs = b \<Longrightarrow> length m = n \<Longrightarrow> sort_range b n (xs @ m @ ys) = xs @ sort m @ ys"
  by (simp add: sort_range_def mem_simps)

lemma sort_range_nth:
  "b + n \<le> length a \<Longrightarrow> i < length a \<Longrightarrow>
   sort_range b n a ! i = (if b \<le> i \<and> i < b + n then sort (seg a b n) ! (i - b) else a ! i)"
  by (simp add: sort_range_def blit_nth mem_simps)

lemma seg_sort_range_other:
  assumes "b + n \<le> length a" "b' + n' \<le> length a" "b + n \<le> b' \<or> b' + n' \<le> b"
  shows "seg (sort_range b n a) b' n' = seg a b' n'"
  using assms by (intro seg_eqI) (auto simp: sort_range_nth)

lemma sort_range_commute:
  assumes "b + n \<le> length a" "b' + n' \<le> length a" "b + n \<le> b' \<or> b' + n' \<le> b"
  shows "sort_range b n (sort_range b' n' a) = sort_range b' n' (sort_range b n a)"
proof (rule nth_equalityI)
  have dis: "b' + n' \<le> b \<or> b + n \<le> b'" using assms(3) by blast
  note s = seg_sort_range_other [OF assms] seg_sort_range_other [OF assms(2,1) dis]
  show "sort_range b n (sort_range b' n' a) ! i = sort_range b' n' (sort_range b n a) ! i"
    if "i < length (sort_range b n (sort_range b' n' a))" for i
    using that assms by (auto simp: sort_range_nth s)
qed (use assms in simp)

lemma sort_range_short: "b + n \<le> length a \<Longrightarrow> n \<le> 1 \<Longrightarrow> sort_range b n a = a"
proof -
  assume "b + n \<le> length a" "n \<le> 1"
  then have "sort (seg a b n) = seg a b n" by (intro sort_short) (simp add: mem_simps)
  then show ?thesis
    using take_seg_drop [OF \<open>b + n \<le> length a\<close>] \<open>b + n \<le> length a\<close>
    by (simp add: sort_range_def blit_def mem_simps)
qed

abbreviation sort_task :: "sort_task_t \<Rightarrow> data_t list \<Rightarrow> data_t list" where
  "sort_task t \<equiv> sort_range (st_base t) (st_nele t)"

abbreviation in_mem :: "nat \<Rightarrow> sort_task_t \<Rightarrow> bool" where
  "in_mem n t \<equiv> st_base t + st_nele t \<le> n"

definition disjoint_tasks :: "sort_task_t \<Rightarrow> sort_task_t \<Rightarrow> bool" where
  "disjoint_tasks t u \<longleftrightarrow> st_base t + st_nele t \<le> st_base u \<or> st_base u + st_nele u \<le> st_base t"

text \<open>The array once all pending tasks are done.\<close>

definition finish :: "sort_task_t list \<Rightarrow> data_t list \<Rightarrow> data_t list" where
  "finish ts a = fold sort_task ts a"

lemma finish_simps [simp]:
  "finish [] a = a" "finish (t # ts) a = finish ts (sort_task t a)"
  "finish (ts @ us) a = finish us (finish ts a)"
  by (simp_all add: finish_def)

lemma length_finish [simp]: "list_all (in_mem (length a)) ts \<Longrightarrow> length (finish ts a) = length a"
  by (induction ts arbitrary: a) auto

lemma finish_sort_task:
  assumes "list_all (in_mem (length a)) ts" "in_mem (length a) t" "list_all (disjoint_tasks t) ts"
  shows "finish ts (sort_task t a) = sort_task t (finish ts a)"
  using assms
proof (induction ts arbitrary: a)
  case (Cons u ts)
  have "sort_task u (sort_task t a) = sort_task t (sort_task u a)"
    using Cons.prems by (intro sort_range_commute) (auto simp: disjoint_tasks_def)
  then show ?case using Cons.IH [of "sort_task u a"] Cons.prems by simp
qed simp

lemma finish_commute:
  assumes "list_all (in_mem (length a)) ts" "list_all (in_mem (length a)) us"
    "\<forall>t \<in> set ts. \<forall>u \<in> set us. disjoint_tasks t u"
  shows "finish us (finish ts a) = finish ts (finish us a)"
  using assms
proof (induction ts arbitrary: a)
  case (Cons t ts)
  have "finish us (finish ts (sort_task t a)) = finish ts (finish us (sort_task t a))"
    using Cons.IH [of "sort_task t a"] Cons.prems by simp
  then show ?case using finish_sort_task [of a us t] Cons.prems by (simp add: list_all_iff)
qed simp

section \<open>Specification of the steps\<close>

definition helper_task :: "tuning \<Rightarrow> nat \<Rightarrow> nat \<Rightarrow> nat \<Rightarrow> sort_task_t list" where
  "helper_task c base nele sb =
     (if nele \<le> nele_max_sort_serial c then [] else [\<lparr>st_base = base, st_nele = nele, st_scratch = sb\<rparr>])"

lemma qsort_serial_range:
  assumes "base + nele \<le> length a"
  shows "qsort_serial a (int base) (int nele) = Some (sort_range base nele a)"
proof -
  have "qsort_serial (take base a @ seg a base nele @ drop (base + nele) a)
      (int (length (take base a))) (int (length (seg a base nele)))
    = Some (take base a @ sort (seg a base nele) @ drop (base + nele) a)"
    by (rule qsort_serial_window)
  then show ?thesis
    using assms take_seg_drop [OF assms] by (simp add: mem_simps sort_range_def blit_def min_absorb2)
qed

lemma qsort_lib_range: "base + nele \<le> length a \<Longrightarrow> qsort_lib a base nele = Some (sort_range base nele a)"
  by (simp add: qsort_lib_def qsort_by_dcomp sort_range_def)

text \<open>The helper sorts now or leaves a task that sorts the range.\<close>

lemma tqsort_helper_spec:
  assumes "base + nele \<le> length (tq_base s)"
  obtains s' where "tqsort_helper c base nele sb s = Some s'"
    "tq_pending s' = tq_pending s @ helper_task c base nele sb" "tq_scratch s' = tq_scratch s"
    "length (tq_base s') = length (tq_base s)"
    "finish (helper_task c base nele sb) (tq_base s') = sort_range base nele (tq_base s)"
    "nele \<le> nele_max_sort_serial c \<Longrightarrow> tq_base s' = sort_range base nele (tq_base s)"
    "\<not> nele \<le> nele_max_sort_serial c \<Longrightarrow> tq_base s' = tq_base s"
proof (cases "nele \<le> nele_max_sort_serial c")
  case True
  then show ?thesis
    using that [of "s\<lparr>tq_base := sort_range base nele (tq_base s)\<rparr>"] assms
    by (simp add: tqsort_helper_def helper_task_def qsort_serial_range qsort_lib_range)
next
  case False
  then show ?thesis
    using that [of "s\<lparr>tq_pending := tq_pending s @ [\<lparr>st_base = base, st_nele = nele, st_scratch = sb\<rparr>]\<rparr>"]
    by (simp add: tqsort_helper_def helper_task_def)
qed

text \<open>The guard of a recursive call only skips ranges of at most one element.\<close>

lemma guarded_helper_spec:
  assumes mem: "base + nele \<le> length (tq_base s)" and g: "\<not> g \<Longrightarrow> nele \<le> 1"
  obtains s' where "(if g then tqsort_helper c base nele sb s else Some s) = Some s'"
    "tq_pending s' = tq_pending s @ (if g then helper_task c base nele sb else [])"
    "tq_scratch s' = tq_scratch s" "length (tq_base s') = length (tq_base s)"
    "finish (if g then helper_task c base nele sb else []) (tq_base s') = sort_range base nele (tq_base s)"
proof (cases g)
  case True
  then show ?thesis using that tqsort_helper_spec [OF mem, of c sb] by auto
next
  case False
  then show ?thesis using that [of s] sort_range_short [OF mem g] by simp
qed

lemma partition_c_spec:
  assumes mem: "base + nele \<le> length a" "sb + nele \<le> length scratch"
    and n: "2 \<le> nele" "nele \<le> 2 ^ 30" "0 < nele_max_partition_serial c"
  obtains m1 p m2 sc where
    "partition_c c copy_sched sched a base nele scratch sb
       = Some (length m1, take base a @ m1 @ p # m2 @ drop (base + nele) a, sc)"
    "mset (m1 @ p # m2) = mset (seg a base nele)" "\<forall>x \<in> set m1. x \<le> p" "\<forall>x \<in> set m2. p \<le> x"
    "length sc = length scratch"
proof -
  let ?xs = "take base a" and ?m = "seg a base nele" and ?ys = "drop (base + nele) a"
  have a: "?xs @ ?m @ ?ys = a" using take_seg_drop [OF mem(1)] by simp
  have len: "length ?xs = base" "length ?m = nele" "?m \<noteq> []" using mem n by (auto simp: mem_simps seg_def)
  show ?thesis
  proof (cases "nele \<le> nele_max_partition_serial c")
    case True
    obtain m1 m2 p where "partition_serial (?xs @ ?m @ ?ys) (int (length ?xs)) (int (length ?m))
        = Some (int (length m1), ?xs @ m1 @ p # m2 @ ?ys)"
      and *: "mset (m1 @ p # m2) = mset ?m" "\<forall>x \<in> set m1. x \<le> p" "\<forall>x \<in> set m2. p \<le> x"
      by (rule partition_serial_split [OF len(3)])
    then have "partition_c c copy_sched sched a base nele scratch sb
        = Some (length m1, ?xs @ m1 @ p # m2 @ ?ys, scratch)"
      using True unfolding a len by (simp add: partition_c_def)
    then show ?thesis using that * by blast
  next
    case False
    then have bs: "nele + nele_max_partition_serial c < 2 ^ 31" using n(2) by simp
    obtain m1 m2 p sc where "partition_parallel copy_sched sched (?xs @ ?m @ ?ys) (length ?xs) (length ?m)
        scratch sb (nele_max_partition_serial c) = Some (length m1, ?xs @ m1 @ p # m2 @ ?ys, sc)"
      and *: "mset (m1 @ p # m2) = mset ?m" "\<forall>x \<in> set m1. x \<le> p" "\<forall>x \<in> set m2. p \<le> x"
        "length sc = length scratch"
      by (rule partition_parallel_split [where xs = ?xs and ys = ?ys and m = ?m and S = sb
            and block_size = "nele_max_partition_serial c" and scratch = scratch
            and copy_sched = copy_sched and sched = sched]) (use n bs mem len in auto)
    then have "partition_c c copy_sched sched a base nele scratch sb
        = Some (length m1, ?xs @ m1 @ p # m2 @ ?ys, sc)"
      using False unfolding a len by (simp add: partition_c_def)
    then show ?thesis using that * by blast
  qed
qed

lemma sort_range_halves:
  assumes split: "mset (m1 @ p # m2) = mset (seg a b n)" "\<forall>x \<in> set m1. x \<le> p" "\<forall>x \<in> set m2. p \<le> x"
    and mem: "b + n \<le> length a" and k: "k = length m1"
  shows "sort_range (b + k + 1) (n - k - 1) (sort_range b k (take b a @ m1 @ p # m2 @ drop (b + n) a))
       = sort_range b n a"
proof -
  have len: "n = length m1 + length m2 + 1" using mset_eq_length [OF split(1)] mem by (simp add: mem_simps)
  have "sort_range b k (take b a @ m1 @ p # m2 @ drop (b + n) a)
      = (take b a @ sort m1 @ [p]) @ m2 @ drop (b + n) a"
    using mem k sort_range_window [of "take b a" b m1 k "p # m2 @ drop (b + n) a"] by simp
  moreover have "sort_range (b + k + 1) (n - k - 1) ((take b a @ sort m1 @ [p]) @ m2 @ drop (b + n) a)
      = take b a @ (sort m1 @ p # sort m2) @ drop (b + n) a"
    using mem k len sort_range_window [of "take b a @ sort m1 @ [p]" "b + k + 1" m2 "n - k - 1" "drop (b + n) a"]
    by simp
  ultimately show ?thesis
    using sort_partition [OF split] mem by (simp add: sort_range_def blit_def mem_simps)
qed

definition task_ok :: "nat \<Rightarrow> nat \<Rightarrow> sort_task_t \<Rightarrow> bool" where
  "task_ok la ls t \<longleftrightarrow> st_base t + st_nele t \<le> la \<and> st_scratch t + st_nele t \<le> ls \<and> 2 \<le> st_nele t"

lemma helper_task_ok:
  "t \<in> set (helper_task c b n sb) \<Longrightarrow> st_base t = b \<and> st_nele t = n \<and> st_scratch t = sb"
  by (auto simp: helper_task_def split: if_splits)

lemma length_helper_task: "sum_list (map st_nele (helper_task c b n sb)) \<le> n"
  by (simp add: helper_task_def)

text \<open>
  One sort thread: its children lie in its range, are smaller and disjoint, and finishing
  them sorts the range of the task.
\<close>

lemma sort_thread_spec:
  assumes t: "task_ok (length (tq_base s)) (length (tq_scratch s)) t" "st_nele t \<le> 2 ^ 30"
    and c: "0 < nele_max_partition_serial c"
  obtains s' kids where "sort_thread c copy_sched sched t s = Some s'"
    "tq_pending s' = tq_pending s @ kids" "length (tq_scratch s') = length (tq_scratch s)"
    "length (tq_base s') = length (tq_base s)"
    "finish kids (tq_base s') = sort_task t (tq_base s)"
    "sum_list (map st_nele kids) < st_nele t" "sorted_wrt disjoint_tasks kids"
    "\<And>u. u \<in> set kids \<Longrightarrow> task_ok (length (tq_base s)) (length (tq_scratch s)) u
        \<and> st_base t \<le> st_base u \<and> st_base u + st_nele u \<le> st_base t + st_nele t"
proof -
  let ?b = "st_base t" and ?n = "st_nele t" and ?sb = "st_scratch t" and ?a = "tq_base s"
  have mem: "?b + ?n \<le> length ?a" "?sb + ?n \<le> length (tq_scratch s)" and n2: "2 \<le> ?n"
    using t by (auto simp: task_ok_def)
  obtain m1 p m2 sc where part: "partition_c c copy_sched sched ?a ?b ?n (tq_scratch s) ?sb
      = Some (length m1, take ?b ?a @ m1 @ p # m2 @ drop (?b + ?n) ?a, sc)"
    and split: "mset (m1 @ p # m2) = mset (seg ?a ?b ?n)" "\<forall>x \<in> set m1. x \<le> p" "\<forall>x \<in> set m2. p \<le> x"
    and sc: "length sc = length (tq_scratch s)"
    by (rule partition_c_spec [OF mem n2 t(2) c])
  define m a1 where "m = length m1" and "a1 = take ?b ?a @ m1 @ p # m2 @ drop (?b + ?n) ?a"
  have len: "?n = m + length m2 + 1" using mset_eq_length [OF split(1)] mem by (simp add: mem_simps m_def)
  have la: "length a1 = length ?a" using mem len by (simp add: a1_def m_def)
  define s1 where "s1 = s\<lparr>tq_base := a1, tq_scratch := sc\<rparr>"
  define c1 c2 where "c1 = (if 1 < m then helper_task c ?b m ?sb else [])"
    and "c2 = (if m + 1 < ?n - 1 then helper_task c (?b + m + 1) (?n - m - 1) (?sb + m + 1) else [])"
  obtain s2 where s2: "(if 1 < m then tqsort_helper c ?b m ?sb s1 else Some s1) = Some s2"
    "tq_pending s2 = tq_pending s1 @ c1" "tq_scratch s2 = sc" "length (tq_base s2) = length ?a"
    "finish c1 (tq_base s2) = sort_range ?b m a1"
  proof (rule guarded_helper_spec [of ?b m s1 "1 < m" c ?sb])
  qed (use la len mem in \<open>auto simp: s1_def c1_def\<close>)
  obtain s3 where s3: "(if m + 1 < ?n - 1 then tqsort_helper c (?b + m + 1) (?n - m - 1) (?sb + m + 1) s2
       else Some s2) = Some s3"
    "tq_pending s3 = tq_pending s2 @ c2" "tq_scratch s3 = sc" "length (tq_base s3) = length ?a"
    "finish c2 (tq_base s3) = sort_range (?b + m + 1) (?n - m - 1) (tq_base s2)"
  proof (rule guarded_helper_spec [of "?b + m + 1" "?n - m - 1" s2 "m + 1 < ?n - 1" c "?sb + m + 1"])
  qed (use s2 len mem in \<open>auto simp: c2_def\<close>)
  have kid: "task_ok (length ?a) (length (tq_scratch s)) u \<and> ?b \<le> st_base u \<and> st_base u + st_nele u \<le> ?b + ?n"
    if "u \<in> set (c1 @ c2)" for u
    using that len mem by (auto simp: c1_def c2_def task_ok_def split: if_splits dest!: helper_task_ok)
  have dis: "disjoint_tasks u v" if "u \<in> set c1" "v \<in> set c2" for u v
    using that by (auto simp: c1_def c2_def disjoint_tasks_def split: if_splits dest!: helper_task_ok)
  define r where "r = \<lparr>st_base = ?b + m + 1, st_nele = ?n - m - 1, st_scratch = ?sb + m + 1\<rparr>"
  have c12: "list_all (in_mem (length ?a)) c1" "list_all (in_mem (length ?a)) c2" "list_all (disjoint_tasks r) c1"
    using kid by (auto simp: list_all_iff task_ok_def c1_def r_def disjoint_tasks_def split: if_splits
        dest!: helper_task_ok)
  have "finish (c1 @ c2) (tq_base s3) = finish c1 (finish c2 (tq_base s3))"
    using finish_commute [of "tq_base s3" c1 c2] c12 dis s3(4) by simp
  also have "\<dots> = sort_task r (finish c1 (tq_base s2))"
    using finish_sort_task [of "tq_base s2" c1 r] c12 s2(4) s3(5) len mem by (simp add: r_def)
  also have "\<dots> = sort_task t ?a"
    using sort_range_halves [OF split mem(1) m_def] s2(5) by (simp add: r_def a1_def)
  finally have fin: "finish (c1 @ c2) (tq_base s3) = sort_task t ?a" .
  have "sum_list (map st_nele c1) \<le> m" "sum_list (map st_nele c2) \<le> ?n - m - 1"
    by (auto simp: c1_def c2_def length_helper_task)
  then have size: "sum_list (map st_nele (c1 @ c2)) < ?n" using len by simp
  have "length c1 \<le> 1" "length c2 \<le> 1" by (auto simp: c1_def c2_def helper_task_def)
  then have "sorted_wrt disjoint_tasks c1" "sorted_wrt disjoint_tasks c2" by (cases c1; cases c2; simp)+
  then have sw: "sorted_wrt disjoint_tasks (c1 @ c2)" using dis by (simp add: sorted_wrt_append)
  have "sort_thread c copy_sched sched t s = Some s3"
    unfolding sort_thread_def Let_def part [folded a1_def m_def]
    by (simp only: Option.bind.bind_lunit prod.case s1_def [symmetric] s2(1) s3(1))
  moreover have "tq_pending s3 = tq_pending s @ c1 @ c2" using s2(2) s3(2) by (simp add: s1_def)
  ultimately show ?thesis using that [of s3 "c1 @ c2"] fin size sw kid s3(3,4) sc by simp
qed

section \<open>All tasks, under every schedule\<close>

text \<open>
  The invariant of the task pool: the pending tasks lie in both arrays, are pairwise
  disjoint, and finishing them leads to the sorted range of the start array \<open>a0\<close>.
\<close>

definition pool_inv :: "data_t list \<Rightarrow> nat \<Rightarrow> tq_state \<Rightarrow> bool" where
  "pool_inv goal ls s \<longleftrightarrow> length (tq_scratch s) = ls \<and> length (tq_base s) = length goal
     \<and> list_all (\<lambda>t. task_ok (length goal) ls t \<and> st_nele t \<le> 2 ^ 30) (tq_pending s)
     \<and> sorted_wrt disjoint_tasks (tq_pending s) \<and> finish (tq_pending s) (tq_base s) = goal"

abbreviation pending_size :: "tq_state \<Rightarrow> nat" where
  "pending_size s \<equiv> sum_list (map st_nele (tq_pending s))"

lemma disjoint_tasks_sym: "disjoint_tasks t u \<longleftrightarrow> disjoint_tasks u t"
  by (auto simp: disjoint_tasks_def)

lemma disjoint_tasks_sub:
  "disjoint_tasks t v \<Longrightarrow> st_base t \<le> st_base u \<Longrightarrow> st_base u + st_nele u \<le> st_base t + st_nele t
   \<Longrightarrow> disjoint_tasks v u"
  by (auto simp: disjoint_tasks_def)

lemma run_one_task:
  assumes inv: "pool_inv goal ls s" and i: "i < length (tq_pending s)"
    and c: "0 < nele_max_partition_serial c"
  obtains s' where "sort_thread c copy_sched sched (tq_pending s ! i)
        (s\<lparr>tq_pending := take i (tq_pending s) @ drop (Suc i) (tq_pending s)\<rparr>) = Some s'"
    "pool_inv goal ls s'" "pending_size s' < pending_size s"
proof -
  define us t vs where "us = take i (tq_pending s)" and "t = tq_pending s ! i"
    and "vs = drop (Suc i) (tq_pending s)"
  have pend: "tq_pending s = us @ t # vs" using i id_take_nth_drop us_def t_def vs_def by blast
  let ?s = "s\<lparr>tq_pending := us @ vs\<rparr>"
  have ok: "task_ok (length goal) ls t" "st_nele t \<le> 2 ^ 30" "length (tq_scratch s) = ls"
    "length (tq_base s) = length goal" and fin: "finish (us @ t # vs) (tq_base s) = goal"
    and dis: "list_all (disjoint_tasks t) (us @ vs)" "sorted_wrt disjoint_tasks (us @ vs)"
    using inv unfolding pool_inv_def pend
    by (auto simp: sorted_wrt_append list_all_iff disjoint_tasks_sym)
  have rest: "list_all (\<lambda>t. task_ok (length goal) ls t \<and> st_nele t \<le> 2 ^ 30) (us @ vs)"
    using inv unfolding pool_inv_def pend by auto
  then have mem: "list_all (in_mem (length (tq_base s))) (us @ vs)"
    using ok(4) by (auto simp: list_all_iff task_ok_def)
  have tmem: "in_mem (length (tq_base s)) t" using ok by (simp add: task_ok_def)
  obtain s' kids where s': "sort_thread c copy_sched sched t ?s = Some s'"
    "tq_pending s' = us @ vs @ kids" "length (tq_scratch s') = ls" "length (tq_base s') = length goal"
    "finish kids (tq_base s') = sort_task t (tq_base s)"
    "sum_list (map st_nele kids) < st_nele t" "sorted_wrt disjoint_tasks kids"
    and kids: "\<And>u. u \<in> set kids \<Longrightarrow> task_ok (length goal) ls u
        \<and> st_base t \<le> st_base u \<and> st_base u + st_nele u \<le> st_base t + st_nele t"
    by (rule sort_thread_spec [of ?s t c copy_sched sched]) (use ok c in auto)
  have kid_small: "st_nele u \<le> 2 ^ 30" if "u \<in> set kids" for u
    using member_le_sum_list [of "st_nele u" "map st_nele kids"] that s'(6) ok(2) by simp
  have kdis: "disjoint_tasks v u" if "v \<in> set (us @ vs)" "u \<in> set kids" for u v
    using disjoint_tasks_sub kids [OF that(2)] dis(1) that(1) by (auto simp: list_all_iff)
  have kmem: "list_all (in_mem (length (tq_base s'))) kids"
    using kids s'(4) by (auto simp: list_all_iff task_ok_def)
  have "finish (us @ vs @ kids) (tq_base s') = finish (us @ vs) (finish kids (tq_base s'))"
    using finish_commute [of "tq_base s'" "us @ vs" kids] mem kmem kdis s'(4) ok(4) by simp
  also have "\<dots> = finish vs (sort_task t (finish us (tq_base s)))"
    using finish_sort_task [of "tq_base s" us t] mem dis tmem s'(5) by simp
  finally have "finish (us @ vs @ kids) (tq_base s') = goal" using fin by simp
  moreover have "sorted_wrt disjoint_tasks (us @ vs @ kids)"
    using s'(7) dis(2) kdis by (auto simp: sorted_wrt_append)
  moreover have "list_all (\<lambda>t. task_ok (length goal) ls t \<and> st_nele t \<le> 2 ^ 30) (us @ vs @ kids)"
    using rest kids kid_small unfolding list_all_iff by (metis Un_iff set_append)
  ultimately have "pool_inv goal ls s'" using s'(2,3,4) by (simp add: pool_inv_def)
  moreover have "pending_size s' < pending_size s" using s'(2,6) by (simp add: pend)
  ultimately show ?thesis using that s'(1) unfolding us_def t_def vs_def by blast
qed

lemma run_tasks_inv:
  assumes "pool_inv goal ls s" "0 < nele_max_partition_serial c"
  shows "\<exists>s'. run_tasks c es s = Some s' \<and> pool_inv goal ls s' \<and> pending_size s' \<le> pending_size s"
  using assms(1)
proof (induction es arbitrary: s)
  case (Cons e es)
  obtain i copy_sched sched where e: "e = (i, copy_sched, sched)" by (cases e)
  show ?case
  proof (cases "i < length (tq_pending s)")
    case True
    obtain s1 where "sort_thread c copy_sched sched (tq_pending s ! i)
        (s\<lparr>tq_pending := take i (tq_pending s) @ drop (Suc i) (tq_pending s)\<rparr>) = Some s1"
      "pool_inv goal ls s1" "pending_size s1 < pending_size s"
      by (rule run_one_task [OF Cons.prems True assms(2)])
    then show ?thesis using Cons.IH [of s1] True by (fastforce simp: e)
  next
    case False
    then show ?thesis using Cons by (simp add: e)
  qed
qed simp

text \<open>Waiting once per pending element empties the pool.\<close>

lemma run_tasks_drain:
  assumes "pool_inv goal ls s" "0 < nele_max_partition_serial c" "pending_size s \<le> k"
  shows "\<exists>s'. run_tasks c (replicate k (0, [], [])) s = Some s' \<and> pool_inv goal ls s' \<and> tq_pending s' = []"
  using assms(1,3)
proof (induction k arbitrary: s)
  case 0
  then have "tq_pending s = []" by (cases "tq_pending s") (auto simp: pool_inv_def task_ok_def)
  then show ?case using 0 by simp
next
  case (Suc k)
  show ?case
  proof (cases "tq_pending s = []")
    case True
    then show ?thesis using Suc.IH [of s] Suc.prems by simp
  next
    case False
    then have nonempty: "0 < length (tq_pending s)" by simp
    obtain s1 where "sort_thread c [] [] (tq_pending s ! 0)
        (s\<lparr>tq_pending := take 0 (tq_pending s) @ drop (Suc 0) (tq_pending s)\<rparr>) = Some s1"
      "pool_inv goal ls s1" "pending_size s1 < pending_size s"
      by (rule run_one_task [OF Suc.prems(1) nonempty assms(2)])
    then show ?thesis using Suc.IH [of s1] Suc.prems False by simp
  qed
qed

lemma run_tasks_append:
  "run_tasks c (es @ fs) s = do { s' \<leftarrow> run_tasks c es s; run_tasks c fs s' }"
proof (induction es arbitrary: s)
  case (Cons e es)
  obtain i cs sc where "e = (i, cs, sc)" by (cases e)
  then show ?case using Cons
    by (cases "sort_thread c cs sc (tq_pending s ! i)
          (s\<lparr>tq_pending := take i (tq_pending s) @ drop (Suc i) (tq_pending s)\<rparr>)") auto
qed simp

lemma init_task_positive: "0 < nele \<Longrightarrow> 0 < nele_max_partition_serial (init_task c nele)"
  by (simp add: init_task_def Let_def)

lemma init_task_sort_cut: "nele < 2 \<Longrightarrow> nele \<le> nele_max_sort_serial (init_task c nele)"
  by (simp add: init_task_def Let_def)

lemma tqsort_helper_pool:
  assumes mem: "base + nele \<le> length a" "sb + nele \<le> length scratch" "nele \<le> 2 ^ 30"
    and cut: "nele < 2 \<Longrightarrow> nele \<le> nele_max_sort_serial c"
  obtains s where "tqsort_helper c base nele sb \<lparr>tq_base = a, tq_scratch = scratch, tq_pending = []\<rparr> = Some s"
    "pool_inv (sort_range base nele a) (length scratch) s" "pending_size s \<le> nele"
proof -
  let ?s = "\<lparr>tq_base = a, tq_scratch = scratch, tq_pending = []\<rparr>"
  obtain s where s: "tqsort_helper c base nele sb ?s = Some s" "tq_pending s = helper_task c base nele sb"
    "tq_scratch s = scratch" "length (tq_base s) = length a"
    "finish (helper_task c base nele sb) (tq_base s) = sort_range base nele a"
    by (rule tqsort_helper_spec [of base nele ?s c sb]) (use mem in auto)
  have "sorted_wrt disjoint_tasks (helper_task c base nele sb)" by (simp add: helper_task_def)
  moreover have "list_all (\<lambda>t. task_ok (length a) (length scratch) t \<and> st_nele t \<le> 2 ^ 30)
      (helper_task c base nele sb)"
    using mem cut leI by (auto simp: helper_task_def task_ok_def)
  ultimately have "pool_inv (sort_range base nele a) (length scratch) s"
    using s mem(1) by (simp add: pool_inv_def)
  then show ?thesis using that s(1,2) length_helper_task by metis
qed

lemma tqsort_range:
  assumes mem: "base + nele \<le> length a" "sb + nele \<le> length scratch" "nele \<le> 2 ^ 30"
  shows "\<exists>s. tqsort c es a base nele scratch sb = Some s \<and> tq_pending s = []
           \<and> tq_base s = sort_range base nele a \<and> length (tq_scratch s) = length scratch"
proof -
  let ?c = "init_task c nele" and ?goal = "sort_range base nele a"
  obtain s where s: "tqsort_helper ?c base nele sb \<lparr>tq_base = a, tq_scratch = scratch, tq_pending = []\<rparr> = Some s"
    "pool_inv ?goal (length scratch) s" "pending_size s \<le> nele"
    by (rule tqsort_helper_pool [OF mem init_task_sort_cut])
  show ?thesis
  proof (cases "nele = 0")
    case True
    then have "tq_pending s = []" "nele_max_sort_serial ?c \<ge> nele"
      using s(2,3) by (cases "tq_pending s"; auto simp: pool_inv_def task_ok_def)+
    moreover have "run_tasks ?c es s = Some s" using \<open>tq_pending s = []\<close> by (induction es) auto
    ultimately show ?thesis using s True by (simp add: tqsort_def pool_inv_def run_tasks_append)
  next
    case False
    then have pos: "0 < nele_max_partition_serial ?c" by (simp add: init_task_positive)
    obtain s1 where s1: "run_tasks ?c es s = Some s1" "pool_inv ?goal (length scratch) s1"
      "pending_size s1 \<le> nele"
      using run_tasks_inv [OF s(2) pos, of es] s(3) by auto
    obtain s2 where "run_tasks ?c (replicate nele (0, [], [])) s1 = Some s2"
      "pool_inv ?goal (length scratch) s2" "tq_pending s2 = []"
      using run_tasks_drain [OF s1(2) pos s1(3)] by blast
    then show ?thesis
      using s(1) s1(1) by (simp add: tqsort_def Let_def run_tasks_append pool_inv_def)
  qed
qed

section \<open>Properties\<close>



end
