(* ===== verification/Taskq.thy ===== *)
theory Taskq
  imports Prelude
begin

text \<open>
  The task queue of \<open>taskq.c\<close>: a singly linked list of thread identifiers in a heap of
  cells with a head and a tail pointer and the counters of active tasks.  The pointer
  operations refine an abstract FIFO queue; on top of them a step relation interleaves
  the spawning of tasks (by the creator or by a running task), the exits of tasks and the
  actions of the thread in \<open>join_tasks\<close>, one step per critical section of the queue mutex.
  \<open>None\<close> as a pointer is \<open>NULL\<close>; dereferencing a freed or absent cell is \<open>None\<close> as a result.
\<close>

section \<open>The queue in memory\<close>

type_synonym addr = nat
type_synonym tid = nat

record task_list_t =
  tl_tid :: tid
  tl_next :: "addr option"

record task_queue_t =
  active_count :: nat
  max_active_count :: nat
  head :: "addr option"
  tail :: "addr option"
  cells :: "addr \<rightharpoonup> task_list_t"

definition new_task_queue :: task_queue_t where
  "new_task_queue = \<lparr>active_count = 0, max_active_count = 0, head = None, tail = None, cells = Map.empty\<rparr>"

text \<open>
  The critical section of \<open>spawn_task\<close>: \<open>ele\<close> is the cell \<open>Malloc\<close> returned and \<open>t\<close> the
  thread that \<open>Pthread_create\<close> stores in it.
\<close>

definition spawn_task :: "addr \<Rightarrow> tid \<Rightarrow> task_queue_t \<Rightarrow> task_queue_t option" where
  "spawn_task ele t tq = do {
     let h0 = (cells tq)(ele \<mapsto> \<lparr>tl_tid = t, tl_next = None\<rparr>);
     h1 \<leftarrow> (case tail tq of
              Some p \<Rightarrow> do { c \<leftarrow> h0 p; Some (h0(p \<mapsto> c\<lparr>tl_next := Some ele\<rparr>)) }
            | None \<Rightarrow> Some h0);
     Some (tq\<lparr>head := (case tail tq of Some _ \<Rightarrow> head tq | None \<Rightarrow> Some ele), tail := Some ele, cells := h1,
              active_count := active_count tq + 1,
              max_active_count := (if max_active_count tq < active_count tq + 1
                                   then active_count tq + 1 else max_active_count tq)\<rparr>) }"

text \<open>
  The critical section of one round of \<open>join_tasks\<close>: either the queue is empty, or the
  oldest cell is unlinked and freed and its thread is the next one to be joined.
\<close>

definition join_take :: "task_queue_t \<Rightarrow> (tid option \<times> task_queue_t) option" where
  "join_take tq = (case head tq of
     None \<Rightarrow> Some (None, tq)
   | Some old_head \<Rightarrow> do {
       c \<leftarrow> cells tq old_head;
       Some (Some (tl_tid c),
         tq\<lparr>head := tl_next c, tail := (if tail tq = Some old_head then None else tail tq),
            active_count := active_count tq - 1, cells := (cells tq)(old_head := None)\<rparr>) })"

text \<open>\<open>free_task_queue\<close> frees the record of the queue only; the result is what stays allocated.\<close>

definition free_task_queue :: "task_queue_t \<Rightarrow> (addr \<rightharpoonup> task_list_t)" where
  "free_task_queue tq = cells tq"

section \<open>The abstract queue\<close>

text \<open>\<open>path h p xs q\<close>: following the next pointers from \<open>p\<close> visits \<open>xs\<close> and ends in \<open>q\<close>.\<close>

fun path :: "(addr \<rightharpoonup> task_list_t) \<Rightarrow> addr option \<Rightarrow> addr list \<Rightarrow> addr option \<Rightarrow> bool" where
  "path h p [] q \<longleftrightarrow> p = q"
| "path h p (x # xs) q \<longleftrightarrow> p = Some x \<and> (case h x of None \<Rightarrow> False | Some c \<Rightarrow> path h (tl_next c) xs q)"

definition represents :: "task_queue_t \<Rightarrow> addr list \<Rightarrow> bool" where
  "represents tq xs \<longleftrightarrow> path (cells tq) (head tq) xs None \<and> distinct xs
     \<and> tail tq = (if xs = [] then None else Some (last xs)) \<and> dom (cells tq) = set xs
     \<and> active_count tq = length xs \<and> active_count tq \<le> max_active_count tq"

definition tids :: "task_queue_t \<Rightarrow> addr list \<Rightarrow> tid list" where
  "tids tq xs = map (\<lambda>x. case cells tq x of Some c \<Rightarrow> tl_tid c | None \<Rightarrow> 0) xs"

lemma path_append: "path h p (xs @ ys) q \<longleftrightarrow> (\<exists>r. path h p xs r \<and> path h r ys q)"
  by (induction xs arbitrary: p) (auto split: option.splits)

lemma path_upd_other [simp]: "x \<notin> set xs \<Longrightarrow> path (h(x := c)) p xs q = path h p xs q"
  by (induction xs arbitrary: p) (auto split: option.splits)

lemma path_dom: "path h p xs q \<Longrightarrow> set xs \<subseteq> dom h"
  by (induction xs arbitrary: p) (auto split: option.splits)

lemma new_task_queue_represents: "represents new_task_queue []"
  by (simp add: represents_def new_task_queue_def)

text \<open>Spawning appends at the tail, in constant time and without touching other cells.\<close>

lemma spawn_task_represents:
  assumes rep: "represents tq xs" and fresh: "ele \<notin> set xs"
  obtains tq' where "spawn_task ele t tq = Some tq'" "represents tq' (xs @ [ele])"
    "tids tq' (xs @ [ele]) = tids tq xs @ [t]"
    "max_active_count tq' = max (max_active_count tq) (length xs + 1)"
proof (cases "xs = []")
  case True
  then show ?thesis
    using rep that by (auto simp: spawn_task_def represents_def tids_def Let_def)
next
  case False
  then obtain ys y where xs: "xs = ys @ [y]" by (cases xs rule: rev_cases) auto
  have r: "path (cells tq) (head tq) (ys @ [y]) None" "distinct (ys @ [y])" "tail tq = Some y"
    "dom (cells tq) = set (ys @ [y])" "active_count tq = length (ys @ [y])"
    "active_count tq \<le> max_active_count tq"
    using rep by (auto simp: represents_def xs)
  obtain c where c: "cells tq y = Some c" "path (cells tq) (head tq) ys (Some y)"
    using r(1) by (auto simp: path_append split: option.splits)
  let ?h = "(cells tq)(ele \<mapsto> \<lparr>tl_tid = t, tl_next = None\<rparr>, y \<mapsto> c\<lparr>tl_next := Some ele\<rparr>)"
  define tq' where "tq' = tq\<lparr>tail := Some ele, cells := ?h, active_count := active_count tq + 1,
     max_active_count := (if max_active_count tq < active_count tq + 1
                          then active_count tq + 1 else max_active_count tq)\<rparr>"
  have ne: "ele \<noteq> y" "ele \<notin> set ys" "y \<notin> set ys" using fresh r(2) by (auto simp: xs)
  have "spawn_task ele t tq = Some tq'"
    using r(3) c(1) ne by (simp add: spawn_task_def tq'_def Let_def)
  moreover have "path ?h (head tq) (ys @ [y, ele]) None"
    using c ne by (simp add: path_append)
  then have "represents tq' (xs @ [ele])"
    using r ne fresh by (auto simp: represents_def tq'_def xs)
  moreover have "tids tq' (xs @ [ele]) = tids tq xs @ [t]"
    using ne c by (auto simp: tids_def tq'_def xs)
  moreover have "max_active_count tq' = max (max_active_count tq) (length xs + 1)"
    using r(5) by (simp add: tq'_def xs)
  ultimately show ?thesis using that by blast
qed

lemma join_take_represents:
  assumes "represents tq (x # xs)"
  obtains t tq' where "join_take tq = Some (Some t, tq')" "represents tq' xs"
    "tids tq (x # xs) = t # tids tq' xs" "max_active_count tq' = max_active_count tq"
proof -
  obtain c where c: "cells tq x = Some c" "head tq = Some x" "path (cells tq) (tl_next c) xs None"
    using assms by (auto simp: represents_def split: option.splits)
  have tl: "tail tq = (if xs = [] then Some x else Some (last xs))" and d: "x \<notin> set xs" "distinct xs"
    and dm: "dom (cells tq) = insert x (set xs)" and ac: "active_count tq = Suc (length xs)"
    and le: "active_count tq \<le> max_active_count tq"
    using assms by (auto simp: represents_def)
  define tq' where "tq' = tq\<lparr>head := tl_next c, tail := (if tail tq = Some x then None else tail tq),
            active_count := active_count tq - 1, cells := (cells tq)(x := None)\<rparr>"
  have "last xs \<noteq> x" if "xs \<noteq> []" using d(1) that by (metis last_in_set)
  then have "represents tq' xs"
    using c d tl dm ac le by (auto simp: represents_def tq'_def)
  moreover have "join_take tq = Some (Some (tl_tid c), tq')"
    using c by (simp add: join_take_def tq'_def)
  moreover have "tids tq (x # xs) = tl_tid c # tids tq' xs"
    using c d by (auto simp: tids_def tq'_def)
  moreover have "max_active_count tq' = max_active_count tq" by (simp add: tq'_def)
  ultimately show ?thesis using that by blast
qed

text \<open>Nothing leaks if and only if the queue is empty, as the comment in the code assumes.\<close>

lemma free_task_queue_leak: "represents tq xs \<Longrightarrow> free_task_queue tq = Map.empty \<longleftrightarrow> xs = []"
  by (auto simp: represents_def free_task_queue_def)

lemma join_take_empty: "represents tq [] \<Longrightarrow> join_take tq = Some (None, tq)"
  by (simp add: represents_def join_take_def)

section \<open>The queue contract\<close>

text \<open>
  What a client of the queue relies on: an invariant, the sequence of waiting threads, and
  the effect of the two critical sections on that sequence.
\<close>

locale task_queue =
  fixes ok :: "'q \<Rightarrow> bool" and waiting :: "'q \<Rightarrow> tid list"
    and spawn :: "addr \<Rightarrow> tid \<Rightarrow> 'q \<Rightarrow> 'q option" and usable :: "'q \<Rightarrow> addr \<Rightarrow> bool"
    and take1 :: "'q \<Rightarrow> (tid option \<times> 'q) option"
  assumes spawn_law: "ok q \<Longrightarrow> usable q a \<Longrightarrow> \<exists>q'. spawn a t q = Some q' \<and> ok q' \<and> waiting q' = waiting q @ [t]"
    and take_empty: "ok q \<Longrightarrow> waiting q = [] \<Longrightarrow> take1 q = Some (None, q)"
    and take_first: "ok q \<Longrightarrow> waiting q = t # ts \<Longrightarrow> \<exists>q'. take1 q = Some (Some t, q') \<and> ok q' \<and> waiting q' = ts"
begin

text \<open>Spawning a batch of tasks and draining the queue returns them in spawn order.\<close>

fun spawn_all :: "(addr \<times> tid) list \<Rightarrow> 'q \<Rightarrow> 'q option" where
  "spawn_all [] q = Some q"
| "spawn_all ((a, t) # ats) q = (if usable q a then do { q' \<leftarrow> spawn a t q; spawn_all ats q' } else None)"

fun drain :: "nat \<Rightarrow> 'q \<Rightarrow> tid list option" where
  "drain 0 q = Some []"
| "drain (Suc n) q = do { (t, q') \<leftarrow> take1 q; (case t of None \<Rightarrow> Some [] | Some t \<Rightarrow> map_option ((#) t) (drain n q')) }"

lemma spawn_all_waiting:
  "ok q \<Longrightarrow> spawn_all ats q = Some q' \<Longrightarrow> ok q' \<and> waiting q' = waiting q @ map snd ats"
proof (induction ats arbitrary: q)
  case (Cons at ats)
  obtain a t where at: "at = (a, t)" by (cases at)
  then have "usable q a" using Cons.prems(2) by (simp split: if_splits)
  from spawn_law [OF Cons.prems(1) this] obtain q1 where "spawn a t q = Some q1" "ok q1"
    "waiting q1 = waiting q @ [t]" by blast
  then show ?case using Cons at \<open>usable q a\<close> by simp
qed simp

lemma drain_waiting: "ok q \<Longrightarrow> length (waiting q) < n \<Longrightarrow> drain n q = Some (waiting q)"
proof (induction n arbitrary: q)
  case (Suc n)
  show ?case
  proof (cases "waiting q")
    case Nil
    then show ?thesis using take_empty [OF Suc.prems(1)] by simp
  next
    case (Cons t ts)
    from take_first [OF Suc.prems(1) this] obtain q' where "take1 q = Some (Some t, q')" "ok q'" "waiting q' = ts"
      by blast
    then show ?thesis using Suc Cons by simp
  qed
qed simp

lemma fifo:
  assumes "ok q" "waiting q = []" "spawn_all ats q = Some q'" "length ats < n"
  shows "drain n q' = Some (map snd ats)"
  using spawn_all_waiting [OF assms(1,3)] drain_waiting [of q' n] assms by simp

end

text \<open>The linked list satisfies the contract; the cells in use are found by following it.\<close>

fun chain :: "nat \<Rightarrow> (addr \<rightharpoonup> task_list_t) \<Rightarrow> addr option \<Rightarrow> addr list" where
  "chain (Suc n) h (Some x) = x # (case h x of Some c \<Rightarrow> chain n h (tl_next c) | None \<Rightarrow> [])"
| "chain n h p = []"

lemma chain_path: "path h p xs None \<Longrightarrow> chain (length xs) h p = xs"
  by (induction xs arbitrary: p) (auto split: option.splits)

definition queue_cells :: "task_queue_t \<Rightarrow> addr list" where
  "queue_cells tq = chain (active_count tq) (cells tq) (head tq)"

definition queue_ok :: "task_queue_t \<Rightarrow> bool" where
  "queue_ok tq \<longleftrightarrow> represents tq (queue_cells tq)"

definition queue_tids :: "task_queue_t \<Rightarrow> tid list" where
  "queue_tids tq = tids tq (queue_cells tq)"

lemma represents_cells: "represents tq xs \<Longrightarrow> queue_cells tq = xs"
  using chain_path by (auto simp: represents_def queue_cells_def)

lemma represents_ok: "represents tq xs \<Longrightarrow> queue_ok tq \<and> queue_tids tq = tids tq xs"
  using represents_cells by (simp add: queue_ok_def queue_tids_def)

interpretation linked: task_queue queue_ok queue_tids spawn_task "\<lambda>tq a. a \<notin> dom (cells tq)" join_take
proof
  fix tq a t assume "queue_ok tq" "a \<notin> dom (cells tq)"
  then have rep: "represents tq (queue_cells tq)" "a \<notin> set (queue_cells tq)"
    by (auto simp: queue_ok_def represents_def)
  obtain tq' where "spawn_task a t tq = Some tq'" "represents tq' (queue_cells tq @ [a])"
    "tids tq' (queue_cells tq @ [a]) = tids tq (queue_cells tq) @ [t]"
    by (rule spawn_task_represents [OF rep])
  then show "\<exists>q'. spawn_task a t tq = Some q' \<and> queue_ok q' \<and> queue_tids q' = queue_tids tq @ [t]"
    using represents_ok by (auto simp: queue_tids_def)
next
  fix tq assume "queue_ok tq" "queue_tids tq = []"
  then show "join_take tq = Some (None, tq)"
    by (auto simp: queue_ok_def queue_tids_def tids_def intro: join_take_empty)
next
  fix tq t ts assume q: "queue_ok tq" "queue_tids tq = t # ts"
  then obtain x xs where xs: "queue_cells tq = x # xs" by (cases "queue_cells tq") (auto simp: queue_tids_def tids_def)
  then have "represents tq (x # xs)" using q(1) by (simp add: queue_ok_def)
  then obtain t' tq' where "join_take tq = Some (Some t', tq')" "represents tq' xs"
    "tids tq (x # xs) = t' # tids tq' xs" by (rule join_take_represents)
  then show "\<exists>q'. join_take tq = Some (Some t, q') \<and> queue_ok q' \<and> queue_tids q' = ts"
    using q(2) xs represents_ok by (auto simp: queue_tids_def)
qed

section \<open>Spawning, running and joining, interleaved\<close>

text \<open>Where the creating thread is: still spawning, at the lock of the loop of
  \<open>join_tasks\<close>, waiting in \<open>Pthread_join\<close>, or returned with the recorded maximum.\<close>

datatype joiner = Spawning | Looking | Waiting tid | Returned nat

record pool =
  pool_queue :: task_queue_t
  running :: "tid set"
  created :: "tid set"
  joiner :: joiner

definition pool_init :: pool where
  "pool_init = \<lparr>pool_queue = new_task_queue, running = {}, created = {}, joiner = Spawning\<rparr>"

definition pool_spawn :: "addr \<Rightarrow> tid \<Rightarrow> pool \<Rightarrow> pool option" where
  "pool_spawn a t s = do {
     q \<leftarrow> spawn_task a t (pool_queue s);
     Some (s\<lparr>pool_queue := q, running := insert t (running s), created := insert t (created s)\<rparr>) }"

text \<open>One round of the loop of \<open>join_tasks\<close>, up to \<open>Pthread_join\<close> or the return.\<close>

definition join_tasks :: "pool \<Rightarrow> pool option" where
  "join_tasks s = do {
     (t, q) \<leftarrow> join_take (pool_queue s);
     Some (s\<lparr>pool_queue := q, joiner := (case t of None \<Rightarrow> Returned (max_active_count q) | Some t \<Rightarrow> Waiting t)\<rparr>) }"

inductive pool_step :: "pool \<Rightarrow> pool \<Rightarrow> bool" where
  creator_spawns: "joiner s = Spawning \<Longrightarrow> t \<notin> created s \<Longrightarrow> a \<notin> dom (cells (pool_queue s)) \<Longrightarrow>
    pool_spawn a t s = Some s' \<Longrightarrow> pool_step s s'"
| task_spawns: "u \<in> running s \<Longrightarrow> t \<notin> created s \<Longrightarrow> a \<notin> dom (cells (pool_queue s)) \<Longrightarrow>
    pool_spawn a t s = Some s' \<Longrightarrow> pool_step s s'"
| task_exits: "u \<in> running s \<Longrightarrow> pool_step s (s\<lparr>running := running s - {u}\<rparr>)"
| calls_join: "joiner s = Spawning \<Longrightarrow> pool_step s (s\<lparr>joiner := Looking\<rparr>)"
| takes: "joiner s = Looking \<Longrightarrow> join_tasks s = Some s' \<Longrightarrow> pool_step s s'"
| joined: "joiner s = Waiting t \<Longrightarrow> t \<notin> running s \<Longrightarrow> pool_step s (s\<lparr>joiner := Looking\<rparr>)"

inductive_simps pool_step_iff: "pool_step s s'"

definition reachable :: "pool \<Rightarrow> bool" where
  "reachable s \<longleftrightarrow> pool_step\<^sup>*\<^sup>* pool_init s"

fun joined_set :: "joiner \<Rightarrow> tid set" where
  "joined_set (Waiting t) = {t}"
| "joined_set _ = {}"

definition pool_ok :: "pool \<Rightarrow> bool" where
  "pool_ok s \<longleftrightarrow> queue_ok (pool_queue s) \<and> finite (running s)
     \<and> running s \<subseteq> set (queue_tids (pool_queue s)) \<union> joined_set (joiner s)
     \<and> (\<forall>n. joiner s = Returned n \<longrightarrow> queue_tids (pool_queue s) = [] \<and> n = max_active_count (pool_queue s))"

lemma pool_spawn_inv:
  assumes "pool_ok s" "a \<notin> dom (cells (pool_queue s))" "\<And>n. joiner s \<noteq> Returned n"
  shows "\<exists>s'. pool_spawn a t s = Some s' \<and> pool_ok s'"
proof -
  have "queue_ok (pool_queue s)" using assms(1) by (simp add: pool_ok_def)
  from linked.spawn_law [OF this assms(2)] obtain q where "spawn_task a t (pool_queue s) = Some q"
    "queue_ok q" "queue_tids q = queue_tids (pool_queue s) @ [t]" by blast
  then show ?thesis using assms by (auto simp: pool_spawn_def pool_ok_def)
qed

lemma join_tasks_inv:
  assumes "pool_ok s" "joiner s = Looking"
  shows "\<exists>s'. join_tasks s = Some s' \<and> pool_ok s'
    \<and> (if queue_tids (pool_queue s) = [] then \<exists>n. joiner s' = Returned n
       else joiner s' = Waiting (hd (queue_tids (pool_queue s)))
         \<and> queue_tids (pool_queue s') = tl (queue_tids (pool_queue s)))"
proof (cases "queue_tids (pool_queue s)")
  case Nil
  have "queue_ok (pool_queue s)" using assms by (simp add: pool_ok_def)
  from linked.take_empty [OF this Nil] show ?thesis
    using assms Nil by (auto simp: join_tasks_def pool_ok_def)
next
  case (Cons t ts)
  have "queue_ok (pool_queue s)" using assms by (simp add: pool_ok_def)
  from linked.take_first [OF this Cons] obtain q where "join_take (pool_queue s) = Some (Some t, q)"
    "queue_ok q" "queue_tids q = ts" by blast
  then show ?thesis using assms Cons by (auto simp: join_tasks_def pool_ok_def)
qed

text \<open>A running task witnesses that the joining thread has not returned.\<close>

lemma running_not_returned: "pool_ok s \<Longrightarrow> u \<in> running s \<Longrightarrow> joiner s \<noteq> Returned n"
  by (auto simp: pool_ok_def)

lemma pool_step_inv: "pool_step s s' \<Longrightarrow> pool_ok s \<Longrightarrow> pool_ok s'"
proof (induction rule: pool_step.induct)
  case (creator_spawns s t a s')
  then show ?case using pool_spawn_inv [of s a t] by auto
next
  case (task_spawns u s t a s')
  then show ?case using pool_spawn_inv [of s a t] running_not_returned by fastforce
next
  case (takes s s')
  then show ?case using join_tasks_inv [of s] by auto
qed (auto simp: pool_ok_def)

lemma reachable_inv: "reachable s \<Longrightarrow> pool_ok s"
  unfolding reachable_def
proof (induction rule: rtranclp_induct)
  case base
  show ?case
    using represents_ok [OF new_task_queue_represents] by (simp add: pool_init_def pool_ok_def)
next
  case (step s s')
  then show ?case using pool_step_inv by blast
qed

lemma running_bound:
  assumes "pool_ok s"
  shows "card (running s) \<le> max_active_count (pool_queue s) + 1"
proof -
  let ?q = "queue_tids (pool_queue s)"
  have "finite (joined_set (joiner s))" by (cases "joiner s") simp_all
  then have "card (running s) \<le> card (set ?q \<union> joined_set (joiner s))"
    using assms by (intro card_mono) (simp_all add: pool_ok_def)
  also have "\<dots> \<le> card (set ?q) + card (joined_set (joiner s))" by (rule card_Un_le)
  also have "\<dots> \<le> length ?q + 1" by (intro add_mono card_length) (cases "joiner s"; simp)
  also have "length ?q \<le> max_active_count (pool_queue s)"
    using assms by (auto simp: pool_ok_def queue_ok_def represents_def queue_tids_def tids_def)
  finally show ?thesis by simp
qed

lemma all_exit:
  assumes "finite (running s)"
  shows "pool_step\<^sup>*\<^sup>* s (s\<lparr>running := {}\<rparr>)"
  using assms
proof (induction "running s" arbitrary: s rule: finite_induct)
  case empty
  then show ?case by (metis (mono_tags) pool.surjective pool.update_convs(2) rtranclp.rtrancl_refl)
next
  case (insert u R)
  let ?s = "s\<lparr>running := running s - {u}\<rparr>"
  have "pool_step s ?s" using insert.hyps by (intro pool_step.task_exits) auto
  moreover have "R = running ?s" using insert.hyps by auto
  from insert.hyps(3) [OF this] have "pool_step\<^sup>*\<^sup>* ?s (s\<lparr>running := {}\<rparr>)" by simp
  ultimately show ?case by (rule converse_rtranclp_into_rtranclp)
qed

text \<open>With no task running, the loop of \<open>join_tasks\<close> takes every waiting cell and returns.\<close>

lemma looking_returns:
  assumes "pool_ok s" "joiner s = Looking" "running s = {}"
  shows "\<exists>s' n. pool_step\<^sup>*\<^sup>* s s' \<and> joiner s' = Returned n"
  using assms
proof (induction "queue_tids (pool_queue s)" arbitrary: s)
  case Nil
  then obtain s' n where "join_tasks s = Some s'" "joiner s' = Returned n"
    using join_tasks_inv [of s] by auto
  then show ?case using pool_step.takes [OF Nil.prems(2)] by blast
next
  case (Cons t ts)
  then obtain s1 where s1: "join_tasks s = Some s1" "pool_ok s1" "joiner s1 = Waiting t"
    "queue_tids (pool_queue s1) = ts"
    using join_tasks_inv [of s] by (auto simp flip: Cons.hyps(2))
  let ?s2 = "s1\<lparr>joiner := Looking\<rparr>"
  have r1: "running s1 = {}" using s1(1) Cons.prems(3) by (auto simp: join_tasks_def bind_Some_iff)
  have steps: "pool_step s s1" "pool_step s1 ?s2"
    using pool_step.takes [OF Cons.prems(2) s1(1)] pool_step.joined [OF s1(3)] r1 by auto
  have "pool_ok ?s2" using pool_step_inv [OF steps(2) s1(2)] .
  then obtain s' n where "pool_step\<^sup>*\<^sup>* ?s2 s'" "joiner s' = Returned n"
    using Cons.hyps(1) [of ?s2] s1(4) r1 by auto
  then show ?case using steps by (meson converse_rtranclp_into_rtranclp)
qed

section \<open>Properties\<close>

text \<open>
  Taskq refinement. The pointer operations of the task queue implement a FIFO queue:
  tasks spawned on an empty queue (each in a cell not in use) are handed to \<open>Pthread_join\<close>
  exactly once, in the order of their creation.
\<close>

theorem task_queue_fifo:
  assumes "linked.spawn_all ats new_task_queue = Some tq" "length ats < n"
  shows "linked.drain n tq = Some (map snd ats)"
  using linked.fifo [OF _ _ assms] represents_ok [OF new_task_queue_represents] by (simp add: tids_def)

theorem task_queue_fifo_witness:
  "\<exists>tq. linked.spawn_all [(7, 1), (3, 2), (9, 5)] new_task_queue = Some tq
     \<and> linked.drain 4 tq = Some [1, 2, 5]"
  using task_queue_fifo [of "[(7, 1), (3, 2), (9, 5)]" _ 4]
  by (simp add: spawn_task_def new_task_queue_def Let_def)

text \<open>
  C5 (join_tasks safety). When \<open>join_tasks\<close> has returned, in whatever interleaving, no task
  is running and none is waiting, so nothing can be spawned or run any more: the queue may
  be freed.
\<close>

theorem join_tasks_complete:
  assumes "reachable s" "joiner s = Returned n"
  shows "running s = {} \<and> queue_tids (pool_queue s) = [] \<and> n = max_active_count (pool_queue s)
    \<and> (\<forall>s'. \<not> pool_step s s')"
  using reachable_inv [OF assms(1)] assms(2) by (auto simp: pool_ok_def pool_step_iff)

theorem join_tasks_complete_witness:
  "\<exists>s n. reachable s \<and> joiner s = Returned n \<and> running s = {}"
proof -
  have 1: "pool_step pool_init (pool_init\<lparr>joiner := Looking\<rparr>)"
    by (rule pool_step.calls_join) (simp add: pool_init_def)
  have 2: "pool_step (pool_init\<lparr>joiner := Looking\<rparr>) (pool_init\<lparr>joiner := Returned 0\<rparr>)"
    by (rule pool_step.takes)
      (simp_all add: pool_init_def join_tasks_def join_take_def new_task_queue_def)
  have "reachable (pool_init\<lparr>joiner := Returned 0\<rparr>)"
    unfolding reachable_def using 1 2 by (meson converse_rtranclp_into_rtranclp rtranclp.rtrancl_refl)
  then show ?thesis using join_tasks_complete [of "pool_init\<lparr>joiner := Returned 0\<rparr>" 0] by auto
qed

text \<open>
  Join_tasks liveness. From every reachable state the joining thread can return: no
  interleaving of spawns, exits and joins leads to a deadlock of the queue.
\<close>

theorem join_tasks_returns:
  assumes "reachable s"
  shows "\<exists>s' n. pool_step\<^sup>*\<^sup>* s s' \<and> joiner s' = Returned n"
proof -
  let ?s = "s\<lparr>running := {}\<rparr>"
  have inv: "pool_ok s" using reachable_inv [OF assms] .
  then have steps: "pool_step\<^sup>*\<^sup>* s ?s" by (intro all_exit) (simp add: pool_ok_def)
  have inv': "pool_ok ?s" using inv by (simp add: pool_ok_def)
  have look: "pool_ok (?s\<lparr>joiner := Looking\<rparr>)" using inv' by (simp add: pool_ok_def)
  then obtain s' n where ret: "pool_step\<^sup>*\<^sup>* (?s\<lparr>joiner := Looking\<rparr>) s'" "joiner s' = Returned n"
    using looking_returns by fastforce
  have "\<exists>s' n. pool_step\<^sup>*\<^sup>* ?s s' \<and> joiner s' = Returned n"
  proof (cases "joiner s")
    case Spawning
    then show ?thesis using ret pool_step.calls_join [of ?s] converse_rtranclp_into_rtranclp by fastforce
  next
    case Looking
    then show ?thesis using ret by (metis pool.surjective pool.update_convs(2,4) select_convs(4))
  next
    case (Waiting t)
    then show ?thesis using ret pool_step.joined [of ?s t] converse_rtranclp_into_rtranclp by fastforce
  qed (use steps in auto)
  then show ?thesis using steps by (meson rtranclp_trans)
qed

theorem join_tasks_returns_witness:
  "reachable pool_init \<and> (\<exists>s' n. pool_step\<^sup>*\<^sup>* pool_init s' \<and> joiner s' = Returned n)"
  using join_tasks_returns [of pool_init] by (simp add: reachable_def)

text \<open>
  Reported maximum. The value \<open>join_tasks\<close> returns bounds the number of tasks that run
  at the same time only up to one: the task being joined has already left \<open>active_count\<close>
  and may still run.  The bound is reached: with a reported maximum of one, two tasks run.
\<close>

theorem max_active_count_bound:
  "(\<forall>s. reachable s \<longrightarrow> card (running s) \<le> max_active_count (pool_queue s) + 1)
   \<and> (\<exists>s. reachable s \<and> card (running s) = 2 \<and> max_active_count (pool_queue s) = 1)"
proof -
  let ?q1 = "\<lparr>active_count = 1, max_active_count = 1, head = Some 0, tail = Some 0,
      cells = [0 \<mapsto> \<lparr>tl_tid = 1, tl_next = None\<rparr>]\<rparr>"
  let ?q2 = "\<lparr>active_count = 0, max_active_count = 1, head = None, tail = None,
      cells = (Map.empty(0 \<mapsto> \<lparr>tl_tid = 1, tl_next = None\<rparr>))(0 := None)\<rparr> :: task_queue_t"
  let ?q3 = "\<lparr>active_count = 1, max_active_count = 1, head = Some 0, tail = Some 0,
      cells = (Map.empty(0 \<mapsto> \<lparr>tl_tid = 1, tl_next = None\<rparr>))(0 := None, 0 \<mapsto> \<lparr>tl_tid = 2, tl_next = None\<rparr>)\<rparr>"
  let ?s1 = "\<lparr>pool_queue = ?q1, running = {1}, created = {1}, joiner = Spawning\<rparr>"
  let ?s3 = "\<lparr>pool_queue = ?q2, running = {1}, created = {1}, joiner = Waiting 1\<rparr>"
  let ?s4 = "\<lparr>pool_queue = ?q3, running = {2, 1}, created = {2, 1}, joiner = Waiting 1\<rparr>"
  have "pool_step pool_init ?s1"
    by (rule pool_step.creator_spawns [of _ 1 0])
      (simp_all add: pool_init_def new_task_queue_def pool_spawn_def spawn_task_def)
  moreover have "pool_step ?s1 (?s1\<lparr>joiner := Looking\<rparr>)" by (rule pool_step.calls_join) simp
  moreover have "pool_step (?s1\<lparr>joiner := Looking\<rparr>) ?s3"
    by (rule pool_step.takes) (simp_all add: join_tasks_def join_take_def)
  moreover have "pool_step ?s3 ?s4"
    by (rule pool_step.task_spawns [of 1 _ 2 0]) (simp_all add: pool_spawn_def spawn_task_def)
  ultimately have "reachable ?s4"
    unfolding reachable_def by (meson converse_rtranclp_into_rtranclp rtranclp.rtrancl_refl)
  then show ?thesis using running_bound reachable_inv by (intro conjI exI [of _ ?s4]) auto
qed

theorem max_active_count_bound_witness:
  "reachable pool_init \<and> card (running pool_init) \<le> max_active_count (pool_queue pool_init) + 1"
  using max_active_count_bound by (simp add: reachable_def)

end
