(* ===== verification/Rio.thy ===== *)
theory Rio
  imports Prelude
begin

text \<open>
  The robust I/O package (Rio) of \<open>csapp.c\<close>.  The operating system's \<open>read\<close> and \<open>write\<close>
  are modelled with all they may do: a descriptor holds the bytes still to come and a list
  of events that say, call by call, whether the call is short, is interrupted by a signal
  or fails; when the events are used up, calls transfer all they can.  The internal buffer
  of \<open>rio_t\<close> is kept with its read pointer and count, as in the code.

  The abstract view of a \<open>rio_t\<close> and its descriptor is one stream of bytes: what is unread
  in the buffer followed by what the descriptor still delivers.
\<close>

section \<open>Descriptors\<close>

abbreviation newline :: byte where "newline \<equiv> 10"
abbreviation NUL :: byte where "NUL \<equiv> 0"
abbreviation EINTR :: int where "EINTR \<equiv> 4"

datatype os_event = Short nat | Intr | Fail int

record descr =
  incoming :: "byte list"
  outgoing :: "byte list"
  events :: "os_event list"

text \<open>\<open>read\<close>: a positive number of bytes, 0 at the end of file, or an error number.\<close>

fun sys_read :: "nat \<Rightarrow> descr \<Rightarrow> (int + byte list) \<times> descr" where
  "sys_read n f = (case events f of
     [] \<Rightarrow> (Inr (take n (incoming f)), f\<lparr>incoming := drop n (incoming f)\<rparr>)
   | Short k # es \<Rightarrow> (let m = min n (Suc k) in
       (Inr (take m (incoming f)), f\<lparr>incoming := drop m (incoming f), events := es\<rparr>))
   | Intr # es \<Rightarrow> (Inl EINTR, f\<lparr>events := es\<rparr>)
   | Fail e # es \<Rightarrow> (Inl (if e = EINTR then EINTR + 1 else e), f\<lparr>events := es\<rparr>))"

text \<open>\<open>write\<close>: the number of bytes written or an error number.\<close>

fun sys_write :: "byte list \<Rightarrow> descr \<Rightarrow> (int + nat) \<times> descr" where
  "sys_write bs f = (case events f of
     [] \<Rightarrow> (Inr (length bs), f\<lparr>outgoing := outgoing f @ bs\<rparr>)
   | Short k # es \<Rightarrow> (let m = min (length bs) (Suc k) in
       (Inr m, f\<lparr>outgoing := outgoing f @ take m bs, events := es\<rparr>))
   | Intr # es \<Rightarrow> (Inl EINTR, f\<lparr>events := es\<rparr>)
   | Fail e # es \<Rightarrow> (Inl (if e = EINTR then EINTR + 1 else e), f\<lparr>events := es\<rparr>))"

declare sys_read.simps [simp del] sys_write.simps [simp del]

text \<open>A descriptor that will not fail; short counts and interrupts are still possible.\<close>

fun no_fail :: "os_event \<Rightarrow> bool" where
  "no_fail (Fail _) = False"
| "no_fail _ = True"

abbreviation clean :: "descr \<Rightarrow> bool" where
  "clean f \<equiv> list_all no_fail (events f)"

lemma sys_read_cases:
  assumes "sys_read n f = (r, f')"
  obtains (data) bs where "r = Inr bs" "incoming f = bs @ incoming f'" "length bs \<le> n"
      "bs = [] \<longrightarrow> n = 0 \<or> incoming f = []" "length (events f') \<le> length (events f)"
  | (intr) es where "events f = Intr # es" "r = Inl EINTR" "f' = f\<lparr>events := es\<rparr>"
  | (fail) e e' es where "events f = Fail e' # es" "r = Inl e" "e \<noteq> EINTR" "f' = f\<lparr>events := es\<rparr>"
  using assms
  by (cases "events f"; cases "hd (events f)") (auto simp: sys_read.simps Let_def min_def [of n] min_le_iff_disj split: if_splits)

lemma sys_read_frame:
  "sys_read n f = (r, f') \<Longrightarrow> outgoing f' = outgoing f"
  "sys_read n f = (r, f') \<Longrightarrow> clean f \<Longrightarrow> clean f'"
  by (cases "events f"; cases "hd (events f)"; auto simp: sys_read.simps Let_def)+

lemma sys_write_cases:
  assumes "sys_write bs f = (r, f')"
  obtains (data) m where "r = Inr m" "outgoing f' = outgoing f @ take m bs" "m \<le> length bs"
      "bs \<noteq> [] \<longrightarrow> 0 < m" "length (events f') \<le> length (events f)"
  | (intr) es where "events f = Intr # es" "r = Inl EINTR" "f' = f\<lparr>events := es\<rparr>"
  | (fail) e e' es where "events f = Fail e' # es" "r = Inl e" "e \<noteq> EINTR" "f' = f\<lparr>events := es\<rparr>"
  using assms
  by (cases "events f"; cases "hd (events f)") (auto simp: sys_write.simps Let_def min_def [of "length bs"] split: if_splits)

lemma sys_write_frame:
  "sys_write bs f = (r, f') \<Longrightarrow> incoming f' = incoming f"
  "sys_write bs f = (r, f') \<Longrightarrow> clean f \<Longrightarrow> clean f'"
  by (cases "events f"; cases "hd (events f)"; auto simp: sys_write.simps Let_def)+

section \<open>Unbuffered transfers\<close>

text \<open>
  The loops of \<open>rio_readn\<close> and \<open>rio_writen\<close>.  The results are the return value, the bytes
  stored in the user's buffer (for reads) and the descriptor.
\<close>

function rio_readn_loop :: "nat \<Rightarrow> byte list \<Rightarrow> descr \<Rightarrow> (nat \<times> byte list \<times> descr) + (byte list \<times> descr)" where
  "rio_readn_loop nleft acc f = (if nleft = 0 then Inl (nleft, acc, f) else
     (case sys_read nleft f of
        (Inl e, f') \<Rightarrow> if e = EINTR then rio_readn_loop nleft acc f' else Inr (acc, f')
      | (Inr bs, f') \<Rightarrow> if bs = [] then Inl (nleft, acc, f')
                        else rio_readn_loop (nleft - length bs) (acc @ bs) f'))"
  by pat_completeness auto

termination
  by (relation "measure (\<lambda>(n, _, f). n + length (events f))")
    (auto elim!: sys_read_cases [OF sym] simp: neq_Nil_conv)

declare rio_readn_loop.simps [simp del]

definition rio_readn :: "nat \<Rightarrow> descr \<Rightarrow> int \<times> byte list \<times> descr" where
  "rio_readn n f = (case rio_readn_loop n [] f of
     Inl (nleft, bs, f') \<Rightarrow> (int (n - nleft), bs, f')
   | Inr (bs, f') \<Rightarrow> (- 1, bs, f'))"

function rio_writen_loop :: "byte list \<Rightarrow> descr \<Rightarrow> bool \<times> descr" where
  "rio_writen_loop bs f = (if bs = [] then (True, f) else
     (case sys_write bs f of
        (Inl e, f') \<Rightarrow> if e = EINTR then rio_writen_loop bs f' else (False, f')
      | (Inr m, f') \<Rightarrow> rio_writen_loop (drop m bs) f'))"
  by pat_completeness auto

termination
  by (relation "measure (\<lambda>(bs, f). length bs + length (events f))")
    (auto elim!: sys_write_cases [OF sym])

declare rio_writen_loop.simps [simp del]

definition rio_writen :: "byte list \<Rightarrow> descr \<Rightarrow> int \<times> descr" where
  "rio_writen bs f = (case rio_writen_loop bs f of
     (ok, f') \<Rightarrow> (if ok then int (length bs) else - 1, f'))"

section \<open>Buffered input\<close>

abbreviation RIO_BUFSIZE :: nat where "RIO_BUFSIZE \<equiv> 8192"

record rio_t =
  rio_fd :: descr
  rio_cnt :: int
  rio_bufptr :: nat
  rio_buf :: "byte list"

definition rio_readinitb :: "descr \<Rightarrow> rio_t \<Rightarrow> rio_t" where
  "rio_readinitb fd rp = rp\<lparr>rio_fd := fd, rio_cnt := 0, rio_bufptr := 0\<rparr>"

text \<open>The refill loop of \<open>rio_read\<close>: \<open>Inl\<close> is an early return with its value.\<close>

function rio_refill :: "rio_t \<Rightarrow> (int \<times> rio_t) + rio_t" where
  "rio_refill rp = (if 0 < rio_cnt rp then Inr rp else
     (case sys_read RIO_BUFSIZE (rio_fd rp) of
        (Inl e, f) \<Rightarrow> (let rp' = rp\<lparr>rio_fd := f, rio_cnt := - 1\<rparr> in
           if e \<noteq> EINTR then Inl (- 1, rp') else rio_refill rp')
      | (Inr bs, f) \<Rightarrow> (let rp' = rp\<lparr>rio_fd := f, rio_cnt := int (length bs), rio_buf := blit (rio_buf rp) 0 bs\<rparr> in
           if bs = [] then Inl (0, rp') else rio_refill (rp'\<lparr>rio_bufptr := 0\<rparr>))))"
  by pat_completeness auto

termination
  by (relation "measure (\<lambda>rp. (if 0 < rio_cnt rp then 0 else 1) + length (events (rio_fd rp)))")
    (auto elim!: sys_read_cases [OF sym])

declare rio_refill.simps [simp del]

definition rio_read :: "nat \<Rightarrow> rio_t \<Rightarrow> int \<times> byte list \<times> rio_t" where
  "rio_read n rp = (case rio_refill rp of
     Inl (r, rp') \<Rightarrow> (r, [], rp')
   | Inr rp' \<Rightarrow> (let cnt = (if rio_cnt rp' < int n then nat (rio_cnt rp') else n) in
       (int cnt, seg (rio_buf rp') (rio_bufptr rp') cnt,
        rp'\<lparr>rio_bufptr := rio_bufptr rp' + cnt, rio_cnt := rio_cnt rp' - int cnt\<rparr>)))"

function rio_readnb_loop :: "nat \<Rightarrow> byte list \<Rightarrow> rio_t \<Rightarrow> (nat \<times> byte list \<times> rio_t) + (byte list \<times> rio_t)" where
  "rio_readnb_loop nleft acc rp = (if nleft = 0 then Inl (nleft, acc, rp) else
     (case rio_read nleft rp of (nread, bs, rp') \<Rightarrow>
        if nread < 0 then Inr (acc, rp')
        else if nread = 0 then Inl (nleft, acc, rp')
        else rio_readnb_loop (nleft - nat nread) (acc @ bs) rp'))"
  by pat_completeness auto

termination
  by (relation "measure (\<lambda>(n, _, _). n)") auto

declare rio_readnb_loop.simps [simp del]

definition rio_readnb :: "nat \<Rightarrow> rio_t \<Rightarrow> int \<times> byte list \<times> rio_t" where
  "rio_readnb n rp = (case rio_readnb_loop n [] rp of
     Inl (nleft, bs, rp') \<Rightarrow> (int (n - nleft), bs, rp')
   | Inr (bs, rp') \<Rightarrow> (- 1, bs, rp'))"

text \<open>
  The loop of \<open>rio_readlineb\<close> with the counter \<open>n\<close>; \<open>Inl\<close> is an early return.  The stored
  bytes do not include the terminating \<open>NUL\<close>, which the code writes after them.
\<close>

function readline_loop :: "nat \<Rightarrow> nat \<Rightarrow> byte list \<Rightarrow> rio_t \<Rightarrow> (int \<times> byte list \<times> rio_t) + (nat \<times> byte list \<times> rio_t)" where
  "readline_loop n maxlen acc rp = (if \<not> n < maxlen then Inr (n, acc, rp) else
     (case rio_read 1 rp of (rc, bs, rp') \<Rightarrow>
        if rc = 1 then (if bs = [newline] then Inr (n + 1, acc @ bs, rp')
                        else readline_loop (n + 1) maxlen (acc @ bs) rp')
        else if rc = 0 then (if n = 1 then Inl (0, acc, rp') else Inr (n, acc, rp'))
        else Inl (- 1, acc, rp')))"
  by pat_completeness auto

termination
  by (relation "measure (\<lambda>(n, maxlen, _, _). maxlen - n)") auto

declare readline_loop.simps [simp del]

definition rio_readlineb :: "nat \<Rightarrow> rio_t \<Rightarrow> int \<times> byte list \<times> rio_t" where
  "rio_readlineb maxlen rp = (case readline_loop 1 maxlen [] rp of
     Inl (r, bs, rp') \<Rightarrow> (r, bs, rp')
   | Inr (n, bs, rp') \<Rightarrow> (int n - 1, bs, rp'))"

text \<open>The older version, in \<open>16-io/csapp.c\<close>: no increment on a newline, and \<open>n\<close> is returned.\<close>

function readline_loop_old :: "nat \<Rightarrow> nat \<Rightarrow> byte list \<Rightarrow> rio_t \<Rightarrow> (int \<times> byte list \<times> rio_t) + (nat \<times> byte list \<times> rio_t)" where
  "readline_loop_old n maxlen acc rp = (if \<not> n < maxlen then Inr (n, acc, rp) else
     (case rio_read 1 rp of (rc, bs, rp') \<Rightarrow>
        if rc = 1 then (if bs = [newline] then Inr (n, acc @ bs, rp')
                        else readline_loop_old (n + 1) maxlen (acc @ bs) rp')
        else if rc = 0 then (if n = 1 then Inl (0, acc, rp') else Inr (n, acc, rp'))
        else Inl (- 1, acc, rp')))"
  by pat_completeness auto

termination
  by (relation "measure (\<lambda>(n, maxlen, _, _). maxlen - n)") auto

declare readline_loop_old.simps [simp del]

definition rio_readlineb_old :: "nat \<Rightarrow> rio_t \<Rightarrow> int \<times> byte list \<times> rio_t" where
  "rio_readlineb_old maxlen rp = (case readline_loop_old 1 maxlen [] rp of
     Inl (r, bs, rp') \<Rightarrow> (r, bs, rp')
   | Inr (n, bs, rp') \<Rightarrow> (int n, bs, rp'))"

section \<open>Lemmas on the unbuffered transfers\<close>

lemma rio_readn_loop_spec:
  "case rio_readn_loop nleft acc f of
     Inl (nleft', bs, f') \<Rightarrow> \<exists>x. bs = acc @ x \<and> incoming f = x @ incoming f' \<and> nleft' + length x = nleft
       \<and> (0 < nleft' \<longrightarrow> incoming f' = []) \<and> outgoing f' = outgoing f \<and> (clean f \<longrightarrow> clean f')
   | Inr (bs, f') \<Rightarrow> \<not> clean f \<and> (\<exists>x. bs = acc @ x \<and> incoming f = x @ incoming f' \<and> length x < nleft)"
proof (induction nleft acc f rule: rio_readn_loop.induct)
  case (1 nleft acc f)
  show ?case
  proof (cases "nleft = 0")
    case True
    then show ?thesis by (simp add: rio_readn_loop.simps)
  next
    case False
    obtain r f' where r: "sys_read nleft f = (r, f')" by fastforce
    note frame = sys_read_frame [OF r]
    from r show ?thesis
    proof (cases rule: sys_read_cases)
      case (data bs)
      show ?thesis
      proof (cases "bs = []")
        case True
        then show ?thesis using False r data frame by (subst rio_readn_loop.simps) simp
      next
        case bs: False
        note IH = 1(2) [OF False r [symmetric] data(1) bs]
        show ?thesis
        proof (cases "rio_readn_loop (nleft - length bs) (acc @ bs) f'")
          case (Inl a)
          obtain k ys g where a: "a = (k, ys, g)" by (cases a)
          with IH Inl obtain x where "ys = acc @ bs @ x" "incoming f' = x @ incoming g"
            "k + length x = nleft - length bs" "0 < k \<longrightarrow> incoming g = []" "outgoing g = outgoing f'"
            "clean f' \<longrightarrow> clean g" by auto
          then show ?thesis using False r data bs frame Inl a
            by (subst rio_readn_loop.simps) (auto intro!: exI [of _ "bs @ x"])
        next
          case (Inr b)
          obtain ys g where b: "b = (ys, g)" by (cases b)
          with IH Inr obtain x where "ys = acc @ bs @ x" "incoming f' = x @ incoming g" "\<not> clean f'"
            "length x < nleft - length bs" by auto
          then show ?thesis using False r data bs frame Inr b
            by (subst rio_readn_loop.simps) (auto intro!: exI [of _ "bs @ x"])
        qed
      qed
    next
      case (intr es)
      then have "rio_readn_loop nleft acc f = rio_readn_loop nleft acc f'"
        using False r by (subst rio_readn_loop.simps) simp
      moreover note 1(1) [OF False r [symmetric] intr(2)]
      ultimately show ?thesis using intr by (auto split: sum.splits)
    next
      case (fail e e' es)
      then show ?thesis using False r by (subst rio_readn_loop.simps) auto
    qed
  qed
qed

lemma rio_writen_loop_spec:
  "case rio_writen_loop bs f of (ok, f') \<Rightarrow> incoming f' = incoming f \<and> (clean f \<longrightarrow> ok \<and> clean f')
     \<and> (if ok then outgoing f' = outgoing f @ bs else \<exists>m < length bs. outgoing f' = outgoing f @ take m bs)"
proof (induction bs f rule: rio_writen_loop.induct)
  case (1 bs f)
  show ?case
  proof (cases "bs = []")
    case True
    then show ?thesis by (simp add: rio_writen_loop.simps)
  next
    case False
    obtain r f' where r: "sys_write bs f = (r, f')" by fastforce
    note frame = sys_write_frame [OF r]
    from r show ?thesis
    proof (cases rule: sys_write_cases)
      case (data m)
      then have eq: "rio_writen_loop bs f = rio_writen_loop (drop m bs) f'"
        using False r by (subst rio_writen_loop.simps) simp
      obtain ok g where g: "rio_writen_loop (drop m bs) f' = (ok, g)" by fastforce
      have IH: "incoming g = incoming f'" "clean f' \<longrightarrow> ok \<and> clean g" "ok \<Longrightarrow> outgoing g = outgoing f' @ drop m bs"
        "\<not> ok \<Longrightarrow> \<exists>k < length (drop m bs). outgoing g = outgoing f' @ take k (drop m bs)"
        using 1(2) [OF False r [symmetric] data(1)] g by (auto split: if_splits)
      show ?thesis
      proof (cases ok)
        case True
        then show ?thesis using IH(1-3) data frame by (simp add: eq g)
      next
        case False
        then obtain k where "k < length bs - m" "outgoing g = outgoing f @ take m bs @ take k (drop m bs)"
          using IH(4) data(2) by auto
        then show ?thesis using IH(1,2) frame data(3) False
          by (auto simp: eq g take_add [symmetric] intro!: exI [of _ "m + k"])
      qed
    next
      case (intr es)
      then have "rio_writen_loop bs f = rio_writen_loop bs f'"
        using False r by (subst rio_writen_loop.simps) simp
      then show ?thesis using 1(1) [OF False r [symmetric] intr(2)] intr by (auto split: prod.splits)
    next
      case (fail e e' es)
      then show ?thesis using False r by (subst rio_writen_loop.simps) (auto intro!: exI [of _ 0])
    qed
  qed
qed

section \<open>The buffer as a stream\<close>

definition unread :: "rio_t \<Rightarrow> byte list" where
  "unread rp = seg (rio_buf rp) (rio_bufptr rp) (nat (rio_cnt rp))"

definition stream :: "rio_t \<Rightarrow> byte list" where
  "stream rp = unread rp @ incoming (rio_fd rp)"

definition rio_inv :: "rio_t \<Rightarrow> bool" where
  "rio_inv rp \<longleftrightarrow> length (rio_buf rp) = RIO_BUFSIZE \<and> rio_bufptr rp + nat (rio_cnt rp) \<le> RIO_BUFSIZE"

lemma unread_empty: "rio_cnt rp \<le> 0 \<Longrightarrow> unread rp = []"
  by (simp add: unread_def seg_def)

lemma rio_readinitb_inv:
  "length (rio_buf rp) = RIO_BUFSIZE \<Longrightarrow> rio_inv (rio_readinitb fd rp)"
  "stream (rio_readinitb fd rp) = incoming fd"
  by (simp_all add: rio_inv_def rio_readinitb_def stream_def unread_def seg_def)

text \<open>A buffer on the stack of the caller, initialised for a descriptor.\<close>

definition rio_fresh :: "descr \<Rightarrow> rio_t" where
  "rio_fresh fd = rio_readinitb fd
     \<lparr>rio_fd = fd, rio_cnt = 0, rio_bufptr = 0, rio_buf = replicate RIO_BUFSIZE 0\<rparr>"

lemma rio_fresh_ok:
  "rio_inv (rio_fresh fd)" "stream (rio_fresh fd) = incoming fd" "rio_fd (rio_fresh fd) = fd"
  by (simp_all add: rio_fresh_def rio_readinitb_inv) (simp add: rio_readinitb_def)

lemma rio_refill_spec:
  assumes "rio_inv rp"
  shows "case rio_refill rp of
     Inl (r, rp') \<Rightarrow> rio_inv rp' \<and> stream rp' = stream rp \<and> (clean (rio_fd rp) \<longrightarrow> clean (rio_fd rp'))
       \<and> (if clean (rio_fd rp) then r = 0 else r = 0 \<or> r = - 1) \<and> (r = 0 \<longrightarrow> stream rp = [])
   | Inr rp' \<Rightarrow> rio_inv rp' \<and> stream rp' = stream rp \<and> 0 < rio_cnt rp'
       \<and> (clean (rio_fd rp) \<longrightarrow> clean (rio_fd rp'))"
  using assms
proof (induction rp rule: rio_refill.induct)
  case (1 rp)
  show ?case
  proof (cases "0 < rio_cnt rp")
    case True
    then show ?thesis using 1(3) by (simp add: rio_refill.simps)
  next
    case False
    then have st: "stream rp = incoming (rio_fd rp)" by (simp add: stream_def unread_empty)
    obtain r f where r: "sys_read RIO_BUFSIZE (rio_fd rp) = (r, f)" by fastforce
    note frame = sys_read_frame(2) [OF r]
    from r show ?thesis
    proof (cases rule: sys_read_cases)
      case (data bs)
      define rp' where "rp' = rp\<lparr>rio_fd := f, rio_cnt := int (length bs), rio_buf := blit (rio_buf rp) 0 bs\<rparr>"
      have inv': "rio_inv (rp'\<lparr>rio_bufptr := 0\<rparr>)" "stream (rp'\<lparr>rio_bufptr := 0\<rparr>) = stream rp"
        using 1(3) data(2,3) unfolding st by (simp_all add: rio_inv_def rp'_def stream_def unread_def mem_simps)
      show ?thesis
      proof (cases "bs = []")
        case True
        then have "rio_refill rp = Inl (0, rp')" "rio_inv rp'" "stream rp' = []"
          using False r data 1(3)
          by (simp_all add: rio_refill.simps rp'_def rio_inv_def stream_def unread_def seg_def blit_def)
        then show ?thesis using data True st frame by (simp add: rp'_def)
      next
        case bs: False
        then have "rio_refill rp = Inr (rp'\<lparr>rio_bufptr := 0\<rparr>)"
          using False r data(1)
          by (subst rio_refill.simps, simp add: Let_def rp'_def) (subst rio_refill.simps, simp)
        then show ?thesis using inv' bs frame by (simp add: rp'_def)
      qed
    next
      case (intr es)
      define rp' where "rp' = rp\<lparr>rio_fd := f, rio_cnt := - 1\<rparr>"
      have eq: "rio_refill rp = rio_refill rp'"
        using False r intr(2) by (subst rio_refill.simps) (simp add: rp'_def Let_def)
      have "rio_inv rp'" "stream rp' = stream rp" "clean (rio_fd rp') = clean (rio_fd rp)"
        using 1(3) intr st by (auto simp: rp'_def rio_inv_def stream_def unread_empty)
      then show ?thesis using 1(1) [OF False r [symmetric] intr(2) rp'_def]
        by (auto simp: eq split: sum.splits if_splits)
    next
      case (fail e e' es)
      define rp' where "rp' = rp\<lparr>rio_fd := f, rio_cnt := - 1\<rparr>"
      have "rio_refill rp = Inl (- 1, rp')"
        using False r fail(2,3) by (subst rio_refill.simps) (simp add: rp'_def Let_def)
      moreover have "rio_inv rp'" "stream rp' = stream rp" "\<not> clean (rio_fd rp)"
        using 1(3) fail st by (auto simp: rp'_def rio_inv_def stream_def unread_empty)
      ultimately show ?thesis by simp
    qed
  qed
qed

text \<open>One call of \<open>rio_read\<close> removes a prefix of the stream.\<close>

lemma rio_read_spec:
  assumes inv: "rio_inv rp" and call: "rio_read n rp = (r, bs, rp')"
  shows "rio_inv rp'" "stream rp = bs @ stream rp'" "length bs \<le> n"
    "clean (rio_fd rp) \<Longrightarrow> clean (rio_fd rp')"
    "r = int (length bs) \<or> r = - 1 \<and> bs = [] \<and> \<not> clean (rio_fd rp)"
    "0 < n \<Longrightarrow> r = 0 \<Longrightarrow> stream rp = []"
proof -
  have goal: "rio_inv rp' \<and> stream rp = bs @ stream rp' \<and> length bs \<le> n \<and> (clean (rio_fd rp) \<longrightarrow> clean (rio_fd rp'))
    \<and> (r = int (length bs) \<or> r = - 1 \<and> bs = [] \<and> \<not> clean (rio_fd rp)) \<and> (0 < n \<and> r = 0 \<longrightarrow> stream rp = [])"
  proof (cases "rio_refill rp")
    case (Inl a)
    then show ?thesis
      using rio_refill_spec [OF inv] call by (cases a) (auto simp: rio_read_def split: if_splits)
  next
    case (Inr q)
    define cnt where "cnt = (if rio_cnt q < int n then nat (rio_cnt q) else n)"
    have q: "rio_inv q" "stream q = stream rp" "0 < rio_cnt q" "clean (rio_fd rp) \<longrightarrow> clean (rio_fd q)"
      using rio_refill_spec [OF inv] Inr by auto
    have res: "r = int cnt" "bs = seg (rio_buf q) (rio_bufptr q) cnt"
      "rp' = q\<lparr>rio_bufptr := rio_bufptr q + cnt, rio_cnt := rio_cnt q - int cnt\<rparr>"
      using call Inr by (auto simp: rio_read_def cnt_def Let_def)
    have le: "cnt \<le> nat (rio_cnt q)" "cnt \<le> n" "0 < n \<longrightarrow> 0 < cnt" using q(3) by (auto simp: cnt_def)
    obtain d where d: "nat (rio_cnt q) = cnt + d" "nat (rio_cnt q - int cnt) = d"
      using le(1) by (metis add_diff_inverse_nat nat_diff_distrib' nat_int not_le of_nat_0_le_iff zero_le_imp_eq_int q(3) less_imp_le)
    have "unread q = bs @ seg (rio_buf q) (rio_bufptr q + cnt) d"
      using q(1) d(1) by (simp add: unread_def res rio_inv_def seg_split)
    then have "stream rp = bs @ stream rp'" using q(2) d(2) by (simp add: stream_def res unread_def)
    moreover have "length bs = cnt" using q(1) le(1) by (simp add: res rio_inv_def mem_simps)
    moreover have "rio_inv rp'" using q(1) le(1) d by (simp add: rio_inv_def res)
    ultimately show ?thesis using le q(4) res(1,3) by auto
  qed
  then show "rio_inv rp'" "stream rp = bs @ stream rp'" "length bs \<le> n"
    "clean (rio_fd rp) \<Longrightarrow> clean (rio_fd rp')"
    "r = int (length bs) \<or> r = - 1 \<and> bs = [] \<and> \<not> clean (rio_fd rp)"
    "0 < n \<Longrightarrow> r = 0 \<Longrightarrow> stream rp = []" by blast+
qed

lemma rio_readnb_loop_spec:
  assumes "rio_inv rp"
  shows "case rio_readnb_loop nleft acc rp of
     Inl (nleft', bs, rp') \<Rightarrow> \<exists>x. bs = acc @ x \<and> stream rp = x @ stream rp' \<and> nleft' + length x = nleft
       \<and> (0 < nleft' \<longrightarrow> stream rp' = []) \<and> rio_inv rp' \<and> (clean (rio_fd rp) \<longrightarrow> clean (rio_fd rp'))
   | Inr (bs, rp') \<Rightarrow> \<not> clean (rio_fd rp) \<and> rio_inv rp'
       \<and> (\<exists>x. bs = acc @ x \<and> stream rp = x @ stream rp' \<and> length x < nleft)"
  using assms
proof (induction nleft acc rp rule: rio_readnb_loop.induct)
  case (1 nleft acc rp)
  show ?case
  proof (cases "nleft = 0")
    case True
    then show ?thesis using 1(2) by (simp add: rio_readnb_loop.simps)
  next
    case False
    obtain r bs rp' where call: "rio_read nleft rp = (r, bs, rp')" by (metis prod_cases3)
    note spec = rio_read_spec [OF 1(2) call]
    consider "r < 0" | "r = 0" | "0 < r" by linarith
    then show ?thesis
    proof cases
      case 1
      then have "rio_readnb_loop nleft acc rp = Inr (acc, rp')" "bs = []" "\<not> clean (rio_fd rp)"
        using False call spec(5) by (auto simp: rio_readnb_loop.simps)
      then show ?thesis using spec False by simp
    next
      case 2
      then have "rio_readnb_loop nleft acc rp = Inl (nleft, acc, rp')" "bs = []"
        using False call spec(5) by (auto simp: rio_readnb_loop.simps)
      then show ?thesis using spec False 2 by simp
    next
      case 3
      then have lb: "nat r = length bs" "bs \<noteq> []" using spec(5) by auto
      have eq: "rio_readnb_loop nleft acc rp = rio_readnb_loop (nleft - length bs) (acc @ bs) rp'"
        using False call 3 lb by (subst rio_readnb_loop.simps) simp
      have ns: "\<not> r < 0" "r \<noteq> 0" using 3 by auto
      note IH = "1.IH" [OF False call [symmetric] refl ns spec(1), unfolded lb(1)]
      show ?thesis
      proof (cases "rio_readnb_loop (nleft - length bs) (acc @ bs) rp'")
        case (Inl a)
        obtain k ys g where a: "a = (k, ys, g)" by (cases a)
        with IH Inl obtain x where "ys = acc @ bs @ x" "stream rp' = x @ stream g"
          "k + length x = nleft - length bs" "0 < k \<longrightarrow> stream g = []" "rio_inv g"
          "clean (rio_fd rp') \<longrightarrow> clean (rio_fd g)" by auto
        then show ?thesis using spec(2,3,4) lb Inl a eq by (auto intro!: exI [of _ "bs @ x"])
      next
        case (Inr b)
        obtain ys g where b: "b = (ys, g)" by (cases b)
        with IH Inr obtain x where "ys = acc @ bs @ x" "stream rp' = x @ stream g" "rio_inv g"
          "length x < nleft - length bs" "\<not> clean (rio_fd rp')" by auto
        then show ?thesis using spec(2,3,4) lb Inr b eq by (auto intro!: exI [of _ "bs @ x"])
      qed
    qed
  qed
qed

section \<open>Lines\<close>

text \<open>The first line of a stream, newline included, cut after \<open>k\<close> bytes.\<close>

fun line_of :: "nat \<Rightarrow> byte list \<Rightarrow> byte list" where
  "line_of 0 s = []"
| "line_of (Suc k) [] = []"
| "line_of (Suc k) (b # s) = b # (if b = newline then [] else line_of k s)"

lemma line_of_prefix: "s = line_of k s @ drop (length (line_of k s)) s"
  by (induction k s rule: line_of.induct) auto

lemma length_line_of: "length (line_of k s) \<le> k" "length (line_of k s) \<le> length s"
  by (induction k s rule: line_of.induct) auto

lemma line_of_empty_iff: "line_of k s = [] \<longleftrightarrow> k = 0 \<or> s = []"
  by (cases "(k, s)" rule: line_of.cases) auto

lemma line_of_newline: "newline \<notin> set (butlast (line_of k s))"
  by (induction k s rule: line_of.induct) auto

lemma line_of_maximal:
  "line_of k s \<noteq> [] \<Longrightarrow> last (line_of k s) \<noteq> newline \<Longrightarrow> length (line_of k s) = min k (length s)"
  by (induction k s rule: line_of.induct) (auto simp: line_of_empty_iff split: if_splits)

text \<open>One byte from a clean stream.\<close>

lemma rio_read_one:
  assumes inv: "rio_inv rp" and cl: "clean (rio_fd rp)"
  obtains (eof) rp' where "rio_read 1 rp = (0, [], rp')" "stream rp = []" "stream rp' = []" "rio_inv rp'"
      "clean (rio_fd rp')"
  | (byte) b rp' where "rio_read 1 rp = (1, [b], rp')" "stream rp = b # stream rp'" "rio_inv rp'"
      "clean (rio_fd rp')"
proof -
  obtain r bs rp' where call: "rio_read 1 rp = (r, bs, rp')" by (metis prod_cases3)
  note spec = rio_read_spec [OF inv call]
  show ?thesis
  proof (cases bs)
    case Nil
    then show ?thesis using eof call spec cl by auto
  next
    case (Cons b bs')
    then show ?thesis using byte call spec cl by auto
  qed
qed

lemma readline_loop_clean:
  assumes "rio_inv rp" "clean (rio_fd rp)" "1 \<le> n" "l = line_of (maxlen - n) (stream rp)"
  shows "\<exists>rp'. readline_loop n maxlen acc rp
      = (if l = [] \<and> n = 1 \<and> n < maxlen then Inl (0, acc, rp') else Inr (n + length l, acc @ l, rp'))
    \<and> rio_inv rp' \<and> clean (rio_fd rp') \<and> stream rp' = drop (length l) (stream rp)"
  using assms
proof (induction n maxlen acc rp arbitrary: l rule: readline_loop.induct)
  case (1 n maxlen acc rp)
  show ?case
  proof (cases "n < maxlen")
    case False
    then show ?thesis using 1(2,3,5) by (subst readline_loop.simps) auto
  next
    case True
    then obtain k where k: "maxlen - n = Suc k" "maxlen - (n + 1) = k" by (metis Suc_diff_Suc Suc_eq_plus1)
    show ?thesis
    proof (cases rule: rio_read_one [OF 1(2,3)])
      case (1 rp')
      then show ?thesis using True \<open>l = _\<close> by (subst readline_loop.simps) (simp add: k)
    next
      case (2 b rp')
      show ?thesis
      proof (cases "b = newline")
        case nl: True
        then show ?thesis using True 2 "1.prems"(4) by (subst readline_loop.simps) (simp add: k)
      next
        case nl: False
        have eq: "readline_loop n maxlen acc rp = readline_loop (n + 1) maxlen (acc @ [b]) rp'"
          using True 2(1) nl by (subst readline_loop.simps) simp
        have l: "l = b # line_of k (stream rp')" using "1.prems"(4) 2(2) nl k by simp
        have "\<not> \<not> n < maxlen" "[b] \<noteq> [newline]" using True nl by auto
        from "1.IH" [OF this(1) 2(1) [symmetric] refl refl this(2) 2(3,4)]
        obtain g where "readline_loop (n + 1) maxlen (acc @ [b]) rp'
            = Inr (n + 1 + length (line_of k (stream rp')), acc @ b # line_of k (stream rp'), g)"
          "rio_inv g" "clean (rio_fd g)" "stream g = drop (length (line_of k (stream rp'))) (stream rp')"
          using "1.prems"(3) k(2) by auto
        then show ?thesis using eq l 2(2) by simp
      qed
    qed
  qed
qed

lemma readline_loop_old_clean:
  assumes "rio_inv rp" "clean (rio_fd rp)" "1 \<le> n" "l = line_of (maxlen - n) (stream rp)"
  shows "\<exists>rp'. readline_loop_old n maxlen acc rp
      = (if l = [] \<and> n = 1 \<and> n < maxlen then Inl (0, acc, rp')
         else Inr (n + length l - (if l \<noteq> [] \<and> last l = newline then 1 else 0), acc @ l, rp'))
    \<and> rio_inv rp' \<and> clean (rio_fd rp') \<and> stream rp' = drop (length l) (stream rp)"
  using assms
proof (induction n maxlen acc rp arbitrary: l rule: readline_loop_old.induct)
  case (1 n maxlen acc rp)
  show ?case
  proof (cases "n < maxlen")
    case False
    then show ?thesis using 1(2,3,5) by (subst readline_loop_old.simps) auto
  next
    case True
    then obtain k where k: "maxlen - n = Suc k" "maxlen - (n + 1) = k" by (metis Suc_diff_Suc Suc_eq_plus1)
    show ?thesis
    proof (cases rule: rio_read_one [OF 1(2,3)])
      case (1 rp')
      then show ?thesis using True \<open>l = _\<close> by (subst readline_loop_old.simps) (simp add: k)
    next
      case (2 b rp')
      show ?thesis
      proof (cases "b = newline")
        case nl: True
        then show ?thesis using True 2 "1.prems"(4) by (subst readline_loop_old.simps) (simp add: k)
      next
        case nl: False
        let ?l = "line_of k (stream rp')"
        have eq: "readline_loop_old n maxlen acc rp = readline_loop_old (n + 1) maxlen (acc @ [b]) rp'"
          using True 2(1) nl by (subst readline_loop_old.simps) simp
        have l: "l = b # ?l" using "1.prems"(4) 2(2) nl k by simp
        have "\<not> \<not> n < maxlen" "[b] \<noteq> [newline]" using True nl by auto
        from "1.IH" [OF this(1) 2(1) [symmetric] refl refl this(2) 2(3,4)]
        obtain g where g: "readline_loop_old (n + 1) maxlen (acc @ [b]) rp'
            = Inr (n + 1 + length ?l - (if ?l \<noteq> [] \<and> last ?l = newline then 1 else 0), acc @ b # ?l, g)"
          "rio_inv g" "clean (rio_fd g)" "stream g = drop (length ?l) (stream rp')"
          using "1.prems"(3) k(2) by auto
        have "l \<noteq> [] \<and> last l = newline \<longleftrightarrow> ?l \<noteq> [] \<and> last ?l = newline" using l nl by auto
        then show ?thesis using eq l 2(2) g by simp
      qed
    qed
  qed
qed

text \<open>A whole stream as the sequence of its lines.\<close>

function lines_of :: "nat \<Rightarrow> byte list \<Rightarrow> byte list list" where
  "lines_of k s = (if k = 0 \<or> s = [] then []
     else line_of k s # lines_of k (drop (length (line_of k s)) s))"
  by pat_completeness auto

termination
  by (relation "measure (\<lambda>(k, s). length s)") (auto simp: line_of_empty_iff length_line_of(2))

declare lines_of.simps [simp del]

lemma concat_lines_of: "0 < k \<Longrightarrow> concat (lines_of k s) = s"
proof (induction k s rule: lines_of.induct)
  case (1 k s)
  then show ?case
    using line_of_prefix [of s k] by (subst lines_of.simps) auto
qed

text \<open>
  The contract of a line reader: the bytes to come, and what reading a line of at most
  \<open>m - 1\<close> bytes returns and leaves.
\<close>

locale line_reader =
  fixes ok :: "'s \<Rightarrow> bool" and bytes :: "'s \<Rightarrow> byte list"
    and getline :: "nat \<Rightarrow> 's \<Rightarrow> int \<times> byte list \<times> 's"
  assumes getline_law: "ok s \<Longrightarrow> \<exists>s'. getline m s
      = (int (length (line_of (m - 1) (bytes s))), line_of (m - 1) (bytes s), s')
      \<and> ok s' \<and> bytes s' = drop (length (line_of (m - 1) (bytes s))) (bytes s)"
begin

text \<open>At the end of the stream the reader returns 0, and only there.\<close>

lemma getline_cases:
  assumes "ok s" "1 < m"
  obtains (eof) s' where "getline m s = (0, [], s')" "bytes s = []" "ok s'" "bytes s' = []"
  | (line) l s' where "getline m s = (int (length l), l, s')" "l \<noteq> []" "bytes s = l @ bytes s'"
      "l = line_of (m - 1) (bytes s)" "lines_of (m - 1) (bytes s) = l # lines_of (m - 1) (bytes s')"
      "ok s'" "length (bytes s') < length (bytes s)"
proof -
  define l where "l = line_of (m - 1) (bytes s)"
  from getline_law [OF assms(1)] obtain s' where g: "getline m s = (int (length l), l, s')" "ok s'"
    "bytes s' = drop (length l) (bytes s)" unfolding l_def by blast
  have split: "bytes s = l @ bytes s'" using line_of_prefix [of "bytes s" "m - 1"] g(3) by (simp add: l_def)
  show ?thesis
  proof (cases "bytes s = []")
    case True
    then have "l = []" by (simp add: l_def line_of_empty_iff)
    then show ?thesis using eof g True by simp
  next
    case False
    then have "l \<noteq> []" using assms(2) by (simp add: l_def line_of_empty_iff)
    moreover have "lines_of (m - 1) (bytes s) = l # lines_of (m - 1) (bytes s')"
      using False assms(2) g(3) by (subst lines_of.simps) (simp add: l_def)
    moreover have "length (bytes s') < length (bytes s)" using split \<open>l \<noteq> []\<close> by simp
    ultimately show ?thesis using line g split l_def by blast
  qed
qed

end

lemma rio_readlineb_clean:
  assumes "rio_inv rp" "clean (rio_fd rp)"
  shows "\<exists>rp'. rio_readlineb m rp
      = (int (length (line_of (m - 1) (stream rp))), line_of (m - 1) (stream rp), rp')
      \<and> (rio_inv rp' \<and> clean (rio_fd rp')) \<and> stream rp' = drop (length (line_of (m - 1) (stream rp))) (stream rp)"
  using readline_loop_clean [OF assms le_refl refl, of m "[]"]
  by (fastforce simp: rio_readlineb_def)

interpretation rio: line_reader "\<lambda>rp. rio_inv rp \<and> clean (rio_fd rp)" stream rio_readlineb
  by unfold_locales (use rio_readlineb_clean in blast)

text \<open>With failures: nothing is lost from the stream, whatever is returned.\<close>

lemma readline_loop_conserves:
  assumes "rio_inv rp"
  shows "case readline_loop n maxlen acc rp of
     Inl (r, bs, rp') \<Rightarrow> rio_inv rp' \<and> (\<exists>x. bs = acc @ x \<and> stream rp = x @ stream rp')
       \<and> (r = 0 \<or> r = - 1 \<and> \<not> clean (rio_fd rp))
   | Inr (k, bs, rp') \<Rightarrow> rio_inv rp' \<and> (\<exists>x. bs = acc @ x \<and> stream rp = x @ stream rp' \<and> k = n + length x)"
  using assms
proof (induction n maxlen acc rp rule: readline_loop.induct)
  case (1 n maxlen acc rp)
  show ?case
  proof (cases "n < maxlen")
    case False
    then show ?thesis using 1(2) by (subst readline_loop.simps) simp
  next
    case True
    obtain r bs rp' where call: "rio_read 1 rp = (r, bs, rp')" by (metis prod_cases3)
    note spec = rio_read_spec [OF 1(2) call]
    show ?thesis
    proof (cases "r = 1 \<and> bs \<noteq> [newline]")
      case False
      then show ?thesis using True call spec by (subst readline_loop.simps) auto
    next
      case rec: True
      then have eq: "readline_loop n maxlen acc rp = readline_loop (n + 1) maxlen (acc @ bs) rp'"
        using True call by (subst readline_loop.simps) auto
      have len: "length bs = 1" using rec spec(5) by auto
      have "\<not> \<not> n < maxlen" "r = 1" "bs \<noteq> [newline]" using True rec by auto
      note IH = "1.IH" [OF this(1) call [symmetric] refl this(2,3) spec(1)]
      show ?thesis
      proof (cases "readline_loop (n + 1) maxlen (acc @ bs) rp'")
        case (Inl a)
        obtain q ys g where a: "a = (q, ys, g)" by (cases a)
        with IH Inl obtain x where "ys = acc @ bs @ x" "stream rp' = x @ stream g" "rio_inv g"
          "q = 0 \<or> q = - 1 \<and> \<not> clean (rio_fd rp')" by auto
        then show ?thesis using spec(2,4) Inl a eq by (auto intro!: exI [of _ "bs @ x"])
      next
        case (Inr b)
        obtain q ys g where b: "b = (q, ys, g)" by (cases b)
        with IH Inr obtain x where "ys = acc @ bs @ x" "stream rp' = x @ stream g" "rio_inv g"
          "q = n + 1 + length x" by auto
        then show ?thesis using spec(2) Inr b eq len by (auto intro!: exI [of _ "bs @ x"])
      qed
    qed
  qed
qed

lemma rio_readlineb_old_clean:
  assumes "rio_inv rp" "clean (rio_fd rp)" "1 < m" "l = line_of (m - 1) (stream rp)"
  shows "\<exists>rp'. rio_readlineb_old m rp = (int (length l) + (if l = [] \<or> last l = newline then 0 else 1), l, rp')
      \<and> rio_inv rp' \<and> clean (rio_fd rp') \<and> stream rp' = drop (length l) (stream rp)"
  using readline_loop_old_clean [OF assms(1,2) le_refl assms(4), of "[]"] assms(3)
  by (auto simp: rio_readlineb_old_def split: if_splits)

text \<open>Reading never changes what was sent.\<close>

lemma rio_refill_outgoing:
  "case rio_refill rp of Inl (r, rp') \<Rightarrow> outgoing (rio_fd rp') = outgoing (rio_fd rp)
   | Inr rp' \<Rightarrow> outgoing (rio_fd rp') = outgoing (rio_fd rp)"
proof (induction rp rule: rio_refill.induct)
  case (1 rp)
  show ?case
  proof (cases "0 < rio_cnt rp")
    case True
    then show ?thesis by (simp add: rio_refill.simps)
  next
    case False
    obtain r f where r: "sys_read RIO_BUFSIZE (rio_fd rp) = (r, f)" by fastforce
    note frame = sys_read_frame(1) [OF r]
    show ?thesis
    proof (cases r)
      case (Inl e)
      then show ?thesis
        using False r frame 1(1) [OF False r [symmetric] Inl refl]
        by (subst rio_refill.simps) (auto simp: Let_def split: sum.splits)
    next
      case (Inr bs)
      then show ?thesis
        using False r frame 1(2) [OF False r [symmetric] Inr refl]
        by (subst rio_refill.simps) (auto simp: Let_def split: sum.splits)
    qed
  qed
qed

lemma rio_read_outgoing: "rio_read n rp = (r, bs, rp') \<Longrightarrow> outgoing (rio_fd rp') = outgoing (rio_fd rp)"
  using rio_refill_outgoing [of rp] by (auto simp: rio_read_def Let_def split: sum.splits prod.splits)

lemma readline_loop_outgoing:
  "case readline_loop n maxlen acc rp of Inl (r, bs, rp') \<Rightarrow> outgoing (rio_fd rp') = outgoing (rio_fd rp)
   | Inr (k, bs, rp') \<Rightarrow> outgoing (rio_fd rp') = outgoing (rio_fd rp)"
proof (induction n maxlen acc rp rule: readline_loop.induct)
  case (1 n maxlen acc rp)
  obtain r bs rp' where call: "rio_read 1 rp = (r, bs, rp')" by (metis prod_cases3)
  note frame = rio_read_outgoing [OF call]
  show ?case
  proof (cases "n < maxlen \<and> r = 1 \<and> bs \<noteq> [newline]")
    case True
    then have "\<not> \<not> n < maxlen" "r = 1" "bs \<noteq> [newline]" by auto
    from "1.IH" [OF this(1) call [symmetric] refl this(2,3)] show ?thesis
      using True call frame by (subst readline_loop.simps) (auto split: sum.splits)
  next
    case False
    then show ?thesis using call frame by (subst readline_loop.simps) auto
  qed
qed

lemma rio_readlineb_outgoing:
  "rio_readlineb m rp = (r, bs, rp') \<Longrightarrow> outgoing (rio_fd rp') = outgoing (rio_fd rp)"
  using readline_loop_outgoing [where n = 1 and maxlen = m and acc = "[]" and rp = rp]
  by (auto simp: rio_readlineb_def split: sum.splits prod.splits)

section \<open>Properties\<close>

text \<open>
  Rio_readn. Short counts and interrupted calls are invisible: unless a read fails,
  \<open>rio_readn\<close> returns the smaller of the requested count and the bytes left, stores exactly
  those bytes and leaves the rest; when a read fails it returns -1.  No byte is lost or read twice.
\<close>

theorem rio_readn_robust:
  "case rio_readn n f of (r, bs, f') \<Rightarrow> incoming f = bs @ incoming f' \<and> length bs \<le> n
     \<and> (if clean f then r = int (length bs) \<and> bs = take n (incoming f) else r = - 1 \<or> r = int (length bs))
     \<and> (if r = - 1 then \<not> clean f else bs = take n (incoming f))"
proof (cases "rio_readn_loop n [] f")
  case (Inl a)
  obtain k bs f' where a: "a = (k, bs, f')" by (cases a)
  have s: "incoming f = bs @ incoming f'" "k + length bs = n" "0 < k \<longrightarrow> incoming f' = []"
    using rio_readn_loop_spec [where nleft = n and acc = "[]" and f = f] Inl a by auto
  then have "bs = take n (incoming f)" by (cases "k = 0") auto
  then show ?thesis using Inl a s by (simp add: rio_readn_def)
next
  case (Inr b)
  then show ?thesis using rio_readn_loop_spec [where nleft = n and acc = "[]" and f = f] by (cases b) (auto simp: rio_readn_def)
qed

text \<open>
  Rio_writen. Short writes and interrupted calls are invisible: unless a write fails,
  all the bytes are sent once, in order; on a failure -1 is returned and a proper prefix was sent.
\<close>

theorem rio_writen_robust:
  "case rio_writen bs f of (r, f') \<Rightarrow> incoming f' = incoming f
     \<and> (if clean f then r = int (length bs) \<and> outgoing f' = outgoing f @ bs
        else r = int (length bs) \<and> outgoing f' = outgoing f @ bs
           \<or> r = - 1 \<and> (\<exists>m < length bs. outgoing f' = outgoing f @ take m bs))"
  using rio_writen_loop_spec [where bs = bs and f = f] by (auto simp: rio_writen_def split: prod.splits if_splits)

text \<open>
  C29 (rio_read). Every read through the buffer keeps the buffer well formed and delivers a
  prefix of the stream (the unread bytes of the buffer followed by those of the
  descriptor): at least one byte unless the stream is at its end or a read failed.
\<close>

theorem rio_read_stream:
  assumes "rio_inv rp" "0 < n"
  shows "case rio_read n rp of (r, bs, rp') \<Rightarrow> rio_inv rp' \<and> stream rp = bs @ stream rp' \<and> length bs \<le> n
     \<and> (if r = - 1 then bs = [] \<and> \<not> clean (rio_fd rp) else r = int (length bs) \<and> (r = 0 \<longleftrightarrow> stream rp = []))"
proof -
  obtain r bs rp' where call: "rio_read n rp = (r, bs, rp')" by (metis prod_cases3)
  show ?thesis using rio_read_spec [OF assms(1) call] assms(2) by (auto simp: call)
qed

theorem rio_read_stream_witness:
  "case rio_read 2 (rio_fresh \<lparr>incoming = [65, 66, 67], outgoing = [], events = [Intr, Short 4]\<rparr>) of
     (r, bs, rp') \<Rightarrow> rio_inv rp' \<and> [65, 66, 67] = bs @ stream rp'"
proof -
  let ?rp = "rio_fresh \<lparr>incoming = [65, 66, 67], outgoing = [], events = [Intr, Short 4]\<rparr>"
  have "rio_inv ?rp" "stream ?rp = [65, 66, 67]" by (simp_all add: rio_fresh_ok)
  then show ?thesis using rio_read_stream [of ?rp 2] by (auto split: prod.splits)
qed

text \<open>
  Rio_readnb. The buffered block read takes exactly the first \<open>n\<close> bytes of the stream
  (or all that is left), however the refills of the buffer fall; only a failing read makes
  it return -1, and the bytes not delivered stay in the stream.
\<close>

theorem rio_readnb_stream:
  assumes "rio_inv rp"
  shows "case rio_readnb n rp of (r, bs, rp') \<Rightarrow> rio_inv rp' \<and> stream rp = bs @ stream rp' \<and> length bs \<le> n
     \<and> (if r = - 1 then \<not> clean (rio_fd rp) else r = int (length bs) \<and> bs = take n (stream rp))"
proof (cases "rio_readnb_loop n [] rp")
  case (Inl a)
  obtain k bs g where a: "a = (k, bs, g)" by (cases a)
  have s: "stream rp = bs @ stream g" "k + length bs = n" "0 < k \<longrightarrow> stream g = []" "rio_inv g"
    using rio_readnb_loop_spec [OF assms, where nleft = n and acc = "[]"] Inl a by auto
  then have "bs = take n (stream rp)" by (cases "k = 0") auto
  then show ?thesis using Inl a s by (simp add: rio_readnb_def)
next
  case (Inr b)
  then show ?thesis using rio_readnb_loop_spec [OF assms, where nleft = n and acc = "[]"] by (cases b) (auto simp: rio_readnb_def)
qed

theorem rio_readnb_stream_witness:
  "case rio_readnb 3 (rio_fresh \<lparr>incoming = [1, 2, 3, 4], outgoing = [], events = [Short 0, Intr]\<rparr>) of
     (r, bs, rp') \<Rightarrow> rio_inv rp' \<and> (if r = - 1 then False else bs = [1, 2, 3])"
proof -
  let ?rp = "rio_fresh \<lparr>incoming = [1, 2, 3, 4], outgoing = [], events = [Short 0, Intr]\<rparr>"
  have "rio_inv ?rp" "clean (rio_fd ?rp)"
    by (simp_all add: rio_fresh_ok)
  moreover obtain r bs rp' where call: "rio_readnb 3 ?rp = (r, bs, rp')" by (metis prod_cases3)
  ultimately have "rio_inv rp' \<and> r \<noteq> - 1 \<and> bs = take 3 (stream ?rp)"
    using rio_readnb_stream [of ?rp 3] unfolding call prod.case by metis
  then show ?thesis using call by (simp add: rio_fresh_ok)
qed



text \<open>
  Rio_readlineb of 16-io. The older version stores the same line but returns one more
  than its length when the line does not end in a newline (the last line of a file, or a
  line longer than the buffer): the caller then also handles the terminating NUL as data.
\<close>

theorem rio_readlineb_old_count:
  assumes "rio_inv rp" "clean (rio_fd rp)" "1 < maxlen"
  shows "case rio_readlineb_old maxlen rp of (r, bs, rp') \<Rightarrow> bs = line_of (maxlen - 1) (stream rp)
     \<and> r = int (length bs) + (if bs = [] \<or> last bs = newline then 0 else 1)"
  using rio_readlineb_old_clean [OF assms refl] by auto

theorem rio_readlineb_old_count_witness:
  "case rio_readlineb_old 9 (rio_fresh \<lparr>incoming = [72, 105], outgoing = [], events = []\<rparr>) of
     (r, bs, rp') \<Rightarrow> r = 3 \<and> bs = [72, 105]"
proof -
  let ?rp = "rio_fresh \<lparr>incoming = [72, 105], outgoing = [], events = []\<rparr>"
  have "rio_inv ?rp" "stream ?rp = [72, 105]" "clean (rio_fd ?rp)"
    by (simp_all add: rio_fresh_ok)
  moreover have "line_of (9 - 1) [72, 105] = [72, 105]" by code_simp
  moreover obtain r bs rp' where "rio_readlineb_old 9 ?rp = (r, bs, rp')" by (metis prod_cases3)
  ultimately show ?thesis using rio_readlineb_old_count [of ?rp 9] by simp
qed

end
