(* ===== verification/Csapp.thy ===== *)
theory Csapp
  imports Rio
begin

text \<open>
  The error-handling functions and the error-checking wrappers of \<open>csapp.c\<close>.  A wrapper
  takes what the wrapped call delivered (its return value and the \<open>errno\<close> it left) and
  either returns or ends the process; the outcome records which error function ended it.
  \<open>Undefined\<close> stands for an access outside an object, where C gives no behaviour at all.
  Programs of the repository are sequences of such calls, composed by \<open>then_do\<close>.
\<close>

section \<open>Outcomes\<close>

datatype 'a outcome =
    Ret 'a
  | UnixError string int
  | PosixError string int
  | GaiError string int
  | AppError string
  | DnsError string
  | Undefined

definition unix_error :: "string \<Rightarrow> int \<Rightarrow> 'a outcome" where
  "unix_error msg errno = UnixError msg errno"

definition posix_error :: "int \<Rightarrow> string \<Rightarrow> 'a outcome" where
  "posix_error code msg = PosixError msg code"

definition gai_error :: "int \<Rightarrow> string \<Rightarrow> 'a outcome" where
  "gai_error code msg = GaiError msg code"

definition app_error :: "string \<Rightarrow> 'a outcome" where
  "app_error msg = AppError msg"

definition dns_error :: "string \<Rightarrow> 'a outcome" where
  "dns_error msg = DnsError msg"

lemmas error_defs = unix_error_def posix_error_def gai_error_def app_error_def dns_error_def

text \<open>What the error functions print, given the message tables of the C library, and the exit status.\<close>

fun error_text :: "(int \<Rightarrow> string) \<Rightarrow> (int \<Rightarrow> string) \<Rightarrow> 'a outcome \<Rightarrow> string" where
  "error_text strerror gai_strerror (UnixError msg e) = msg @ '': '' @ strerror e @ [CHR 0x0A]"
| "error_text strerror gai_strerror (PosixError msg e) = msg @ '': '' @ strerror e @ [CHR 0x0A]"
| "error_text strerror gai_strerror (GaiError msg e) = msg @ '': '' @ gai_strerror e @ [CHR 0x0A]"
| "error_text strerror gai_strerror (AppError msg) = msg @ [CHR 0x0A]"
| "error_text strerror gai_strerror (DnsError msg) = msg @ [CHR 0x0A]"
| "error_text strerror gai_strerror (Ret _) = []"
| "error_text strerror gai_strerror Undefined = []"

fun exit_status :: "'a outcome \<Rightarrow> int option" where
  "exit_status (Ret _) = None"
| "exit_status Undefined = None"
| "exit_status _ = Some 0"

fun then_do :: "'a outcome \<Rightarrow> ('a \<Rightarrow> 'b outcome) \<Rightarrow> 'b outcome" where
  "then_do (Ret x) f = f x"
| "then_do (UnixError m e) f = UnixError m e"
| "then_do (PosixError m e) f = PosixError m e"
| "then_do (GaiError m e) f = GaiError m e"
| "then_do (AppError m) f = AppError m"
| "then_do (DnsError m) f = DnsError m"
| "then_do Undefined f = Undefined"

lemma then_do_assoc: "then_do (then_do x f) g = then_do x (\<lambda>y. then_do (f y) g)"
  by (cases x) auto

lemma then_do_Ret_iff: "then_do x f = Ret y \<longleftrightarrow> (\<exists>z. x = Ret z \<and> f z = Ret y)"
  by (cases x) auto

type_synonym sysret = "int \<times> int"

section \<open>Process control\<close>

definition Fork :: "sysret \<Rightarrow> int outcome" where
  "Fork r = (case r of (rc, errno) \<Rightarrow> if rc < 0 then unix_error ''Fork error'' errno else Ret rc)"

definition Execve :: "sysret \<Rightarrow> unit outcome" where
  "Execve r = (case r of (rc, errno) \<Rightarrow> if rc < 0 then unix_error ''Execve error'' errno else Ret ())"

definition Wait :: "sysret \<Rightarrow> int outcome" where
  "Wait r = (case r of (rc, errno) \<Rightarrow> if rc < 0 then unix_error ''Wait error'' errno else Ret rc)"

definition Waitpid :: "sysret \<Rightarrow> int outcome" where
  "Waitpid r = (case r of (rc, errno) \<Rightarrow> if rc < 0 then unix_error ''Waitpid error'' errno else Ret rc)"

definition Kill :: "sysret \<Rightarrow> unit outcome" where
  "Kill r = (case r of (rc, errno) \<Rightarrow> if rc < 0 then unix_error ''Kill error'' errno else Ret ())"

text \<open>\<open>Sleep\<close> tests the \<open>unsigned\<close> result of \<open>sleep\<close> for a negative value.\<close>

definition Sleep :: "cint \<Rightarrow> int \<Rightarrow> cint outcome" where
  "Sleep rc errno = (if uint rc < 0 then unix_error ''Sleep error'' errno else Ret rc)"

definition Setpgid :: "sysret \<Rightarrow> unit outcome" where
  "Setpgid r = (case r of (rc, errno) \<Rightarrow> if rc < 0 then unix_error ''Setpgid error'' errno else Ret ())"

section \<open>Signals\<close>

text \<open>\<open>sigaction\<close> also delivers the old handler.\<close>

definition Signal :: "sysret \<Rightarrow> 'h \<Rightarrow> 'h outcome" where
  "Signal r old_handler = (case r of (rc, errno) \<Rightarrow>
     if rc < 0 then unix_error ''Signal error'' errno else Ret old_handler)"

definition Sigprocmask :: "sysret \<Rightarrow> unit outcome" where
  "Sigprocmask r = (case r of (rc, errno) \<Rightarrow> if rc < 0 then unix_error ''Sigprocmask error'' errno else Ret ())"

definition Sigemptyset :: "sysret \<Rightarrow> unit outcome" where
  "Sigemptyset r = (case r of (rc, errno) \<Rightarrow> if rc < 0 then unix_error ''Sigemptyset error'' errno else Ret ())"

definition Sigfillset :: "sysret \<Rightarrow> unit outcome" where
  "Sigfillset r = (case r of (rc, errno) \<Rightarrow> if rc < 0 then unix_error ''Sigfillset error'' errno else Ret ())"

definition Sigaddset :: "sysret \<Rightarrow> unit outcome" where
  "Sigaddset r = (case r of (rc, errno) \<Rightarrow> if rc < 0 then unix_error ''Sigaddset error'' errno else Ret ())"

definition Sigdelset :: "sysret \<Rightarrow> unit outcome" where
  "Sigdelset r = (case r of (rc, errno) \<Rightarrow> if rc < 0 then unix_error ''Sigdelset error'' errno else Ret ())"

definition Sigismember :: "sysret \<Rightarrow> int outcome" where
  "Sigismember r = (case r of (rc, errno) \<Rightarrow> if rc < 0 then unix_error ''Sigismember error'' errno else Ret rc)"

definition Sigsuspend :: "sysret \<Rightarrow> int outcome" where
  "Sigsuspend r = (case r of (rc, errno) \<Rightarrow>
     if errno \<noteq> EINTR then unix_error ''Sigsuspend error'' errno else Ret rc)"

section \<open>Unix I/O\<close>

definition Open :: "sysret \<Rightarrow> int outcome" where
  "Open r = (case r of (rc, errno) \<Rightarrow> if rc < 0 then unix_error ''Open error'' errno else Ret rc)"

definition Read :: "sysret \<Rightarrow> int outcome" where
  "Read r = (case r of (rc, errno) \<Rightarrow> if rc < 0 then unix_error ''Read error'' errno else Ret rc)"

definition Write :: "sysret \<Rightarrow> int outcome" where
  "Write r = (case r of (rc, errno) \<Rightarrow> if rc < 0 then unix_error ''Write error'' errno else Ret rc)"

definition Lseek :: "sysret \<Rightarrow> int outcome" where
  "Lseek r = (case r of (rc, errno) \<Rightarrow> if rc < 0 then unix_error ''Lseek error'' errno else Ret rc)"

definition Close :: "sysret \<Rightarrow> unit outcome" where
  "Close r = (case r of (rc, errno) \<Rightarrow> if rc < 0 then unix_error ''Close error'' errno else Ret ())"

definition Select :: "sysret \<Rightarrow> int outcome" where
  "Select r = (case r of (rc, errno) \<Rightarrow> if rc < 0 then unix_error ''Select error'' errno else Ret rc)"

definition Dup2 :: "sysret \<Rightarrow> int outcome" where
  "Dup2 r = (case r of (rc, errno) \<Rightarrow> if rc < 0 then unix_error ''Dup2 error'' errno else Ret rc)"

definition Stat :: "sysret \<Rightarrow> unit outcome" where
  "Stat r = (case r of (rc, errno) \<Rightarrow> if rc < 0 then unix_error ''Stat error'' errno else Ret ())"

definition Fstat :: "sysret \<Rightarrow> unit outcome" where
  "Fstat r = (case r of (rc, errno) \<Rightarrow> if rc < 0 then unix_error ''Fstat error'' errno else Ret ())"

section \<open>Directories and memory mappings\<close>

definition Opendir :: "'p option \<Rightarrow> int \<Rightarrow> 'p outcome" where
  "Opendir p errno = (case p of None \<Rightarrow> unix_error ''opendir error'' errno | Some q \<Rightarrow> Ret q)"

text \<open>The end of a directory is a null result with \<open>errno\<close> still zero.\<close>

definition Readdir :: "'d option \<Rightarrow> int \<Rightarrow> 'd option outcome" where
  "Readdir dep errno = (if dep = None \<and> errno \<noteq> 0 then unix_error ''readdir error'' errno else Ret dep)"

definition Closedir :: "sysret \<Rightarrow> int outcome" where
  "Closedir r = (case r of (rc, errno) \<Rightarrow> if rc < 0 then unix_error ''closedir error'' errno else Ret rc)"

definition Mmap :: "size_t \<Rightarrow> int \<Rightarrow> size_t outcome" where
  "Mmap ptr errno = (if ptr = - 1 then unix_error ''mmap error'' errno else Ret ptr)"

definition Munmap :: "sysret \<Rightarrow> unit outcome" where
  "Munmap r = (case r of (rc, errno) \<Rightarrow> if rc < 0 then unix_error ''munmap error'' errno else Ret ())"

section \<open>Dynamic storage\<close>

definition Malloc :: "'p option \<Rightarrow> int \<Rightarrow> 'p outcome" where
  "Malloc p errno = (case p of None \<Rightarrow> unix_error ''Malloc error'' errno | Some q \<Rightarrow> Ret q)"

definition Realloc :: "'p option \<Rightarrow> int \<Rightarrow> 'p outcome" where
  "Realloc p errno = (case p of None \<Rightarrow> unix_error ''Realloc error'' errno | Some q \<Rightarrow> Ret q)"

definition Calloc :: "'p option \<Rightarrow> int \<Rightarrow> 'p outcome" where
  "Calloc p errno = (case p of None \<Rightarrow> unix_error ''Calloc error'' errno | Some q \<Rightarrow> Ret q)"

section \<open>Standard I/O\<close>

definition Fclose :: "sysret \<Rightarrow> unit outcome" where
  "Fclose r = (case r of (rc, errno) \<Rightarrow> if rc \<noteq> 0 then unix_error ''Fclose error'' errno else Ret ())"

definition Fdopen :: "'p option \<Rightarrow> int \<Rightarrow> 'p outcome" where
  "Fdopen p errno = (case p of None \<Rightarrow> unix_error ''Fdopen error'' errno | Some q \<Rightarrow> Ret q)"

definition Fgets :: "string option \<Rightarrow> bool \<Rightarrow> string option outcome" where
  "Fgets rptr ferror = (if rptr = None \<and> ferror then app_error ''Fgets error'' else Ret rptr)"

definition Fopen :: "'p option \<Rightarrow> int \<Rightarrow> 'p outcome" where
  "Fopen p errno = (case p of None \<Rightarrow> unix_error ''Fopen error'' errno | Some q \<Rightarrow> Ret q)"

definition Fputs :: "sysret \<Rightarrow> unit outcome" where
  "Fputs r = (case r of (rc, errno) \<Rightarrow> if rc = - 1 then unix_error ''Fputs error'' errno else Ret ())"

definition Fread :: "nat \<Rightarrow> nat \<Rightarrow> bool \<Rightarrow> int \<Rightarrow> nat outcome" where
  "Fread n nmemb ferror errno = (if n < nmemb \<and> ferror then unix_error ''Fread error'' errno else Ret n)"

definition Fwrite :: "nat \<Rightarrow> nat \<Rightarrow> int \<Rightarrow> unit outcome" where
  "Fwrite n nmemb errno = (if n < nmemb then unix_error ''Fwrite error'' errno else Ret ())"

section \<open>Sockets and addresses\<close>

definition Socket :: "sysret \<Rightarrow> int outcome" where
  "Socket r = (case r of (rc, errno) \<Rightarrow> if rc < 0 then unix_error ''Socket error'' errno else Ret rc)"

definition Setsockopt :: "sysret \<Rightarrow> unit outcome" where
  "Setsockopt r = (case r of (rc, errno) \<Rightarrow> if rc < 0 then unix_error ''Setsockopt error'' errno else Ret ())"

definition Bind :: "sysret \<Rightarrow> unit outcome" where
  "Bind r = (case r of (rc, errno) \<Rightarrow> if rc < 0 then unix_error ''Bind error'' errno else Ret ())"

definition Listen :: "sysret \<Rightarrow> unit outcome" where
  "Listen r = (case r of (rc, errno) \<Rightarrow> if rc < 0 then unix_error ''Listen error'' errno else Ret ())"

definition Accept :: "sysret \<Rightarrow> int outcome" where
  "Accept r = (case r of (rc, errno) \<Rightarrow> if rc < 0 then unix_error ''Accept error'' errno else Ret rc)"

definition Connect :: "sysret \<Rightarrow> unit outcome" where
  "Connect r = (case r of (rc, errno) \<Rightarrow> if rc < 0 then unix_error ''Connect error'' errno else Ret ())"

definition Getaddrinfo :: "int \<Rightarrow> unit outcome" where
  "Getaddrinfo rc = (if rc \<noteq> 0 then gai_error rc ''Getaddrinfo error'' else Ret ())"

definition Getnameinfo :: "int \<Rightarrow> unit outcome" where
  "Getnameinfo rc = (if rc \<noteq> 0 then gai_error rc ''Getnameinfo error'' else Ret ())"

definition Inet_ntop :: "'p option \<Rightarrow> int \<Rightarrow> 'p outcome" where
  "Inet_ntop p errno = (case p of None \<Rightarrow> unix_error ''Inet_ntop error'' errno | Some q \<Rightarrow> Ret q)"

definition Inet_pton :: "sysret \<Rightarrow> unit outcome" where
  "Inet_pton r = (case r of (rc, errno) \<Rightarrow>
     if rc = 0 then app_error ''inet_pton error: invalid dotted-decimal address''
     else if rc < 0 then unix_error ''Inet_pton error'' errno else Ret ())"

definition Gethostbyname :: "'p option \<Rightarrow> 'p outcome" where
  "Gethostbyname p = (case p of None \<Rightarrow> dns_error ''Gethostbyname error'' | Some q \<Rightarrow> Ret q)"

definition Gethostbyaddr :: "'p option \<Rightarrow> 'p outcome" where
  "Gethostbyaddr p = (case p of None \<Rightarrow> dns_error ''Gethostbyaddr error'' | Some q \<Rightarrow> Ret q)"

section \<open>Threads and semaphores\<close>

definition Pthread_create :: "int \<Rightarrow> unit outcome" where
  "Pthread_create rc = (if rc \<noteq> 0 then posix_error rc ''Pthread_create error'' else Ret ())"

definition Pthread_cancel :: "int \<Rightarrow> unit outcome" where
  "Pthread_cancel rc = (if rc \<noteq> 0 then posix_error rc ''Pthread_cancel error'' else Ret ())"

definition Pthread_join :: "int \<Rightarrow> unit outcome" where
  "Pthread_join rc = (if rc \<noteq> 0 then posix_error rc ''Pthread_join error'' else Ret ())"

definition Pthread_detach :: "int \<Rightarrow> unit outcome" where
  "Pthread_detach rc = (if rc \<noteq> 0 then posix_error rc ''Pthread_detach error'' else Ret ())"

definition Sem_init :: "sysret \<Rightarrow> unit outcome" where
  "Sem_init r = (case r of (rc, errno) \<Rightarrow> if rc < 0 then unix_error ''Sem_init error'' errno else Ret ())"

definition P_sem :: "sysret \<Rightarrow> unit outcome" where
  "P_sem r = (case r of (rc, errno) \<Rightarrow> if rc < 0 then unix_error ''P error'' errno else Ret ())"

definition V_sem :: "sysret \<Rightarrow> unit outcome" where
  "V_sem r = (case r of (rc, errno) \<Rightarrow> if rc < 0 then unix_error ''V error'' errno else Ret ())"

section \<open>Wrappers of the Rio package\<close>

definition Rio_readn :: "int \<Rightarrow> nat \<Rightarrow> descr \<Rightarrow> (int \<times> byte list \<times> descr) outcome" where
  "Rio_readn errno n f = (case rio_readn n f of (r, bs, f') \<Rightarrow>
     if r < 0 then unix_error ''Rio_readn error'' errno else Ret (r, bs, f'))"

definition Rio_writen :: "int \<Rightarrow> byte list \<Rightarrow> descr \<Rightarrow> descr outcome" where
  "Rio_writen errno bs f = (case rio_writen bs f of (r, f') \<Rightarrow>
     if r \<noteq> int (length bs) then unix_error ''Rio_writen error'' errno else Ret f')"

definition Rio_readnb :: "int \<Rightarrow> nat \<Rightarrow> rio_t \<Rightarrow> (int \<times> byte list \<times> rio_t) outcome" where
  "Rio_readnb errno n rp = (case rio_readnb n rp of (r, bs, rp') \<Rightarrow>
     if r < 0 then unix_error ''Rio_readnb error'' errno else Ret (r, bs, rp'))"

definition Rio_readlineb :: "int \<Rightarrow> nat \<Rightarrow> rio_t \<Rightarrow> (int \<times> byte list \<times> rio_t) outcome" where
  "Rio_readlineb errno maxlen rp = (case rio_readlineb maxlen rp of (r, bs, rp') \<Rightarrow>
     if r < 0 then unix_error ''Rio_readlineb error'' errno else Ret (r, bs, rp'))"

lemma Rio_writen_clean:
  assumes "clean f"
  obtains f' where "Rio_writen errno bs f = Ret f'" "incoming f' = incoming f"
    "outgoing f' = outgoing f @ bs" "clean f'"
  using rio_writen_loop_spec [where bs = bs and f = f] assms that
  by (auto simp: Rio_writen_def rio_writen_def split: prod.splits if_splits)

lemma Rio_readlineb_outgoing:
  "Rio_readlineb errno m rp = Ret (r, bs, rp') \<Longrightarrow> outgoing (rio_fd rp') = outgoing (rio_fd rp)"
  by (auto simp: Rio_readlineb_def error_defs dest: rio_readlineb_outgoing split: prod.splits if_splits)

text \<open>The wrapper of the line reader keeps the contract of the line reader.\<close>

lemma Rio_readlineb_cases:
  assumes "rio_inv rp" "clean (rio_fd rp)" "1 < m"
  obtains (eof) rp' where "Rio_readlineb errno m rp = Ret (0, [], rp')" "stream rp = []" "stream rp' = []"
      "rio_inv rp'" "clean (rio_fd rp')"
  | (line) l rp' where "Rio_readlineb errno m rp = Ret (int (length l), l, rp')" "l \<noteq> []"
      "stream rp = l @ stream rp'" "lines_of (m - 1) (stream rp) = l # lines_of (m - 1) (stream rp')"
      "l = line_of (m - 1) (stream rp)" "rio_inv rp'" "clean (rio_fd rp')"
      "length (stream rp') < length (stream rp)"
proof -
  have ok: "rio_inv rp \<and> clean (rio_fd rp)" using assms by simp
  show ?thesis
  proof (cases rule: rio.getline_cases [OF ok assms(3)])
    case (1 rp')
    have "Rio_readlineb errno m rp = Ret (0, [], rp')" unfolding Rio_readlineb_def 1(1) by simp
    then show ?thesis using eof 1 by blast
  next
    case (2 l rp')
    have "Rio_readlineb errno m rp = Ret (int (length l), l, rp')" unfolding Rio_readlineb_def 2(1) by simp
    then show ?thesis using line 2 by blast
  qed
qed

section \<open>The contract of a wrapper\<close>

text \<open>
  A wrapper returns the value of a successful call unchanged and ends the process on a
  failed one.  Sequences of wrapped calls then return exactly when all calls succeed.
\<close>

locale checked_call =
  fixes wrapper :: "'r \<Rightarrow> 'a outcome" and succeeded :: "'r \<Rightarrow> bool" and result :: "'r \<Rightarrow> 'a"
  assumes success: "succeeded r \<Longrightarrow> wrapper r = Ret (result r)"
    and failure: "\<not> succeeded r \<Longrightarrow> exit_status (wrapper r) = Some 0"
begin

lemma returns_iff: "wrapper r = Ret v \<longleftrightarrow> succeeded r \<and> v = result r"
  using success [of r] failure [of r] by (cases "succeeded r") auto

lemma calls_return:
  "foldr (\<lambda>r k. then_do (wrapper r) (\<lambda>v. then_do k (\<lambda>vs. Ret (v # vs)))) rs (Ret []) = Ret vs
   \<longleftrightarrow> list_all succeeded rs \<and> vs = map result rs"
  by (induction rs arbitrary: vs) (auto simp: then_do_Ret_iff returns_iff)

end

interpretation fork: checked_call Fork "\<lambda>(rc, e). 0 \<le> rc" fst
  by unfold_locales (auto simp: Fork_def error_defs split: prod.splits)

interpretation accept: checked_call Accept "\<lambda>(rc, e). 0 \<le> rc" fst
  by unfold_locales (auto simp: Accept_def error_defs split: prod.splits)

interpretation pthread_create: checked_call Pthread_create "\<lambda>rc. rc = 0" "\<lambda>_. ()"
  by unfold_locales (auto simp: Pthread_create_def error_defs)

interpretation malloc: checked_call "\<lambda>p. Malloc p e" "\<lambda>p. p \<noteq> None" the for e
  by unfold_locales (auto simp: Malloc_def error_defs)

end
