(* ===== verification/Echo.thy ===== *)
theory Echo
  imports Csapp
begin

text \<open>
  The copying programs over the Rio package: the \<open>echo\<close> service of the network servers, the
  filters \<open>cpfile\<close> and \<open>cpstdin\<close> and the memory-mapped copy.  Loops that run until the end
  of their input are partial functions; that they end is proved.  The line buffer holds
  the line and the terminating \<open>NUL\<close> the reader stores after it.
\<close>

abbreviation MAXLINE :: nat where "MAXLINE \<equiv> 8192"

definition line_buf :: "byte list \<Rightarrow> byte list" where
  "line_buf bs = bs @ [NUL]"

lemma take_line_buf [simp]: "take (length bs) (line_buf bs) = bs"
  by (simp add: line_buf_def)

section \<open>echo\<close>

text \<open>The log holds the byte counts the server prints.\<close>

partial_function (option) echo_loop :: "int \<Rightarrow> rio_t \<Rightarrow> int list \<Rightarrow> (rio_t \<times> int list) outcome option" where
  "echo_loop e rp log = (case Rio_readlineb e MAXLINE rp of
     Ret (n, bs, rp1) \<Rightarrow>
       if n = 0 then Some (Ret (rp1, log))
       else (case Rio_writen e (take (nat n) (line_buf bs)) (rio_fd rp1) of
          Ret f \<Rightarrow> echo_loop e (rp1\<lparr>rio_fd := f\<rparr>) (log @ [n])
        | bad \<Rightarrow> Some (then_do bad (\<lambda>_. Ret (rp1, log))))
   | bad \<Rightarrow> Some (then_do bad (\<lambda>(_, _, rp1). Ret (rp1, log))))"

definition echo :: "int \<Rightarrow> descr \<Rightarrow> (rio_t \<times> int list) outcome option" where
  "echo e connfd = echo_loop e (rio_fresh connfd) []"

lemma echo_loop_spec:
  assumes "rio_inv rp" "clean (rio_fd rp)"
  shows "\<exists>rp'. echo_loop e rp log = Some (Ret (rp', log @ map (int \<circ> length) (lines_of (MAXLINE - 1) (stream rp))))
     \<and> outgoing (rio_fd rp') = outgoing (rio_fd rp) @ stream rp \<and> stream rp' = []"
  using assms
proof (induction "length (stream rp)" arbitrary: rp log rule: less_induct)
  case less
  have m: "1 < MAXLINE" by simp
  show ?case
  proof (cases rule: Rio_readlineb_cases [OF less.prems m, where errno = e])
    case (1 rp')
    then have "outgoing (rio_fd rp') = outgoing (rio_fd rp)" using Rio_readlineb_outgoing by blast
    then show ?thesis using 1 by (subst echo_loop.simps) (simp add: lines_of.simps)
  next
    case (2 l rp')
    have out: "outgoing (rio_fd rp') = outgoing (rio_fd rp)" using 2(1) Rio_readlineb_outgoing by blast
    obtain f where f: "Rio_writen e l (rio_fd rp') = Ret f" "incoming f = incoming (rio_fd rp')"
      "outgoing f = outgoing (rio_fd rp') @ l" "clean f"
      by (rule Rio_writen_clean [OF 2(7)])
    let ?rp = "rp'\<lparr>rio_fd := f\<rparr>" and ?n = "int (length l)"
    have st: "stream ?rp = stream rp'" "rio_inv ?rp"
      using f(2) 2(6) by (simp_all add: stream_def unread_def rio_inv_def)
    have step: "echo_loop e rp log = echo_loop e ?rp (log @ [?n])"
      using 2(2) f(1) by (subst echo_loop.simps, subst 2(1)) simp
    have "length (stream ?rp) < length (stream rp)" using 2(8) st by simp
    from less.hyps [OF this st(2), of "log @ [?n]"] f(4) obtain rp2 where
      "echo_loop e ?rp (log @ [?n]) = Some (Ret (rp2, (log @ [?n]) @ map (int \<circ> length) (lines_of (MAXLINE - 1) (stream rp'))))"
      "outgoing (rio_fd rp2) = outgoing f @ stream rp'" "stream rp2 = []"
      unfolding st(1) by auto
    then show ?thesis using step out f(3) 2(3) unfolding 2(4) by simp
  qed
qed

section \<open>cpfile\<close>

text \<open>
  \<open>cpfile\<close> of \<open>16-io\<close> is linked with the older line reader: its count is what is written
  from the line buffer.
\<close>

partial_function (option) cpfile_loop :: "int \<Rightarrow> rio_t \<Rightarrow> descr \<Rightarrow> descr outcome option" where
  "cpfile_loop e rp out = (case rio_readlineb_old MAXLINE rp of (n, bs, rp1) \<Rightarrow>
     if n < 0 then Some (unix_error ''Rio_readlineb error'' e)
     else if n = 0 then Some (Ret out)
     else (case Rio_writen e (take (nat n) (line_buf bs)) out of
          Ret f \<Rightarrow> cpfile_loop e rp1 f
        | bad \<Rightarrow> Some bad))"

definition cpfile :: "int \<Rightarrow> descr \<Rightarrow> descr \<Rightarrow> descr outcome option" where
  "cpfile e stdin stdout = cpfile_loop e (rio_fresh stdin) stdout"

text \<open>What reaches the output for one line.\<close>

definition cp_line :: "byte list \<Rightarrow> byte list" where
  "cp_line l = (if last l = newline then l else l @ [NUL])"

lemma cpfile_loop_spec:
  assumes "rio_inv rp" "clean (rio_fd rp)" "clean out"
  shows "\<exists>out'. cpfile_loop e rp out = Some (Ret out')
     \<and> outgoing out' = outgoing out @ concat (map cp_line (lines_of (MAXLINE - 1) (stream rp)))"
  using assms
proof (induction "length (stream rp)" arbitrary: rp out rule: less_induct)
  case less
  define l where "l = line_of (MAXLINE - 1) (stream rp)"
  obtain rp' where r: "rio_readlineb_old MAXLINE rp
      = (int (length l) + (if l = [] \<or> last l = newline then 0 else 1), l, rp')"
    "rio_inv rp'" "clean (rio_fd rp')" "stream rp' = drop (length l) (stream rp)"
    using rio_readlineb_old_clean [OF less.prems(1,2) _ l_def] by auto
  show ?case
  proof (cases "stream rp = []")
    case True
    then have "l = []" by (simp add: l_def line_of_empty_iff)
    then show ?thesis using r(1) True by (subst cpfile_loop.simps) (simp add: lines_of.simps)
  next
    case False
    then have ne: "l \<noteq> []" by (simp add: l_def line_of_empty_iff)
    have lines: "lines_of (MAXLINE - 1) (stream rp) = l # lines_of (MAXLINE - 1) (stream rp')"
      using False r(4) by (subst lines_of.simps) (simp add: l_def)
    have dec: "length (stream rp') < length (stream rp)" using ne False r(4) by (simp add: length_greater_0_conv)
    obtain f where f: "Rio_writen e (cp_line l) out = Ret f" "outgoing f = outgoing out @ cp_line l" "clean f"
      by (rule Rio_writen_clean [OF less.prems(3)])
    have "take (nat (int (length l) + (if l = [] \<or> last l = newline then 0 else 1))) (line_buf l) = cp_line l"
      using ne by (simp add: cp_line_def line_buf_def nat_add_distrib)
    then have "cpfile_loop e rp out = cpfile_loop e rp' f"
      using r(1) ne f(1) by (subst cpfile_loop.simps) auto
    then show ?thesis using less.hyps [OF dec r(2,3) f(3)] f(2) lines by simp
  qed
qed

section \<open>cpstdin\<close>

partial_function (option) cpstdin_loop :: "descr \<Rightarrow> descr \<Rightarrow> descr outcome option" where
  "cpstdin_loop stdin stdout = (case sys_read 1 stdin of
     (Inl e, in1) \<Rightarrow> Some (unix_error ''Read error'' e)
   | (Inr bs, in1) \<Rightarrow> if bs = [] then Some (Ret stdout)
       else (case sys_write bs stdout of
            (Inl e, out1) \<Rightarrow> Some (unix_error ''Write error'' e)
          | (Inr _, out1) \<Rightarrow> cpstdin_loop in1 out1))"

definition cpstdin :: "descr \<Rightarrow> descr \<Rightarrow> descr outcome option" where
  "cpstdin stdin stdout = cpstdin_loop stdin stdout"

text \<open>Short counts are harmless here, an interrupted call ends the program.\<close>

fun is_short :: "os_event \<Rightarrow> bool" where
  "is_short (Short _) = True"
| "is_short _ = False"

lemma sys_read_one_short:
  assumes "list_all is_short (events f)"
  shows "\<exists>es. sys_read 1 f = (Inr (take 1 (incoming f)), f\<lparr>incoming := drop 1 (incoming f), events := es\<rparr>)
     \<and> list_all is_short es"
  using assms by (cases f; cases "events f"; cases "hd (events f)") (auto simp: sys_read.simps)

lemma sys_write_one_short:
  assumes "list_all is_short (events f)"
  shows "\<exists>es. sys_write [b] f = (Inr 1, f\<lparr>outgoing := outgoing f @ [b], events := es\<rparr>) \<and> list_all is_short es"
  using assms by (cases f; cases "events f"; cases "hd (events f)") (auto simp: sys_write.simps)

lemma cpstdin_loop_spec:
  assumes "list_all is_short (events i)" "list_all is_short (events out)"
  shows "\<exists>out'. cpstdin_loop i out = Some (Ret out') \<and> outgoing out' = outgoing out @ incoming i"
  using assms
proof (induction "incoming i" arbitrary: i out)
  case Nil
  then show ?case using sys_read_one_short [OF Nil(2)] by (subst cpstdin_loop.simps) auto
next
  case (Cons b bs)
  obtain es where r: "sys_read 1 i = (Inr [b], i\<lparr>incoming := bs, events := es\<rparr>)" "list_all is_short es"
    using sys_read_one_short [OF Cons(3)] Cons(2) by (metis One_nat_def drop0 drop_Suc_Cons take0 take_Suc_Cons)
  obtain fs where w: "sys_write [b] out = (Inr 1, out\<lparr>outgoing := outgoing out @ [b], events := fs\<rparr>)"
    "list_all is_short fs" using sys_write_one_short [OF Cons(4)] by blast
  have "cpstdin_loop i out
      = cpstdin_loop (i\<lparr>incoming := bs, events := es\<rparr>) (out\<lparr>outgoing := outgoing out @ [b], events := fs\<rparr>)"
    using r(1) w(1) by (subst cpstdin_loop.simps) simp
  then show ?case
    using Cons(1) [of "i\<lparr>incoming := bs, events := es\<rparr>" "out\<lparr>outgoing := outgoing out @ [b], events := fs\<rparr>"]
      Cons(2) [symmetric] r(2) w(2) by simp
qed

section \<open>mmapcopy\<close>

text \<open>
  The mapped area shows the file padded with zeros; a single \<open>write\<close> sends \<open>sz\<close> bytes of it.
\<close>

definition mmapcopy :: "byte list \<Rightarrow> nat \<Rightarrow> size_t \<Rightarrow> int \<Rightarrow> descr \<Rightarrow> (nat \<times> descr) outcome" where
  "mmapcopy file sz ptr errno out = then_do (Mmap ptr errno) (\<lambda>_.
     case sys_write (take sz (file @ replicate (sz - length file) 0)) out of
       (Inl e, out') \<Rightarrow> unix_error ''Write error'' e
     | (Inr n, out') \<Rightarrow> Ret (n, out'))"

section \<open>Properties\<close>

text \<open>
  Echo. On a connection whose reads and writes do not fail, whatever the short counts
  and interrupts, \<open>echo\<close> ends when the client closes, has sent back exactly the bytes it
  received, and has logged the length of every line.
\<close>

theorem echo_returns_input:
  assumes "clean connfd"
  shows "\<exists>rp log. echo e connfd = Some (Ret (rp, log))
     \<and> outgoing (rio_fd rp) = outgoing connfd @ incoming connfd
     \<and> log = map (int \<circ> length) (lines_of (MAXLINE - 1) (incoming connfd))
     \<and> sum_list log = int (length (incoming connfd))"
proof -
  let ?lines = "lines_of (MAXLINE - 1) (incoming connfd)"
  have "int (length (concat ls)) = sum_list (map (int \<circ> length) ls)" for ls :: "byte list list"
    by (induction ls) simp_all
  from this [of ?lines] have "sum_list (map (int \<circ> length) ?lines) = int (length (incoming connfd))"
    using concat_lines_of [of "MAXLINE - 1" "incoming connfd"] by simp
  then show ?thesis
    using echo_loop_spec [of "rio_fresh connfd" e "[]"] assms
    by (fastforce simp: echo_def rio_fresh_ok)
qed

theorem echo_returns_input_witness:
  "\<exists>rp log. echo 0 \<lparr>incoming = [72, 105, 10], outgoing = [], events = [Intr, Short 0, Short 1]\<rparr>
       = Some (Ret (rp, log)) \<and> outgoing (rio_fd rp) = [72, 105, 10]"
  using echo_returns_input [of "\<lparr>incoming = [72, 105, 10], outgoing = [], events = [Intr, Short 0, Short 1]\<rparr>" 0]
  by auto

text \<open>
  Cpfile. The line copy ends and writes every line, but appends a NUL to each line
  that does not end in a newline; it copies the file exactly when every line (of at most
  8191 bytes) ends in a newline.
\<close>

theorem cpfile_output:
  assumes "clean stdin" "clean stdout"
  shows "\<exists>out. cpfile e stdin stdout = Some (Ret out)
     \<and> outgoing out = outgoing stdout @ concat (map cp_line (lines_of (MAXLINE - 1) (incoming stdin)))
     \<and> (outgoing out = outgoing stdout @ incoming stdin
          \<longleftrightarrow> (\<forall>l \<in> set (lines_of (MAXLINE - 1) (incoming stdin)). last l = newline))"
proof -
  let ?ls = "lines_of (MAXLINE - 1) (incoming stdin)"
  have len: "length (concat (map cp_line ls)) = length (concat ls) + length (filter (\<lambda>l. last l \<noteq> newline) ls)" for ls
    by (induction ls) (auto simp: cp_line_def)
  have same: "concat (map cp_line ls) = concat ls" if "\<forall>l \<in> set ls. last l = newline" for ls
    using that by (induction ls) (auto simp: cp_line_def)
  have "concat (map cp_line ?ls) = concat ?ls \<longleftrightarrow> (\<forall>l \<in> set ?ls. last l = newline)"
    using len [of ?ls] same [of ?ls] by (auto simp: filter_empty_conv)
  then show ?thesis
    using cpfile_loop_spec [of "rio_fresh stdin" stdout e] assms concat_lines_of [of "MAXLINE - 1" "incoming stdin"]
    by (auto simp: cpfile_def rio_fresh_ok)
qed

theorem cpfile_output_witness:
  "\<exists>out. cpfile 0 \<lparr>incoming = [72, 105], outgoing = [], events = []\<rparr> \<lparr>incoming = [], outgoing = [], events = []\<rparr>
     = Some (Ret out) \<and> outgoing out = [72, 105, 0]"
proof -
  have "lines_of 8191 [72, 105] = [[72, 105]]" by code_simp
  then show ?thesis
    using cpfile_output [of "\<lparr>incoming = [72, 105], outgoing = [], events = []\<rparr>"
        "\<lparr>incoming = [], outgoing = [], events = []\<rparr>" 0] by (auto simp: cp_line_def)
qed

text \<open>
  Cpstdin. The byte copy ends and copies its whole input when no call is interrupted or
  fails; with an interrupted first read it ends with the error of the \<open>Read\<close> wrapper instead.
\<close>

theorem cpstdin_copies:
  assumes "list_all is_short (events stdin)" "list_all is_short (events stdout)"
  shows "(\<exists>out. cpstdin stdin stdout = Some (Ret out) \<and> outgoing out = outgoing stdout @ incoming stdin)
     \<and> cpstdin (stdin\<lparr>events := Intr # events stdin\<rparr>) stdout = Some (UnixError ''Read error'' EINTR)"
  using cpstdin_loop_spec [OF assms]
  by (simp add: cpstdin_def cpstdin_loop.simps [of "stdin\<lparr>events := Intr # events stdin\<rparr>"] sys_read.simps error_defs)

theorem cpstdin_copies_witness:
  "\<exists>out. cpstdin \<lparr>incoming = [1, 2], outgoing = [], events = [Short 3]\<rparr> \<lparr>incoming = [], outgoing = [], events = []\<rparr>
     = Some (Ret out) \<and> outgoing out = [1, 2]"
  using cpstdin_copies [of "\<lparr>incoming = [1, 2], outgoing = [], events = [Short 3]\<rparr>"
      "\<lparr>incoming = [], outgoing = [], events = []\<rparr>"] by simp

end
