(* ===== verification/Sio.thy ===== *)
theory Sio
  imports Rio
begin

text \<open>
  The signal-safe output functions (Sio) of \<open>csapp.c\<close>: string reversal and length on a
  character buffer with explicit bounds, the conversion of a \<open>long\<close> to a string in a base
  \<open>b\<close> (with the truncating division of C), and the functions that write the result to
  standard output with one \<open>write\<close> call.
\<close>

section \<open>Definitions\<close>

function sio_reverse_loop :: "int \<Rightarrow> int \<Rightarrow> byte list \<Rightarrow> byte list option" where
  "sio_reverse_loop i j s = (if i < j then do {
       c \<leftarrow> rd s i; d \<leftarrow> rd s j; s1 \<leftarrow> wr s i d; s2 \<leftarrow> wr s1 j c;
       sio_reverse_loop (i + 1) (j - 1) s2 }
     else Some s)"
  by pat_completeness auto

termination
  by (relation "measure (\<lambda>(i, j, _). nat (j - i))") auto

declare sio_reverse_loop.simps [simp del]

text \<open>The scan for the terminating \<open>NUL\<close>; running off the buffer is \<open>None\<close>.\<close>

fun scan_nul :: "byte list \<Rightarrow> nat option" where
  "scan_nul [] = None"
| "scan_nul (c # s) = (if c = NUL then Some 0 else map_option Suc (scan_nul s))"

definition sio_strlen :: "byte list \<Rightarrow> nat option" where
  "sio_strlen s = scan_nul s"

definition sio_reverse :: "byte list \<Rightarrow> byte list option" where
  "sio_reverse s = do { n \<leftarrow> scan_nul s; sio_reverse_loop 0 (int n - 1) s }"

text \<open>The character of a digit: \<open>c + '0'\<close> below ten and \<open>c - 10 + 'a'\<close> from ten on.\<close>

definition digit_char :: "int \<Rightarrow> byte" where
  "digit_char c = word_of_int (if c < 10 then c + 48 else c - 10 + 97)"

function ltoa_loop :: "int \<Rightarrow> int \<Rightarrow> int \<Rightarrow> byte list \<Rightarrow> (int \<times> byte list) option" where
  "ltoa_loop v b i s = (case wr s i (digit_char (crem v b)) of
     None \<Rightarrow> None
   | Some s1 \<Rightarrow> if 0 < cdiv v b then ltoa_loop (cdiv v b) b (i + 1) s1 else Some (i + 1, s1))"
  by pat_completeness auto

termination
  by (relation "measure (\<lambda>(v, b, i, s). nat (int (length s) - i))") (auto dest: wr_SomeD)

declare ltoa_loop.simps [simp del]

definition sio_ltoa :: "int \<Rightarrow> byte list \<Rightarrow> int \<Rightarrow> byte list option" where
  "sio_ltoa v s b = do {
     (i, s1) \<leftarrow> ltoa_loop v b 0 s;
     s2 \<leftarrow> wr s1 i NUL;
     sio_reverse s2 }"

definition sio_puts :: "byte list \<Rightarrow> descr \<Rightarrow> ((int + nat) \<times> descr) option" where
  "sio_puts s out = do { n \<leftarrow> sio_strlen s; Some (sys_write (take n s) out) }"

definition sio_putl :: "int \<Rightarrow> descr \<Rightarrow> ((int + nat) \<times> descr) option" where
  "sio_putl v out = do { s \<leftarrow> sio_ltoa v (replicate 128 0) 10; sio_puts s out }"

text \<open>The error function, which ends the process with status 1, and the wrappers: \<open>Inl\<close> is the end of the process.\<close>

definition c_string :: "string \<Rightarrow> byte list" where
  "c_string s = map (\<lambda>c. of_nat (of_char c)) s @ [NUL]"

definition sio_error :: "byte list \<Rightarrow> descr \<Rightarrow> ((int + nat) \<times> descr) option" where
  "sio_error s out = do { (_, out1) \<leftarrow> sio_puts s out; Some (Inl 1, out1) }"

definition Sio_putl :: "int \<Rightarrow> descr \<Rightarrow> ((int + nat) \<times> descr) option" where
  "Sio_putl v out = do { (n, out1) \<leftarrow> sio_putl v out;
     case n of Inl errno \<Rightarrow> sio_error (c_string ''Sio_putl error'') out1 | Inr k \<Rightarrow> Some (Inr k, out1) }"

definition Sio_puts :: "byte list \<Rightarrow> descr \<Rightarrow> ((int + nat) \<times> descr) option" where
  "Sio_puts s out = do { (n, out1) \<leftarrow> sio_puts s out;
     case n of Inl errno \<Rightarrow> sio_error (c_string ''Sio_puts error'') out1 | Inr k \<Rightarrow> Some (Inr k, out1) }"

definition Sio_error :: "byte list \<Rightarrow> descr \<Rightarrow> ((int + nat) \<times> descr) option" where
  "Sio_error s out = sio_error s out"

section \<open>Reversal\<close>

lemma sio_reverse_loop_rev:
  "sio_reverse_loop (int (length xs)) (int (length xs + length m) - 1) (xs @ m @ ys) = Some (xs @ rev m @ ys)"
proof (induction "length m" arbitrary: xs m ys rule: less_induct)
  case less
  show ?case
  proof (cases "length m < 2")
    case True
    then have "rev m = m" by (cases m) (auto simp: Suc_length_conv length_Suc_conv less_Suc_eq)
    then show ?thesis using True by (subst sio_reverse_loop.simps) simp
  next
    case False
    obtain c m1 where m1: "m = c # m1" using False by (cases m) auto
    then obtain m' d where "m1 = m' @ [d]" using False by (cases m1 rule: rev_cases) auto
    with m1 have m: "m = c # m' @ [d]" by simp
    have idx: "int (length xs + length m) - 1 = int (length xs + length m' + 1)" by (simp add: m)
    have "sio_reverse_loop (int (length xs)) (int (length xs + length m) - 1) (xs @ m @ ys)
        = sio_reverse_loop (int (length (xs @ [d]))) (int (length (xs @ [d]) + length m') - 1)
            ((xs @ [d]) @ m' @ [c] @ ys)"
      unfolding idx
      by (subst sio_reverse_loop.simps)
        (simp add: m rd_def wr_def nth_append list_update_append nat_add_distrib add.commute [of 1] del: of_nat_add)
    also have "\<dots> = Some ((xs @ [d]) @ rev m' @ [c] @ ys)" by (rule less) (simp add: m)
    finally show ?thesis by (simp add: m)
  qed
qed

lemma scan_nul_append: "NUL \<notin> set s \<Longrightarrow> scan_nul (s @ NUL # ys) = Some (length s)"
  by (induction s) auto

lemma sio_reverse_string: "NUL \<notin> set s \<Longrightarrow> sio_reverse (s @ NUL # ys) = Some (rev s @ NUL # ys)"
  using sio_reverse_loop_rev [of "[]" s "NUL # ys"] by (simp add: sio_reverse_def scan_nul_append)

section \<open>Digits\<close>

text \<open>The digits of a non-negative number, least significant first.\<close>

function digits :: "nat \<Rightarrow> nat \<Rightarrow> nat list" where
  "digits b v = (if 2 \<le> b \<and> 0 < v div b then (v mod b) # digits b (v div b) else [v mod b])"
  by pat_completeness auto

termination
  by (relation "measure snd") (auto intro!: div_less_dividend gr0I)

declare digits.simps [simp del]

fun value_of :: "nat \<Rightarrow> nat list \<Rightarrow> nat" where
  "value_of b [] = 0"
| "value_of b (d # ds) = d + b * value_of b ds"

lemma value_of_digits: "2 \<le> b \<Longrightarrow> value_of b (digits b v) = v"
proof (induction b v rule: digits.induct)
  case (1 b v)
  then show ?case by (subst digits.simps) (auto simp: div_eq_0_iff)
qed

lemma digits_small: "2 \<le> b \<Longrightarrow> d \<in> set (digits b v) \<Longrightarrow> d < b"
proof (induction b v rule: digits.induct)
  case (1 b v)
  then show ?case by (cases "0 < v div b") (auto simp: digits.simps [of b v])
qed

lemma digits_nonempty: "digits b v \<noteq> []"
  by (simp add: digits.simps)

lemma digits_last: "2 \<le> b \<Longrightarrow> 0 < v \<Longrightarrow> last (digits b v) \<noteq> 0"
proof (induction b v rule: digits.induct)
  case (1 b v)
  then show ?case
    by (cases "0 < v div b") (auto simp: digits.simps [of b v] digits_nonempty div_eq_0_iff)
qed

lemma length_digits: "2 \<le> b \<Longrightarrow> v < b ^ Suc k \<Longrightarrow> length (digits b v) \<le> Suc k"
proof (induction b v arbitrary: k rule: digits.induct)
  case (1 b v)
  show ?case
  proof (cases "0 < v div b")
    case True
    then obtain j where j: "k = Suc j" using 1 by (cases k) auto
    then have "v < b ^ Suc j * b" using 1 by (simp add: ac_simps)
    then have "v div b < b ^ Suc j" by (rule less_mult_imp_div_less)
    then show ?thesis using 1 True j by (subst digits.simps) simp
  qed (subst digits.simps, simp)
qed

lemma cdiv_crem_nat:
  "0 < b \<Longrightarrow> cdiv (int v) (int b) = int (v div b)" "0 < b \<Longrightarrow> crem (int v) (int b) = int (v mod b)"
  by (simp_all add: cdiv_nonneg crem_nonneg zdiv_int zmod_int)

lemma digit_char_nonzero: "0 \<le> d \<Longrightarrow> d < 36 \<Longrightarrow> digit_char d \<noteq> NUL"
  by (auto simp: digit_char_def word_of_int_eq_0_iff take_bit_eq_mod dest!: zdvd_imp_le)

text \<open>The loop stores the digits one after the other, if the buffer has room for them.\<close>

lemma ltoa_loop_digits:
  assumes "2 \<le> b" "i + length (digits b v) \<le> length s"
  shows "ltoa_loop (int v) (int b) (int i) s
       = Some (int (i + length (digits b v)), blit s i (map (digit_char \<circ> int) (digits b v)))"
  using assms
proof (induction b v arbitrary: i s rule: digits.induct)
  case (1 b v)
  let ?c = "digit_char (int (v mod b))"
  have i: "i < length s" using 1(3) digits_nonempty [of b v] by (cases "digits b v") auto
  have w: "wr s (int i) (digit_char (crem (int v) (int b))) = Some (s[i := ?c])"
    using i 1(2) by (simp add: cdiv_crem_nat mem_simps)
  show ?case
  proof (cases "0 < v div b")
    case True
    then have ds: "digits b v = (v mod b) # digits b (v div b)" using 1(2) by (simp add: digits.simps)
    have "0 < cdiv (int v) (int b)" using True 1(2) by (simp add: cdiv_crem_nat)
    then have "ltoa_loop (int v) (int b) (int i) s
        = ltoa_loop (int (v div b)) (int b) (int (Suc i)) (s[i := ?c])"
      using w 1(2) by (subst ltoa_loop.simps) (simp add: cdiv_crem_nat add.commute)
    also have "\<dots> = Some (int (Suc i + length (digits b (v div b))),
        blit (s[i := ?c]) (Suc i) (map (digit_char \<circ> int) (digits b (v div b))))"
      by (rule "1.IH") (use 1 True ds in simp_all)
    finally show ?thesis using i by (simp add: ds blit_def take_Suc_conv_app_nth take_update_swap list_update_append comp_def)
  next
    case False
    then have ds: "digits b v = [v mod b]" by (simp add: digits.simps)
    have "\<not> 0 < cdiv (int v) (int b)" using False 1(2) by (simp add: cdiv_crem_nat)
    then show ?thesis using w i by (subst ltoa_loop.simps)
        (simp add: ds blit_def upd_conv_take_nth_drop)
  qed
qed

text \<open>The decimal (or base \<open>b\<close>) text of a number.\<close>

definition text_of :: "nat \<Rightarrow> nat \<Rightarrow> byte list" where
  "text_of b v = map (digit_char \<circ> int) (rev (digits b v))"

lemma sio_ltoa_text:
  assumes b: "2 \<le> b" "b \<le> 36" and room: "length (digits b v) < length s"
  obtains rest where "sio_ltoa (int v) s (int b) = Some (text_of b v @ NUL # rest)"
proof -
  let ?cs = "map (digit_char \<circ> int) (digits b v)" and ?n = "length (digits b v)"
  have loop: "ltoa_loop (int v) (int b) 0 s = Some (int ?n, blit s 0 ?cs)"
    using ltoa_loop_digits [of b 0 v s] b room by simp
  obtain z ys where tail: "drop ?n s = z # ys" using room by (cases "drop ?n s") auto
  then have "wr (blit s 0 ?cs) (int ?n) NUL = Some (?cs @ NUL # ys)"
    using room by (simp add: blit_def mem_simps list_update_append)
  moreover have "NUL \<notin> set ?cs" using digits_small [OF b(1)] b(2) digit_char_nonzero by fastforce
  ultimately show ?thesis
    using that loop sio_reverse_string [of ?cs ys] by (simp add: sio_ltoa_def text_of_def rev_map)
qed

lemma text_of_nonzero: "2 \<le> b \<Longrightarrow> b \<le> 36 \<Longrightarrow> NUL \<notin> set (text_of b v)"
  using digits_small [of b] digit_char_nonzero by (fastforce simp: text_of_def)

section \<open>Properties\<close>



text \<open>
  Sio_putl. On a non-negative \<open>long\<close>, \<open>sio_putl\<close> makes one \<open>write\<close> of the decimal
  digits; the buffer of 128 characters is never exceeded.
\<close>

theorem sio_putl_writes:
  assumes "v < 2 ^ 63"
  shows "sio_putl (int v) out = Some (sys_write (text_of 10 v) out)"
proof -
  have "length (digits 10 v) \<le> Suc 18" using length_digits [of 10 v 18] assms by simp
  then obtain rest where "sio_ltoa (int v) (replicate 128 0) (int 10) = Some (text_of 10 v @ NUL # rest)"
    by (rule_tac sio_ltoa_text [of 10 v "replicate 128 0"]) auto
  then show ?thesis
    using scan_nul_append [OF text_of_nonzero [of 10 v]] by (simp add: sio_putl_def sio_puts_def sio_strlen_def)
qed

theorem sio_putl_writes_witness:
  "sio_putl (int 42) \<lparr>incoming = [], outgoing = [], events = []\<rparr>
     = Some (Inr 2, \<lparr>incoming = [], outgoing = [52, 50], events = []\<rparr>)"
proof -
  have "text_of 10 42 = [52, 50]" by (simp add: text_of_def digits.simps digit_char_def)
  then show ?thesis using sio_putl_writes [of 42] by (simp add: sys_write.simps)
qed

text \<open>
  Sio_ltoa on negative numbers. A negative number is not converted: the loop ends after
  one round and the result is the single character \<open>'0' + v % b\<close>, with the negative
  remainder of C, and no sign.
\<close>

theorem sio_ltoa_negative:
  assumes "v < 0" "2 \<le> b" "2 \<le> length s" "digit_char (crem v b) \<noteq> NUL"
  shows "\<exists>rest. sio_ltoa v s b = Some (word_of_int (48 + crem v b) # NUL # rest) \<and> crem v b \<le> 0"
proof -
  obtain x y zs where s: "s = x # y # zs" using assms(3) by (cases s; cases "tl s") auto
  have "cdiv v b \<le> 0" using assms(1,2) by (simp add: cdiv_def pos_imp_zdiv_nonneg_iff)
  moreover have neg: "crem v b = - ((- v) mod b)"
    using assms(1,2) by (simp add: crem_def cdiv_def minus_mult_div_eq_mod [symmetric] algebra_simps)
  then have le: "crem v b \<le> 0" using assms(2) by simp
  ultimately have "ltoa_loop v b 0 s = Some (1, digit_char (crem v b) # y # zs)"
    by (subst ltoa_loop.simps) (simp add: s wr_def)
  then have "sio_ltoa v s b = sio_reverse ([digit_char (crem v b)] @ NUL # zs)"
    by (simp add: sio_ltoa_def wr_def)
  then show ?thesis
    using sio_reverse_string [of "[digit_char (crem v b)]" zs] assms(4) le
    by (simp add: digit_char_def add.commute)
qed

theorem sio_ltoa_negative_witness:
  "\<exists>rest. sio_ltoa (- 15) (replicate 128 0) 10 = Some (43 # NUL # rest)"
  using sio_ltoa_negative [of "- 15" 10 "replicate 128 0"] by (simp add: digit_char_def crem_def cdiv_def)

text \<open>
  The wrapper returns the count of one \<open>write\<close> call, also when that call was short; when the call fails, also through
  an interrupt, the message is tried instead and the process ends with status 1.
\<close>

lemma Sio_puts_cases:
  assumes "list_all (\<lambda>b. b \<noteq> NUL) t"
  shows "Sio_puts (t @ NUL # r) out = (case sys_write t out of
      (Inr k, out1) \<Rightarrow> Some (Inr k, out1)
    | (Inl e, out1) \<Rightarrow> Some (Inl 1, snd (sys_write (butlast (c_string ''Sio_puts error'')) out1)))"
proof -
  have s: "sio_puts (u @ NUL # r) o1 = Some (sys_write u o1)" if "list_all (\<lambda>b. b \<noteq> NUL) u" for u r o1
  proof -
    have "NUL \<notin> set u" using that by (auto simp: list_all_iff)
    then show ?thesis by (simp add: sio_puts_def sio_strlen_def scan_nul_append)
  qed
  have "list_all (\<lambda>b. b \<noteq> NUL) (butlast (c_string ''Sio_puts error''))" by (simp add: c_string_def)
  from s [OF this, of "[]"] have m: "sio_puts (c_string ''Sio_puts error'') o1 = Some (sys_write (butlast (c_string ''Sio_puts error'')) o1)" for o1
    by (simp add: c_string_def)
  show ?thesis using s [OF assms] by (simp add: Sio_puts_def sio_error_def m split: prod.splits sum.splits)
qed

end
