(* ===== verification/Tiny.thy ===== *)
theory Tiny
  imports Echo Sio
begin

text \<open>
  The Tiny web server (\<open>tiny.c\<close>) and its CGI example \<open>adder.c\<close>: parsing of the request line
  and of the URI, the header loop, static and dynamic responses, error responses and the
  transaction \<open>doit\<close> that composes them over the Rio package.  Text is a list of bytes; a
  fixed-size buffer that would overflow makes the outcome \<open>Undefined\<close>.  The file system is a
  map from names to files, CGI programs are functions from the query string to their
  output, and the contents of uninitialised buffers are parameters.
\<close>

section \<open>Text\<close>

definition str :: "string \<Rightarrow> byte list" where
  "str s = map (\<lambda>c. of_nat (of_char c)) s"

definition CRLF :: "byte list" where
  "CRLF = [13, 10]"

definition cstr :: "byte list \<Rightarrow> byte list" where
  "cstr bs = takeWhile (\<lambda>b. b \<noteq> NUL) bs"

fun strstr :: "byte list \<Rightarrow> byte list \<Rightarrow> bool" where
  "strstr [] n \<longleftrightarrow> n = []"
| "strstr (b # h) n \<longleftrightarrow> take (length n) (b # h) = n \<or> strstr h n"

definition is_ws :: "byte \<Rightarrow> bool" where
  "is_ws b \<longleftrightarrow> b \<in> {32, 9, 10, 11, 12, 13}"

definition tolower_b :: "byte \<Rightarrow> byte" where
  "tolower_b b = (if 65 \<le> b \<and> b \<le> 90 then b + 32 else b)"

definition strcasecmp_eq :: "byte list \<Rightarrow> byte list \<Rightarrow> bool" where
  "strcasecmp_eq a b \<longleftrightarrow> map tolower_b a = map tolower_b b"

text \<open>The conversion \<open>%s\<close> of \<open>sscanf\<close>: skip white space, take a word; the rest of the input.\<close>

definition scan_word :: "byte list \<Rightarrow> (byte list \<times> byte list) option" where
  "scan_word bs = (let r = dropWhile is_ws bs; w = takeWhile (\<lambda>b. \<not> is_ws b) r in
     if w = [] then None else Some (w, drop (length w) r))"

text \<open>\<open>sscanf(buf, "%s %s %s", method, uri, version)\<close>: unmatched targets keep their contents.\<close>

definition scan_request ::
  "byte list \<Rightarrow> byte list \<times> byte list \<times> byte list \<Rightarrow> byte list \<times> byte list \<times> byte list" where
  "scan_request buf old = (case old of (m0, u0, v0) \<Rightarrow>
     case scan_word buf of None \<Rightarrow> old
     | Some (m, r1) \<Rightarrow> (case scan_word r1 of None \<Rightarrow> (m, u0, v0)
       | Some (u, r2) \<Rightarrow> (case scan_word r2 of None \<Rightarrow> (m, u, v0)
         | Some (v, r3) \<Rightarrow> (m, u, v))))"

text \<open>\<open>%d\<close> of \<open>sprintf\<close>.\<close>

definition dec :: "int \<Rightarrow> byte list" where
  "dec v = (if v < 0 then 45 # text_of 10 (nat (- v)) else text_of 10 (nat v))"

text \<open>A string written to a buffer of \<open>MAXLINE\<close> characters, terminator included.\<close>

definition fits :: "byte list \<Rightarrow> byte list outcome" where
  "fits s = (if length s < MAXLINE then Ret s else Undefined)"

section \<open>The URI\<close>

definition parse_uri :: "byte list \<Rightarrow> (bool \<times> byte list \<times> byte list) outcome" where
  "parse_uri uri = (if \<not> strstr uri (str ''cgi-bin'') then
       then_do (fits (str ''.'' @ uri)) (\<lambda>filename.
         if uri = [] then Undefined
         else if last uri = 47 then then_do (fits (filename @ str ''home.html'')) (\<lambda>f. Ret (True, f, []))
         else Ret (True, filename, []))
     else (let path = takeWhile (\<lambda>b. b \<noteq> 63) uri; rest = dropWhile (\<lambda>b. b \<noteq> 63) uri in
       then_do (fits (tl rest)) (\<lambda>cgiargs.
         then_do (fits (str ''.'' @ path)) (\<lambda>filename. Ret (False, filename, cgiargs)))))"

definition get_filetype :: "byte list \<Rightarrow> byte list" where
  "get_filetype filename =
     (if strstr filename (str ''.html'') then str ''text/html''
      else if strstr filename (str ''.gif'') then str ''image/gif''
      else if strstr filename (str ''.png'') then str ''image/png''
      else if strstr filename (str ''.jpg'') then str ''image/jpeg''
      else str ''text/plain'')"

section \<open>Responses\<close>

record file_t =
  is_reg :: bool
  irusr :: bool
  ixusr :: bool
  content :: "byte list"

type_synonym fs = "byte list \<rightharpoonup> file_t"

definition error_body :: "byte list \<Rightarrow> byte list \<Rightarrow> byte list \<Rightarrow> byte list \<Rightarrow> byte list" where
  "error_body cause errnum shortmsg longmsg =
     str ''<html><title>Tiny Error</title>'' @ str ''<body bgcolor=ffffff>'' @ CRLF
     @ errnum @ str '': '' @ shortmsg @ CRLF
     @ str ''<p>'' @ longmsg @ str '': '' @ cause @ CRLF
     @ str ''<hr><em>The Tiny Web server</em>'' @ CRLF"

definition clienterror ::
  "int \<Rightarrow> descr \<Rightarrow> byte list \<Rightarrow> byte list \<Rightarrow> byte list \<Rightarrow> byte list \<Rightarrow> descr outcome" where
  "clienterror e fd cause errnum shortmsg longmsg =
     then_do (fits (error_body cause errnum shortmsg longmsg)) (\<lambda>body.
     then_do (fits (str ''HTTP/1.0 '' @ errnum @ str '' '' @ shortmsg @ CRLF)) (\<lambda>l1.
     then_do (Rio_writen e l1 fd) (\<lambda>fd1.
     then_do (Rio_writen e (str ''Content-type: text/html'' @ CRLF) fd1) (\<lambda>fd2.
     then_do (Rio_writen e (str ''Content-length: '' @ dec (int (length body)) @ CRLF @ CRLF) fd2) (\<lambda>fd3.
     Rio_writen e body fd3)))))"

definition static_header :: "byte list \<Rightarrow> int \<Rightarrow> byte list" where
  "static_header filename filesize =
     str ''HTTP/1.0 200 OK'' @ CRLF @ str ''Server: Tiny Web Server'' @ CRLF @ str ''Connection: close'' @ CRLF
     @ str ''Content-length: '' @ dec filesize @ CRLF
     @ str ''Content-type: '' @ get_filetype filename @ CRLF @ CRLF"

text \<open>
  The size of the file is passed as an \<open>int\<close>.  Mapping an empty range fails with \<open>EINVAL\<close>
  (22); a range of negative size, converted to \<open>size_t\<close>, fails with \<open>ENOMEM\<close> (12).
\<close>

definition mmap_file :: "int \<Rightarrow> size_t \<times> int" where
  "mmap_file filesize = (if filesize = 0 then (- 1, 22) else if filesize < 0 then (- 1, 12) else (4096, 0))"

definition serve_static :: "int \<Rightarrow> fs \<Rightarrow> descr \<Rightarrow> byte list \<Rightarrow> int \<Rightarrow> descr outcome" where
  "serve_static e fs fd filename filesize =
     then_do (Rio_writen e (static_header filename filesize) fd) (\<lambda>fd1.
     case fs filename of
       None \<Rightarrow> unix_error ''Open error'' 2
     | Some f \<Rightarrow> if \<not> irusr f then unix_error ''Open error'' 13
         else (case mmap_file filesize of (ptr, errno) \<Rightarrow>
           then_do (Mmap ptr errno) (\<lambda>_. Rio_writen e (take (nat filesize) (content f)) fd1)))"

definition serve_dynamic ::
  "int \<Rightarrow> (byte list \<Rightarrow> byte list \<Rightarrow> byte list) \<Rightarrow> descr \<Rightarrow> byte list \<Rightarrow> byte list \<Rightarrow> descr outcome" where
  "serve_dynamic e cgi fd filename cgiargs =
     then_do (Rio_writen e (str ''HTTP/1.0 200 OK'' @ CRLF) fd) (\<lambda>fd1.
     then_do (Rio_writen e (str ''Server: Tiny Web Server'' @ CRLF) fd1) (\<lambda>fd2.
     Ret (fd2\<lparr>outgoing := outgoing fd2 @ cgi filename cgiargs\<rparr>)))"

section \<open>The transaction\<close>

text \<open>
  The header loop.  At the end of the input \<open>Rio_readlineb\<close> returns 0 and leaves the buffer
  as it is; the loop does not look at the return value.
\<close>

partial_function (option) read_hdrs_loop :: "int \<Rightarrow> byte list \<Rightarrow> rio_t \<Rightarrow> rio_t outcome option" where
  "read_hdrs_loop e buf rp = (if cstr buf = CRLF then Some (Ret rp)
     else (case Rio_readlineb e MAXLINE rp of
         Ret (n, bs, rp1) \<Rightarrow> read_hdrs_loop e (if n = 0 then buf else bs) rp1
       | bad \<Rightarrow> Some (then_do bad (\<lambda>(_, _, rp1). Ret rp1))))"

definition read_requesthdrs :: "int \<Rightarrow> byte list \<Rightarrow> rio_t \<Rightarrow> rio_t outcome option" where
  "read_requesthdrs e buf0 rp = (case Rio_readlineb e MAXLINE rp of
       Ret (n, bs, rp1) \<Rightarrow> read_hdrs_loop e (if n = 0 then buf0 else bs) rp1
     | bad \<Rightarrow> Some (then_do bad (\<lambda>(_, _, rp1). Ret rp1)))"

text \<open>What \<open>doit\<close> does after the headers are read.\<close>

definition answer ::
  "int \<Rightarrow> fs \<Rightarrow> (byte list \<Rightarrow> byte list \<Rightarrow> byte list) \<Rightarrow> byte list \<Rightarrow> descr \<Rightarrow> descr outcome" where
  "answer e fs cgi uri fd = then_do (parse_uri uri) (\<lambda>(is_static, filename, cgiargs).
     case fs filename of
       None \<Rightarrow> clienterror e fd filename (str ''404'') (str ''Not found'') (str ''Tiny couldn't find this file'')
     | Some sbuf \<Rightarrow>
       if is_static then
         (if \<not> is_reg sbuf \<or> \<not> irusr sbuf
          then clienterror e fd filename (str ''403'') (str ''Forbidden'') (str ''Tiny couldn't read the file'')
          else serve_static e fs fd filename (to_int (length (content sbuf))))
       else
         (if \<not> is_reg sbuf \<or> \<not> ixusr sbuf
          then clienterror e fd filename (str ''403'') (str ''Forbidden'') (str ''Tiny couldn't run the CGI program'')
          else serve_dynamic e cgi fd filename cgiargs))"

record uninit =
  u_words :: "byte list \<times> byte list \<times> byte list"
  u_hdrbuf :: "byte list"

definition doit ::
  "int \<Rightarrow> uninit \<Rightarrow> fs \<Rightarrow> (byte list \<Rightarrow> byte list \<Rightarrow> byte list) \<Rightarrow> descr \<Rightarrow> descr outcome option" where
  "doit e u fs cgi fd = (case Rio_readlineb e MAXLINE (rio_fresh fd) of
     Ret (n, buf, rio1) \<Rightarrow>
       if n = 0 then Some (Ret (rio_fd rio1))
       else (case scan_request (cstr buf) (u_words u) of (meth, uri, version) \<Rightarrow>
         if \<not> strcasecmp_eq meth (str ''GET'')
         then Some (clienterror e (rio_fd rio1) meth (str ''501'') (str ''Not Implemented'')
                      (str ''Tiny does not implement this method''))
         else (case read_requesthdrs e (u_hdrbuf u) rio1 of
             None \<Rightarrow> None
           | Some r \<Rightarrow> Some (then_do r (\<lambda>rio2. answer e fs cgi uri (rio_fd rio2)))))
   | bad \<Rightarrow> Some (then_do bad (\<lambda>(_, _, rio1). Ret (rio_fd rio1))))"

section \<open>Sending responses\<close>

definition error_response :: "byte list \<Rightarrow> byte list \<Rightarrow> byte list \<Rightarrow> byte list \<Rightarrow> byte list" where
  "error_response cause errnum shortmsg longmsg =
     (str ''HTTP/1.0 '' @ errnum @ str '' '' @ shortmsg @ CRLF) @ (str ''Content-type: text/html'' @ CRLF)
     @ (str ''Content-length: '' @ dec (int (length (error_body cause errnum shortmsg longmsg))) @ CRLF @ CRLF)
     @ error_body cause errnum shortmsg longmsg"

text \<open>A computation that, on a clean descriptor, sends the given bytes and nothing else.\<close>

definition sends :: "(descr \<Rightarrow> descr outcome) \<Rightarrow> byte list \<Rightarrow> bool" where
  "sends act bs \<longleftrightarrow> (\<forall>fd. clean fd \<longrightarrow> (\<exists>fd'. act fd = Ret fd' \<and> incoming fd' = incoming fd
      \<and> outgoing fd' = outgoing fd @ bs \<and> clean fd'))"

lemma sends_writen: "sends (Rio_writen e bs) bs"
  unfolding sends_def by (metis Rio_writen_clean)

lemma sends_seq: "sends f xs \<Longrightarrow> sends g ys \<Longrightarrow> sends (\<lambda>fd. then_do (f fd) g) (xs @ ys)"
  unfolding sends_def by (metis append_assoc then_do.simps(1))

lemma clienterror_sends:
  assumes "length (error_body cause errnum shortmsg longmsg) < MAXLINE"
    and "length errnum + length shortmsg \<le> 100"
  shows "sends (\<lambda>fd. clienterror e fd cause errnum shortmsg longmsg) (error_response cause errnum shortmsg longmsg)"
proof -
  have "length (str ''HTTP/1.0 '' @ errnum @ str '' '' @ shortmsg @ CRLF) < MAXLINE"
    using assms(2) by (simp add: str_def CRLF_def)
  then show ?thesis
    unfolding clienterror_def error_response_def using assms(1)
    by (simp only: fits_def if_True then_do.simps) (intro sends_seq sends_writen)
qed

text \<open>The response of a transaction, as a function of the file system and the parsed URI.\<close>

definition response ::
  "fs \<Rightarrow> (byte list \<Rightarrow> byte list \<Rightarrow> byte list) \<Rightarrow> bool \<Rightarrow> byte list \<Rightarrow> byte list \<Rightarrow> byte list" where
  "response fs cgi is_static filename cgiargs = (case fs filename of
       None \<Rightarrow> error_response filename (str ''404'') (str ''Not found'') (str ''Tiny couldn't find this file'')
     | Some f \<Rightarrow>
       if is_static then
         (if is_reg f \<and> irusr f then static_header filename (int (length (content f))) @ content f
          else error_response filename (str ''403'') (str ''Forbidden'') (str ''Tiny couldn't read the file''))
       else
         (if is_reg f \<and> ixusr f
          then (str ''HTTP/1.0 200 OK'' @ CRLF) @ (str ''Server: Tiny Web Server'' @ CRLF) @ cgi filename cgiargs
          else error_response filename (str ''403'') (str ''Forbidden'')
                 (str ''Tiny couldn't run the CGI program'')))"

lemma error_body_fits:
  assumes "length cause < 8000" "length errnum + length shortmsg + length longmsg \<le> 60"
  shows "length (error_body cause errnum shortmsg longmsg) < MAXLINE"
  using assms by (simp add: error_body_def str_def CRLF_def)

lemma tiny_errors_send:
  assumes "length cause < 8000"
  shows "sends (\<lambda>fd. clienterror e fd cause (str ''404'') (str ''Not found'') (str ''Tiny couldn't find this file''))
      (error_response cause (str ''404'') (str ''Not found'') (str ''Tiny couldn't find this file''))"
    and "sends (\<lambda>fd. clienterror e fd cause (str ''403'') (str ''Forbidden'') (str ''Tiny couldn't read the file''))
      (error_response cause (str ''403'') (str ''Forbidden'') (str ''Tiny couldn't read the file''))"
    and "sends (\<lambda>fd. clienterror e fd cause (str ''403'') (str ''Forbidden'') (str ''Tiny couldn't run the CGI program''))
      (error_response cause (str ''403'') (str ''Forbidden'') (str ''Tiny couldn't run the CGI program''))"
    and "sends (\<lambda>fd. clienterror e fd cause (str ''501'') (str ''Not Implemented'') (str ''Tiny does not implement this method''))
      (error_response cause (str ''501'') (str ''Not Implemented'') (str ''Tiny does not implement this method''))"
  by (rule clienterror_sends [OF error_body_fits [OF assms]]; simp add: str_def)+

lemma serve_static_sends:
  assumes "fs filename = Some f" "irusr f" "content f \<noteq> []" "length (content f) < 2 ^ 31"
  shows "sends (\<lambda>fd. serve_static e fs fd filename (int (length (content f))))
      (static_header filename (int (length (content f))) @ content f)"
proof -
  have "mmap_file (int (length (content f))) = (4096, 0)" using assms(3) by (simp add: mmap_file_def)
  moreover have "Mmap 4096 0 = Ret 4096" by (simp add: Mmap_def)
  ultimately have "(\<lambda>fd. serve_static e fs fd filename (int (length (content f))))
      = (\<lambda>fd. then_do (Rio_writen e (static_header filename (int (length (content f)))) fd) (Rio_writen e (content f)))"
    using assms(1,2) by (simp add: serve_static_def fun_eq_iff)
  then show ?thesis by (simp only:) (intro sends_seq sends_writen)
qed

lemma serve_dynamic_sends:
  "sends (\<lambda>fd. serve_dynamic e cgi fd filename cgiargs)
     ((str ''HTTP/1.0 200 OK'' @ CRLF) @ (str ''Server: Tiny Web Server'' @ CRLF) @ cgi filename cgiargs)"
proof -
  have "sends (\<lambda>fd. Ret (fd\<lparr>outgoing := outgoing fd @ cgi filename cgiargs\<rparr>)) (cgi filename cgiargs)"
    by (simp add: sends_def)
  then show ?thesis unfolding serve_dynamic_def by (intro sends_seq sends_writen)
qed

lemma answer_sends:
  assumes uri: "parse_uri uri = Ret (st, filename, cgiargs)" and small: "length filename < 8000"
    and body: "\<And>f. fs filename = Some f \<Longrightarrow> st \<Longrightarrow> content f \<noteq> [] \<and> length (content f) < 2 ^ 31"
  shows "sends (answer e fs cgi uri) (response fs cgi st filename cgiargs)"
proof (cases "fs filename")
  case None
  then show ?thesis
    using tiny_errors_send(1) [OF small, of e] by (simp add: answer_def [abs_def] uri response_def)
next
  case (Some f)
  show ?thesis
  proof (cases st)
    case True
    then have size: "to_int (length (content f)) = int (length (content f))"
      using body [OF Some] by (intro to_int_small) blast
    show ?thesis
      using tiny_errors_send(2) [OF small, of e] serve_static_sends [of fs filename f e] Some True body [OF Some True] size
      by (simp add: answer_def [abs_def] uri response_def)
  next
    case False
    then show ?thesis
      using tiny_errors_send(3) [OF small, of e] serve_dynamic_sends [of e cgi filename cgiargs] Some
      by (simp add: answer_def [abs_def] uri response_def)
  qed
qed

section \<open>Reading requests\<close>

text \<open>A line of the request as the client sends it.\<close>

definition text_line :: "byte list \<Rightarrow> bool" where
  "text_line l \<longleftrightarrow> l \<noteq> [] \<and> last l = newline \<and> newline \<notin> set (butlast l) \<and> NUL \<notin> set l \<and> length l < MAXLINE"

lemma line_of_line: "newline \<notin> set x \<Longrightarrow> length x < k \<Longrightarrow> line_of k (x @ newline # s) = x @ [newline]"
proof (induction x arbitrary: k)
  case Nil
  then show ?case by (cases k) auto
next
  case (Cons b x)
  then show ?case by (cases k) auto
qed

lemma line_of_text_line:
  assumes "text_line l"
  shows "line_of (MAXLINE - 1) (l @ s) = l"
proof -
  obtain x where x: "l = x @ [newline]" using assms by (metis text_line_def append_butlast_last_id)
  then show ?thesis using line_of_line [of x "MAXLINE - 1" s] assms by (simp add: text_line_def)
qed

lemma cstr_text_line: "text_line l \<Longrightarrow> cstr l = l"
  by (auto simp: cstr_def text_line_def takeWhile_eq_all_conv)

text \<open>One line read from a clean connection, as the callers of the wrapper see it.\<close>

lemma Rio_readlineb_line:
  assumes "rio_inv rp" "clean (rio_fd rp)" "stream rp = l @ s" "text_line l"
  obtains rp' where "Rio_readlineb e MAXLINE rp = Ret (int (length l), l, rp')" "stream rp' = s"
    "rio_inv rp'" "clean (rio_fd rp')" "outgoing (rio_fd rp') = outgoing (rio_fd rp)"
proof -
  have m: "1 < MAXLINE" by simp
  have l: "line_of (MAXLINE - 1) (stream rp) = l" using line_of_text_line [OF assms(4)] assms(3) by simp
  show ?thesis
  proof (cases rule: Rio_readlineb_cases [OF assms(1,2) m, where errno = e])
    case (1 rp')
    have False using 1(2) assms(3,4) by (simp add: text_line_def)
    then show ?thesis ..
  next
    case (2 l' rp')
    have "l' = l" using 2(5) l by simp
    then have call: "Rio_readlineb e MAXLINE rp = Ret (int (length l), l, rp')" using 2(1) by blast
    moreover have "stream rp' = s" using 2(3) assms(3) \<open>l' = l\<close> by simp
    ultimately show ?thesis using that 2(6,7) Rio_readlineb_outgoing [OF call] by blast
  qed
qed

lemma read_hdrs_loop_lines:
  assumes "rio_inv rp" "clean (rio_fd rp)" "stream rp = concat hs @ CRLF @ rest"
    and "list_all (\<lambda>h. text_line h \<and> h \<noteq> CRLF) hs" "cstr buf \<noteq> CRLF"
  shows "\<exists>rp'. read_hdrs_loop e buf rp = Some (Ret rp') \<and> stream rp' = rest \<and> clean (rio_fd rp')
     \<and> outgoing (rio_fd rp') = outgoing (rio_fd rp)"
  using assms
proof (induction hs arbitrary: rp buf)
  case Nil
  have crlf: "text_line CRLF" by (simp add: text_line_def CRLF_def)
  obtain rp' where rp': "Rio_readlineb e MAXLINE rp = Ret (int (length CRLF), CRLF, rp')" "stream rp' = rest"
    "clean (rio_fd rp')" "outgoing (rio_fd rp') = outgoing (rio_fd rp)"
    by (rule Rio_readlineb_line [OF Nil(1,2) _ crlf]) (use Nil(3) in auto)
  have "read_hdrs_loop e CRLF rp' = Some (Ret rp')"
    using cstr_text_line [OF crlf] by (subst read_hdrs_loop.simps) simp
  then have "read_hdrs_loop e buf rp = Some (Ret rp')"
    using Nil(5) rp'(1) by (subst read_hdrs_loop.simps) (simp add: CRLF_def)
  then show ?case using rp' by simp
next
  case (Cons h hs)
  have h: "text_line h" "h \<noteq> CRLF" "h \<noteq> []" using Cons.prems(4) by (auto simp: text_line_def)
  obtain rp' where rp': "Rio_readlineb e MAXLINE rp = Ret (int (length h), h, rp')"
    "stream rp' = concat hs @ CRLF @ rest" "rio_inv rp'"
    "clean (rio_fd rp')" "outgoing (rio_fd rp') = outgoing (rio_fd rp)"
    by (rule Rio_readlineb_line [OF Cons.prems(1,2) _ h(1)]) (use Cons.prems(3) in auto)
  have "read_hdrs_loop e buf rp = read_hdrs_loop e h rp'"
    using Cons.prems(5) rp'(1) h(3) by (subst read_hdrs_loop.simps) simp
  then show ?case
    using Cons.IH [OF rp'(3,4,2), of h] Cons.prems(4) cstr_text_line [OF h(1)] h(2) rp'(5) by simp
qed

text \<open>The loop returns only through an empty line.\<close>

lemma read_hdrs_loop_returns:
  assumes "read_hdrs_loop e buf rp = Some r" "rio_inv rp" "clean (rio_fd rp)" "cstr buf \<noteq> CRLF"
  shows "\<exists>l \<in> set (lines_of (MAXLINE - 1) (stream rp)). cstr l = CRLF"
proof -
  have m: "1 < MAXLINE" by simp
  have "rio_inv rp \<and> clean (rio_fd rp) \<and> cstr buf \<noteq> CRLF \<longrightarrow>
      (\<exists>l \<in> set (lines_of (MAXLINE - 1) (stream rp)). cstr l = CRLF)"
  proof (rule read_hdrs_loop.raw_induct [OF _ assms(1)], intro impI)
    fix loop e buf rp r
    assume IH: "\<And>e buf rp r. loop e buf rp = Some r \<Longrightarrow> rio_inv rp \<and> clean (rio_fd rp) \<and> cstr buf \<noteq> CRLF \<longrightarrow>
        (\<exists>l \<in> set (lines_of (MAXLINE - 1) (stream rp)). cstr l = CRLF)"
      and step: "(if cstr buf = CRLF then Some (Ret rp) else case Rio_readlineb e MAXLINE rp of
         Ret (n, bs, rp1) \<Rightarrow> loop e (if n = 0 then buf else bs) rp1
       | bad \<Rightarrow> Some (then_do bad (\<lambda>(_, _, rp1). Ret rp1))) = Some r"
      and ok: "rio_inv rp \<and> clean (rio_fd rp) \<and> cstr buf \<noteq> CRLF"
    then have ok': "rio_inv rp" "clean (rio_fd rp)" "cstr buf \<noteq> CRLF" by auto
    show "\<exists>l \<in> set (lines_of (MAXLINE - 1) (stream rp)). cstr l = CRLF"
    proof (cases rule: Rio_readlineb_cases [OF ok'(1,2) m, where errno = e])
      case (1 rp')
      have "loop e buf rp' = Some r" using step ok'(3) unfolding 1(1) by simp
      from IH [OF this] 1(4,5) ok'(3) show ?thesis unfolding 1(2,3) by blast
    next
      case (2 l rp')
      have rec: "loop e l rp' = Some r" using step ok'(3) 2(2) unfolding 2(1) by simp
      show ?thesis
      proof (cases "cstr l = CRLF")
        case True
        then show ?thesis by (simp only: 2(4) list.set_intros(1) bexI [of _ l])
      next
        case False
        then show ?thesis using IH [OF rec] 2(6,7) unfolding 2(4) by auto
      qed
    qed
  qed
  then show ?thesis using assms(2-4) by blast
qed

lemma read_hdrs_loop_total:
  assumes "rio_inv rp" "clean (rio_fd rp)" "l \<in> set (lines_of (MAXLINE - 1) (stream rp))" "cstr l = CRLF"
  shows "read_hdrs_loop e buf rp \<noteq> None"
  using assms(1-3)
proof (induction "length (stream rp)" arbitrary: rp buf rule: less_induct)
  case less
  have m: "1 < MAXLINE" by simp
  show ?case
  proof (cases "cstr buf = CRLF")
    case True
    then show ?thesis by (subst read_hdrs_loop.simps) simp
  next
    case False
    show ?thesis
    proof (cases rule: Rio_readlineb_cases [OF less.prems(1,2) m, where errno = e])
      case (1 rp')
      have False using less.prems(3) unfolding 1(2) by (simp add: lines_of.simps)
      then show ?thesis ..
    next
      case (2 l' rp')
      have step: "read_hdrs_loop e buf rp = read_hdrs_loop e l' rp'"
        using False 2(2) by (subst read_hdrs_loop.simps, unfold 2(1)) simp
      show ?thesis
      proof (cases "l' = l")
        case True
        then show ?thesis unfolding step using assms(4) by (subst read_hdrs_loop.simps) simp
      next
        case ne: False
        have "l \<in> set (lines_of (MAXLINE - 1) (stream rp'))" using less.prems(3) ne unfolding 2(4) by auto
        then show ?thesis unfolding step using less.hyps [OF 2(8,6,7)] by blast
      qed
    qed
  qed
qed

lemma read_requesthdrs_loop: "cstr buf0 \<noteq> CRLF \<Longrightarrow> read_requesthdrs e buf0 rp = read_hdrs_loop e buf0 rp"
  by (subst read_hdrs_loop.simps) (simp add: read_requesthdrs_def)

section \<open>The CGI example\<close>

text \<open>
  \<open>atoi\<close>: leading white space, an optional sign, then digits; the value is that of the
  digits as an \<open>int\<close>.
\<close>

fun atoi_digits :: "int \<Rightarrow> byte list \<Rightarrow> int" where
  "atoi_digits acc [] = acc"
| "atoi_digits acc (b # bs) = (if 48 \<le> b \<and> b \<le> 57 then atoi_digits (10 * acc + (uint b - 48)) bs else acc)"

definition atoi :: "byte list \<Rightarrow> int" where
  "atoi bs = (let r = dropWhile is_ws bs in
     case r of [] \<Rightarrow> 0
     | c # ds \<Rightarrow> if c = 45 then - atoi_digits 0 ds else if c = 43 then atoi_digits 0 ds else atoi_digits 0 r)"

definition adder_content :: "int \<Rightarrow> int \<Rightarrow> byte list" where
  "adder_content n1 n2 = str ''Welcome to add.com: '' @ str ''THE Internet addition portal.'' @ CRLF @ str ''<p>''
     @ str ''The answer is: '' @ dec n1 @ str '' + '' @ dec n2 @ str '' = '' @ dec (n1 + n2) @ CRLF @ str ''<p>''
     @ str ''Thanks for visiting!'' @ CRLF"

definition adder_output :: "int \<Rightarrow> int \<Rightarrow> byte list" where
  "adder_output n1 n2 = str ''Connection: close'' @ CRLF
     @ str ''Content-length: '' @ dec (int (length (adder_content n1 n2))) @ CRLF
     @ str ''Content-type: text/html'' @ CRLF @ CRLF @ adder_content n1 n2"

text \<open>
  The program: without an ampersand in the query string it writes through a null pointer;
  a sum outside the range of \<open>int\<close> is undefined.
\<close>

definition adder :: "byte list option \<Rightarrow> byte list outcome" where
  "adder query = (case query of
     None \<Rightarrow> Ret (adder_output 0 0)
   | Some buf \<Rightarrow>
       if 38 \<notin> set buf then Undefined
       else let n1 = atoi (takeWhile (\<lambda>b. b \<noteq> 38) buf); n2 = atoi (tl (dropWhile (\<lambda>b. b \<noteq> 38) buf)) in
         if n1 + n2 < - (2 ^ 31) \<or> 2 ^ 31 \<le> n1 + n2 then Undefined else Ret (adder_output n1 n2))"

lemma atoi_digits_decimal:
  "list_all (\<lambda>d. d < 10) ds \<Longrightarrow>
   atoi_digits acc (map (digit_char \<circ> int) ds) = acc * 10 ^ length ds + int (value_of 10 (rev ds))"
proof (induction ds arbitrary: acc)
  case (Cons d ds)
  have v: "value_of 10 (xs @ [y]) = value_of 10 xs + y * 10 ^ length xs" for xs y
    by (induction xs) (auto simp: algebra_simps)
  have "d \<in> {0..<10}" using Cons.prems by simp
  then have "d = 0 \<or> d = 1 \<or> d = 2 \<or> d = 3 \<or> d = 4 \<or> d = 5 \<or> d = 6 \<or> d = 7 \<or> d = 8 \<or> d = 9" by auto
  then have "48 \<le> digit_char (int d) \<and> digit_char (int d) \<le> 57 \<and> uint (digit_char (int d)) - 48 = int d"
    by (elim disjE) (simp_all add: digit_char_def word_le_nat_alt)
  then show ?case using Cons by (simp add: v algebra_simps)
qed simp

lemma digit_char_range: "d < 10 \<Longrightarrow> 48 \<le> digit_char (int d) \<and> digit_char (int d) \<le> 57"
proof -
  assume "d < 10"
  then have "d = 0 \<or> d = 1 \<or> d = 2 \<or> d = 3 \<or> d = 4 \<or> d = 5 \<or> d = 6 \<or> d = 7 \<or> d = 8 \<or> d = 9" by auto
  then show ?thesis by (elim disjE) (simp_all add: digit_char_def word_le_nat_alt)
qed

lemma text_of_range: "b \<in> set (text_of 10 v) \<Longrightarrow> 48 \<le> b \<and> b \<le> 57"
  using digits_small [of 10 _ v] digit_char_range by (auto simp: text_of_def)

lemma text_of_no_char: "c < 48 \<Longrightarrow> c \<notin> set (text_of 10 v)"
  using text_of_range by (metis leD)

lemma text_of_first: "text_of 10 v = c # cs \<Longrightarrow> \<not> is_ws c \<and> c \<noteq> 45 \<and> c \<noteq> 43"
  using text_of_range [of c v] by (auto simp: is_ws_def)

lemma atoi_digits_text: "atoi_digits 0 (text_of 10 v) = int v"
proof -
  have "list_all (\<lambda>d. d < 10) (rev (digits 10 v))" using digits_small [of 10] by (auto simp: list_all_iff)
  from atoi_digits_decimal [OF this, of 0] show ?thesis by (simp add: text_of_def value_of_digits)
qed

text \<open>Printing with \<open>%d\<close> and reading with \<open>atoi\<close> are inverse.\<close>

lemma atoi_dec: "atoi (dec v) = v"
proof (cases "v < 0")
  case True
  then show ?thesis by (simp add: dec_def atoi_def is_ws_def atoi_digits_text)
next
  case False
  obtain c cs where t: "text_of 10 (nat v) = c # cs"
    using digits_nonempty [of 10 "nat v"] by (cases "text_of 10 (nat v)") (auto simp: text_of_def)
  then show ?thesis
    using text_of_first [OF t] False atoi_digits_text [of "nat v"] by (simp add: dec_def atoi_def t)
qed

lemma dec_no_ampersand: "38 \<notin> set (dec v)"
  using text_of_no_char [of 38] by (auto simp: dec_def)

section \<open>Properties\<close>

text \<open>A complete request on a connection that does not fail.\<close>

lemma doit_response:
  assumes "clean fd"
    and "incoming fd = reqline @ concat hdrs @ CRLF @ rest"
    and "text_line reqline" "list_all (\<lambda>h. text_line h \<and> h \<noteq> CRLF) hdrs"
    and "scan_request reqline (u_words u) = (meth, uri, version)" "strcasecmp_eq meth (str ''GET'')"
    and "parse_uri uri = Ret (st, filename, cgiargs)" "length filename < 8000" "cstr (u_hdrbuf u) \<noteq> CRLF"
    and "\<And>f. fs filename = Some f \<Longrightarrow> st \<Longrightarrow> content f \<noteq> [] \<and> length (content f) < 2 ^ 31"
  shows "\<exists>fd'. doit e u fs cgi fd = Some (Ret fd')
     \<and> outgoing fd' = outgoing fd @ response fs cgi st filename cgiargs"
proof -
  obtain rp where rp: "Rio_readlineb e MAXLINE (rio_fresh fd) = Ret (int (length reqline), reqline, rp)"
    "stream rp = concat hdrs @ CRLF @ rest" "rio_inv rp" "clean (rio_fd rp)" "outgoing (rio_fd rp) = outgoing fd"
    by (rule Rio_readlineb_line [where rp = "rio_fresh fd" and l = reqline and e = e])
      (use assms(1-3) in \<open>auto simp: rio_fresh_ok\<close>)
  have ne: "reqline \<noteq> []" using assms(3) by (simp add: text_line_def)
  obtain rp2 where rp2: "read_requesthdrs e (u_hdrbuf u) rp = Some (Ret rp2)" "clean (rio_fd rp2)"
    "outgoing (rio_fd rp2) = outgoing fd"
    using read_hdrs_loop_lines [OF rp(3,4,2) assms(4,9), of e] rp(5) assms(9)
    by (auto simp: read_requesthdrs_def read_hdrs_loop.simps [of e "u_hdrbuf u" rp])
  obtain fd' where "answer e fs cgi uri (rio_fd rp2) = Ret fd'"
    "outgoing fd' = outgoing fd @ response fs cgi st filename cgiargs"
    using answer_sends [OF assms(7,8,10), where e = e and cgi = cgi] rp2(2,3) unfolding sends_def by metis
  then show ?thesis
    using rp(1) rp2(1) ne assms(5,6) cstr_text_line [OF assms(3)] by (simp add: doit_def)
qed



text \<open>
  Tiny, request without end of headers. On a connection that does not fail, the header
  loop returns if and only if the client sent an empty line (carriage return and newline)
  in the part not yet read: a client that closes the connection before it keeps the
  iterative server in the loop for ever.
\<close>

theorem read_requesthdrs_returns_iff:
  assumes "rio_inv rp" "clean (rio_fd rp)" "cstr buf0 \<noteq> CRLF"
  shows "(\<exists>r. read_requesthdrs e buf0 rp = Some r)
     \<longleftrightarrow> (\<exists>l \<in> set (lines_of (MAXLINE - 1) (stream rp)). cstr l = CRLF)"
  unfolding read_requesthdrs_loop [OF assms(3)]
  using read_hdrs_loop_returns [OF _ assms] read_hdrs_loop_total [OF assms(1,2)] by blast

theorem read_requesthdrs_returns_iff_witness:
  "read_requesthdrs 0 [] (rio_fresh \<lparr>incoming = str ''Host: x'' @ CRLF, outgoing = [], events = []\<rparr>) = None"
proof -
  let ?fd = "\<lparr>incoming = str ''Host: x'' @ CRLF, outgoing = [], events = []\<rparr>"
  have "\<not> (\<exists>l \<in> set (lines_of (MAXLINE - 1) (str ''Host: x'' @ CRLF)). cstr l = CRLF)" by code_simp
  then show ?thesis
    using read_requesthdrs_returns_iff [of "rio_fresh ?fd" "[]" 0] by (auto simp: rio_fresh_ok cstr_def CRLF_def)
qed

text \<open>
  C39 (parse_uri). A URI without \<open>cgi-bin\<close> names a static file below the current directory,
  with \<open>home.html\<close> appended to a trailing slash; one with \<open>cgi-bin\<close> is split at the first
  question mark.  Among the URIs a request line can carry (fewer than 8188 characters), the
  file name buffer overflows exactly for a static one with a trailing slash and more than
  8181 characters.
\<close>

theorem parse_uri_spec:
  assumes "uri \<noteq> []" "length uri < MAXLINE - 4"
  shows "parse_uri uri =
    (if strstr uri (str ''cgi-bin'')
     then Ret (False, str ''.'' @ takeWhile (\<lambda>b. b \<noteq> 63) uri, tl (dropWhile (\<lambda>b. b \<noteq> 63) uri))
     else if last uri \<noteq> 47 then Ret (True, str ''.'' @ uri, [])
     else if length uri \<le> 8181 then Ret (True, str ''.'' @ uri @ str ''home.html'', [])
     else Undefined)"
proof -
  have "length (tl (dropWhile (\<lambda>b. b \<noteq> 63) uri)) < MAXLINE" "length (takeWhile (\<lambda>b. b \<noteq> 63) uri) < MAXLINE - 1"
    using length_dropWhile_le [of "\<lambda>b. b \<noteq> 63" uri] length_takeWhile_le [of "\<lambda>b. b \<noteq> 63" uri] assms(2) by auto
  then show ?thesis using assms by (auto simp: parse_uri_def fits_def Let_def str_def)
qed

theorem parse_uri_spec_witness:
  "parse_uri (str ''/cgi-bin/adder?1&2'') = Ret (False, str ''./cgi-bin/adder'', str ''1&2'')"
proof -
  let ?uri = "str ''/cgi-bin/adder?1&2''"
  have "?uri \<noteq> []" "length ?uri < MAXLINE - 4" by (simp_all add: str_def)
  moreover have "strstr ?uri (str ''cgi-bin'')" by code_simp
  moreover have "str ''.'' @ takeWhile (\<lambda>b. b \<noteq> 63) ?uri = str ''./cgi-bin/adder''" by code_simp
  moreover have "tl (dropWhile (\<lambda>b. b \<noteq> 63) ?uri) = str ''1&2''" by code_simp
  ultimately show ?thesis using parse_uri_spec [of ?uri] by simp
qed

text \<open>
  Tiny, empty file. Serving an empty regular file sends the header and then ends the
  server process: mapping zero bytes fails and the \<open>Mmap\<close> wrapper exits.
\<close>

theorem serve_static_empty_exits:
  assumes "clean fd" "fs filename = Some f" "irusr f" "content f = []"
  shows "serve_static e fs fd filename (to_int (length (content f))) = UnixError ''mmap error'' 22"
proof -
  obtain fd1 where "Rio_writen e (static_header filename 0) fd = Ret fd1"
    by (rule Rio_writen_clean [OF assms(1)])
  then show ?thesis
    using assms by (simp add: serve_static_def to_int_small mmap_file_def Mmap_def error_defs)
qed

theorem serve_static_empty_exits_witness:
  "serve_static 0 [str ''./a'' \<mapsto> \<lparr>is_reg = True, irusr = True, ixusr = False, content = []\<rparr>]
     \<lparr>incoming = [], outgoing = [], events = []\<rparr> (str ''./a'') (to_int 0) = UnixError ''mmap error'' 22"
  using serve_static_empty_exits [of "\<lparr>incoming = [], outgoing = [], events = []\<rparr>"
      "[str ''./a'' \<mapsto> \<lparr>is_reg = True, irusr = True, ixusr = False, content = []\<rparr>]" "str ''./a''"] by simp

text \<open>
  Adder. For a query of two numbers in decimal, separated by an ampersand, the CGI
  program answers with the page for those two numbers and their sum, provided the sum is in
  the range of \<open>int\<close>; a query string without an ampersand is an access through a null pointer.
\<close>

theorem adder_adds:
  "adder (Some (dec a @ str ''&'' @ dec b)) =
     (if - (2 ^ 31) \<le> a + b \<and> a + b < 2 ^ 31 then Ret (adder_output a b) else Undefined)
   \<and> adder (Some (dec a)) = Undefined"
proof -
  have amp: "str ''&'' = [38]" by (simp add: str_def)
  have "takeWhile (\<lambda>c. c \<noteq> 38) (dec a @ 38 # dec b) = dec a" "dropWhile (\<lambda>c. c \<noteq> 38) (dec a @ 38 # dec b) = 38 # dec b"
    using dec_no_ampersand [of a] by (subst takeWhile_append2 dropWhile_append2; fastforce)+
  then show ?thesis using dec_no_ampersand [of a] by (auto simp: adder_def amp atoi_dec Let_def)
qed

end
