(* ===== verification/Netconn.thy ===== *)
theory Netconn
  imports Csapp
begin

text \<open>
  The connection helpers of \<open>csapp.c\<close>: \<open>open_clientfd\<close> and \<open>open_listenfd\<close> walk the list of
  candidate addresses from \<open>getaddrinfo\<close> and must leave no descriptor open but the one they
  return.  The kernel's descriptor table is the list of the descriptors in use (a new one
  is the smallest unused number); which calls succeed for which address is an arbitrary
  environment.  Three versions of the helpers exist in the repository: the current one, the
  one of the tiny server (no \<open>Close\<close> when \<open>listen\<close> fails) and the IPv4-only one of \<open>16-io\<close>.
\<close>

section \<open>The environment\<close>

record 'a netenv =
  gai_rc :: int
  socket_ok :: "'a \<Rightarrow> bool"
  sockopt_ok :: "'a \<Rightarrow> bool"
  connect_ok :: "'a \<Rightarrow> bool"
  bind_ok :: "'a \<Rightarrow> bool"
  listen_ok :: "'a \<Rightarrow> bool"
  close_ok :: "'a \<Rightarrow> bool"
  net_errno :: int

definition new_fd :: "nat list \<Rightarrow> nat" where
  "new_fd fds = hd (filter (\<lambda>n. n \<notin> set fds) [0..<Suc (length fds)])"

lemma new_fd_unused: "new_fd fds \<notin> set fds"
proof -
  have "\<not> {0..<Suc (length fds)} \<subseteq> set fds"
    using card_length [of fds] card_mono [of "set fds" "{0..<Suc (length fds)}"] by fastforce
  then have "filter (\<lambda>n. n \<notin> set fds) [0..<Suc (length fds)] \<noteq> []" by (auto simp: filter_empty_conv simp del: upt_Suc)
  from hd_in_set [OF this] show ?thesis unfolding new_fd_def by auto
qed

text \<open>\<open>Close\<close> through its wrapper: the descriptor leaves the table, or the process ends.\<close>

definition close_fd :: "'a netenv \<Rightarrow> 'a \<Rightarrow> nat \<Rightarrow> nat list \<Rightarrow> nat list outcome" where
  "close_fd env p fd fds =
     then_do (Close (if close_ok env p then 0 else - 1, net_errno env)) (\<lambda>_. Ret (remove1 fd fds))"

section \<open>Clients\<close>

fun client_walk :: "'a netenv \<Rightarrow> 'a list \<Rightarrow> nat list \<Rightarrow> ((nat \<times> 'a) option \<times> nat list) outcome" where
  "client_walk env [] fds = Ret (None, fds)"
| "client_walk env (p # ps) fds =
     (if \<not> socket_ok env p then client_walk env ps fds
      else let clientfd = new_fd fds; fds1 = clientfd # fds in
        if connect_ok env p then Ret (Some (clientfd, p), fds1)
        else then_do (close_fd env p clientfd fds1) (client_walk env ps))"

definition open_clientfd :: "'a netenv \<Rightarrow> 'a list \<Rightarrow> nat list \<Rightarrow> (int \<times> nat list) outcome" where
  "open_clientfd env listp fds = then_do (Getaddrinfo (gai_rc env)) (\<lambda>_.
     then_do (client_walk env listp fds) (\<lambda>(p, fds').
       case p of None \<Rightarrow> Ret (- 1, fds') | Some (clientfd, _) \<Rightarrow> Ret (int clientfd, fds')))"

definition Open_clientfd :: "'a netenv \<Rightarrow> 'a list \<Rightarrow> nat list \<Rightarrow> (int \<times> nat list) outcome" where
  "Open_clientfd env listp fds = then_do (open_clientfd env listp fds) (\<lambda>(rc, fds').
     if rc < 0 then unix_error ''Open_clientfd error'' (net_errno env) else Ret (rc, fds'))"

text \<open>The IPv4 version of \<open>16-io\<close>; \<open>resolves\<close> is the result of \<open>gethostbyname\<close>.\<close>

definition open_clientfd_v4 :: "'a netenv \<Rightarrow> bool \<Rightarrow> 'a \<Rightarrow> nat list \<Rightarrow> int \<times> nat list" where
  "open_clientfd_v4 env resolves server fds =
     (if \<not> socket_ok env server then (- 1, fds)
      else let clientfd = new_fd fds; fds1 = clientfd # fds in
        if \<not> resolves then (- 2, fds1)
        else if \<not> connect_ok env server then (- 1, fds1)
        else (int clientfd, fds1))"

section \<open>Servers\<close>

fun listen_walk :: "'a netenv \<Rightarrow> 'a list \<Rightarrow> nat list \<Rightarrow> ((nat \<times> 'a) option \<times> nat list) outcome" where
  "listen_walk env [] fds = Ret (None, fds)"
| "listen_walk env (p # ps) fds =
     (if \<not> socket_ok env p then listen_walk env ps fds
      else let listenfd = new_fd fds; fds1 = listenfd # fds in
        then_do (Setsockopt (if sockopt_ok env p then 0 else - 1, net_errno env)) (\<lambda>_.
          if bind_ok env p then Ret (Some (listenfd, p), fds1)
          else then_do (close_fd env p listenfd fds1) (listen_walk env ps)))"

definition open_listenfd :: "'a netenv \<Rightarrow> 'a list \<Rightarrow> nat list \<Rightarrow> (int \<times> nat list) outcome" where
  "open_listenfd env listp fds = then_do (Getaddrinfo (gai_rc env)) (\<lambda>_.
     then_do (listen_walk env listp fds) (\<lambda>(p, fds').
       case p of None \<Rightarrow> Ret (- 1, fds')
       | Some (listenfd, q) \<Rightarrow>
           if \<not> listen_ok env q
           then then_do (close_fd env q listenfd fds') (\<lambda>fds''. Ret (- 1, fds''))
           else Ret (int listenfd, fds')))"

definition Open_listenfd :: "'a netenv \<Rightarrow> 'a list \<Rightarrow> nat list \<Rightarrow> (int \<times> nat list) outcome" where
  "Open_listenfd env listp fds = then_do (open_listenfd env listp fds) (\<lambda>(rc, fds').
     if rc < 0 then unix_error ''Open_listenfd error'' (net_errno env) else Ret (rc, fds'))"

definition open_listenfd_tiny :: "'a netenv \<Rightarrow> 'a list \<Rightarrow> nat list \<Rightarrow> (int \<times> nat list) outcome" where
  "open_listenfd_tiny env listp fds = then_do (Getaddrinfo (gai_rc env)) (\<lambda>_.
     then_do (listen_walk env listp fds) (\<lambda>(p, fds').
       case p of None \<Rightarrow> Ret (- 1, fds')
       | Some (listenfd, q) \<Rightarrow>
           if \<not> listen_ok env q then Ret (- 1, fds') else Ret (int listenfd, fds')))"

definition open_listenfd_v4 :: "'a netenv \<Rightarrow> 'a \<Rightarrow> nat list \<Rightarrow> int \<times> nat list" where
  "open_listenfd_v4 env server fds =
     (if \<not> socket_ok env server then (- 1, fds)
      else let listenfd = new_fd fds; fds1 = listenfd # fds in
        if \<not> sockopt_ok env server then (- 1, fds1)
        else if \<not> bind_ok env server then (- 1, fds1)
        else if \<not> listen_ok env server then (- 1, fds1)
        else (int listenfd, fds1))"

section \<open>Walking the address list\<close>

lemma close_fd_returns:
  "close_ok env p \<Longrightarrow> close_fd env p fd (fd # fds) = Ret fds"
  by (simp add: close_fd_def Close_def)

text \<open>The walk stops at the first usable address; the tries before it are closed again.\<close>

lemma client_walk_first:
  assumes "\<forall>p \<in> set ps. close_ok env p"
  shows "client_walk env ps fds = Ret
    (case find (\<lambda>p. socket_ok env p \<and> connect_ok env p) ps of
       None \<Rightarrow> (None, fds) | Some p \<Rightarrow> (Some (new_fd fds, p), new_fd fds # fds))"
  using assms by (induction ps) (auto simp: Let_def close_fd_returns)

lemma listen_walk_first:
  assumes "\<forall>p \<in> set ps. close_ok env p \<and> sockopt_ok env p"
  shows "listen_walk env ps fds = Ret
    (case find (\<lambda>p. socket_ok env p \<and> bind_ok env p) ps of
       None \<Rightarrow> (None, fds) | Some p \<Rightarrow> (Some (new_fd fds, p), new_fd fds # fds))"
  using assms by (induction ps) (auto simp: Let_def close_fd_returns Setsockopt_def)

section \<open>Properties\<close>

text \<open>
  Open_clientfd. If the names resolve and closing works, \<open>open_clientfd\<close> returns a new
  descriptor for the first candidate address that gives a socket and a connection, or -1
  when there is none; in both cases no other descriptor is left open.
\<close>

theorem open_clientfd_no_leak:
  assumes "gai_rc env = 0" "\<forall>p \<in> set listp. close_ok env p"
  shows "open_clientfd env listp fds =
    (if \<exists>p \<in> set listp. socket_ok env p \<and> connect_ok env p
     then Ret (int (new_fd fds), new_fd fds # fds) else Ret (- 1, fds)) \<and> new_fd fds \<notin> set fds"
  using assms client_walk_first [OF assms(2), of fds] new_fd_unused [of fds]
  by (auto simp: open_clientfd_def Getaddrinfo_def find_None_iff find_Some_iff split: option.splits)

theorem open_clientfd_no_leak_witness:
  "open_clientfd \<lparr>gai_rc = 0, socket_ok = \<lambda>_. True, sockopt_ok = \<lambda>_. True, connect_ok = \<lambda>p. p = 7,
      bind_ok = \<lambda>_. True, listen_ok = \<lambda>_. True, close_ok = \<lambda>_. True, net_errno = 0\<rparr> [5, 7, 9 :: int] [2, 1, 0]
   = Ret (3, [3, 2, 1, 0])"
  using open_clientfd_no_leak [of "\<lparr>gai_rc = 0, socket_ok = \<lambda>_. True, sockopt_ok = \<lambda>_. True,
      connect_ok = \<lambda>p. p = 7, bind_ok = \<lambda>_. True, listen_ok = \<lambda>_. True, close_ok = \<lambda>_. True,
      net_errno = 0\<rparr>" "[5, 7, 9 :: int]" "[2, 1, 0]"]
  by (simp add: new_fd_def upt_rec)

text \<open>
  C31 (open_listenfd). Likewise \<open>open_listenfd\<close> returns a new listening descriptor for the
  first address it can bind, or -1 with the descriptor table unchanged, also when
  \<open>listen\<close> fails.  The version of the tiny server leaves the descriptor open in that case.
\<close>

theorem open_listenfd_no_leak:
  assumes "gai_rc env = 0" "\<forall>p \<in> set listp. close_ok env p \<and> sockopt_ok env p"
  shows "open_listenfd env listp fds =
      (case find (\<lambda>p. socket_ok env p \<and> bind_ok env p) listp of
         Some p \<Rightarrow> if listen_ok env p then Ret (int (new_fd fds), new_fd fds # fds) else Ret (- 1, fds)
       | None \<Rightarrow> Ret (- 1, fds))
    \<and> open_listenfd_tiny env listp fds =
      (case find (\<lambda>p. socket_ok env p \<and> bind_ok env p) listp of
         Some p \<Rightarrow> Ret (if listen_ok env p then int (new_fd fds) else - 1, new_fd fds # fds)
       | None \<Rightarrow> Ret (- 1, fds))"
proof -
  have "close_ok env p" if "find (\<lambda>p. socket_ok env p \<and> bind_ok env p) listp = Some p" for p
    using that assms(2) by (metis find_Some_iff nth_mem)
  then show ?thesis
    using assms(1) listen_walk_first [OF assms(2), of fds]
    by (auto simp: open_listenfd_def open_listenfd_tiny_def Getaddrinfo_def close_fd_returns split: option.splits)
qed

theorem open_listenfd_no_leak_witness:
  "open_listenfd_tiny \<lparr>gai_rc = 0, socket_ok = \<lambda>_. True, sockopt_ok = \<lambda>_. True, connect_ok = \<lambda>_. True,
      bind_ok = \<lambda>_. True, listen_ok = \<lambda>_. False, close_ok = \<lambda>_. True, net_errno = 0\<rparr> [5 :: int] [2, 1, 0]
   = Ret (- 1, [3, 2, 1, 0])"
  using open_listenfd_no_leak [of "\<lparr>gai_rc = 0, socket_ok = \<lambda>_. True, sockopt_ok = \<lambda>_. True,
      connect_ok = \<lambda>_. True, bind_ok = \<lambda>_. True, listen_ok = \<lambda>_. False, close_ok = \<lambda>_. True,
      net_errno = 0\<rparr>" "[5 :: int]" "[2, 1, 0]"]
  by (simp add: new_fd_def upt_rec)

text \<open>
  Descriptor leaks of the IPv4 helpers. In the \<open>16-io\<close> versions every error return
  after the socket was created leaves its descriptor open: a caller that retries loses one
  descriptor per attempt.
\<close>

theorem v4_helpers_leak:
  "(\<forall>rc fds'. open_clientfd_v4 env resolves server fds = (rc, fds') \<longrightarrow>
      length fds' = length fds + (if socket_ok env server then 1 else 0))
   \<and> (\<forall>rc fds'. open_listenfd_v4 env server fds = (rc, fds') \<longrightarrow>
      length fds' = length fds + (if socket_ok env server then 1 else 0))
   \<and> (fst (open_clientfd_v4 env resolves server fds) < 0 \<longleftrightarrow>
        \<not> (socket_ok env server \<and> resolves \<and> connect_ok env server))"
  by (auto simp: open_clientfd_v4_def open_listenfd_v4_def Let_def split: if_splits)

theorem v4_helpers_leak_witness:
  "open_clientfd_v4 \<lparr>gai_rc = 0, socket_ok = \<lambda>_. True, sockopt_ok = \<lambda>_. True, connect_ok = \<lambda>_. True,
      bind_ok = \<lambda>_. True, listen_ok = \<lambda>_. True, close_ok = \<lambda>_. True, net_errno = 0\<rparr> False (0 :: int) [0, 1, 2]
     = (- 2, [3, 0, 1, 2]) \<and> length [3, 0, 1, 2 :: nat] = length [0, 1, 2 :: nat] + 1"
proof -
  let ?env = "\<lparr>gai_rc = 0, socket_ok = \<lambda>_. True, sockopt_ok = \<lambda>_. True, connect_ok = \<lambda>_. True,
      bind_ok = \<lambda>_. True, listen_ok = \<lambda>_. True, close_ok = \<lambda>_. True, net_errno = 0\<rparr> :: int netenv"
  have r: "open_clientfd_v4 ?env False 0 [0, 1, 2] = (- 2, [3, 0, 1, 2])"
    by (simp add: open_clientfd_v4_def Let_def new_fd_def upt_rec)
  then show ?thesis using v4_helpers_leak [of ?env False 0 "[0, 1, 2]"] by (simp del: length_Cons) 
qed

section \<open>hostinfo.c\<close>

text \<open>
  The walk over the addresses: \<open>nameinfo\<close> delivers the result of \<open>getnameinfo\<close> and the name in the buffer.  The lines printed so
  far come back also when the wrapper ends the program.
\<close>

fun hostinfo_loop :: "('a \<Rightarrow> int \<times> string) \<Rightarrow> 'a list \<Rightarrow> string list \<times> unit outcome" where
  "hostinfo_loop nameinfo [] = ([], Ret ())"
| "hostinfo_loop nameinfo (p # ps) = (case nameinfo p of (rc, buf) \<Rightarrow> (case Getnameinfo rc of
       Ret _ \<Rightarrow> (case hostinfo_loop nameinfo ps of (out, r) \<Rightarrow> ((buf @ [CHR 0x0A]) # out, r))
     | bad \<Rightarrow> ([], bad)))"

datatype host_result = HostUsage | NoHost int | Hosts "string list" "unit outcome"

text \<open>\<open>main\<close>; without a name it exits with status 0, when the lookup fails with status 1.\<close>

definition hostinfo_main :: "int \<Rightarrow> int \<Rightarrow> ('a \<Rightarrow> int \<times> string) \<Rightarrow> 'a list \<Rightarrow> host_result" where
  "hostinfo_main argc rc nameinfo listp = (if argc \<noteq> 2 then HostUsage
     else if rc \<noteq> 0 then NoHost rc
     else case hostinfo_loop nameinfo listp of (out, r) \<Rightarrow> Hosts out r)"

text \<open>The addresses are printed in order, up to the first that has no name, whose error ends the program.\<close>

lemma hostinfo_main_lists:
  "hostinfo_main 2 0 nameinfo listp = Hosts (map (\<lambda>p. snd (nameinfo p) @ [CHR 0x0A]) (takeWhile (\<lambda>p. fst (nameinfo p) = 0) listp))
     (case dropWhile (\<lambda>p. fst (nameinfo p) = 0) listp of [] \<Rightarrow> Ret () | p # _ \<Rightarrow> GaiError ''Getnameinfo error'' (fst (nameinfo p)))"
proof -
  have "hostinfo_loop nameinfo listp = (map (\<lambda>p. snd (nameinfo p) @ [CHR 0x0A]) (takeWhile (\<lambda>p. fst (nameinfo p) = 0) listp),
     (case dropWhile (\<lambda>p. fst (nameinfo p) = 0) listp of [] \<Rightarrow> Ret () | p # _ \<Rightarrow> GaiError ''Getnameinfo error'' (fst (nameinfo p))))"
    by (induction listp) (auto simp: Getnameinfo_def gai_error_def split: prod.splits)
  then show ?thesis by (simp add: hostinfo_main_def)
qed

end
