(* ===== verification/Shell.thy ===== *)
theory Shell
  imports Csapp
begin

text \<open>
  The simple shell of \<open>shellex.c\<close>: splitting a command line into arguments in place,
  recognising background jobs and built-in commands, and what \<open>eval\<close> does with them.  A
  string is the list of its bytes before the \<open>NUL\<close>; writing outside the argument array of
  128 pointers or before the start of the buffer is \<open>Undefined\<close>.
\<close>

abbreviation space :: byte where "space \<equiv> 32"
abbreviation ampersand :: byte where "ampersand \<equiv> 38"
abbreviation MAXARGS :: nat where "MAXARGS \<equiv> 128"

section \<open>parseline\<close>

definition skip_spaces :: "byte list \<Rightarrow> byte list" where
  "skip_spaces buf = dropWhile (\<lambda>b. b = space) buf"

lemma skip_spaces_shorter:
  assumes "space \<in> set buf"
  shows "length (skip_spaces (tl (dropWhile (\<lambda>b. b \<noteq> space) buf))) < length buf"
proof -
  have "dropWhile (\<lambda>b. b \<noteq> space) buf \<noteq> []" using assms by (auto simp: dropWhile_eq_Nil_conv)
  then show ?thesis
    using length_dropWhile_le [of "\<lambda>b. b \<noteq> space" buf]
      length_dropWhile_le [of "\<lambda>b. b = space" "tl (dropWhile (\<lambda>b. b \<noteq> space) buf)"]
    by (cases "dropWhile (\<lambda>b. b \<noteq> space) buf") (auto simp: skip_spaces_def)
qed

text \<open>The loop that cuts the arguments at the space delimiters.\<close>

function parse_args :: "byte list \<Rightarrow> byte list list" where
  "parse_args buf = (if space \<in> set buf
     then takeWhile (\<lambda>b. b \<noteq> space) buf
          # parse_args (skip_spaces (tl (dropWhile (\<lambda>b. b \<noteq> space) buf)))
     else [])"
  by pat_completeness auto

termination
  by (relation "measure length") (use skip_spaces_shorter in auto)

declare parse_args.simps [simp del]

definition parseline :: "byte list \<Rightarrow> (bool \<times> byte list list) outcome" where
  "parseline buf = (if buf = [] then Undefined
     else let argv = parse_args (skip_spaces (butlast buf @ [space])) in
       if MAXARGS \<le> length argv then Undefined
       else if argv = [] then Ret (True, [])
       else if hd (last argv) = ampersand then Ret (True, butlast argv)
       else Ret (False, argv))"

section \<open>eval\<close>

datatype builtin = Quits | Ignored | NotBuiltin

definition builtin_command :: "byte list \<Rightarrow> builtin" where
  "builtin_command arg0 =
     (if arg0 = [113, 117, 105, 116] then Quits else if arg0 = [ampersand] then Ignored else NotBuiltin)"

datatype action =
    NoJob
  | LeaveShell
  | Foreground int "byte list list"
  | Background int "byte list list" "byte list"
  | ChildRuns "byte list list"
  | CommandNotFound "byte list"

text \<open>
  \<open>eval\<close>, given the results of \<open>fork\<close>, \<open>execve\<close> and \<open>waitpid\<close>: the child, where \<open>fork\<close> returns 0,
  becomes the program or reports that there is none and exits; the parent waits for a
  foreground job.
\<close>

definition eval :: "sysret \<Rightarrow> sysret \<Rightarrow> sysret \<Rightarrow> byte list \<Rightarrow> action outcome" where
  "eval forked execd waited cmdline = then_do (parseline cmdline) (\<lambda>(bg, argv).
     if argv = [] then Ret NoJob
     else (case builtin_command (hd argv) of
         Quits \<Rightarrow> Ret LeaveShell
       | Ignored \<Rightarrow> Ret NoJob
       | NotBuiltin \<Rightarrow> then_do (Fork forked) (\<lambda>pid.
           if pid = 0 then (if fst execd < 0 then Ret (CommandNotFound (hd argv)) else Ret (ChildRuns argv))
           else if \<not> bg then (case waited of (rc, errno) \<Rightarrow>
             if rc < 0 then unix_error ''waitfg: waitpid error'' errno else Ret (Foreground pid argv))
           else Ret (Background pid argv cmdline))))"

section \<open>Arguments\<close>

lemma skip_spaces_filter: "filter (\<lambda>b. b \<noteq> space) (skip_spaces s) = filter (\<lambda>b. b \<noteq> space) s"
  by (induction s) (auto simp: skip_spaces_def)

lemma skip_spaces_first: "skip_spaces s = b # t \<Longrightarrow> b \<noteq> space"
  by (auto simp: skip_spaces_def dropWhile_eq_Cons_conv)

lemma skip_spaces_last: "skip_spaces s \<noteq> [] \<Longrightarrow> last (skip_spaces s) = last s"
proof (induction s)
  case (Cons b s)
  then show ?case by (cases "s = []") (auto simp: skip_spaces_def split: if_splits)
qed (simp add: skip_spaces_def)

lemma cut_at_space:
  assumes "space \<in> set s"
  obtains w r where "s = w @ space # r" "takeWhile (\<lambda>b. b \<noteq> space) s = w"
    "tl (dropWhile (\<lambda>b. b \<noteq> space) s) = r" "filter (\<lambda>b. b \<noteq> space) w = w"
proof -
  obtain w r where "s = w @ space # r" "space \<notin> set w" using split_list_first [OF assms] by blast
  moreover have "filter (\<lambda>b. b \<noteq> space) w = w" using \<open>space \<notin> set w\<close> by (induction w) auto
  moreover have "takeWhile (\<lambda>b. b \<noteq> space) (w @ space # r) = w" "dropWhile (\<lambda>b. b \<noteq> space) (w @ space # r) = space # r"
    using \<open>space \<notin> set w\<close> by (induction w) auto
  ultimately show ?thesis using that by simp
qed

text \<open>If the text ends in a space, nothing but spaces is lost.\<close>

lemma parse_args_concat:
  "(s = [] \<or> last s = space) \<Longrightarrow> concat (parse_args s) = filter (\<lambda>b. b \<noteq> space) s"
proof (induction s rule: parse_args.induct)
  case (1 s)
  show ?case
  proof (cases "space \<in> set s")
    case False
    then show ?thesis using 1(2) by (subst parse_args.simps) (cases "s = []"; use last_in_set in fastforce)
  next
    case True
    obtain w r where split: "s = w @ space # r" and cut: "takeWhile (\<lambda>b. b \<noteq> space) s = w"
      "tl (dropWhile (\<lambda>b. b \<noteq> space) s) = r" and nw: "filter (\<lambda>b. b \<noteq> space) w = w"
      by (rule cut_at_space [OF True])
    have "skip_spaces r = [] \<or> last (skip_spaces r) = space"
      using 1(2) skip_spaces_last [of r] by (cases "r = []") (auto simp: split skip_spaces_def)
    then have "concat (parse_args (skip_spaces r)) = filter (\<lambda>b. b \<noteq> space) r"
      using 1(1) [OF True] by (simp add: cut skip_spaces_filter)
    moreover have "parse_args s = w # parse_args (skip_spaces r)"
      using True by (subst parse_args.simps) (simp add: cut)
    ultimately show ?thesis using nw by (simp add: split)
  qed
qed

lemma parse_args_words:
  "(s = [] \<or> hd s \<noteq> space) \<Longrightarrow> w \<in> set (parse_args s) \<Longrightarrow> w \<noteq> [] \<and> space \<notin> set w"
proof (induction s rule: parse_args.induct)
  case (1 s)
  show ?case
  proof (cases "space \<in> set s")
    case False
    then show ?thesis using 1(3) by (simp add: parse_args.simps)
  next
    case True
    let ?w = "takeWhile (\<lambda>b. b \<noteq> space) s" and ?r = "skip_spaces (tl (dropWhile (\<lambda>b. b \<noteq> space) s))"
    have "?w \<noteq> []" "space \<notin> set ?w" using True 1(2) by (cases s; auto dest: set_takeWhileD)+
    moreover have "?r = [] \<or> hd ?r \<noteq> space" using skip_spaces_first by (cases ?r) auto
    ultimately show ?thesis using 1(1) [OF True] 1(3) True by (auto simp: parse_args.simps [of s])
  qed
qed

text \<open>Words separated by any number of spaces are found again.\<close>

lemma parse_args_join:
  assumes "list_all (\<lambda>(w, k). w \<noteq> [] \<and> space \<notin> set w) wks"
  shows "parse_args (concat (map (\<lambda>(w, k). w @ replicate (Suc k) space) wks)) = map fst wks"
  using assms
proof (induction wks)
  case Nil
  then show ?case by (simp add: parse_args.simps)
next
  case (Cons wk wks)
  obtain w k where wk: "wk = (w, k)" by (cases wk)
  let ?rest = "concat (map (\<lambda>(w, k). w @ replicate (Suc k) space) wks)"
  have w: "w \<noteq> []" "space \<notin> set w" using Cons.prems wk by auto
  then have tw: "takeWhile (\<lambda>b. b \<noteq> space) (w @ space # replicate k space @ ?rest) = w"
    "dropWhile (\<lambda>b. b \<noteq> space) (w @ space # replicate k space @ ?rest) = space # replicate k space @ ?rest"
    by (subst takeWhile_append2 dropWhile_append2; fastforce)+
  have rest: "skip_spaces (replicate k space @ ?rest) = ?rest"
  proof -
    have "skip_spaces ?rest = ?rest"
      using Cons.prems by (cases wks) (auto simp: skip_spaces_def neq_Nil_conv)
    then show ?thesis by (induction k) (auto simp: skip_spaces_def)
  qed
  show ?case using Cons tw rest by (subst parse_args.simps) (simp add: wk)
qed

section \<open>Properties\<close>



text \<open>
  Parseline round trip. A line that lists fewer than 128 words, separated by any
  number of spaces and the last not starting with an ampersand, is parsed into exactly
  those words as a foreground job; with 128 words or more the argument array overflows.
\<close>

theorem parseline_roundtrip:
  assumes "list_all (\<lambda>(w, k). w \<noteq> [] \<and> space \<notin> set w) wks" "wks \<noteq> []" "hd (fst (last wks)) \<noteq> ampersand"
    and "x @ [space] = replicate k0 space @ concat (map (\<lambda>(w, k). w @ replicate (Suc k) space) wks)"
  shows "parseline (x @ [c]) = (if length wks < MAXARGS then Ret (False, map fst wks) else Undefined)"
proof -
  let ?rest = "concat (map (\<lambda>(w, k). w @ replicate (Suc k) space) wks)"
  have "skip_spaces ?rest = ?rest"
    using assms(1,2) by (cases wks) (auto simp: skip_spaces_def neq_Nil_conv)
  then have "skip_spaces (x @ [space]) = ?rest"
    unfolding assms(4) by (induction k0) (auto simp: skip_spaces_def)
  then have "parse_args (skip_spaces (x @ [space])) = map fst wks" using parse_args_join [OF assms(1)] by simp
  then show ?thesis using assms(2,3) by (simp add: parseline_def last_map Let_def)
qed

theorem parseline_roundtrip_witness:
  "parseline ([108, 115, 32, 120] @ [10]) = Ret (False, [[108, 115], [120]])"
  using parseline_roundtrip [of "[([108, 115], 0), ([120], 0)]" "[108, 115, 32, 120]" 0 10] by simp

end
