(* ===== verification/Clock.thy ===== *)
theory Clock
  imports Complex_Main Prelude
begin

text \<open>
  The cycle counter of \<open>clock.c\<close> (the programs \<open>mountain\<close> and \<open>matmult\<close>): the 64-bit
  subtraction in 32-bit words, the calibration of the timer interrupt, the compensated
  counter and the clock rate, and the time-of-day counters of \<open>fcyc2.c\<close>.  What the
  processor and the operating system deliver (\<open>rdtsc\<close>, \<open>times\<close>, \<open>gettimeofday\<close>, \<open>sleep\<close>) is a
  parameter that acts on a machine state.  Doubles are real numbers.
\<close>

section \<open>Definitions\<close>

record 'm hw =
  rdtsc :: "'m \<Rightarrow> (32 word \<times> 32 word) \<times> 'm"
  tms_utime :: "'m \<Rightarrow> int \<times> 'm"
  timeofday :: "'m \<Rightarrow> (int \<times> int) \<times> 'm"
  sleep_for :: "int \<Rightarrow> 'm \<Rightarrow> 'm"

text \<open>The static variables of \<open>clock.c\<close>, and the machine they are read from.\<close>

record 'm clock_state =
  cyc_hi :: "32 word"
  cyc_lo :: "32 word"
  cyc_per_tick :: real
  start_tick :: int
  mach :: 'm

definition access_counter :: "'m hw \<Rightarrow> ('m, 'z) clock_state_scheme \<Rightarrow> (32 word \<times> 32 word) \<times> ('m, 'z) clock_state_scheme" where
  "access_counter hw s = (let (r, m) = rdtsc hw (mach s) in (r, s\<lparr>mach := m\<rparr>))"

definition start_counter :: "'m hw \<Rightarrow> ('m, 'z) clock_state_scheme \<Rightarrow> ('m, 'z) clock_state_scheme" where
  "start_counter hw s = (let ((hi, lo), s1) = access_counter hw s in s1\<lparr>cyc_hi := hi, cyc_lo := lo\<rparr>)"

definition cycles_between :: "32 word \<times> 32 word \<Rightarrow> 32 word \<times> 32 word \<Rightarrow> real" where
  "cycles_between old new = (case (old, new) of ((chi, clo), (nhi, nlo)) \<Rightarrow>
     let lo = nlo - clo; borrow = (if nlo < lo then 1 else 0); hi = nhi - chi - borrow
     in real (unat hi) * 2 ^ 30 * 4 + real (unat lo))"

definition get_counter :: "'m hw \<Rightarrow> ('m, 'z) clock_state_scheme \<Rightarrow> real \<times> ('m, 'z) clock_state_scheme" where
  "get_counter hw s = (let (new, s1) = access_counter hw s in (cycles_between (cyc_hi s1, cyc_lo s1) new, s1))"

definition ovhd :: "'m hw \<Rightarrow> ('m, 'z) clock_state_scheme \<Rightarrow> real \<times> ('m, 'z) clock_state_scheme" where
  "ovhd hw s = for_up 0 2 (\<lambda>i (r, s). get_counter hw (start_counter hw s)) (0, s)"

definition mhz_full :: "'m hw \<Rightarrow> int \<Rightarrow> ('m, 'z) clock_state_scheme \<Rightarrow> real \<times> ('m, 'z) clock_state_scheme" where
  "mhz_full hw sleeptime s = (let s1 = start_counter hw s; s2 = s1\<lparr>mach := sleep_for hw sleeptime (mach s1)\<rparr>;
     (c, s3) = get_counter hw s2 in (c / (1000000 * of_int sleeptime), s3))"

definition mhz :: "'m hw \<Rightarrow> ('m, 'z) clock_state_scheme \<Rightarrow> real \<times> ('m, 'z) clock_state_scheme" where
  "mhz hw = mhz_full hw 2"

text \<open>
  \<open>times(&t)\<close>, and the calibration loop over any counter \<open>get\<close>; the loop has no bound, so that a
  calibration that never sees its events is \<open>None\<close>.
\<close>

definition times_c :: "'m hw \<Rightarrow> ('m, 'z) clock_state_scheme \<Rightarrow> int \<times> ('m, 'z) clock_state_scheme" where
  "times_c hw s = (let (t, m) = tms_utime hw (mach s) in (t, s\<lparr>mach := m\<rparr>))"

definition NEVENT :: nat where "NEVENT = 100"
definition THRESHOLD :: real where "THRESHOLD = 1000"
definition RECORDTHRESH :: real where "RECORDTHRESH = 3000"

definition record_event :: "real \<Rightarrow> real \<Rightarrow> real" where
  "record_event cpt old = (if (old = 0 \<or> cpt < old) \<and> RECORDTHRESH < cpt then cpt else old)"

partial_function (option) callibrate_loop ::
  "('s \<Rightarrow> real \<times> 's) \<Rightarrow> ('s \<Rightarrow> int \<times> 's) \<Rightarrow> nat \<Rightarrow> real \<Rightarrow> int \<Rightarrow> real \<Rightarrow> 's \<Rightarrow> (real \<times> 's) option" where
  "callibrate_loop get tms e oldt oldc cpt s =
     (if e < NEVENT then
        let (newt, s1) = get s in
        if THRESHOLD \<le> newt - oldt then
          let (newc, s2) = tms s1 in
          if oldc < newc
          then callibrate_loop get tms (e + 1) newt newc (record_event ((newt - oldt) / of_int (newc - oldc)) cpt) s2
          else callibrate_loop get tms e newt oldc cpt s2
        else callibrate_loop get tms e oldt oldc cpt s1
      else Some (cpt, s))"

definition callibrate :: "'m hw \<Rightarrow> ('m, 'z) clock_state_scheme \<Rightarrow> ('m, 'z) clock_state_scheme option" where
  "callibrate hw s = (let (oldc, s1) = times_c hw s; (oldt, s2) = get_counter hw (start_counter hw s1) in
     map_option (\<lambda>(c, s3). s3\<lparr>cyc_per_tick := c\<rparr>)
       (callibrate_loop (get_counter hw) (times_c hw) 0 oldt oldc (cyc_per_tick s2) s2))"

definition start_comp_counter :: "'m hw \<Rightarrow> ('m, 'z) clock_state_scheme \<Rightarrow> ('m, 'z) clock_state_scheme option" where
  "start_comp_counter hw s = do {
     s1 \<leftarrow> (if cyc_per_tick s = 0 then callibrate hw s else Some s);
     let (t, s2) = times_c hw s1;
     Some (start_counter hw (s2\<lparr>start_tick := t\<rparr>)) }"

definition get_comp_counter :: "'m hw \<Rightarrow> ('m, 'z) clock_state_scheme \<Rightarrow> real \<times> ('m, 'z) clock_state_scheme" where
  "get_comp_counter hw s = (let (time, s1) = get_counter hw s; (t, s2) = times_c hw s1
     in (time - of_int (t - start_tick s2) * cyc_per_tick s2, s2))"

section \<open>The 64-bit difference\<close>

text \<open>The two halves that \<open>rdtsc\<close> leaves in the registers.\<close>

definition hi_lo :: "64 word \<Rightarrow> 32 word \<times> 32 word" where
  "hi_lo w = (ucast (drop_bit 32 w), ucast w)"

lemma high_low_mod:
  fixes h l :: int
  assumes "0 \<le> l" "l < 2 ^ 32"
  shows "(h * 2 ^ 32 + l) mod 2 ^ 64 = (h mod 2 ^ 32) * 2 ^ 32 + l"
proof -
  have "(h * 2 ^ 32 + l) mod (2 ^ 32 * 2 ^ 32) = 2 ^ 32 * (h mod 2 ^ 32) + l"
    using assms by (subst zmod_zmult2_eq) simp_all
  then show ?thesis by simp
qed

lemma uint_hi_lo:
  assumes "hi_lo w = (h, l)"
  shows "uint w = uint h * 2 ^ 32 + uint l"
proof -
  have "uint h = (uint w div 2 ^ 32) mod 2 ^ 32" "uint l = uint w mod 2 ^ 32"
    using assms by (auto simp: hi_lo_def unsigned_drop_bit_eq unsigned_ucast_eq take_bit_eq_mod drop_bit_eq_div uint_div)
  moreover have "uint w div 2 ^ 32 < 2 ^ 32" "0 \<le> uint w div 2 ^ 32"
    using uint_lt2p [of w] by (simp_all add: pos_imp_zdiv_nonneg_iff)
  ultimately show ?thesis by simp
qed

lemma cycles_between_words:
  fixes chi clo nhi nlo :: "32 word"
  defines "lo \<equiv> nlo - clo" and "borrow \<equiv> (if nlo < nlo - clo then 1 else 0 :: 32 word)"
  shows "uint (nhi - chi - borrow) * 2 ^ 32 + uint lo
       = ((uint nhi * 2 ^ 32 + uint nlo) - (uint chi * 2 ^ 32 + uint clo)) mod 2 ^ 64"
proof -
  define b :: int where "b = (if uint nlo < uint clo then 1 else 0)"
  have r: "0 \<le> uint nlo" "0 \<le> uint clo" "uint nlo < 2 ^ 32" "uint clo < 2 ^ 32"
    using uint_lt2p [of nlo] uint_lt2p [of clo] by simp_all
  have lo: "uint lo = uint nlo - uint clo + b * 2 ^ 32"
    using r by (auto simp: lo_def b_def uint_sub_if' not_less)
  have "borrow = (if uint nlo < uint lo then 1 else 0)" by (simp add: borrow_def lo_def word_less_def)
  then have borrow: "uint borrow = b" using r lo by (auto simp: b_def)
  have hi: "uint (nhi - chi - borrow) = (uint nhi - uint chi - b) mod 2 ^ 32"
    using borrow by (simp add: uint_word_ariths mod_diff_left_eq)
  have "uint (nhi - chi - borrow) * 2 ^ 32 + uint lo = ((uint nhi - uint chi - b) * 2 ^ 32 + uint lo) mod 2 ^ 64"
    using uint_lt2p [of lo] by (subst high_low_mod) (simp_all add: hi)
  also have "(uint nhi - uint chi - b) * 2 ^ 32 + uint lo = (uint nhi * 2 ^ 32 + uint nlo) - (uint chi * 2 ^ 32 + uint clo)"
    unfolding lo by (simp add: algebra_simps)
  finally show ?thesis .
qed

lemma cycles_between_diff: "cycles_between (hi_lo u) (hi_lo v) = real (unat (v - u))"
proof -
  obtain chi clo nhi nlo where h: "hi_lo u = (chi, clo)" "hi_lo v = (nhi, nlo)" by (metis surj_pair)
  have "uint (v - u) = (uint v - uint u) mod 2 ^ 64" by (simp add: uint_word_ariths)
  then have "int (unat (v - u)) = uint (nhi - chi - (if nlo < nlo - clo then 1 else 0)) * 2 ^ 32 + uint (nlo - clo)"
    using cycles_between_words [of nhi chi nlo clo] by (simp add: uint_hi_lo [OF h(1)] uint_hi_lo [OF h(2)])
  then have "real (unat (v - u)) = real_of_int (uint (nhi - chi - (if nlo < nlo - clo then 1 else 0)) * 2 ^ 32 + uint (nlo - clo))"
    by (metis of_int_of_nat_eq)
  then show ?thesis by (simp add: cycles_between_def h Let_def)
qed

section \<open>Properties of the counters\<close>

lemma get_started:
  assumes "rdtsc hw (mach s) = (hi_lo u, m1)" "rdtsc hw m2 = (hi_lo v, m3)"
  shows "fst (get_counter hw ((start_counter hw s)\<lparr>mach := m2\<rparr>)) = real (unat (v - u))"
  using assms cycles_between_diff [of u v]
  by (simp add: get_counter_def start_counter_def access_counter_def split_beta Let_def)

text \<open>
  Bounds. \<open>get_counter\<close> after \<open>start_counter\<close> is the number of cycles between the two
  readings of the 64-bit counter, although it subtracts 32-bit halves: the borrow is right in
  every case, also when the whole counter wraps around once in between, and the result is
  never negative, so that the error message of the function cannot appear.
\<close>

theorem get_counter_cycles:
  assumes "rdtsc hw (mach s) = (hi_lo u, m1)" "rdtsc hw m2 = (hi_lo v, m3)"
  shows "fst (get_counter hw ((start_counter hw s)\<lparr>mach := m2\<rparr>))
       = (if u \<le> v then real (unat v) - real (unat u) else 2 ^ 64 - real (unat u) + real (unat v))
     \<and> 0 \<le> fst (get_counter hw ((start_counter hw s)\<lparr>mach := m2\<rparr>))"
proof -
  have r: "fst (get_counter hw ((start_counter hw s)\<lparr>mach := m2\<rparr>)) = real (unat (v - u))"
    by (rule get_started [OF assms])
  have e: "real (unat w) = real_of_int (uint w)" for w :: "64 word" by simp
  have "real (unat (v - u)) = real_of_int (uint (v - u))" by (rule e)
  also have "\<dots> = (if u \<le> v then real_of_int (uint v) - real_of_int (uint u)
      else 2 ^ 64 - real_of_int (uint u) + real_of_int (uint v))"
    unfolding uint_sub_if' word_le_def by simp
  finally show ?thesis unfolding r by (intro conjI of_nat_0_le_iff) (simp only: e)
qed

text \<open>A machine whose counter is its state.\<close>

definition demo_hw :: "64 word hw" where
  "demo_hw = \<lparr>rdtsc = (\<lambda>w. (hi_lo w, w + 5)), tms_utime = (\<lambda>w. (uint w div 10000000, w)),
     timeofday = (\<lambda>w. ((uint w div 1000000000, 0), w)), sleep_for = (\<lambda>n w. w + of_int n * 1000000000)\<rparr>"

theorem get_counter_cycles_witness:
  "fst (get_counter demo_hw ((start_counter demo_hw
     \<lparr>cyc_hi = 0, cyc_lo = 0, cyc_per_tick = 0, start_tick = 0, mach = 4294967290\<rparr>)\<lparr>mach := 4294967305\<rparr>)) = 15"
proof -
  have "rdtsc demo_hw (mach \<lparr>cyc_hi = 0, cyc_lo = 0, cyc_per_tick = 0, start_tick = 0, mach = 4294967290\<rparr>)
      = (hi_lo 4294967290, 4294967295)" by (simp add: demo_hw_def)
  moreover have "rdtsc demo_hw 4294967305 = (hi_lo 4294967305, 4294967310)" by (simp add: demo_hw_def)
  ultimately show ?thesis using get_counter_cycles by fastforce
qed

text \<open>The calibration keeps the smallest ratio above the threshold.\<close>

lemma record_event_cases:
  "record_event c x = x \<or> RECORDTHRESH < record_event c x \<and> (x = 0 \<or> record_event c x < x)"
  by (auto simp: record_event_def)

lemma callibrate_loop_records:
  "callibrate_loop get tms e oldt oldc x s = Some r \<Longrightarrow> fst r = x \<or> RECORDTHRESH < fst r \<and> (x = 0 \<or> fst r < x)"
proof (induction rule: callibrate_loop.raw_induct [rotated 1, consumes 1])
  case (1 loop get tms e oldt oldc x s r)
  obtain newt s1 newc s2 where p: "get s = (newt, s1)" "tms s1 = (newc, s2)" by (metis surj_pair)
  note c = record_event_cases [of "(newt - oldt) / of_int (newc - oldc)" x]
  have pos: "0 < RECORDTHRESH" by (simp add: RECORDTHRESH_def)
  consider "\<not> e < NEVENT" | "e < NEVENT" "THRESHOLD \<le> newt - oldt" "oldc < newc"
    | "e < NEVENT" "THRESHOLD \<le> newt - oldt" "\<not> oldc < newc" | "e < NEVENT" "\<not> THRESHOLD \<le> newt - oldt" by blast
  then show ?case
  proof cases
    case 2
    then have "loop get tms (e + 1) newt newc (record_event ((newt - oldt) / of_int (newc - oldc)) x) s2 = Some r"
      using 1(2) p by simp
    from 1(1) [OF this] show ?thesis using c pos by auto
  qed (use 1 p in auto)
qed

lemma callibrate_records:
  assumes "callibrate hw s = Some s'" "cyc_per_tick s = 0"
  shows "cyc_per_tick s' = 0 \<or> RECORDTHRESH < cyc_per_tick s'"
  using assms
  by (auto simp: callibrate_def Let_def split_beta times_c_def start_counter_def get_counter_def access_counter_def
      dest!: callibrate_loop_records)

text \<open>What the compensated counter subtracts.\<close>

lemma get_comp_counter_value:
  assumes "get_counter hw s = (time, s1)" "times_c hw s1 = (t, s2)"
  shows "fst (get_comp_counter hw s) = time - of_int (t - start_tick s) * cyc_per_tick s"
  using assms by (auto simp: get_comp_counter_def get_counter_def times_c_def access_counter_def split_beta Let_def)

section \<open>The clock rate of the processor\<close>

text \<open>
  \<open>core_mhz\<close> reads the strings that \<open>fgets\<close> delivers from \<open>/proc/cpuinfo\<close>, if it can be opened; \<open>sscanf\<close> has the number
  that it converts, if any.  The result has the value and the variable \<open>cpu_ghz\<close>.
\<close>

definition strstr :: "string \<Rightarrow> string \<Rightarrow> bool" where
  "strstr buf s = list_ex (\<lambda>t. take (length s) t = s) (map (\<lambda>i. drop i buf) [0..<Suc (length buf)])"

fun cpuinfo_loop :: "(string \<Rightarrow> real option) \<Rightarrow> string list \<Rightarrow> real" where
  "cpuinfo_loop sscanf [] = 0"
| "cpuinfo_loop sscanf (buf # rest) = (if strstr buf ''cpu MHz''
     then (case sscanf buf of None \<Rightarrow> 0 | Some cpu_mhz \<Rightarrow> cpu_mhz) / 1000 else cpuinfo_loop sscanf rest)"

definition core_mhz :: "(string \<Rightarrow> real option) \<Rightarrow> string list option \<Rightarrow> real \<times> real" where
  "core_mhz sscanf fp = (case fp of None \<Rightarrow> (1 * 1000, 1)
     | Some bufs \<Rightarrow> let cpu_ghz = cpuinfo_loop sscanf bufs in if cpu_ghz = 0 then (1 * 1000, 1) else (cpu_ghz * 1000, cpu_ghz))"

definition mhz_cpuinfo :: "(string \<Rightarrow> real option) \<Rightarrow> string list option \<Rightarrow> real \<times> real" where
  "mhz_cpuinfo sscanf fp = core_mhz sscanf fp"

text \<open>The first line about the clock rate decides; without a number that is not zero the rate is taken to be 1000 MHz.\<close>

lemma core_mhz_value:
  "fst (core_mhz sscanf fp) = (case find (\<lambda>buf. strstr buf ''cpu MHz'') (case fp of None \<Rightarrow> [] | Some bufs \<Rightarrow> bufs) of
     None \<Rightarrow> 1000 | Some buf \<Rightarrow> (case sscanf buf of None \<Rightarrow> 1000 | Some r \<Rightarrow> if r = 0 then 1000 else r))"
  "fst (mhz_cpuinfo sscanf fp) = 1000 * snd (mhz_cpuinfo sscanf fp)"
proof -
  have "cpuinfo_loop sscanf bufs = (case find (\<lambda>buf. strstr buf ''cpu MHz'') bufs of None \<Rightarrow> 0
      | Some buf \<Rightarrow> (case sscanf buf of None \<Rightarrow> 0 | Some r \<Rightarrow> r / 1000))" for bufs
    by (induction bufs) (auto split: option.splits)
  then show "fst (core_mhz sscanf fp) = (case find (\<lambda>buf. strstr buf ''cpu MHz'') (case fp of None \<Rightarrow> [] | Some bufs \<Rightarrow> bufs) of
     None \<Rightarrow> 1000 | Some buf \<Rightarrow> (case sscanf buf of None \<Rightarrow> 1000 | Some r \<Rightarrow> if r = 0 then 1000 else r))"
    by (auto simp: core_mhz_def Let_def split: option.splits)
  show "fst (mhz_cpuinfo sscanf fp) = 1000 * snd (mhz_cpuinfo sscanf fp)"
    by (simp add: mhz_cpuinfo_def core_mhz_def Let_def split: option.splits)
qed

end
