(* ===== verification/Matmult.thy ===== *)
theory Matmult
  imports Prelude
begin

text \<open>
  The matrix products of \<open>mm.c\<close> (six loop orders) and \<open>bmm.c\<close> (two blocked versions).  The
  element type and its operations are parameters, with no law assumed: floating-point
  addition is not associative, so that two versions deliver the same result bit for bit
  only if they add the same products in the same order.  Each loop nest is reduced to the
  list of its updates \<open>C[i][j] += A[i][k] * B[k][j]\<close> in the order of execution.
\<close>

section \<open>Definitions\<close>

type_synonym 'a matrix = "nat \<Rightarrow> nat \<Rightarrow> 'a"

record 'a arith =
  zero_of :: 'a
  plus_of :: "'a \<Rightarrow> 'a \<Rightarrow> 'a"
  times_of :: "'a \<Rightarrow> 'a \<Rightarrow> 'a"

definition set_entry :: "nat \<Rightarrow> nat \<Rightarrow> 'a \<Rightarrow> 'a matrix \<Rightarrow> 'a matrix" where
  "set_entry i j x C = C(i := (C i)(j := x))"

text \<open>\<open>C[i][j] += x\<close>\<close>

definition add_to :: "'a arith \<Rightarrow> nat \<Rightarrow> nat \<Rightarrow> 'a \<Rightarrow> 'a matrix \<Rightarrow> 'a matrix" where
  "add_to f i j x C = set_entry i j (plus_of f (C i j) x) C"

text \<open>\<open>for (k = lo; k < hi; k++) sum += A[i][k]*B[k][j]\<close>\<close>

definition dot_from :: "'a arith \<Rightarrow> 'a matrix \<Rightarrow> 'a matrix \<Rightarrow> nat \<Rightarrow> nat \<Rightarrow> nat \<Rightarrow> nat \<Rightarrow> 'a \<Rightarrow> 'a" where
  "dot_from f A B i j lo hi s0 = for_up lo hi (\<lambda>k s. plus_of f s (times_of f (A i k) (B k j))) s0"

definition reset :: "'a arith \<Rightarrow> nat \<Rightarrow> 'a matrix \<Rightarrow> 'a matrix" where
  "reset f n C = for_up 0 n (\<lambda>i. for_up 0 n (\<lambda>j. set_entry i j (zero_of f))) C"

definition init :: "'a \<Rightarrow> nat \<Rightarrow> 'a matrix \<times> 'a matrix \<Rightarrow> 'a matrix \<times> 'a matrix" where
  "init one n ab = for_up 0 n (\<lambda>i. for_up 0 n (\<lambda>j (a, b). (set_entry i j one a, set_entry i j one b))) ab"

definition checkresult :: "'a \<Rightarrow> nat \<Rightarrow> 'a matrix \<Rightarrow> bool" where
  "checkresult nd n C = for_up 0 n (\<lambda>i. for_up 0 n (\<lambda>j ok. ok \<and> C i j = nd)) True"

definition ijk :: "'a arith \<Rightarrow> 'a matrix \<Rightarrow> 'a matrix \<Rightarrow> nat \<Rightarrow> 'a matrix \<Rightarrow> 'a matrix" where
  "ijk f A B n = for_up 0 n (\<lambda>i. for_up 0 n (\<lambda>j C. add_to f i j (dot_from f A B i j 0 n (zero_of f)) C))"

definition jik :: "'a arith \<Rightarrow> 'a matrix \<Rightarrow> 'a matrix \<Rightarrow> nat \<Rightarrow> 'a matrix \<Rightarrow> 'a matrix" where
  "jik f A B n = for_up 0 n (\<lambda>j. for_up 0 n (\<lambda>i C. add_to f i j (dot_from f A B i j 0 n (zero_of f)) C))"

definition ikj :: "'a arith \<Rightarrow> 'a matrix \<Rightarrow> 'a matrix \<Rightarrow> nat \<Rightarrow> 'a matrix \<Rightarrow> 'a matrix" where
  "ikj f A B n = for_up 0 n (\<lambda>i. for_up 0 n (\<lambda>k. let r = A i k in
     for_up 0 n (\<lambda>j. add_to f i j (times_of f r (B k j)))))"

definition kij :: "'a arith \<Rightarrow> 'a matrix \<Rightarrow> 'a matrix \<Rightarrow> nat \<Rightarrow> 'a matrix \<Rightarrow> 'a matrix" where
  "kij f A B n = for_up 0 n (\<lambda>k. for_up 0 n (\<lambda>i. let r = A i k in
     for_up 0 n (\<lambda>j. add_to f i j (times_of f r (B k j)))))"

definition kji :: "'a arith \<Rightarrow> 'a matrix \<Rightarrow> 'a matrix \<Rightarrow> nat \<Rightarrow> 'a matrix \<Rightarrow> 'a matrix" where
  "kji f A B n = for_up 0 n (\<lambda>k. for_up 0 n (\<lambda>j. let r = B k j in
     for_up 0 n (\<lambda>i. add_to f i j (times_of f (A i k) r))))"

definition jki :: "'a arith \<Rightarrow> 'a matrix \<Rightarrow> 'a matrix \<Rightarrow> nat \<Rightarrow> 'a matrix \<Rightarrow> 'a matrix" where
  "jki f A B n = for_up 0 n (\<lambda>j. for_up 0 n (\<lambda>k. let r = B k j in
     for_up 0 n (\<lambda>i. add_to f i j (times_of f (A i k) r))))"

text \<open>\<open>for (x = 0; x < hi; x += step)\<close>, for a positive step.\<close>

function upt_by :: "nat \<Rightarrow> nat \<Rightarrow> nat \<Rightarrow> nat list" where
  "upt_by lo hi step = (if step = 0 \<or> hi \<le> lo then [] else lo # upt_by (lo + step) hi step)"
  by pat_completeness auto

termination
  by (relation "measure (\<lambda>(lo, hi, _). hi - lo)") auto

declare upt_by.simps [simp del]

definition for_by :: "nat \<Rightarrow> nat \<Rightarrow> (nat \<Rightarrow> 's \<Rightarrow> 's) \<Rightarrow> 's \<Rightarrow> 's" where
  "for_by hi step body s = fold body (upt_by 0 hi step) s"

text \<open>\<open>sum = C[i][j]; for (k = lo; k < hi; k++) sum += ...; C[i][j] = sum\<close>\<close>

definition block_entry :: "'a arith \<Rightarrow> 'a matrix \<Rightarrow> 'a matrix \<Rightarrow> nat \<Rightarrow> nat \<Rightarrow> nat \<Rightarrow> nat \<Rightarrow> 'a matrix \<Rightarrow> 'a matrix" where
  "block_entry f A B i j lo hi C = set_entry i j (dot_from f A B i j lo hi (C i j)) C"

definition bijk :: "'a arith \<Rightarrow> 'a matrix \<Rightarrow> 'a matrix \<Rightarrow> nat \<Rightarrow> nat \<Rightarrow> 'a matrix \<Rightarrow> 'a matrix" where
  "bijk f A B n bsize C = (let en = bsize * (n div bsize);
     C0 = for_up 0 n (\<lambda>i. for_up 0 n (\<lambda>j. set_entry i j (zero_of f))) C;
     C1 = for_by en bsize (\<lambda>kk C.
            for_up 0 n (\<lambda>i. for_up en n (\<lambda>j. block_entry f A B i j kk (kk + bsize)))
              (for_by en bsize (\<lambda>jj. for_up 0 n (\<lambda>i. for_up jj (jj + bsize) (\<lambda>j.
                 block_entry f A B i j kk (kk + bsize)))) C)) C0;
     C2 = for_by en bsize (\<lambda>jj. for_up 0 n (\<lambda>i. for_up jj (jj + bsize) (\<lambda>j. block_entry f A B i j en n))) C1
     in for_up 0 n (\<lambda>i. for_up en n (\<lambda>j. block_entry f A B i j en n)) C2)"

definition bikj :: "'a arith \<Rightarrow> 'a matrix \<Rightarrow> 'a matrix \<Rightarrow> nat \<Rightarrow> nat \<Rightarrow> 'a matrix \<Rightarrow> 'a matrix" where
  "bikj f A B n bsize C = (let en = bsize * (n div bsize);
     C0 = for_up 0 n (\<lambda>i. for_up 0 n (\<lambda>j. set_entry i j (zero_of f))) C;
     C1 = for_by en bsize (\<lambda>kk C.
            for_up 0 n (\<lambda>i. for_up kk (kk + bsize) (\<lambda>k. let r = A i k in
                for_up en n (\<lambda>j. add_to f i j (times_of f r (B k j)))))
              (for_by en bsize (\<lambda>jj. for_up 0 n (\<lambda>i. for_up kk (kk + bsize) (\<lambda>k. let r = A i k in
                 for_up jj (jj + bsize) (\<lambda>j. add_to f i j (times_of f r (B k j)))))) C)) C0;
     C2 = for_by en bsize (\<lambda>jj. for_up 0 n (\<lambda>i. for_up en n (\<lambda>k. let r = A i k in
            for_up jj (jj + bsize) (\<lambda>j. add_to f i j (times_of f r (B k j)))))) C1
     in for_up 0 n (\<lambda>i. for_up en n (\<lambda>k. let r = A i k in
          for_up en n (\<lambda>j. add_to f i j (times_of f r (B k j))))) C2)"

section \<open>Loop nests as lists of updates\<close>

text \<open>One update, and the updates of a list in order.\<close>

definition upd :: "'a arith \<Rightarrow> 'a matrix \<Rightarrow> 'a matrix \<Rightarrow> nat \<times> nat \<times> nat \<Rightarrow> 'a matrix \<Rightarrow> 'a matrix" where
  "upd f A B = (\<lambda>(i, j, k). add_to f i j (times_of f (A i k) (B k j)))"

lemma fold_nest: "(\<And>x. g x = fold h (T x)) \<Longrightarrow> fold g xs = fold h (concat (map T xs))"
  by (induction xs) (auto simp: fun_eq_iff)

lemma fold_single: "fold (\<lambda>x. h (t x)) xs = fold h (map t xs)"
  by (simp add: fold_map comp_def)

lemma fold_twice: "fold h ys (fold h xs s) = fold h (xs @ ys) s"
  by simp

text \<open>
  The value of one entry after a list of updates: its products, added in the order in which
  the list has them.
\<close>

definition ks_of :: "nat \<Rightarrow> nat \<Rightarrow> (nat \<times> nat \<times> nat) list \<Rightarrow> nat list" where
  "ks_of i j ts = map (\<lambda>(_, _, k). k) (filter (\<lambda>(i', j', _). i' = i \<and> j' = j) ts)"

definition sum_up :: "'a arith \<Rightarrow> 'a matrix \<Rightarrow> 'a matrix \<Rightarrow> nat \<Rightarrow> nat \<Rightarrow> nat list \<Rightarrow> 'a \<Rightarrow> 'a" where
  "sum_up f A B i j ks s = fold (\<lambda>k s. plus_of f s (times_of f (A i k) (B k j))) ks s"

lemma fold_upd_entry: "fold (upd f A B) ts C i j = sum_up f A B i j (ks_of i j ts) (C i j)"
proof (induction ts arbitrary: C)
  case (Cons t ts)
  obtain i' j' k where t: "t = (i', j', k)" by (cases t)
  show ?case using Cons by (auto simp: t ks_of_def sum_up_def upd_def add_to_def set_entry_def)
qed (simp add: ks_of_def sum_up_def)

text \<open>Extensional equality of two loop nests: the same order for every entry.\<close>

lemma ks_of_append [simp]: "ks_of i j (xs @ ys) = ks_of i j xs @ ks_of i j ys"
  by (simp add: ks_of_def)

lemma ks_of_Nil [simp]: "ks_of i j [] = []"
  by (simp add: ks_of_def)

lemma ks_of_concat [simp]: "ks_of i j (concat tss) = concat (map (ks_of i j) tss)"
  by (induction tss) auto

lemma ks_of_row: "ks_of i j (map (\<lambda>j'. (i', j', k)) js) = (if i' = i then map (\<lambda>_. k) (filter (\<lambda>j'. j' = j) js) else [])"
  by (auto simp: ks_of_def filter_map comp_def)

lemma ks_of_column: "ks_of i j (map (\<lambda>i'. (i', j', k)) is) = (if j' = j then map (\<lambda>_. k) (filter (\<lambda>i'. i' = i) is) else [])"
  by (auto simp: ks_of_def filter_map comp_def)

lemma ks_of_ks: "ks_of i j (map (\<lambda>k. (i', j', k)) ks) = (if i' = i \<and> j' = j then ks else [])"
  by (auto simp: ks_of_def filter_map comp_def)

lemma filter_eq_upt: "filter (\<lambda>x. x = y) [lo..<hi] = (if lo \<le> y \<and> y < hi then [y] else [])"
proof (induction hi)
  case (Suc hi)
  then show ?case by (cases "lo \<le> hi") (auto simp: less_Suc_eq)
qed simp

lemma concat_map_only:
  "concat (map (\<lambda>x. if x = y then g x else []) [lo..<hi]) = (if lo \<le> y \<and> y < hi then g y else [])"
proof (induction hi)
  case (Suc hi)
  then show ?case by (cases "lo \<le> hi") (auto simp: less_Suc_eq)
qed simp

lemma concat_map_single: "concat (map (\<lambda>x. [x]) xs) = xs"
  by (induction xs) auto

lemma concat_map_empty: "concat (map (\<lambda>x. []) xs) = []"
  by (induction xs) auto

lemma concat_map_if: "concat (map (\<lambda>x. if P then g x else []) xs) = (if P then concat (map g xs) else [])"
  by (simp add: concat_map_empty)

lemmas order_simps = ks_of_row ks_of_column ks_of_ks filter_eq_upt concat_map_only concat_map_single
  concat_map_empty concat_map_if comp_def

section \<open>The update lists of the versions\<close>

lemma for_up_fold: "for_up lo hi body = fold body [lo..<hi]"
  by (simp add: for_up_def fun_eq_iff)

lemma row_updates:
  "fold (\<lambda>j. add_to f i j (times_of f (A i k) (B k j))) js = fold (upd f A B) (map (\<lambda>j. (i, j, k)) js)"
  by (simp add: fold_map comp_def upd_def)

lemma column_updates:
  "fold (\<lambda>i. add_to f i j (times_of f (A i k) (B k j))) is = fold (upd f A B) (map (\<lambda>i. (i, j, k)) is)"
  by (simp add: fold_map comp_def upd_def)

lemma set_entry_simps:
  "set_entry i j x (set_entry i j y C) = set_entry i j x C" "set_entry i j x C i j = x"
  "set_entry i j (C i j) C = C"
  by (auto simp: set_entry_def fun_eq_iff)

lemma block_entry_updates: "block_entry f A B i j lo hi = fold (upd f A B) (map (\<lambda>k. (i, j, k)) [lo..<hi])"
proof -
  have "set_entry i j (fold (\<lambda>k s. plus_of f s (times_of f (A i k) (B k j))) ks (C i j)) C
      = fold (upd f A B) (map (\<lambda>k. (i, j, k)) ks) C" for ks C
  proof (induction ks arbitrary: C)
    case (Cons k ks)
    show ?case
      using Cons [of "upd f A B (i, j, k) C"] by (simp add: upd_def add_to_def set_entry_simps)
  qed (simp add: set_entry_simps)
  then show ?thesis by (simp add: fun_eq_iff block_entry_def dot_from_def for_up_def)
qed

lemmas nest_intros = fold_nest row_updates column_updates block_entry_updates

lemma ikj_updates: "ikj f A B n
    = fold (upd f A B) (concat (map (\<lambda>i. concat (map (\<lambda>k. map (\<lambda>j. (i, j, k)) [0..<n]) [0..<n])) [0..<n]))"
  unfolding ikj_def for_up_fold Let_def by (intro nest_intros)

lemma kij_updates: "kij f A B n
    = fold (upd f A B) (concat (map (\<lambda>k. concat (map (\<lambda>i. map (\<lambda>j. (i, j, k)) [0..<n]) [0..<n])) [0..<n]))"
  unfolding kij_def for_up_fold Let_def by (intro nest_intros)

lemma kji_updates: "kji f A B n
    = fold (upd f A B) (concat (map (\<lambda>k. concat (map (\<lambda>j. map (\<lambda>i. (i, j, k)) [0..<n]) [0..<n])) [0..<n]))"
  unfolding kji_def for_up_fold Let_def by (intro nest_intros)

lemma jki_updates: "jki f A B n
    = fold (upd f A B) (concat (map (\<lambda>j. concat (map (\<lambda>k. map (\<lambda>i. (i, j, k)) [0..<n]) [0..<n])) [0..<n]))"
  unfolding jki_def for_up_fold Let_def by (intro nest_intros)

lemma order_ikj:
  "ks_of i j (concat (map (\<lambda>i. concat (map (\<lambda>k. map (\<lambda>j. (i, j, k)) [0..<n]) [0..<n])) [0..<n]))
   = (if i < n \<and> j < n then [0..<n] else [])"
  by (simp add: order_simps cong: if_cong)

lemma order_kij:
  "ks_of i j (concat (map (\<lambda>k. concat (map (\<lambda>i. map (\<lambda>j. (i, j, k)) [0..<n]) [0..<n])) [0..<n]))
   = (if i < n \<and> j < n then [0..<n] else [])"
  by (simp add: order_simps cong: if_cong)

lemma order_kji:
  "ks_of i j (concat (map (\<lambda>k. concat (map (\<lambda>j. map (\<lambda>i. (i, j, k)) [0..<n]) [0..<n])) [0..<n]))
   = (if i < n \<and> j < n then [0..<n] else [])"
  by (simp add: order_simps cong: if_cong)

lemma order_jki:
  "ks_of i j (concat (map (\<lambda>j. concat (map (\<lambda>k. map (\<lambda>i. (i, j, k)) [0..<n]) [0..<n])) [0..<n]))
   = (if i < n \<and> j < n then [0..<n] else [])"
  by (simp add: order_simps cong: if_cong)

text \<open>Zeroing the result array.\<close>

lemma fold_set_entries:
  "fold (\<lambda>i. fold (\<lambda>j. set_entry i j x) js) is C a b = (if a \<in> set is \<and> b \<in> set js then x else C a b)"
proof -
  have row: "fold (\<lambda>j. set_entry i j x) js C a b = (if a = i \<and> b \<in> set js then x else C a b)" for i C
    by (induction js arbitrary: C) (auto simp: set_entry_def)
  show ?thesis by (induction "is" arbitrary: C) (auto simp: row)
qed

lemma reset_entry: "reset f n C i j = (if i < n \<and> j < n then zero_of f else C i j)"
  by (simp add: reset_def for_up_fold fold_set_entries)

section \<open>Blocks\<close>

lemma upt_by_blocks: "0 < b \<Longrightarrow> upt_by (a * b) ((a + q) * b) b = map (\<lambda>m. m * b) [a..<a + q]"
proof (induction q arbitrary: a)
  case 0
  then show ?case by (simp add: upt_by.simps)
next
  case (Suc q)
  have "upt_by (a * b) ((a + Suc q) * b) b = a * b # upt_by (Suc a * b) ((Suc a + q) * b) b"
    using Suc.prems by (subst upt_by.simps) (simp add: add_mult_distrib add.commute add.left_commute)
  then show ?case using Suc.IH [OF Suc.prems, of "Suc a"] by (simp add: upt_conv_Cons del: upt_Suc mult_Suc)
qed

lemma upt_by_multiple: "0 < b \<Longrightarrow> upt_by 0 (b * q) b = map (\<lambda>m. m * b) [0..<q]"
  using upt_by_blocks [of b 0 q] by (simp add: mult.commute)

lemma concat_blocks: "concat (map (\<lambda>m. [m * b..<m * b + b]) [0..<q]) = [0..<q * b]"
proof (induction q)
  case (Suc q)
  have "[0..<q * b] @ [q * b..<q * b + b] = [0..<q * b + b]" by (rule upt_add_eq_append [symmetric]) simp
  with Suc show ?case by (simp add: add.commute)
qed simp

text \<open>Exactly one block of columns contains a given column below the blocked part.\<close>

lemma concat_block_only:
  assumes "0 < b"
  shows "concat (map (\<lambda>m. if m * b \<le> j \<and> j < m * b + b then g else []) [0..<q]) = (if j < q * b then g else [])"
proof (induction q)
  case (Suc q)
  then show ?case by auto
qed simp

text \<open>
  The contract of a rectangular piece of the computation, all rows and the columns from
  \<open>lo\<close> to \<open>hi\<close>, for a list of values of \<open>k\<close>: each of its entries gets its products in the
  order of that list.  Covering the columns and the values of \<open>k\<close> by blocks as \<open>bmm.c\<close> does
  then gives every entry all its products in increasing order.
\<close>

locale block_piece =
  fixes n :: nat and piece :: "nat \<Rightarrow> nat \<Rightarrow> nat list \<Rightarrow> (nat \<times> nat \<times> nat) list"
  assumes piece_order: "ks_of i j (piece lo hi ks) = (if i < n \<and> lo \<le> j \<and> j < hi then ks else [])"
begin

definition covering :: "nat \<Rightarrow> (nat \<times> nat \<times> nat) list" where
  "covering b = (let en = b * (n div b); starts = upt_by 0 en b in
     concat (map (\<lambda>kk. concat (map (\<lambda>jj. piece jj (jj + b) [kk..<kk + b]) starts) @ piece en n [kk..<kk + b]) starts)
     @ concat (map (\<lambda>jj. piece jj (jj + b) [en..<n]) starts) @ piece en n [en..<n])"

lemma column_blocks:
  assumes "0 < b" "i < n"
  shows "concat (map (ks_of i j) (map (\<lambda>jj. piece jj (jj + b) ks) (upt_by 0 (b * q) b)))
       = (if j < b * q then ks else [])"
  using concat_block_only [OF assms(1), of j ks q] assms
  by (simp add: upt_by_multiple piece_order comp_def mult.commute)

lemma covering_order:
  assumes b: "0 < b" and i: "i < n" and j: "j < n"
  shows "ks_of i j (covering b) = [0..<n]"
proof -
  define q en where "q = n div b" and "en = b * q"
  have en: "en \<le> n" by (simp add: en_def q_def)
  have part: "concat (map (ks_of i j) (map (\<lambda>jj. piece jj (jj + b) ks) (upt_by 0 en b))) @ ks_of i j (piece en n ks) = ks"
    for ks
    using column_blocks [OF b i, of j ks q] i j by (auto simp: piece_order en_def)
  have "ks_of i j (covering b) = concat (map (\<lambda>kk. [kk..<kk + b]) (upt_by 0 en b)) @ [en..<n]"
    using part by (simp add: covering_def Let_def en_def [symmetric] q_def [symmetric] comp_def)
  also have "concat (map (\<lambda>kk. [kk..<kk + b]) (upt_by 0 en b)) = [0..<en]"
    using concat_blocks [of b q] b by (simp add: en_def upt_by_multiple comp_def mult.commute)
  also have "[0..<en] @ [en..<n] = [0..<n]" using upt_add_eq_append [of 0 en "n - en"] en by simp
  finally show ?thesis .
qed

lemma covering_outside: "\<not> (i < n \<and> j < n) \<Longrightarrow> ks_of i j (covering b) = []"
proof (cases "b = 0")
  case True
  then show "\<not> (i < n \<and> j < n) \<Longrightarrow> ?thesis" by (auto simp: covering_def Let_def upt_by.simps piece_order)
next
  case False
  then have m: "upt_by 0 (b * (n div b)) b = map (\<lambda>m. m * b) [0..<n div b]" by (simp add: upt_by_multiple)
  have "m * b + b \<le> n" if "m < n div b" for m
  proof -
    have "Suc m * b \<le> n div b * b" using that by (intro mult_le_mono1) simp
    then show ?thesis using div_times_less_eq_dividend [of n b] unfolding mult_Suc by linarith
  qed
  then have nil: "ks_of i j (piece (m * b) (m * b + b) ks) = []" if "m < n div b" "\<not> (i < n \<and> j < n)" for m ks
    using that by (auto simp: piece_order dest: less_le_trans)
  show "\<not> (i < n \<and> j < n) \<Longrightarrow> ?thesis"
    by (auto simp: covering_def Let_def m comp_def nil) (auto simp: piece_order)
qed

lemma covering_all:
  assumes "0 < b"
  shows "ks_of i j (covering b) = (if i < n \<and> j < n then [0..<n] else [])"
proof (cases "i < n \<and> j < n")
  case True
  then show ?thesis using covering_order [OF assms] by simp
next
  case False
  show ?thesis unfolding covering_outside [OF False] using False by (simp only: if_False)
qed

end

definition piece_ijk :: "nat \<Rightarrow> nat \<Rightarrow> nat \<Rightarrow> nat list \<Rightarrow> (nat \<times> nat \<times> nat) list" where
  "piece_ijk n lo hi ks = concat (map (\<lambda>i. concat (map (\<lambda>j. map (\<lambda>k. (i, j, k)) ks) [lo..<hi])) [0..<n])"

definition piece_ikj :: "nat \<Rightarrow> nat \<Rightarrow> nat \<Rightarrow> nat list \<Rightarrow> (nat \<times> nat \<times> nat) list" where
  "piece_ikj n lo hi ks = concat (map (\<lambda>i. concat (map (\<lambda>k. map (\<lambda>j. (i, j, k)) [lo..<hi]) ks)) [0..<n])"

interpretation ijk_piece: block_piece n "piece_ijk n" for n
proof
  fix i j lo hi ks
  have "ks_of i j (piece_ijk n lo hi ks)
      = concat (map (\<lambda>i'. if i' = i then concat (map (\<lambda>j'. if j' = j then ks else []) [lo..<hi]) else []) [0..<n])"
    by (auto simp: piece_ijk_def ks_of_ks comp_def concat_map_empty intro!: arg_cong [of _ _ concat])
  then show "ks_of i j (piece_ijk n lo hi ks) = (if i < n \<and> lo \<le> j \<and> j < hi then ks else [])"
    by (simp add: concat_map_only)
qed

interpretation ikj_piece: block_piece n "piece_ikj n" for n
  by unfold_locales (simp add: piece_ikj_def order_simps cong: if_cong)

lemma piece_ijk_fold:
  "fold (\<lambda>i. fold (\<lambda>j. block_entry f A B i j k1 k2) [lo..<hi]) [0..<n] = fold (upd f A B) (piece_ijk n lo hi [k1..<k2])"
  unfolding piece_ijk_def by (intro nest_intros)

lemma piece_ikj_fold:
  "fold (\<lambda>i. fold (\<lambda>k. fold (\<lambda>j. add_to f i j (times_of f (A i k) (B k j))) [lo..<hi]) ks) [0..<n]
   = fold (upd f A B) (piece_ikj n lo hi ks)"
  unfolding piece_ikj_def by (intro nest_intros)

text \<open>Two actions in a loop body.\<close>

lemma fold_nest2:
  "fold (\<lambda>x s. fold h (T2 x) (fold h (T1 x) s)) xs s0 = fold h (concat (map (\<lambda>x. T1 x @ T2 x) xs)) s0"
  by (induction xs arbitrary: s0) simp_all

lemma fold_nest1: "fold (\<lambda>x. fold h (T x)) xs s0 = fold h (concat (map T xs)) s0"
  by (induction xs arbitrary: s0) simp_all

lemma bijk_updates: "bijk f A B n b C = fold (upd f A B) (ijk_piece.covering n b) (reset f n C)"
  unfolding bijk_def Let_def for_up_fold for_by_def piece_ijk_fold fold_nest1 fold_nest2 reset_def ijk_piece.covering_def
  by simp

lemma bikj_updates: "bikj f A B n b C = fold (upd f A B) (ikj_piece.covering n b) (reset f n C)"
  unfolding bikj_def Let_def for_up_fold for_by_def piece_ikj_fold fold_nest1 fold_nest2 reset_def ikj_piece.covering_def
  by simp

text \<open>The two versions that sum in a local variable.\<close>

lemma entry_updates:
  "fold (\<lambda>i. fold (\<lambda>j. add_to f i j (v i j)) js) is C a b
   = (if distinct is \<and> distinct js \<and> a \<in> set is \<and> b \<in> set js then plus_of f (C a b) (v a b)
      else if a \<notin> set is \<or> b \<notin> set js then C a b else fold (\<lambda>i. fold (\<lambda>j. add_to f i j (v i j)) js) is C a b)"
proof -
  have row: "fold (\<lambda>j. add_to f i j (v i j)) js C a b
      = (if a = i \<and> b \<in> set js then plus_of f (C a b) (v a b) else C a b)" if "distinct js" for i C
    using that by (induction js arbitrary: C) (auto simp: add_to_def set_entry_def)
  have out1: "fold (\<lambda>j. add_to f i j (v i j)) js C a b = C a b" if "a \<noteq> i \<or> b \<notin> set js" for i C
    using that by (induction js arbitrary: C) (auto simp: add_to_def set_entry_def)
  have out: "fold (\<lambda>i. fold (\<lambda>j. add_to f i j (v i j)) js) is C a b = C a b" if "a \<notin> set is \<or> b \<notin> set js" for "is" C
    using that by (induction "is" arbitrary: C) (auto simp: out1)
  have "fold (\<lambda>i. fold (\<lambda>j. add_to f i j (v i j)) js) is C a b = plus_of f (C a b) (v a b)"
    if "distinct is" "distinct js" "a \<in> set is" "b \<in> set js" for "is" C
    using that by (induction "is" arbitrary: C) (auto simp: row out)
  then show ?thesis using out by auto
qed

lemma ijk_entry: "ijk f A B n C i j
    = (if i < n \<and> j < n then plus_of f (C i j) (sum_up f A B i j [0..<n] (zero_of f)) else C i j)"
  unfolding ijk_def for_up_fold dot_from_def sum_up_def
  by (subst entry_updates [where v = "\<lambda>i j. fold (\<lambda>k s. plus_of f s (times_of f (A i k) (B k j))) [0..<n] (zero_of f)"]) auto

lemma jik_entry: "jik f A B n C i j
    = (if i < n \<and> j < n then plus_of f (C i j) (sum_up f A B i j [0..<n] (zero_of f)) else C i j)"
proof -
  have row: "fold (\<lambda>i. add_to f i j (v i)) is C a b = (if b = j \<and> a \<in> set is then plus_of f (C a b) (v a) else C a b)"
    if "distinct is" for "is" v j C and a b :: nat
    using that by (induction "is" arbitrary: C) (auto simp: add_to_def set_entry_def)
  have "fold (\<lambda>j. fold (\<lambda>i. add_to f i j (w i j)) [0..<n]) js C a b
      = (if b \<in> set js \<and> a < n then plus_of f (C a b) (w a b) else C a b)" if "distinct js" for js C w and a b
    using that by (induction js arbitrary: C) (auto simp: row)
  then show ?thesis unfolding jik_def for_up_fold dot_from_def sum_up_def by simp
qed

text \<open>The entries of the updating versions.\<close>

lemma updating_entry:
  assumes "v \<in> {ikj, kij, kji, jki}"
  shows "v f A B n C i j = (if i < n \<and> j < n then sum_up f A B i j [0..<n] (C i j) else C i j)"
proof -
  have "v f A B n C i j = sum_up f A B i j (if i < n \<and> j < n then [0..<n] else []) (C i j)"
    using assms unfolding insert_iff empty_iff
    by (elim disjE FalseE)
      (simp_all only: ikj_updates kij_updates kji_updates jki_updates fold_upd_entry order_ikj order_kij
        order_kji order_jki)
  then show ?thesis by (simp add: sum_up_def)
qed

lemma updating_entries:
  "ikj f A B n C i j = (if i < n \<and> j < n then sum_up f A B i j [0..<n] (C i j) else C i j)"
  "kij f A B n C i j = (if i < n \<and> j < n then sum_up f A B i j [0..<n] (C i j) else C i j)"
  "kji f A B n C i j = (if i < n \<and> j < n then sum_up f A B i j [0..<n] (C i j) else C i j)"
  "jki f A B n C i j = (if i < n \<and> j < n then sum_up f A B i j [0..<n] (C i j) else C i j)"
  by (rule updating_entry, blast)+

lemma blocked_eq:
  assumes "0 < bsize"
  shows "bijk f A B n bsize C = jki f A B n (reset f n C)" "bikj f A B n bsize C = jki f A B n (reset f n C)"
proof -
  show "bijk f A B n bsize C = jki f A B n (reset f n C)" "bikj f A B n bsize C = jki f A B n (reset f n C)"
    unfolding fun_eq_iff bijk_updates bikj_updates fold_upd_entry ijk_piece.covering_all [OF assms]
      ikj_piece.covering_all [OF assms] updating_entries
    by (simp_all add: sum_up_def)
qed

section \<open>Exact arithmetic\<close>

definition exact :: "('a :: comm_semiring_1) arith" where
  "exact = \<lparr>zero_of = 0, plus_of = (+), times_of = (*)\<rparr>"

lemma sum_up_exact: "sum_up exact A B i j ks s = s + sum_list (map (\<lambda>k. A i k * B k j) ks)"
  by (induction ks arbitrary: s) (simp_all add: sum_up_def exact_def algebra_simps)

lemma init_entry:
  "fst (init one n ab) i j = (if i < n \<and> j < n then one else fst ab i j)"
  "snd (init one n ab) i j = (if i < n \<and> j < n then one else snd ab i j)"
proof -
  have pair: "fold (\<lambda>j (a, b). (set_entry i j one a, set_entry i j one b)) js (a, b)
      = (fold (\<lambda>j. set_entry i j one) js a, fold (\<lambda>j. set_entry i j one) js b)" for i js and a b :: "'a matrix"
    by (induction js arbitrary: a b) auto
  have "fold (\<lambda>i. fold (\<lambda>j (a, b). (set_entry i j one a, set_entry i j one b)) [0..<n]) is (a, b)
      = (fold (\<lambda>i. fold (\<lambda>j. set_entry i j one) [0..<n]) is a, fold (\<lambda>i. fold (\<lambda>j. set_entry i j one) [0..<n]) is b)"
    for "is" and a b :: "'a matrix"
    by (induction "is" arbitrary: a b) (auto simp: pair)
  then have "init one n ab = (fold (\<lambda>i. fold (\<lambda>j. set_entry i j one) [0..<n]) [0..<n] (fst ab),
      fold (\<lambda>i. fold (\<lambda>j. set_entry i j one) [0..<n]) [0..<n] (snd ab))"
    by (cases ab) (simp add: init_def for_up_fold)
  then show "fst (init one n ab) i j = (if i < n \<and> j < n then one else fst ab i j)"
    "snd (init one n ab) i j = (if i < n \<and> j < n then one else snd ab i j)"
    by (simp_all add: fold_set_entries)
qed

lemma checkresult_iff: "checkresult nd n C \<longleftrightarrow> (\<forall>i < n. \<forall>j < n. C i j = nd)"
proof -
  have row: "fold (\<lambda>j ok. ok \<and> C i j = nd) js b \<longleftrightarrow> b \<and> (\<forall>j \<in> set js. C i j = nd)" for i js b
    by (induction js arbitrary: b) auto
  have "fold (\<lambda>i. fold (\<lambda>j ok. ok \<and> C i j = nd) [0..<n]) is b \<longleftrightarrow> b \<and> (\<forall>i \<in> set is. \<forall>j < n. C i j = nd)" for "is" b
    by (induction "is" arbitrary: b) (auto simp: row)
  then show ?thesis by (auto simp: checkresult_def for_up_fold)
qed

lemma version_product:
  assumes "v \<in> {ijk, jik, ikj, kij, kji, jki}" "i < n" "j < n"
  shows "v exact A B n C i j = C i j + (\<Sum>k < n. A i k * B k j)"
proof -
  have s: "sum_list (map (\<lambda>k. A i k * B k j) [0..<n]) = (\<Sum>k < n. A i k * B k j)"
    by (simp add: interv_sum_list_conv_sum_set_nat atLeast0LessThan)
  have e: "plus_of (exact :: 'a arith) x y = x + y" "zero_of (exact :: 'a arith) = 0" for x y by (simp_all add: exact_def)
  consider "v = ijk" | "v = jik" | "v \<in> {ikj, kij, kji, jki}" using assms(1) by blast
  then show ?thesis
    using assms(2,3) by cases (simp_all add: ijk_entry jik_entry updating_entry [of v] sum_up_exact s e)
qed

lemma version_checks:
  assumes "v \<in> {ijk, jik, ikj, kij, kji, jki}" "init 1 m ab = (A, B)" "n \<le> m"
  shows "checkresult (of_nat n) n (v exact A B n (reset exact n C))"
proof -
  have one: "A i j = 1" "B i j = 1" if "i < n" "j < n" for i j
    using that assms(2,3) init_entry [of 1 m ab i j] by auto
  have z: "zero_of exact = 0" by (simp add: exact_def)
  have "(\<Sum>k < n. A i k * B k j) = of_nat n" if "i < n" "j < n" for i j using one that by simp
  then show ?thesis
    using version_product [OF assms(1), where A = A and B = B and n = n and C = "reset exact n C"]
    by (simp add: checkresult_iff reset_entry z)
qed

lemma blocked_checks:
  assumes "v \<in> {bijk, bikj}" "init 1 m ab = (A, B)" "n \<le> m" "0 < bsize"
  shows "checkresult (of_nat n) n (v exact A B n bsize C)"
  using version_checks [of jki m ab A B n C] blocked_eq [OF assms(4), of exact A B n C] assms(1,2,3) by auto

section \<open>Properties\<close>

text \<open>
  Matrix multiply, updating versions. The four versions that update the result array
  in their inner loop compute the same array, bit for bit and for every arithmetic: each
  entry receives its \<open>n\<close> products in the order of increasing \<open>k\<close>.
\<close>

theorem updating_versions_agree:
  "ikj f A B n = jki f A B n \<and> kij f A B n = jki f A B n \<and> kji f A B n = jki f A B n
   \<and> jki f A B n C i j = (if i < n \<and> j < n
       then for_up 0 n (\<lambda>k s. plus_of f s (times_of f (A i k) (B k j))) (C i j) else C i j)"
  by (simp add: fun_eq_iff updating_entries sum_up_def for_up_fold)

text \<open>
  Matrix multiply, summing versions. The two versions that sum in a local variable
  agree with each other for every arithmetic and change no entry outside the product.
\<close>

theorem summing_versions_agree:
  "ijk f A B n = jik f A B n
   \<and> ijk f A B n C i j = (if i < n \<and> j < n then plus_of f (C i j) (dot_from f A B i j 0 n (zero_of f)) else C i j)"
  by (auto simp: fun_eq_iff ijk_entry jik_entry sum_up_def dot_from_def for_up_fold)



text \<open>
  Blocked matrix multiply. For every positive block size, whether or not it divides
  the dimension, both blocked versions give bit for bit the result of the unblocked loops
  on a zeroed result array: blocking changes neither the products nor their order.
\<close>

theorem blocked_versions_agree:
  assumes "0 < bsize"
  shows "bijk f A B n bsize C = jki f A B n (reset f n C) \<and> bikj f A B n bsize C = jki f A B n (reset f n C)"
  using blocked_eq [OF assms, where f = f and A = A and B = B and n = n and C = C] by simp

theorem blocked_versions_agree_witness:
  "bijk exact (\<lambda>i k. i + k) (\<lambda>k j. k * j) 5 2 (\<lambda>_ _. 7 :: nat)
   = jki exact (\<lambda>i k. i + k) (\<lambda>k j. k * j) 5 (reset exact 5 (\<lambda>_ _. 7))"
  using blocked_versions_agree [of 2 exact "\<lambda>i k. i + k" "\<lambda>k j. k * j" 5 "\<lambda>_ _. 7 :: nat"] by simp

text \<open>
  Self check. On input arrays set to one and a zeroed result array the check of the
  result succeeds for every version, blocked or not.
\<close>

theorem checkresult_succeeds:
  assumes "init 1 m ab = (A, B)" "n \<le> m" "0 < bsize"
  shows "(\<forall>v \<in> {ijk, jik, ikj, kij, kji, jki}. checkresult (of_nat n) n (v exact A B n (reset exact n C)))
    \<and> checkresult (of_nat n) n (bijk exact A B n bsize C) \<and> checkresult (of_nat n) n (bikj exact A B n bsize C)"
  using version_checks [OF _ assms(1,2)] blocked_checks [OF _ assms] by blast

theorem checkresult_succeeds_witness:
  "checkresult 2 2 (bikj exact (fst (init 1 4 (\<lambda>_ _. 0, \<lambda>_ _. 0))) (snd (init 1 4 (\<lambda>_ _. 0, \<lambda>_ _. 0))) 2 3 (\<lambda>_ _. 5 :: nat))"
  using checkresult_succeeds [of 4 "(\<lambda>_ _. 0, \<lambda>_ _. 0)" "fst (init 1 4 (\<lambda>_ _. 0, \<lambda>_ _. 0))"
      "snd (init 1 4 (\<lambda>_ _. 0, \<lambda>_ _. 0))" 2 3 "\<lambda>_ _. 5 :: nat"] by simp

end
