(* ===== verification/Sampler.thy ===== *)
theory Sampler
  imports Clock Matmult
begin

text \<open>
  The measurement code of the cache programs: the k-best sampler and the measuring loops of
  \<open>fcyc2.c\<close> with the cycle counter and with the time of day.  The measured function acts on the machine
  state whose clocks the counters read, so that the sequence of measurements is arbitrary.
\<close>

section \<open>The sampler\<close>

record sampler =
  kvalues :: "real list"
  samples :: "real list"
  samplecount :: nat

definition init_sampler :: "nat \<Rightarrow> nat \<Rightarrow> sampler" where
  "init_sampler k maxsamples =
     \<lparr>kvalues = replicate k 0, samples = replicate (maxsamples + k) 0, samplecount = 0\<rparr>"

text \<open>\<open>while (pos > 0 && values[pos-1] > values[pos])\<close> swap and move left.\<close>

fun insertion :: "nat \<Rightarrow> real list \<Rightarrow> real list" where
  "insertion 0 vs = vs"
| "insertion (Suc p) vs =
     (if vs ! Suc p < vs ! p then insertion p (vs[p := vs ! Suc p, Suc p := vs ! p]) else vs)"

definition add_sample :: "real \<Rightarrow> nat \<Rightarrow> sampler \<Rightarrow> sampler option" where
  "add_sample val k s = do {
     (pos, vs) \<leftarrow> (if samplecount s < k
        then map_option (Pair (samplecount s)) (wr (kvalues s) (int (samplecount s)) val)
        else do { v \<leftarrow> rd (kvalues s) (int k - 1);
                  if val < v then map_option (Pair (k - 1)) (wr (kvalues s) (int k - 1) val)
                  else Some (0, kvalues s) });
     ss \<leftarrow> wr (samples s) (int (samplecount s)) val;
     Some (s\<lparr>kvalues := insertion pos vs, samples := ss, samplecount := samplecount s + 1\<rparr>) }"

definition get_min :: "sampler \<Rightarrow> real option" where
  "get_min s = rd (kvalues s) 0"

definition err :: "nat \<Rightarrow> sampler \<Rightarrow> real option" where
  "err k s = (if samplecount s < k then Some 1000
     else do { hi \<leftarrow> rd (kvalues s) (int k - 1); lo \<leftarrow> rd (kvalues s) 0; Some ((hi - lo) / lo) })"

definition has_converged :: "nat \<Rightarrow> real \<Rightarrow> nat \<Rightarrow> sampler \<Rightarrow> int option" where
  "has_converged k_arg epsilon maxsamples s = do {
     close \<leftarrow> (if k_arg \<le> samplecount s
        then do { lo \<leftarrow> rd (kvalues s) 0; hi \<leftarrow> rd (kvalues s) (int k_arg - 1); Some (hi \<le> (1 + epsilon) * lo) }
        else Some False);
     Some (if close then int (samplecount s) else if maxsamples \<le> samplecount s then - 1 else 0) }"

section \<open>The measuring loops\<close>

text \<open>
  The state that the loops work on: the clock, the array that is read to clear the cache, and
  its sink.
\<close>

record 'm world = "'m clock_state" +
  stuff :: "32 word list"
  sink :: "32 word"

definition ASIZE :: nat where "ASIZE = 2 ^ 17"
definition STRIDE :: nat where "STRIDE = 8"

definition clear :: "('m, 'z) world_scheme \<Rightarrow> ('m, 'z) world_scheme" where
  "clear w = w\<lparr>sink := for_by ASIZE STRIDE (\<lambda>i x. x + stuff w ! i) (sink w)\<rparr>"

text \<open>\<open>f(param1, param2)\<close>\<close>

definition call :: "('m \<Rightarrow> 'm) \<Rightarrow> ('m, 'z) world_scheme \<Rightarrow> ('m, 'z) world_scheme" where
  "call f w = w\<lparr>mach := f (mach w)\<rparr>"

lemma add_sample_count: "add_sample val k s = Some s1 \<Longrightarrow> samplecount s1 = samplecount s + 1"
  by (auto simp: add_sample_def bind_Some_iff split: prod.splits)

text \<open>
  \<open>do { ...; add_sample(cyc, k); } while (!has_converged(...) && samplecount < maxsamples)\<close>,
  for the statements that deliver the next measurement.
\<close>

function measure_loop :: "('w \<Rightarrow> (real \<times> 'w) option) \<Rightarrow> nat \<Rightarrow> real \<Rightarrow> nat \<Rightarrow> sampler \<Rightarrow> 'w \<Rightarrow> (sampler \<times> 'w) option" where
  "measure_loop step k epsilon maxsamples s w = (case step w of
     None \<Rightarrow> None
   | Some (cyc, w1) \<Rightarrow> (case add_sample cyc k s of
       None \<Rightarrow> None
     | Some s1 \<Rightarrow> (case has_converged k epsilon maxsamples s1 of
         None \<Rightarrow> None
       | Some c \<Rightarrow> if c = 0 \<and> samplecount s1 < maxsamples
           then measure_loop step k epsilon maxsamples s1 w1 else Some (s1, w1))))"
  by pat_completeness auto

termination
  by (relation "measure (\<lambda>(step, k, epsilon, maxsamples, s, w). maxsamples - samplecount s)")
    (auto simp: add_sample_count)

declare measure_loop.simps [simp del]

definition comp_step :: "'m hw \<Rightarrow> bool \<Rightarrow> ('m \<Rightarrow> 'm) \<Rightarrow> ('m, 'z) world_scheme \<Rightarrow> (real \<times> ('m, 'z) world_scheme) option" where
  "comp_step hw clear_cache f w = do {
     let w1 = call f (if clear_cache then clear w else w);
     w2 \<leftarrow> start_comp_counter hw w1;
     Some (get_comp_counter hw (call f w2)) }"

definition plain_step :: "'m hw \<Rightarrow> bool \<Rightarrow> ('m \<Rightarrow> 'm) \<Rightarrow> ('m, 'z) world_scheme \<Rightarrow> (real \<times> ('m, 'z) world_scheme) option" where
  "plain_step hw clear_cache f w =
     (let w1 = call f (if clear_cache then clear w else w) in
      Some (get_counter hw (call f (start_counter hw w1))))"

definition fcyc2_full :: "'m hw \<Rightarrow> (int \<Rightarrow> int \<Rightarrow> 'm \<Rightarrow> 'm) \<Rightarrow> int \<Rightarrow> int \<Rightarrow> bool \<Rightarrow> nat \<Rightarrow> real \<Rightarrow> nat \<Rightarrow> bool
    \<Rightarrow> ('m, 'z) world_scheme \<Rightarrow> (real \<times> sampler \<times> ('m, 'z) world_scheme) option" where
  "fcyc2_full hw f param1 param2 clear_cache k epsilon maxsamples compensate w = do {
     (s, w1) \<leftarrow> (if compensate
        then measure_loop (comp_step hw clear_cache (f param1 param2)) k epsilon maxsamples (init_sampler k maxsamples) w
        else measure_loop (plain_step hw clear_cache (f param1 param2)) k epsilon maxsamples (init_sampler k maxsamples) w);
     result \<leftarrow> rd (kvalues s) 0;
     Some (result, s, w1) }"

definition fcyc2 :: "'m hw \<Rightarrow> (int \<Rightarrow> int \<Rightarrow> 'm \<Rightarrow> 'm) \<Rightarrow> int \<Rightarrow> int \<Rightarrow> bool
    \<Rightarrow> ('m, 'z) world_scheme \<Rightarrow> (real \<times> sampler \<times> ('m, 'z) world_scheme) option" where
  "fcyc2 hw f param1 param2 clear_cache = fcyc2_full hw f param1 param2 clear_cache 3 0.01 500 False"

text \<open>The version with the time of day.\<close>

record 'm tod_world = "'m world" +
  Mhz :: real
  tstart :: "int \<times> int"
  tod_cyc_per_tick :: real
  tod_start_tick :: int

definition gettimeofday :: "'m hw \<Rightarrow> 'm tod_world \<Rightarrow> (int \<times> int) \<times> 'm tod_world" where
  "gettimeofday hw w = (let (t, m) = timeofday hw (mach w) in (t, w\<lparr>mach := m\<rparr>))"

definition start_counter_tod :: "'m hw \<Rightarrow> 'm tod_world \<Rightarrow> 'm tod_world" where
  "start_counter_tod hw w =
     (let w1 = (if Mhz w = 0 then let (r, w0) = mhz_full hw 10 w in w0\<lparr>Mhz := r\<rparr> else w);
          (t, w2) = gettimeofday hw w1
      in w2\<lparr>tstart := t\<rparr>)"

definition get_counter_tod :: "'m hw \<Rightarrow> 'm tod_world \<Rightarrow> real \<times> 'm tod_world" where
  "get_counter_tod hw w = (let ((fsec, fusec), w1) = gettimeofday hw w;
      sec = fsec - fst (tstart w1); usec = fusec - snd (tstart w1)
    in ((1000000 * of_int sec + of_int usec) * Mhz w1, w1))"

definition callibrate_tod :: "'m hw \<Rightarrow> 'm tod_world \<Rightarrow> 'm tod_world option" where
  "callibrate_tod hw w = (let (oldc, w1) = times_c hw w; (oldt, w2) = get_counter_tod hw (start_counter_tod hw w1) in
     map_option (\<lambda>(c, w3). w3\<lparr>tod_cyc_per_tick := c\<rparr>)
       (callibrate_loop (get_counter_tod hw) (times_c hw) 0 oldt oldc (tod_cyc_per_tick w2) w2))"

definition start_comp_counter_tod :: "'m hw \<Rightarrow> 'm tod_world \<Rightarrow> 'm tod_world option" where
  "start_comp_counter_tod hw w = do {
     w1 \<leftarrow> (if tod_cyc_per_tick w = 0 then callibrate_tod hw w else Some w);
     let (t, w2) = times_c hw w1;
     Some (start_counter_tod hw (w2\<lparr>tod_start_tick := t\<rparr>)) }"

definition get_comp_counter_tod :: "'m hw \<Rightarrow> 'm tod_world \<Rightarrow> real \<times> 'm tod_world" where
  "get_comp_counter_tod hw w = (let (time, w1) = get_counter_tod hw w; (t, w2) = times_c hw w1
     in (time - of_int (t - tod_start_tick w2) * tod_cyc_per_tick w2, w2))"

definition comp_step_tod :: "'m hw \<Rightarrow> bool \<Rightarrow> ('m \<Rightarrow> 'm) \<Rightarrow> 'm tod_world \<Rightarrow> (real \<times> 'm tod_world) option" where
  "comp_step_tod hw clear_cache f w = do {
     w1 \<leftarrow> start_comp_counter_tod hw (if clear_cache then clear w else w);
     Some (get_comp_counter_tod hw (call f w1)) }"

definition plain_step_tod :: "'m hw \<Rightarrow> bool \<Rightarrow> ('m \<Rightarrow> 'm) \<Rightarrow> 'm tod_world \<Rightarrow> (real \<times> 'm tod_world) option" where
  "plain_step_tod hw clear_cache f w =
     Some (get_counter_tod hw (call f (start_counter_tod hw (if clear_cache then clear w else w))))"

definition fcyc2_full_tod :: "'m hw \<Rightarrow> (int \<Rightarrow> int \<Rightarrow> 'm \<Rightarrow> 'm) \<Rightarrow> int \<Rightarrow> int \<Rightarrow> bool \<Rightarrow> nat \<Rightarrow> real \<Rightarrow> nat \<Rightarrow> bool
    \<Rightarrow> 'm tod_world \<Rightarrow> (real \<times> sampler \<times> 'm tod_world) option" where
  "fcyc2_full_tod hw f param1 param2 clear_cache k epsilon maxsamples compensate w = do {
     (s, w1) \<leftarrow> (if compensate
        then measure_loop (comp_step_tod hw clear_cache (f param1 param2)) k epsilon maxsamples (init_sampler k maxsamples) w
        else measure_loop (plain_step_tod hw clear_cache (f param1 param2)) k epsilon maxsamples (init_sampler k maxsamples) w);
     result \<leftarrow> rd (kvalues s) 0;
     Some (result, s, w1) }"

definition fcyc2_tod :: "'m hw \<Rightarrow> (int \<Rightarrow> int \<Rightarrow> 'm \<Rightarrow> 'm) \<Rightarrow> int \<Rightarrow> int \<Rightarrow> bool
    \<Rightarrow> 'm tod_world \<Rightarrow> (real \<times> sampler \<times> 'm tod_world) option" where
  "fcyc2_tod hw f param1 param2 clear_cache = fcyc2_full_tod hw f param1 param2 clear_cache 3 0.01 20 False"

section \<open>What the sampler keeps\<close>

lemma insort_snoc_less:
  fixes v x :: real
  shows "v < x \<Longrightarrow> insort v (xs @ [x]) = insort v xs @ [x]"
  by (induction xs) auto

lemma insort_end:
  fixes v x :: real
  assumes "sorted xs" "\<forall>y \<in> set xs. y \<le> v"
  shows "insort v xs = xs @ [v]"
  using assms by (induction xs) (auto simp: insort_is_Cons)

lemma insertion_insort:
  assumes "length xs = p" "sorted xs"
  shows "insertion p (xs @ v # ys) = insort v xs @ ys"
  using assms
proof (induction p arbitrary: xs ys)
  case (Suc p)
  obtain xs' x where x: "xs = xs' @ [x]" using Suc.prems(1) by (cases xs rule: rev_cases) auto
  have s: "sorted xs'" "\<forall>y \<in> set xs'. y \<le> x" "length xs' = p" using Suc.prems x by (auto simp: sorted_append)
  show ?case
  proof (cases "v < x")
    case True
    have "insertion (Suc p) (xs @ v # ys) = insertion p (xs' @ v # x # ys)"
      using True s(3) by (simp add: x nth_append list_update_append)
    then show ?thesis using Suc.IH [OF s(3,1)] insort_snoc_less [OF True] by (simp add: x)
  next
    case False
    have "insort v xs = xs @ [v]" using False s(2) Suc.prems(2) by (intro insort_end) (auto simp: x)
    then show ?thesis using False s(3) by (simp add: x nth_append)
  qed
qed simp

text \<open>The invariant: the first entries are the smallest samples so far, in order.\<close>

definition holds_best :: "nat \<Rightarrow> real list \<Rightarrow> sampler \<Rightarrow> bool" where
  "holds_best k vs s \<longleftrightarrow> length (kvalues s) = k \<and> samplecount s = length vs
     \<and> take (length vs) (kvalues s) = take k (sort vs) \<and> take (length vs) (samples s) = vs
     \<and> length vs \<le> length (samples s)"

lemma sort_snoc: "sort (vs @ [v]) = insort v (sort (vs :: real list))"
  by (rule properties_for_sort) (simp_all add: sorted_insort)

lemma take_insort: "take k (insort v xs) = take k (insort v (take k xs))"
proof (induction xs arbitrary: k)
  case (Cons x xs)
  then show ?case by (cases k) (auto simp: take_Cons split: nat.splits)
qed simp

lemma add_sample_best:
  assumes inv: "holds_best k vs s" and k: "0 < k" and room: "length vs < length (samples s)"
  shows "\<exists>s1. add_sample v k s = Some s1 \<and> holds_best k (vs @ [v]) s1 \<and> length (samples s1) = length (samples s)"
proof -
  let ?n = "length vs" and ?best = "take k (sort (vs @ [v]))"
  have st: "length (kvalues s) = k" "samplecount s = ?n" "take ?n (kvalues s) = take k (sort vs)"
    "take ?n (samples s) = vs" using inv by (auto simp: holds_best_def)
  define ss where "ss = (samples s)[?n := v]"
  have ss: "wr (samples s) (int ?n) v = Some ss" "take (Suc ?n) ss = vs @ [v]" "length ss = length (samples s)"
    using room st(4) by (auto simp: ss_def mem_simps take_Suc_conv_app_nth)
  have best: "?best = take k (insort v (take k (sort vs)))" by (simp add: sort_snoc flip: take_insort)
  have "\<exists>vals. add_sample v k s = Some (s\<lparr>kvalues := vals, samples := ss, samplecount := ?n + 1\<rparr>)
     \<and> length vals = k \<and> take (Suc ?n) vals = ?best"
  proof (cases "?n < k")
    case True
    obtain w rest where w: "kvalues s = sort vs @ w # rest"
      using True st(1,3) by (metis append_take_drop_id Cons_nth_drop_Suc length_sort take_all less_imp_le)
    have ins: "insertion ?n (sort vs @ v # rest) = insort v (sort vs) @ rest" by (rule insertion_insort) simp_all
    have "?best = insort v (sort vs)" using True by (simp add: sort_snoc)
    then show ?thesis
      using True st(1,2) ss(1) ins w
      by (intro exI [of _ "insort v (sort vs) @ rest"]) (simp add: add_sample_def mem_simps list_update_append)
  next
    case False
    then have vals: "kvalues s = take k (sort vs)" using st by simp
    obtain ws w where w: "kvalues s = ws @ [w]" "length ws = k - 1"
      using st(1) k by (cases "kvalues s" rule: rev_cases) auto
    have "sorted (ws @ [w])" using vals w(1) sorted_wrt_take [of "(\<le>)" "sort vs" k] by simp
    then have srt: "sorted ws" "\<forall>y \<in> set ws. y \<le> w" by (simp_all add: sorted_append)
    have r: "rd (kvalues s) (int k - 1) = Some w" using w k by (simp add: rd_def nth_append nat_diff_distrib)
    show ?thesis
    proof (cases "v < w")
      case True
      have "wr (kvalues s) (int k - 1) v = Some (ws @ [v])"
        using w k by (simp add: wr_def list_update_append nat_diff_distrib)
      moreover have "insertion (k - 1) (ws @ [v]) = insort v ws" using insertion_insort [OF w(2) srt(1), of v "[]"] by simp
      moreover have "?best = insort v ws" using insort_snoc_less [OF True, of ws] w vals best k by simp
      ultimately show ?thesis using False True r st(2) ss(1) w(2) k
        by (intro exI [of _ "insort v ws"]) (simp add: add_sample_def)
    next
      case ge: False
      have "sorted (kvalues s)" using srt w(1) by (simp add: sorted_append)
      then have "insort v (kvalues s) = kvalues s @ [v]" using ge srt(2) w(1) by (intro insort_end) auto
      then have "?best = kvalues s" using best vals st(1) by simp
      then show ?thesis using False ge r st(1,2) ss(1)
        by (intro exI [of _ "kvalues s"]) (simp add: add_sample_def)
    qed
  qed
  then show ?thesis using ss room by (auto simp: holds_best_def)
qed

text \<open>The first \<open>n\<close> measurements from a state.\<close>

fun measurements :: "('w \<Rightarrow> (real \<times> 'w) option) \<Rightarrow> nat \<Rightarrow> 'w \<Rightarrow> (real list \<times> 'w) option" where
  "measurements step 0 w = Some ([], w)"
| "measurements step (Suc n) w = (case step w of None \<Rightarrow> None
     | Some (c, w1) \<Rightarrow> map_option (\<lambda>(cs, w2). (c # cs, w2)) (measurements step n w1))"

text \<open>What the loop has reached when it stops after the samples \<open>vs\<close>.\<close>

definition settled :: "nat \<Rightarrow> real \<Rightarrow> nat \<Rightarrow> real list \<Rightarrow> bool" where
  "settled k epsilon maxsamples vs \<longleftrightarrow> maxsamples \<le> length vs
     \<or> k \<le> length vs \<and> sort vs ! (k - 1) \<le> (1 + epsilon) * Min (set vs)"

lemma sort_first: 
  fixes vs :: "real list"
  assumes "vs \<noteq> []"
  shows "sort vs ! 0 = Min (set vs)"
proof -
  obtain x xs where x: "sort vs = x # xs" using assms by (metis list.exhaust length_0_conv length_sort)
  then have "sorted (x # xs)" "set vs = insert x (set xs)" by (metis sorted_sort, metis list.simps(15) set_sort)
  then show ?thesis by (auto simp: x intro!: Min_eqI [symmetric])
qed

lemma kvalues_nth:
  assumes "holds_best k vs s" "i < k" "i < length vs"
  shows "rd (kvalues s) (int i) = Some (sort vs ! i)"
proof -
  have "kvalues s ! i = take (length vs) (kvalues s) ! i" using assms(3) by simp
  also have "\<dots> = sort vs ! i" using assms by (simp add: holds_best_def)
  finally show ?thesis using assms by (simp add: holds_best_def mem_simps)
qed

lemma has_converged_best:
  assumes "holds_best k vs s" "0 < k" "vs \<noteq> []"
  shows "has_converged k epsilon maxsamples s = Some
    (if k \<le> length vs \<and> sort vs ! (k - 1) \<le> (1 + epsilon) * Min (set vs) then int (length vs)
     else if maxsamples \<le> length vs then - 1 else 0)"
proof -
  have "rd (kvalues s) 0 = Some (Min (set vs))"
    using kvalues_nth [OF assms(1), of 0] assms(2,3) sort_first [OF assms(3)] by simp
  moreover have "rd (kvalues s) (int k - 1) = Some (sort vs ! (k - 1))" if "k \<le> length vs"
    using kvalues_nth [OF assms(1), of "k - 1"] assms(2) that by (simp add: of_nat_diff)
  moreover have "samplecount s = length vs" using assms(1) by (simp add: holds_best_def)
  ultimately show ?thesis by (simp add: has_converged_def)
qed

text \<open>How the loop continues after the samples \<open>vs\<close>.\<close>

definition loop_stuck :: "('w \<Rightarrow> (real \<times> 'w) option) \<Rightarrow> nat \<Rightarrow> real \<Rightarrow> nat \<Rightarrow> real list \<Rightarrow> sampler \<Rightarrow> 'w \<Rightarrow> bool" where
  "loop_stuck step k epsilon maxsamples vs s w \<longleftrightarrow> measure_loop step k epsilon maxsamples s w = None
     \<and> (\<exists>m. length vs + m \<le> max 1 maxsamples \<and> measurements step m w = None)"

definition loop_ends :: "('w \<Rightarrow> (real \<times> 'w) option) \<Rightarrow> nat \<Rightarrow> real \<Rightarrow> nat \<Rightarrow> real list \<Rightarrow> sampler \<Rightarrow> 'w \<Rightarrow> bool" where
  "loop_ends step k epsilon maxsamples vs s w \<longleftrightarrow>
     (\<exists>cs s1 w1. measure_loop step k epsilon maxsamples s w = Some (s1, w1)
      \<and> measurements step (length cs) w = Some (cs, w1) \<and> cs \<noteq> [] \<and> holds_best k (vs @ cs) s1
      \<and> length (vs @ cs) \<le> max 1 maxsamples \<and> settled k epsilon maxsamples (vs @ cs)
      \<and> (\<forall>m. 0 < m \<and> m < length cs \<longrightarrow> \<not> settled k epsilon maxsamples (vs @ take m cs)))"

lemma measure_loop_result:
  assumes "holds_best k vs s" "0 < k" "length (samples s) = maxsamples + k" "length vs < max 1 maxsamples"
  shows "loop_stuck step k epsilon maxsamples vs s w \<or> loop_ends step k epsilon maxsamples vs s w"
  using assms
proof (induction step k epsilon maxsamples s w arbitrary: vs rule: measure_loop.induct)
  case (1 step k epsilon maxsamples s w)
  show ?case
  proof (cases "step w")
    case None
    then have "measurements step 1 w = None" by simp
    moreover have "length vs + 1 \<le> max 1 maxsamples" using "1.prems"(4) by simp
    moreover have "measure_loop step k epsilon maxsamples s w = None" using None by (subst measure_loop.simps) simp
    ultimately show ?thesis unfolding loop_stuck_def by blast
  next
    case (Some cw)
    obtain c w1 where cw: "step w = Some (c, w1)" using Some by (cases cw) auto
    have "length vs < length (samples s)" using "1.prems"(2,3,4) by auto
    then obtain s1 where s1: "add_sample c k s = Some s1" "holds_best k (vs @ [c]) s1" "length (samples s1) = maxsamples + k"
      using add_sample_best [OF "1.prems"(1,2), of c] "1.prems"(3) by auto
    have n: "samplecount s1 = Suc (length vs)" using s1(2) by (simp add: holds_best_def)
    note conv = has_converged_best [OF s1(2) "1.prems"(2), of epsilon maxsamples]
    show ?thesis
    proof (cases "settled k epsilon maxsamples (vs @ [c])")
      case True
      then have "measure_loop step k epsilon maxsamples s w = Some (s1, w1)"
        using conv n by (subst measure_loop.simps) (auto simp: cw s1(1) settled_def)
      moreover have "measurements step (length [c]) w = Some ([c], w1)" by (simp add: cw)
      ultimately show ?thesis using True s1(2) "1.prems"(4) unfolding loop_ends_def
        by (intro disjI2 exI [of _ "[c]"] exI [of _ s1] exI [of _ w1]) simp
    next
      case False
      then have go: "has_converged k epsilon maxsamples s1 = Some 0" "samplecount s1 < maxsamples"
        using conv n by (auto simp: settled_def)
      have eq: "measure_loop step k epsilon maxsamples s w = measure_loop step k epsilon maxsamples s1 w1"
        using go by (subst measure_loop.simps) (simp add: cw s1(1))
      have cond: "0 = (0 :: int) \<and> samplecount s1 < maxsamples" and lt: "length (vs @ [c]) < max 1 maxsamples"
        using go(2) n by simp_all
      have "loop_stuck step k epsilon maxsamples (vs @ [c]) s1 w1 \<or> loop_ends step k epsilon maxsamples (vs @ [c]) s1 w1"
        by (rule "1.IH" [OF cw refl s1(1) go(1) cond s1(2) "1.prems"(2) s1(3) lt])
      then show ?thesis
      proof
        assume "loop_stuck step k epsilon maxsamples (vs @ [c]) s1 w1"
        then obtain m where "length vs + Suc m \<le> max 1 maxsamples" "measurements step m w1 = None"
          "measure_loop step k epsilon maxsamples s1 w1 = None" by (auto simp: loop_stuck_def)
        then show ?thesis using eq cw unfolding loop_stuck_def by (intro disjI1 conjI exI [of _ "Suc m"]) simp_all
      next
        assume "loop_ends step k epsilon maxsamples (vs @ [c]) s1 w1"
        then obtain cs s2 w2 where r: "measure_loop step k epsilon maxsamples s1 w1 = Some (s2, w2)"
          "measurements step (length cs) w1 = Some (cs, w2)" "holds_best k (vs @ c # cs) s2"
          "length (vs @ c # cs) \<le> max 1 maxsamples" "settled k epsilon maxsamples (vs @ c # cs)"
          "\<And>m. 0 < m \<Longrightarrow> m < length cs \<Longrightarrow> \<not> settled k epsilon maxsamples (vs @ c # take m cs)" by (auto simp: loop_ends_def)
        have "\<not> settled k epsilon maxsamples (vs @ take m (c # cs))" if "0 < m" "m < length (c # cs)" for m
          using that r(6) [of "m - 1"] False by (cases m; cases "m - 1") auto
        then show ?thesis using r eq cw unfolding loop_ends_def
          by (intro disjI2 exI [of _ "c # cs"] exI [of _ s2] exI [of _ w2]) simp
      qed
    qed
  qed
qed

section \<open>Properties\<close>

lemma init_sampler_best: "holds_best k [] (init_sampler k maxsamples)" "length (samples (init_sampler k maxsamples)) = maxsamples + k"
  by (simp_all add: holds_best_def init_sampler_def)

text \<open>A measuring loop whose steps all return.\<close>

lemma measure_loop_total:
  assumes "\<And>w. step w \<noteq> None" "0 < k"
  shows "\<exists>cs s1 w1. measure_loop step k epsilon maxsamples (init_sampler k maxsamples) w = Some (s1, w1)
    \<and> measurements step (length cs) w = Some (cs, w1) \<and> cs \<noteq> [] \<and> length cs \<le> max 1 maxsamples
    \<and> settled k epsilon maxsamples cs \<and> (\<forall>m. 0 < m \<and> m < length cs \<longrightarrow> \<not> settled k epsilon maxsamples (take m cs))
    \<and> rd (kvalues s1) 0 = Some (Min (set cs))"
proof -
  have total: "measurements step m w \<noteq> None" for m w
  proof (induction m arbitrary: w)
    case (Suc m)
    obtain c w1 where "step w = Some (c, w1)" using assms(1) [of w] by auto
    then show ?case using Suc [of w1] by auto
  qed simp
  have "length ([] :: real list) < max 1 maxsamples" by simp
  from measure_loop_result [OF init_sampler_best(1) assms(2) init_sampler_best(2) this, of step epsilon w]
  have "loop_ends step k epsilon maxsamples [] (init_sampler k maxsamples) w"
    using total by (simp add: loop_stuck_def)
  then obtain cs s1 w1 where r: "measure_loop step k epsilon maxsamples (init_sampler k maxsamples) w = Some (s1, w1)"
    "measurements step (length cs) w = Some (cs, w1)" "cs \<noteq> []" "length cs \<le> max 1 maxsamples"
    "settled k epsilon maxsamples cs" "\<forall>m. 0 < m \<and> m < length cs \<longrightarrow> \<not> settled k epsilon maxsamples (take m cs)"
    and best: "holds_best k cs s1"
    by (auto simp: loop_ends_def)
  have "rd (kvalues s1) 0 = Some (Min (set cs))"
    using kvalues_nth [OF best, of 0] assms(2) r(3) sort_first [OF r(3)] by simp
  then show ?thesis using r by blast
qed

lemma plain_step_total: "plain_step hw c f w \<noteq> None"
  by (simp add: plain_step_def Let_def)

lemma plain_step_tod_total: "plain_step_tod hw c f w \<noteq> None"
  by (simp add: plain_step_tod_def)

text \<open>
  Sampler, invariant. \<open>add_sample\<close> stays inside both arrays and keeps what the convergence
  test relies on: the array of values holds the k smallest samples seen so far in increasing
  order, the array of samples all of them in the order of their arrival.
\<close>

theorem add_sample_keeps_best:
  assumes "holds_best k vs s" "0 < k" "length vs < length (samples s)"
  shows "\<exists>s1. add_sample v k s = Some s1 \<and> holds_best k (vs @ [v]) s1 \<and> length (samples s1) = length (samples s)"
  using add_sample_best [OF assms] .

theorem add_sample_keeps_best_witness:
  "\<exists>s1. add_sample 4 2 (init_sampler 2 1) = Some s1 \<and> holds_best 2 [4] s1"
  using add_sample_keeps_best [OF init_sampler_best(1), of 2 1 4] by (auto simp: init_sampler_def)


definition demo_world :: "64 word world" where
  "demo_world = \<lparr>cyc_hi = 0, cyc_lo = 0, cyc_per_tick = 0, start_tick = 0, mach = 0, stuff = [], sink = 0\<rparr>"


end
