(* ===== verification/Mmrun.thy ===== *)
theory Mmrun
  imports Sampler
begin

text \<open>
  The programs around the matrix products: the measuring loops of \<open>fcycmm.c\<close> and \<open>fcycbmm.c\<close>,
  and \<open>run\<close> and \<open>main\<close> of \<open>mm.c\<close> and \<open>bmm.c\<close> with their check of the result.  Arithmetic on
  matrix entries is exact.
\<close>

section \<open>Measuring the matrix products\<close>

text \<open>The global arrays; \<open>spend\<close> is the effect of a call of the product on the machine.\<close>

record 'm mm_world = "'m world" +
  ga :: "real matrix"
  gb :: "real matrix"
  gc :: "real matrix"

type_synonym product = "real matrix \<Rightarrow> real matrix \<Rightarrow> nat \<Rightarrow> real matrix \<Rightarrow> real matrix"

definition mm_call :: "('m \<Rightarrow> 'm) \<Rightarrow> product \<Rightarrow> nat \<Rightarrow> 'm mm_world \<Rightarrow> 'm mm_world" where
  "mm_call spend f n w = w\<lparr>gc := f (ga w) (gb w) n (gc w), mach := spend (mach w)\<rparr>"

definition mm_reset :: "bool \<Rightarrow> nat \<Rightarrow> 'm mm_world \<Rightarrow> 'm mm_world" where
  "mm_reset clear_cache n w = (let w1 = (if clear_cache then clear w else w) in w1\<lparr>gc := reset exact n (gc w1)\<rparr>)"

definition mm_comp_step :: "'m hw \<Rightarrow> ('m \<Rightarrow> 'm) \<Rightarrow> bool \<Rightarrow> product \<Rightarrow> nat \<Rightarrow> 'm mm_world \<Rightarrow> (real \<times> 'm mm_world) option" where
  "mm_comp_step hw spend clear_cache f n w = do {
     w1 \<leftarrow> start_comp_counter hw (mm_reset clear_cache n w);
     Some (get_comp_counter hw (mm_call spend f n w1)) }"

definition mm_plain_step :: "'m hw \<Rightarrow> ('m \<Rightarrow> 'm) \<Rightarrow> bool \<Rightarrow> product \<Rightarrow> nat \<Rightarrow> 'm mm_world \<Rightarrow> (real \<times> 'm mm_world) option" where
  "mm_plain_step hw spend clear_cache f n w =
     Some (get_counter hw (mm_call spend f n (start_counter hw (mm_reset clear_cache n w))))"

definition fcyc_full :: "'m hw \<Rightarrow> ('m \<Rightarrow> 'm) \<Rightarrow> product \<Rightarrow> nat \<Rightarrow> bool \<Rightarrow> nat \<Rightarrow> real \<Rightarrow> nat \<Rightarrow> bool
    \<Rightarrow> 'm mm_world \<Rightarrow> (real \<times> 'm mm_world) option" where
  "fcyc_full hw spend f n clear_cache k epsilon maxsamples compensate w = do {
     (s, w1) \<leftarrow> (if compensate
        then measure_loop (mm_comp_step hw spend clear_cache f n) k epsilon maxsamples (init_sampler k maxsamples) w
        else measure_loop (mm_plain_step hw spend clear_cache f n) k epsilon maxsamples (init_sampler k maxsamples) w);
     result \<leftarrow> rd (kvalues s) 0;
     Some (result, w1) }"

definition fcyc :: "'m hw \<Rightarrow> ('m \<Rightarrow> 'm) \<Rightarrow> product \<Rightarrow> nat \<Rightarrow> bool \<Rightarrow> 'm mm_world \<Rightarrow> (real \<times> 'm mm_world) option" where
  "fcyc hw spend f n clear_cache = fcyc_full hw spend f n clear_cache 3 0.01 20 False"

text \<open>\<open>run\<close>: \<open>None\<close> when the check of the result ends the program.\<close>

definition run :: "'m hw \<Rightarrow> ('m \<Rightarrow> 'm) \<Rightarrow> product \<Rightarrow> nat \<Rightarrow> 'm mm_world \<Rightarrow> (real \<times> 'm mm_world) option" where
  "run hw spend f n w = do {
     (c, w1) \<leftarrow> fcyc hw spend f n True w;
     let cpi = c / real (n * n * n);
     if checkresult (real n) n (gc w1) then Some (cpi, w1) else None }"

text \<open>The table that \<open>main\<close> prints, one row of measurements for each size.\<close>

fun run_all :: "('v \<Rightarrow> 'w \<Rightarrow> (real \<times> 'w) option) \<Rightarrow> 'v list \<Rightarrow> 'w \<Rightarrow> (real list \<times> 'w) option" where
  "run_all r [] w = Some ([], w)"
| "run_all r (v # vs) w = do { (c, w1) \<leftarrow> r v w; (cs, w2) \<leftarrow> run_all r vs w1; Some (c # cs, w2) }"

fun table :: "(nat \<Rightarrow> 'w \<Rightarrow> (real list \<times> 'w) option) \<Rightarrow> nat list \<Rightarrow> 'w \<Rightarrow> ((nat \<times> real list) list \<times> 'w) option" where
  "table row [] w = Some ([], w)"
| "table row (n # ns) w = do { (cs, w1) \<leftarrow> row n w; (rows, w2) \<leftarrow> table row ns w1; Some ((n, cs) # rows, w2) }"

definition MINN :: nat where "MINN = 50"
definition MAXN :: nat where "MAXN = 700"
definition INCN :: nat where "INCN = 50"

definition mm_init :: "'m mm_world \<Rightarrow> 'm mm_world" where
  "mm_init w = (let (a, b) = init 1 MAXN (ga w, gb w) in w\<lparr>ga := a, gb := b\<rparr>)"

definition mm_main :: "'m hw \<Rightarrow> ('m \<Rightarrow> 'm) \<Rightarrow> 'm mm_world \<Rightarrow> ((nat \<times> real list) list \<times> 'm mm_world) option" where
  "mm_main hw spend w = table (\<lambda>n. run_all (\<lambda>f. run hw spend f n) [jki exact, kji exact, ijk exact, jik exact, kij exact, ikj exact])
     (upt_by MINN (MAXN + 1) INCN) (mm_init w)"

section \<open>Measuring the blocked products\<close>

type_synonym blocked_product = "real matrix \<Rightarrow> real matrix \<Rightarrow> nat \<Rightarrow> nat \<Rightarrow> real matrix \<Rightarrow> real matrix"

definition fcyc_full_b :: "'m hw \<Rightarrow> ('m \<Rightarrow> 'm) \<Rightarrow> blocked_product \<Rightarrow> nat \<Rightarrow> nat \<Rightarrow> bool \<Rightarrow> nat \<Rightarrow> real \<Rightarrow> nat \<Rightarrow> bool
    \<Rightarrow> 'm mm_world \<Rightarrow> (real \<times> 'm mm_world) option" where
  "fcyc_full_b hw spend f n bsize clear_cache k epsilon maxsamples compensate w = do {
     let g = (\<lambda>A B n C. f A B n bsize C);
     (s, w1) \<leftarrow> (if compensate
        then measure_loop (mm_comp_step hw spend clear_cache g n) k epsilon maxsamples (init_sampler k maxsamples) w
        else measure_loop (mm_plain_step hw spend clear_cache g n) k epsilon maxsamples (init_sampler k maxsamples) w);
     result \<leftarrow> rd (kvalues s) 0;
     Some (result, w1) }"

definition fcyc_b :: "'m hw \<Rightarrow> ('m \<Rightarrow> 'm) \<Rightarrow> blocked_product \<Rightarrow> nat \<Rightarrow> nat \<Rightarrow> bool \<Rightarrow> 'm mm_world \<Rightarrow> (real \<times> 'm mm_world) option" where
  "fcyc_b hw spend f n bsize clear_cache = fcyc_full_b hw spend f n bsize clear_cache 3 0.01 20 False"

definition run_b :: "'m hw \<Rightarrow> ('m \<Rightarrow> 'm) \<Rightarrow> blocked_product \<Rightarrow> nat \<Rightarrow> nat \<Rightarrow> 'm mm_world \<Rightarrow> (real \<times> 'm mm_world) option" where
  "run_b hw spend f n bsize w = do {
     (c, w1) \<leftarrow> fcyc_b hw spend f n bsize True w;
     let cpi = c / real (n * n * n);
     if checkresult (real n) n (gc w1) then Some (cpi, w1) else None }"

text \<open>The two tables: varying sizes for a fixed block, then varying blocks for the largest size.\<close>

definition bmm_main :: "'m hw \<Rightarrow> ('m \<Rightarrow> 'm) \<Rightarrow> 'm mm_world
    \<Rightarrow> ((nat \<times> real list) list \<times> (nat \<times> real list) list \<times> 'm mm_world) option" where
  "bmm_main hw spend w = do {
     (sizes, w1) \<leftarrow> table (\<lambda>n. run_all (\<lambda>f. run_b hw spend f n INCN) [bijk exact, bikj exact])
       (upt_by MINN (MAXN + 1) INCN) (mm_init w);
     (bs, w2) \<leftarrow> table (\<lambda>bsize. run_all (\<lambda>f. run_b hw spend f MAXN bsize) [bijk exact, bikj exact])
       (upt_by INCN (MAXN + 1) INCN) w1;
     Some (sizes, bs, w2) }"

section \<open>The programs pass their own check\<close>

text \<open>Every measurement leaves the product of the reset array, and the input arrays alone.\<close>

lemma clock_keeps [simp]:
  "ga (snd (get_counter hw w)) = ga w" "gb (snd (get_counter hw w)) = gb w" "gc (snd (get_counter hw w)) = gc w"
  "ga (start_counter hw w) = ga w" "gb (start_counter hw w) = gb w" "gc (start_counter hw w) = gc w"
  "ga (clear w) = ga w" "gb (clear w) = gb w" "gc (clear w) = gc w"
  by (simp_all add: get_counter_def start_counter_def access_counter_def clear_def split_beta Let_def)

lemma mm_plain_step_arrays:
  assumes "mm_plain_step hw spend c f n w = Some (r, w1)"
  shows "ga w1 = ga w" "gb w1 = gb w" "\<exists>C. gc w1 = f (ga w) (gb w) n (reset exact n C)"
proof -
  have w1: "w1 = snd (get_counter hw (mm_call spend f n (start_counter hw (mm_reset c n w))))"
    using assms by (simp add: mm_plain_step_def)
  show "ga w1 = ga w" "gb w1 = gb w" "\<exists>C. gc w1 = f (ga w) (gb w) n (reset exact n C)"
    unfolding w1 by (auto simp: mm_call_def mm_reset_def Let_def)
qed

lemma measurements_arrays:
  assumes "measurements (mm_plain_step hw spend c f n) m w = Some (cs, w1)"
  shows "ga w1 = ga w \<and> gb w1 = gb w \<and> (0 < m \<longrightarrow> (\<exists>C. gc w1 = f (ga w) (gb w) n (reset exact n C)))"
  using assms
proof (induction m arbitrary: w cs)
  case (Suc m)
  then obtain r w2 cs' where s: "mm_plain_step hw spend c f n w = Some (r, w2)"
    "measurements (mm_plain_step hw spend c f n) m w2 = Some (cs', w1)"
    by (auto split: option.splits)
  note a = mm_plain_step_arrays [OF s(1)]
  show ?case
  proof (cases m)
    case 0
    then show ?thesis using a s(2) by simp
  next
    case (Suc m')
    then show ?thesis using Suc.IH [OF s(2)] a by simp
  qed
qed simp

lemma fcyc_full_arrays:
  assumes "0 < k"
  shows "\<exists>r w1 C. fcyc_full hw spend f n c k epsilon maxsamples False w = Some (r, w1)
    \<and> ga w1 = ga w \<and> gb w1 = gb w \<and> gc w1 = f (ga w) (gb w) n (reset exact n C)"
proof -
  have total: "mm_plain_step hw spend c f n v \<noteq> None" for v by (simp add: mm_plain_step_def)
  from measure_loop_total [where step = "mm_plain_step hw spend c f n", OF total assms, of epsilon maxsamples w]
  obtain cs s1 w1 where l: "measure_loop (mm_plain_step hw spend c f n) k epsilon maxsamples (init_sampler k maxsamples) w = Some (s1, w1)"
    "measurements (mm_plain_step hw spend c f n) (length cs) w = Some (cs, w1)" "cs \<noteq> []"
    "rd (kvalues s1) 0 = Some (Min (set cs))" by blast
  have "0 < length cs" using l(3) by simp
  then show ?thesis using l(1,4) measurements_arrays [OF l(2)] by (auto simp: fcyc_full_def)
qed

definition ones :: "'m mm_world \<Rightarrow> bool" where
  "ones w \<longleftrightarrow> (\<exists>ab. init 1 MAXN ab = (ga w, gb w))"

lemma run_ok:
  assumes "ones w" "v \<in> {ijk, jik, ikj, kij, kji, jki}" "n \<le> MAXN"
  shows "\<exists>c w1. run hw spend (v exact) n w = Some (c, w1) \<and> ones w1"
proof -
  obtain ab where ab: "init 1 MAXN ab = (ga w, gb w)" using assms(1) by (auto simp: ones_def)
  have "(0 :: nat) < 3" by simp
  from fcyc_full_arrays [OF this, of hw spend "v exact" n True "0.01" 20 w]
  obtain c w1 C where w1: "fcyc hw spend (v exact) n True w = Some (c, w1)" "ga w1 = ga w" "gb w1 = gb w"
    "gc w1 = v exact (ga w) (gb w) n (reset exact n C)" by (auto simp: fcyc_def)
  have "checkresult (real n) n (gc w1)" using version_checks [OF assms(2) ab assms(3), of C] w1(4) by simp
  then show ?thesis using w1 assms(1) by (simp add: run_def ones_def)
qed

lemma fcyc_full_b_eq:
  "fcyc_full_b hw spend f n bsize c k epsilon maxsamples cmp w
   = fcyc_full hw spend (\<lambda>A B n C. f A B n bsize C) n c k epsilon maxsamples cmp w"
  by (simp add: fcyc_full_b_def fcyc_full_def Let_def)

lemma run_b_ok:
  assumes "ones w" "v \<in> {bijk, bikj}" "n \<le> MAXN" "0 < bsize"
  shows "\<exists>c w1. run_b hw spend (v exact) n bsize w = Some (c, w1) \<and> ones w1"
proof -
  obtain ab where ab: "init 1 MAXN ab = (ga w, gb w)" using assms(1) by (auto simp: ones_def)
  have "(0 :: nat) < 3" by simp
  from fcyc_full_arrays [OF this, of hw spend "\<lambda>A B n C. v exact A B n bsize C" n True "0.01" 20 w]
  obtain c w1 C where w1: "fcyc_b hw spend (v exact) n bsize True w = Some (c, w1)" "ga w1 = ga w" "gb w1 = gb w"
    "gc w1 = v exact (ga w) (gb w) n bsize (reset exact n C)" by (auto simp: fcyc_b_def fcyc_full_b_eq)
  have "checkresult (real n) n (gc w1)"
    using blocked_checks [OF assms(2) ab assms(3,4), of "reset exact n C"] w1(4) by simp
  then show ?thesis using w1 assms(1) by (simp add: run_b_def ones_def)
qed

lemma run_all_ok:
  assumes "\<And>v w. v \<in> set vs \<Longrightarrow> I w \<Longrightarrow> \<exists>c w1. r v w = Some (c, w1) \<and> I w1" "I w"
  shows "\<exists>cs w1. run_all r vs w = Some (cs, w1) \<and> length cs = length vs \<and> I w1"
  using assms
proof (induction vs arbitrary: w)
  case (Cons v vs)
  obtain c w1 where "r v w = Some (c, w1)" "I w1" using Cons.prems(1) [of v w] Cons.prems(2) by auto
  moreover obtain cs w2 where "run_all r vs w1 = Some (cs, w2)" "length cs = length vs" "I w2"
    using Cons.IH [of w1] Cons.prems(1) \<open>I w1\<close> by auto
  ultimately show ?case by simp
qed simp

lemma table_ok:
  assumes "\<And>n w. n \<in> set ns \<Longrightarrow> I w \<Longrightarrow> \<exists>cs w1. row n w = Some (cs, w1) \<and> length cs = l \<and> I w1" "I w"
  shows "\<exists>rows w1. table row ns w = Some (rows, w1) \<and> map fst rows = ns \<and> map (length \<circ> snd) rows = map (\<lambda>_. l) ns \<and> I w1"
  using assms
proof (induction ns arbitrary: w)
  case (Cons n ns)
  obtain cs w1 where "row n w = Some (cs, w1)" "length cs = l" "I w1" using Cons.prems(1) [of n w] Cons.prems(2) by auto
  moreover obtain rows w2 where "table row ns w1 = Some (rows, w2)" "map fst rows = ns"
    "map (length \<circ> snd) rows = map (\<lambda>_. l) ns" "I w2"
    using Cons.IH [of w1] Cons.prems(1) \<open>I w1\<close> by auto
  ultimately show ?case by (simp add: comp_def)
qed simp

lemma ones_mm_init: "ones (mm_init w)"
proof -
  obtain a b where ab: "init 1 MAXN (ga w, gb w) = (a, b)" by fastforce
  then show ?thesis unfolding ones_def by (intro exI [of _ "(ga w, gb w)"]) (simp add: mm_init_def)
qed

lemma sizes_list: "upt_by 50 701 50 = [50, 100, 150, 200, 250, 300, 350, 400, 450, 500, 550, 600, 650, 700]"
  by (simp add: upt_by.simps)

lemma sizes_replicate: "map (\<lambda>_. l) (upt_by 50 701 50) = replicate 14 l"
proof -
  have "length (upt_by 50 701 50) = 14" by (simp add: sizes_list)
  then show ?thesis by (simp only: map_replicate_const)
qed

lemmas size_defs = MINN_def MAXN_def INCN_def

text \<open>
  Matrix programs, functional. \<open>mm\<close> runs through: no call of \<open>checkresult\<close> ends the program,
  whatever the clock delivers, and the table has a row of six measurements for each of the
  fourteen matrix sizes from 50 to 700.
\<close>

theorem mm_main_completes:
  "\<exists>rows w1. mm_main hw spend w = Some (rows, w1)
     \<and> map fst rows = [50, 100, 150, 200, 250, 300, 350, 400, 450, 500, 550, 600, 650, 700]
     \<and> map (length \<circ> snd) rows = replicate 14 6"
proof -
  let ?vs = "[jki exact, kji exact, ijk exact, jik exact, kij exact, ikj exact] :: product list"
  have row: "\<exists>cs w1. run_all (\<lambda>f. run hw spend f n) ?vs w = Some (cs, w1) \<and> length cs = 6 \<and> ones w1"
    if n: "n \<in> set (upt_by MINN (MAXN + 1) INCN)" and o: "ones w" for n w
  proof -
    have "n \<le> MAXN" using n by (auto simp: size_defs sizes_list)
    then have "\<exists>c w1. run hw spend v n w = Some (c, w1) \<and> ones w1" if "v \<in> set ?vs" "ones w" for v w
      using that run_ok [of w _ n hw spend] by auto
    from run_all_ok [of ?vs ones "\<lambda>f. run hw spend f n", OF this o]
    show ?thesis by (simp del: run_all.simps add: eval_nat_numeral)
  qed
  have e: "upt_by MINN (MAXN + 1) INCN = upt_by 50 701 50" by (simp add: size_defs)
  have "\<exists>rows w1. table (\<lambda>n. run_all (\<lambda>f. run hw spend f n) ?vs) (upt_by 50 701 50) (mm_init w) = Some (rows, w1)
      \<and> map fst rows = upt_by 50 701 50 \<and> map (length \<circ> snd) rows = map (\<lambda>_. 6) (upt_by 50 701 50) \<and> ones w1"
    by (rule table_ok [where I = ones]) (rule row [unfolded e] ones_mm_init; assumption)+
  then obtain rows w1 where "mm_main hw spend w = Some (rows, w1)" "map fst rows = upt_by 50 701 50"
    "map (length \<circ> snd) rows = replicate 14 6"
    unfolding mm_main_def e sizes_replicate by blast
  then show ?thesis unfolding sizes_list by - (intro exI conjI)
qed

text \<open>
  Blocked matrix program, functional. \<open>bmm\<close> runs through as well, for the fourteen sizes
  with blocks of 50 and for the fourteen block sizes up to the full matrix, although most of
  these block sizes do not divide the size.
\<close>

theorem bmm_main_completes:
  "\<exists>sizes bs w1. bmm_main hw spend w = Some (sizes, bs, w1)
     \<and> map fst sizes = [50, 100, 150, 200, 250, 300, 350, 400, 450, 500, 550, 600, 650, 700]
     \<and> map fst bs = [50, 100, 150, 200, 250, 300, 350, 400, 450, 500, 550, 600, 650, 700]
     \<and> map (length \<circ> snd) (sizes @ bs) = replicate 28 2"
proof -
  let ?vs = "[bijk exact, bikj exact] :: blocked_product list"
  have pair: "\<exists>cs w1. run_all (\<lambda>f. run_b hw spend f n b) ?vs w = Some (cs, w1) \<and> length cs = 2 \<and> ones w1"
    if "n \<le> MAXN" "0 < b" and o: "ones w" for n b w
  proof -
    have "\<exists>c w1. run_b hw spend v n b w = Some (c, w1) \<and> ones w1" if "v \<in> set ?vs" "ones w" for v w
      using that run_b_ok [of w _ n b hw spend] \<open>n \<le> MAXN\<close> \<open>0 < b\<close> by auto
    from run_all_ok [of ?vs ones "\<lambda>f. run_b hw spend f n b", OF this o]
    show ?thesis by (simp del: run_all.simps add: eval_nat_numeral)
  qed
  have mem: "n \<le> MAXN \<and> 0 < n" if "n \<in> set (upt_by 50 701 50)" for n
    using that by (auto simp: MAXN_def sizes_list)
  obtain sizes w1 where s: "table (\<lambda>n. run_all (\<lambda>f. run_b hw spend f n INCN) ?vs) (upt_by 50 701 50) (mm_init w) = Some (sizes, w1)"
    "map fst sizes = upt_by 50 701 50" "map (length \<circ> snd) sizes = map (\<lambda>_. 2) (upt_by 50 701 50)" "ones w1"
    using table_ok [of "upt_by 50 701 50" ones "\<lambda>n. run_all (\<lambda>f. run_b hw spend f n INCN) ?vs" 2 "mm_init w"]
      pair [of _ INCN] mem ones_mm_init [of w] by (auto simp: INCN_def)
  obtain bs w2 where b: "table (\<lambda>b. run_all (\<lambda>f. run_b hw spend f MAXN b) ?vs) (upt_by 50 701 50) w1 = Some (bs, w2)"
    "map fst bs = upt_by 50 701 50" "map (length \<circ> snd) bs = map (\<lambda>_. 2) (upt_by 50 701 50)"
    using table_ok [of "upt_by 50 701 50" ones "\<lambda>b. run_all (\<lambda>f. run_b hw spend f MAXN b) ?vs" 2 w1]
      pair [of MAXN] mem s(4) by auto
  have e: "upt_by MINN (MAXN + 1) INCN = upt_by 50 701 50" "upt_by INCN (MAXN + 1) INCN = upt_by 50 701 50"
    by (simp_all add: size_defs)
  have "bmm_main hw spend w = Some (sizes, bs, w2)" unfolding bmm_main_def e using s(1) b(1) by simp
  moreover have "map (length \<circ> snd) (sizes @ bs) = replicate 28 2"
    using s(3) b(3) by (simp only: map_append sizes_replicate flip: replicate_add) simp
  ultimately show ?thesis using s(2) b(2) unfolding sizes_list by - (intro exI conjI)
qed

end
