(* ===== verification/Mountain.thy ===== *)
theory Mountain
  imports Mmrun
begin

text \<open>
  The memory mountain (\<open>mountain.c\<close>): the initialisation of the array, the traversal with
  four accumulators, the throughput of one run, and the table of \<open>main\<close>.
\<close>

section \<open>Definitions\<close>

definition MINBYTES :: nat where "MINBYTES = 2 ^ 14"
definition MAXBYTES :: nat where "MAXBYTES = 2 ^ 27"
definition MAXSTRIDE :: nat where "MAXSTRIDE = 15"
definition MAXELEMS :: nat where "MAXELEMS = MAXBYTES div 8"

definition init_data :: "nat \<Rightarrow> 64 word list \<Rightarrow> 64 word list" where
  "init_data n data = for_up 0 n (\<lambda>i d. d[i := of_nat i]) data"

text \<open>
  The loop over blocks of four strides.  A stride of zero keeps the index where it is and the
  loop does not end, so that the loop is a partial function.
\<close>

partial_function (option) test_blocks ::
  "64 word list \<Rightarrow> int \<Rightarrow> int \<Rightarrow> int \<Rightarrow> 64 word \<times> 64 word \<times> 64 word \<times> 64 word
    \<Rightarrow> (int \<times> 64 word \<times> 64 word \<times> 64 word \<times> 64 word) option" where
  "test_blocks data stride limit i acc =
     (if i < limit then do {
        x0 \<leftarrow> rd data i; x1 \<leftarrow> rd data (i + stride); x2 \<leftarrow> rd data (i + stride * 2); x3 \<leftarrow> rd data (i + stride * 3);
        test_blocks data stride limit (i + stride * 4)
          (case acc of (a0, a1, a2, a3) \<Rightarrow> (a0 + x0, a1 + x1, a2 + x2, a3 + x3)) }
      else Some (i, acc))"

function test_rest :: "64 word list \<Rightarrow> int \<Rightarrow> int \<Rightarrow> 64 word \<Rightarrow> 64 word option" where
  "test_rest data len i acc0 =
     (if i < len then (case rd data i of None \<Rightarrow> None | Some x \<Rightarrow> test_rest data len (i + 1) (acc0 + x)) else Some acc0)"
  by pat_completeness auto

termination
  by (relation "measure (\<lambda>(data, len, i, acc0). nat (len - i))") auto

declare test_rest.simps [simp del]

definition test :: "64 word list \<Rightarrow> int \<Rightarrow> int \<Rightarrow> 32 word option" where
  "test data elems stride = do {
     (i, a0, a1, a2, a3) \<leftarrow> test_blocks data stride (elems - stride * 4) 0 (0, 0, 0, 0);
     b0 \<leftarrow> test_rest data elems i a0;
     Some (ucast ((b0 + a1) + (a2 + a3))) }"

text \<open>\<open>run\<close>: one call to warm the cache, then the measurement; \<open>spend\<close> is the effect of a call on
  the machine.  \<open>None\<close> when a call of \<open>test\<close> does not return.\<close>

definition mountain_run :: "'m hw \<Rightarrow> (int \<Rightarrow> int \<Rightarrow> 'm \<Rightarrow> 'm) \<Rightarrow> 64 word list \<Rightarrow> nat \<Rightarrow> real \<Rightarrow> nat \<Rightarrow> 'm world
    \<Rightarrow> (real \<times> 'm world) option" where
  "mountain_run hw spend data bytes rate stride w = do {
     let elems = int (bytes div 8);
     _ \<leftarrow> test data elems (int stride);
     let w1 = call (spend elems (int stride)) w;
     (cycles, s, w2) \<leftarrow> fcyc2 hw spend elems (int stride) False w1;
     Some (real (bytes div stride) / (cycles / rate), w2) }"

text \<open>\<open>for (size = MAXBYTES; size >= MINBYTES; size >>= 1)\<close>\<close>

function mountain_sizes :: "nat \<Rightarrow> nat list" where
  "mountain_sizes bytes = (if MINBYTES \<le> bytes then bytes # mountain_sizes (bytes div 2) else [])"
  by pat_completeness auto

termination
  by (relation "measure id") (auto simp: MINBYTES_def)

declare mountain_sizes.simps [simp del]

definition mountain_main :: "'m hw \<Rightarrow> (int \<Rightarrow> int \<Rightarrow> 'm \<Rightarrow> 'm) \<Rightarrow> real \<Rightarrow> 64 word list \<Rightarrow> 'm world
    \<Rightarrow> ((nat \<times> real list) list \<times> 'm world) option" where
  "mountain_main hw spend rate data w = table (\<lambda>bytes. run_all (mountain_run hw spend (init_data MAXELEMS data) bytes rate) [1..<MAXSTRIDE + 1])
     (mountain_sizes MAXBYTES) w"

section \<open>The traversal\<close>

lemma sum_lessThan_add: "(\<Sum>j < m + n. f j) = (\<Sum>j < m. f j) + (\<Sum>j < n. f (m + j))" for f :: "nat \<Rightarrow> 'a :: comm_monoid_add"
  by (induction n) (simp_all add: add.assoc)

lemma test_blocks_sum:
  assumes "elems \<le> length data" "0 < s" "int elems - int s * 4 \<le> int (i + 4 * s * b)"
    and "\<And>b'. b' < b \<Longrightarrow> i + 4 * s * b' + 4 * s < elems"
  shows "\<exists>a0 a1 a2 a3. test_blocks data (int s) (int elems - int s * 4) (int i) (c0, c1, c2, c3)
      = Some (int (i + 4 * s * b), a0, a1, a2, a3)
    \<and> a0 + a1 + a2 + a3 = c0 + c1 + c2 + c3 + (\<Sum>j < 4 * b. data ! (i + j * s))"
  using assms(3,4)
proof (induction b arbitrary: i c0 c1 c2 c3)
  case 0
  then show ?case by (subst test_blocks.simps) simp
next
  case (Suc b)
  have lt: "i + 4 * s < elems" using Suc.prems(2) [of 0] by simp
  have r: "rd data (int i) = Some (data ! i)" "rd data (int i + int s) = Some (data ! (i + s))"
    "rd data (int i + int s * 2) = Some (data ! (i + 2 * s))" "rd data (int i + int s * 3) = Some (data ! (i + 3 * s))"
    using lt assms(1) by (simp_all add: rd_def nat_add_distrib nat_mult_distrib mult.commute)
  have i': "int i + int s * 4 = int (i + 4 * s)" by simp
  have le: "int elems - int s * 4 \<le> int (i + 4 * s + 4 * s * b)" using Suc.prems(1) by (simp add: algebra_simps)
  have st: "i + 4 * s + 4 * s * b' + 4 * s < elems" if "b' < b" for b'
    using Suc.prems(2) [of "Suc b'"] that by (simp add: algebra_simps)
  obtain a0 a1 a2 a3 where a: "test_blocks data (int s) (int elems - int s * 4) (int (i + 4 * s))
      (c0 + data ! i, c1 + data ! (i + s), c2 + data ! (i + 2 * s), c3 + data ! (i + 3 * s))
      = Some (int (i + 4 * s + 4 * s * b), a0, a1, a2, a3)"
    "a0 + a1 + a2 + a3 = c0 + data ! i + (c1 + data ! (i + s)) + (c2 + data ! (i + 2 * s)) + (c3 + data ! (i + 3 * s))
      + (\<Sum>j < 4 * b. data ! (i + 4 * s + j * s))"
    using Suc.IH [OF le st] by blast
  have "(\<Sum>j < 4 * Suc b. data ! (i + j * s)) = (\<Sum>j < 4. data ! (i + j * s)) + (\<Sum>j < 4 * b. data ! (i + 4 * s + j * s))"
    using sum_lessThan_add [of "\<lambda>j. data ! (i + j * s)" 4 "4 * b"] by (simp add: algebra_simps)
  also have "(\<Sum>j < 4. data ! (i + j * s)) = data ! i + data ! (i + s) + data ! (i + 2 * s) + data ! (i + 3 * s)"
    by (simp add: numeral_eq_Suc)
  finally have "a0 + a1 + a2 + a3 = c0 + c1 + c2 + c3 + (\<Sum>j < 4 * Suc b. data ! (i + j * s))"
    using a(2) by (simp add: algebra_simps)
  moreover have "test_blocks data (int s) (int elems - int s * 4) (int i) (c0, c1, c2, c3)
      = Some (int (i + 4 * s * Suc b), a0, a1, a2, a3)"
  proof -
    have "test_blocks data (int s) (int elems - int s * 4) (int i) (c0, c1, c2, c3)
        = test_blocks data (int s) (int elems - int s * 4) (int i + int s * 4)
            (c0 + data ! i, c1 + data ! (i + s), c2 + data ! (i + 2 * s), c3 + data ! (i + 3 * s))"
      using lt by (subst (1) test_blocks.simps) (simp add: r)
    moreover have "i + 4 * s + 4 * s * b = i + 4 * s * Suc b" by simp
    ultimately show ?thesis using a(1) unfolding i' by (simp only:)
  qed
  ultimately show ?case by blast
qed

lemma test_rest_sum:
  assumes "i \<le> elems" "elems \<le> length data"
  shows "test_rest data (int elems) (int i) a = Some (a + (\<Sum>j = i..<elems. data ! j))"
  using assms
proof (induction "elems - i" arbitrary: i a)
  case 0
  then show ?case by (subst test_rest.simps) simp
next
  case (Suc n)
  then have lt: "i < elems" by simp
  have "test_rest data (int elems) (int (Suc i)) (a + data ! i) = Some (a + data ! i + (\<Sum>j = Suc i..<elems. data ! j))"
    using Suc by (intro Suc.hyps(1)) auto
  then show ?case
    using lt Suc.prems(2) by (subst test_rest.simps) (simp add: rd_nat sum.atLeast_Suc_lessThan add.assoc add.commute)
qed

lemma test_value:
  assumes "elems \<le> length data" "0 < stride"
  defines "b \<equiv> (elems - 1) div (4 * stride)"
  shows "test data (int elems) (int stride)
    = Some (ucast ((\<Sum>j < 4 * b. data ! (j * stride)) + (\<Sum>j = 4 * b * stride..<elems. data ! j)))"
proof -
  have le: "4 * stride * b \<le> elems - 1" unfolding b_def by simp
  have "elems - 1 < 4 * stride * Suc b"
    unfolding b_def using assms(2) by (metis dividend_less_times_div mult_Suc_right nat_0_less_mult_iff zero_less_numeral)
  then have "int elems \<le> int (4 * stride * Suc b)" by (simp only: of_nat_le_iff)
  then have "int elems - int stride * 4 \<le> int (0 + 4 * stride * b)" by (simp add: algebra_simps)
  moreover have "0 + 4 * stride * b' + 4 * stride < elems" if "b' < b" for b'
  proof -
    have "4 * stride * Suc b' \<le> 4 * stride * b" using that by (intro mult_le_mono) simp_all
    moreover have "0 < 4 * stride * Suc b'" using assms(2) by simp
    moreover have "4 * stride * b' + 4 * stride = 4 * stride * Suc b'" by simp
    ultimately show ?thesis using le by arith
  qed
  ultimately obtain a0 a1 a2 a3 where a: "test_blocks data (int stride) (int elems - int stride * 4) (int 0) (0, 0, 0, 0)
      = Some (int (0 + 4 * stride * b), a0, a1, a2, a3)"
    "a0 + a1 + a2 + a3 = 0 + 0 + 0 + 0 + (\<Sum>j < 4 * b. data ! (0 + j * stride))"
    using test_blocks_sum [OF assms(1,2)] by blast
  have "test_rest data (int elems) (int (4 * stride * b)) a0 = Some (a0 + (\<Sum>j = 4 * stride * b..<elems. data ! j))"
    using le assms(1) by (intro test_rest_sum) auto
  moreover have "ucast (a0 + S + a1 + (a2 + a3)) = (ucast ((\<Sum>j < 4 * b. data ! (j * stride)) + S) :: 32 word)" for S
  proof -
    have "a0 + S + a1 + (a2 + a3) = (\<Sum>j < 4 * b. data ! (j * stride)) + S" using a(2) by (simp add: algebra_simps)
    then show ?thesis by (simp only:)
  qed
  moreover have "4 * b * stride = 4 * stride * b" by simp
  ultimately show ?thesis using a(1) by (simp only: test_def) (simp del: of_nat_mult of_nat_add)
qed

lemma init_data_value: "n \<le> length data \<Longrightarrow> init_data n data = map of_nat [0..<n] @ drop n data"
proof (induction n)
  case 0
  then show ?case by (simp add: init_data_def for_up_done)
next
  case (Suc n)
  have "init_data (Suc n) data = (init_data n data)[n := of_nat n]" by (simp add: init_data_def for_up_last)
  also have "\<dots> = map of_nat [0..<n] @ (drop n data)[0 := of_nat n]"
    using Suc by (simp add: list_update_append)
  also have "(drop n data)[0 := of_nat n] = of_nat n # drop (Suc n) data"
    using Suc.prems by (simp flip: Cons_nth_drop_Suc)
  finally show ?case by simp
qed

section \<open>Properties\<close>

text \<open>
  Mountain, functional. \<open>test\<close> stays inside the array for every positive stride, ends, and
  returns the low 32 bits of a sum: the elements at multiples of the stride up to the last
  full block of four strides, and then every element of the rest, not only those at
  multiples of the stride.
\<close>

theorem test_sums:
  assumes "elems \<le> length data" "0 < stride" "b = (elems - 1) div (4 * stride)"
  shows "test data (int elems) (int stride)
    = Some (ucast ((\<Sum>j < 4 * b. data ! (j * stride)) + (\<Sum>j = 4 * b * stride..<elems. data ! j)))"
  unfolding assms(3) by (rule test_value [OF assms(1,2)])

theorem test_sums_witness:
  "test [1, 2, 4, 8, 16, 32, 64, 128, 256, 512, 1024] (int 10) (int 2)
    = Some (ucast ((\<Sum>j < 4 * 1. [1, 2, 4, 8, 16, 32, 64, 128, 256, 512, 1024 :: 64 word] ! (j * 2))
        + (\<Sum>j = 4 * 1 * 2..<10. [1, 2, 4, 8, 16, 32, 64, 128, 256, 512, 1024] ! j)))"
  by (rule test_sums) simp_all

text \<open>With stride one every element is summed.\<close>

lemma test_stride_one:
  assumes "elems \<le> length data"
  shows "test data (int elems) 1 = Some (ucast (\<Sum>j < elems. data ! j))"
proof -
  have "4 * ((elems - 1) div 4) \<le> elems" by simp
  then have "(\<Sum>j < 4 * ((elems - 1) div 4). data ! j) + (\<Sum>j = 4 * ((elems - 1) div 4)..<elems. data ! j) = (\<Sum>j < elems. data ! j)"
    by (metis atLeast0LessThan sum.atLeastLessThan_concat zero_le)
  then show ?thesis using test_value [OF assms, of 1] by simp
qed

lemma mountain_run_ok:
  assumes "bytes div 8 \<le> length data" "0 < stride"
  shows "\<exists>c w1. mountain_run hw spend data bytes rate stride w = Some (c, w1)"
proof -
  have "(0 :: nat) < 3" by simp
  from measure_loop_total [where step = "plain_step hw False (spend (int (bytes div 8)) (int stride))", OF plain_step_total this]
  obtain s1 w1 r where "measure_loop (plain_step hw False (spend (int (bytes div 8)) (int stride))) 3 0.01 500 (init_sampler 3 500)
      (call (spend (int (bytes div 8)) (int stride)) w) = Some (s1, w1)" "rd (kvalues s1) 0 = Some r"
    by blast
  then show ?thesis using test_value [OF assms] by (simp add: mountain_run_def fcyc2_def fcyc2_full_def)
qed

lemma mountain_sizes_list: "mountain_sizes (2 ^ 27) = map (\<lambda>e. 2 ^ e) (rev [14..<28])"
  by (simp add: mountain_sizes.simps MINBYTES_def upt_rec)

text \<open>
  Mountain, bounds. The program runs through: for the fourteen working sets from 128 MB
  down to 16 KB and the fifteen strides no traversal leaves the array, every measurement ends,
  and the table is complete.
\<close>

theorem mountain_main_completes:
  assumes "length data = MAXELEMS"
  shows "\<exists>rows w1. mountain_main hw spend rate data w = Some (rows, w1)
    \<and> map fst rows = map (\<lambda>e. 2 ^ e) (rev [14..<28]) \<and> map (length \<circ> snd) rows = map (\<lambda>_. 15) (rev [14..<28 :: nat])"
proof -
  let ?d = "init_data MAXELEMS data"
  have len: "length ?d = MAXELEMS" using assms by (simp add: init_data_value)
  have row: "\<exists>cs w1. run_all (mountain_run hw spend ?d bytes rate) [1..<MAXSTRIDE + 1] w = Some (cs, w1) \<and> length cs = 15 \<and> True"
    if "bytes \<in> set (mountain_sizes MAXBYTES)" True for bytes w
  proof -
    have "bytes \<le> MAXBYTES" using that(1) unfolding MAXBYTES_def mountain_sizes_list
      by (auto intro!: power_increasing)
    then have "bytes div 8 \<le> length ?d" by (subst len) (simp add: MAXELEMS_def div_le_mono)
    then have "\<exists>cs w1. run_all (mountain_run hw spend ?d bytes rate) [1..<MAXSTRIDE + 1] w = Some (cs, w1)
        \<and> length cs = length [1..<MAXSTRIDE + 1] \<and> True"
      by (intro run_all_ok [where I = "\<lambda>_. True"]) (auto intro!: mountain_run_ok)
    then show ?thesis by (simp add: MAXSTRIDE_def)
  qed
  have "\<exists>rows w1. mountain_main hw spend rate data w = Some (rows, w1) \<and> map fst rows = mountain_sizes MAXBYTES
      \<and> map (length \<circ> snd) rows = map (\<lambda>_. 15) (mountain_sizes MAXBYTES) \<and> True"
    unfolding mountain_main_def by (rule table_ok [where I = "\<lambda>_. True"]) (rule row TrueI; assumption)+
  then show ?thesis unfolding MAXBYTES_def mountain_sizes_list by (simp add: comp_def)
qed

theorem mountain_main_completes_witness:
  "\<exists>rows w1. mountain_main demo_hw (\<lambda>e s m. m + 9) 2000 (replicate MAXELEMS 0) demo_world = Some (rows, w1) \<and> map fst rows = map (\<lambda>e. 2 ^ e) (rev [14..<28])"
  using mountain_main_completes [of "replicate MAXELEMS 0" demo_hw "\<lambda>e s m. m + 9" 2000 demo_world] by auto

end
