(* ===== verification/Machine.thy ===== *)
theory Machine
  imports Prelude
begin

text \<open>
  The functions of the machine-level chapters (\<open>05-machine-basics\<close>, \<open>06-machine-control\<close>,
  \<open>07-machine-procedures\<close>): arithmetic and stores through pointers, conditional code, the
  nine versions of the bit count, and the switch statements.  A \<open>long\<close> is a \<open>64 word\<close>; the
  order on \<open>long\<close> is the signed one.  Code with \<open>goto\<close> is a function on labels.
\<close>

section \<open>Arithmetic and pointers\<close>

type_synonym store = "64 word \<rightharpoonup> 64 word"

definition plus_c :: "64 word \<Rightarrow> 64 word \<Rightarrow> 64 word" where
  "plus_c x y = x + y"

definition sumstore :: "64 word \<Rightarrow> 64 word \<Rightarrow> 64 word \<Rightarrow> store \<Rightarrow> store option" where
  "sumstore x y dest m = (let t = plus_c x y in if dest \<in> dom m then Some (m(dest \<mapsto> t)) else None)"

definition arith_c :: "64 word \<Rightarrow> 64 word \<Rightarrow> 64 word \<Rightarrow> 64 word" where
  "arith_c x y z = (let t1 = x + y; t2 = z + t1; t3 = x + 4; t4 = y * 48; t5 = t3 + t4; rval = t2 * t5 in rval)"

definition m12 :: "64 word \<Rightarrow> 64 word" where
  "m12 x = 12 * x"

definition scale :: "64 word \<Rightarrow> 64 word \<Rightarrow> 64 word \<Rightarrow> 64 word" where
  "scale x y z = x + 8 * y + 4"

definition mult2 :: "64 word \<Rightarrow> 64 word \<Rightarrow> 64 word" where
  "mult2 a b = (let s = a * b in s)"

definition multstore :: "64 word \<Rightarrow> 64 word \<Rightarrow> 64 word \<Rightarrow> store \<Rightarrow> store option" where
  "multstore x y dest m = (let t = mult2 x y in if dest \<in> dom m then Some (m(dest \<mapsto> t)) else None)"

definition swap_longs :: "64 word \<Rightarrow> 64 word \<Rightarrow> store \<Rightarrow> store option" where
  "swap_longs xp yp m = do {
     t0 \<leftarrow> m xp;
     t1 \<leftarrow> m yp;
     Some (m(xp \<mapsto> t1, yp \<mapsto> t0)) }"

definition incr :: "64 word \<Rightarrow> 64 word \<Rightarrow> store \<Rightarrow> (64 word \<times> store) option" where
  "incr p val m = do {
     x \<leftarrow> m p;
     let y = x + val;
     Some (x, m(p \<mapsto> y)) }"

text \<open>The local variable \<open>v1\<close> is at the address \<open>v1p\<close>.\<close>

definition call_incr :: "64 word \<Rightarrow> store \<Rightarrow> 64 word option" where
  "call_incr v1p m = do {
     (v2, m1) \<leftarrow> incr v1p 3000 (m(v1p \<mapsto> 15213));
     v1 \<leftarrow> m1 v1p;
     Some (v1 + v2) }"

definition call_incr2 :: "64 word \<Rightarrow> 64 word \<Rightarrow> store \<Rightarrow> 64 word option" where
  "call_incr2 v1p x m = do {
     (v2, m1) \<leftarrow> incr v1p 3000 (m(v1p \<mapsto> 15213));
     Some (x + v2) }"

section \<open>Conditional code\<close>

definition gt :: "64 word \<Rightarrow> 64 word \<Rightarrow> 32 word" where
  "gt x y = (if sint y < sint x then 1 else 0)"

definition zero_c :: "64 word \<Rightarrow> 32 word" where
  "zero_c x = (if x = 0 then 1 else 0)"

definition absdiff :: "64 word \<Rightarrow> 64 word \<Rightarrow> 64 word" where
  "absdiff x y = (if sint y < sint x then x - y else y - x)"

definition absdiff_j :: "64 word \<Rightarrow> 64 word \<Rightarrow> 64 word" where
  "absdiff_j x y = (let ntest = sint x \<le> sint y in if ntest then y - x else x - y)"

definition absdiff_cm :: "64 word \<Rightarrow> 64 word \<Rightarrow> 64 word" where
  "absdiff_cm x y = (let result = x - y; eval = y - x in if sint x \<le> sint y then eval else result)"

section \<open>Counting bits\<close>

text \<open>The measure of a shift to the right.\<close>

lemma shift_less: "x \<noteq> 0 \<Longrightarrow> unat (drop_bit 1 x) < unat x" for x :: "64 word"
  by (simp add: drop_bit_eq_div unat_div unat_gt_0)

text \<open>\<open>pcount_do\<close>, and \<open>pcount_goto\<close>, whose label \<open>loop\<close> is the entry of the same function.\<close>

function pcount_do_loop :: "64 word \<Rightarrow> 64 word \<Rightarrow> 64 word" where
  "pcount_do_loop x result =
     (let r = result + (x AND 1); x1 = drop_bit 1 x in if x1 \<noteq> 0 then pcount_do_loop x1 r else r)"
  by pat_completeness auto

termination
proof (relation "measure (\<lambda>(x, result). unat x)", goal_cases)
  case (2 x result r x1)
  then have "x \<noteq> 0" by auto
  then show ?case using 2 shift_less by simp
qed simp

definition pcount_do :: "64 word \<Rightarrow> 64 word" where
  "pcount_do x = pcount_do_loop x 0"

function pcount_goto_loop :: "64 word \<Rightarrow> 64 word \<Rightarrow> 64 word" where
  "pcount_goto_loop x result =
     (let result = result + (x AND 1); x = drop_bit 1 x in if x \<noteq> 0 then pcount_goto_loop x result else result)"
  by pat_completeness auto

termination
proof (relation "measure (\<lambda>(x, result). unat x)", goal_cases)
  case (2 x result r x1)
  then have "x \<noteq> 0" by auto
  then show ?case using 2 shift_less by simp
qed simp

definition pcount_goto :: "64 word \<Rightarrow> 64 word" where
  "pcount_goto x = pcount_goto_loop x 0"

function pcount_while_loop :: "64 word \<Rightarrow> 64 word \<Rightarrow> 64 word" where
  "pcount_while_loop x result = (if x \<noteq> 0 then pcount_while_loop (drop_bit 1 x) (result + (x AND 1)) else result)"
  by pat_completeness auto

termination
  by (relation "measure (\<lambda>(x, result). unat x)") (use shift_less in simp_all)

definition pcount_while :: "64 word \<Rightarrow> 64 word" where
  "pcount_while x = pcount_while_loop x 0"

definition pcount_goto_dw :: "64 word \<Rightarrow> 64 word" where
  "pcount_goto_dw x = (if x = 0 then 0 else pcount_goto_loop x 0)"

text \<open>Jump to the middle: the labels \<open>loop\<close> and \<open>test\<close>.\<close>

datatype label = Loop | Test

fun jtm_measure :: "label \<Rightarrow> nat \<Rightarrow> nat" where
  "jtm_measure Loop n = (if n = 0 then 1 else 2 * n)"
| "jtm_measure Test n = (if n = 0 then 0 else 2 * n + 1)"

function pcount_jtm :: "label \<Rightarrow> 64 word \<Rightarrow> 64 word \<Rightarrow> 64 word" where
  "pcount_jtm Loop x result = pcount_jtm Test (drop_bit 1 x) (result + (x AND 1))"
| "pcount_jtm Test x result = (if x \<noteq> 0 then pcount_jtm Loop x result else result)"
  by pat_completeness auto

termination
proof (relation "measure (\<lambda>(l, x, result). jtm_measure l (unat x))", goal_cases)
  case (2 x result)
  have "unat (drop_bit 1 x) = unat x div 2" by (simp add: drop_bit_eq_div unat_div)
  then show ?case by auto
qed (auto simp: unat_eq_0)

definition pcount_goto_jtm :: "64 word \<Rightarrow> 64 word" where
  "pcount_goto_jtm x = pcount_jtm Test x 0"

definition WSIZE :: nat where "WSIZE = 8 * 8"

definition bit_of :: "64 word \<Rightarrow> nat \<Rightarrow> 64 word" where
  "bit_of x i = ucast (ucast (drop_bit i x AND 1) :: 32 word)"

definition pcount_for :: "64 word \<Rightarrow> 64 word" where
  "pcount_for x = for_up 0 WSIZE (\<lambda>i result. result + bit_of x i) 0"

function for_dw_loop :: "64 word \<Rightarrow> nat \<Rightarrow> 64 word \<Rightarrow> 64 word" where
  "for_dw_loop x i result =
     (let result = result + bit_of x i; i = i + 1 in if i < WSIZE then for_dw_loop x i result else result)"
  by pat_completeness auto

termination
  by (relation "measure (\<lambda>(x, i, result). WSIZE - i)") auto

definition pcount_for_goto_dw :: "64 word \<Rightarrow> 64 word" where
  "pcount_for_goto_dw x = (if \<not> 0 < WSIZE then 0 else for_dw_loop x 0 0)"

function for_jtm :: "label \<Rightarrow> 64 word \<Rightarrow> nat \<Rightarrow> 64 word \<Rightarrow> 64 word" where
  "for_jtm Loop x i result = for_jtm Test x (i + 1) (result + bit_of x i)"
| "for_jtm Test x i result = (if i < WSIZE then for_jtm Loop x i result else result)"
  by pat_completeness auto

termination
  by (relation "measure (\<lambda>(l, x, i, result). (case l of Loop \<Rightarrow> 2 * (WSIZE - i) + (if i < WSIZE then 0 else 1)
    | Test \<Rightarrow> if i < WSIZE then 2 * (WSIZE - i) + 1 else 0))") (auto simp: WSIZE_def)

definition pcount_for_goto_jtm :: "64 word \<Rightarrow> 64 word" where
  "pcount_for_goto_jtm x = for_jtm Test x 0 0"

function pcount_r :: "64 word \<Rightarrow> 64 word" where
  "pcount_r x = (if x = 0 then 0 else (x AND 1) + pcount_r (drop_bit 1 x))"
  by pat_completeness auto

termination
  by (relation "measure unat") (use shift_less in simp_all)

declare pcount_do_loop.simps [simp del] pcount_goto_loop.simps [simp del] pcount_while_loop.simps [simp del]
  pcount_jtm.simps [simp del] for_dw_loop.simps [simp del] for_jtm.simps [simp del] pcount_r.simps [simp del]

section \<open>Switch statements\<close>

text \<open>Signed division; by zero, or when the quotient does not fit, it is undefined.\<close>

definition div_long :: "64 word \<Rightarrow> 64 word \<Rightarrow> 64 word option" where
  "div_long y z = (if z = 0 \<or> sint y = - (2 ^ 63) \<and> sint z = - 1 then None else Some (word_of_int (cdiv (sint y) (sint z))))"

definition switch_eg :: "64 word \<Rightarrow> 64 word \<Rightarrow> 64 word \<Rightarrow> 64 word option" where
  "switch_eg x y z = (let w = 1 in
     if x = 1 then Some (y * z)
     else if x = 2 then map_option (\<lambda>w. w + z) (div_long y z)
     else if x = 3 then Some (w + z)
     else if x = 5 \<or> x = 6 then Some (w - z)
     else Some 2)"

definition sparse_switch_eg :: "64 word \<Rightarrow> 64 word \<Rightarrow> 64 word \<Rightarrow> 64 word option" where
  "sparse_switch_eg x y z = (let w = 1 in
     if x = 100 then Some (y * z)
     else if x = 200 then map_option (\<lambda>w. w + z) (div_long y z)
     else if x = 300 then Some (w + z)
     else if x = 500 \<or> x = 600 then Some (w - z)
     else Some 2)"

section \<open>Bit counts\<close>

text \<open>The number of bits that are set.\<close>

definition pop :: "64 word \<Rightarrow> nat" where
  "pop x = card {n. bit x n}"

lemma bits_split: "{n. bit x n} = (if odd x then {0} else {}) \<union> Suc ` {n. bit (drop_bit 1 x) n}" for x :: "64 word"
proof -
  have "bit x n \<longleftrightarrow> n = 0 \<and> odd x \<or> (\<exists>m. n = Suc m \<and> bit (drop_bit 1 x) m)" for n
    by (cases n) (auto simp: bit_0 bit_drop_bit_eq)
  then show ?thesis by auto
qed

lemma finite_bits: "finite {n. bit x n}" for x :: "64 word"
  by (rule finite_subset [of _ "{..<64}"]) (auto dest: bit_imp_le_length)

lemma pop_step: "of_nat (pop x) = (x AND 1) + (of_nat (pop (drop_bit 1 x)) :: 64 word)"
proof -
  let ?B = "{n. bit (drop_bit 1 x) n}"
  have B: "finite ?B" "card (Suc ` ?B) = card ?B" by (rule finite_bits, simp add: card_image)
  have "card {n. bit x n} = card ((if odd x then {0} else {}) \<union> Suc ` ?B)" by (subst bits_split) (rule refl)
  also have "\<dots> = (if odd x then 1 else 0) + card ?B"
    using B by (cases "odd x") (simp_all only: if_True if_False card_insert_disjoint insert_is_Un [symmetric]
      finite_imageI image_iff nat.distinct bex_simps Un_empty_left card.empty simp_thms add_0 plus_1_eq_Suc)
  finally have "pop x = (if odd x then 1 else 0) + pop (drop_bit 1 x)" by (simp only: pop_def)
  moreover have "x AND 1 = (if odd x then 1 else 0)" by (simp add: and_one_eq odd_iff_mod_2_eq_one)
  ultimately show ?thesis by simp
qed

lemma pop_0 [simp]: "pop 0 = 0"
  by (simp add: pop_def)

lemma while_pop: "pcount_while_loop x r = r + of_nat (pop x)"
proof (induction x r rule: pcount_while_loop.induct)
  case (1 x r)
  then show ?case by (subst pcount_while_loop.simps) (simp add: pop_step [of x] add.assoc del: drop_bit_word_numeral)
qed

lemma do_pop: "pcount_do_loop x r = r + of_nat (pop x)"
proof (induction x r rule: pcount_do_loop.induct)
  case (1 x r)
  show ?case
  proof (cases "drop_bit 1 x = 0")
    case True
    then show ?thesis by (subst pcount_do_loop.simps) (simp add: pop_step [of x] Let_def)
  next
    case False
    then show ?thesis using 1 [OF refl refl False] by (subst pcount_do_loop.simps) (simp add: pop_step [of x] Let_def add.assoc)
  qed
qed

lemma goto_do: "pcount_goto_loop x r = pcount_do_loop x r"
proof (induction x r rule: pcount_goto_loop.induct)
  case (1 x r)
  show ?case
  proof (cases "drop_bit 1 x = 0")
    case True
    then show ?thesis by (subst pcount_goto_loop.simps, subst pcount_do_loop.simps) (simp add: Let_def)
  next
    case False
    then show ?thesis using 1 [OF refl refl False]
      by (subst pcount_goto_loop.simps, subst pcount_do_loop.simps) (simp add: Let_def)
  qed
qed

lemma jtm_pop: "pcount_jtm l x r = r + of_nat (pop x)"
proof (induction l x r rule: pcount_jtm.induct)
  case (1 x r)
  then show ?case by (subst pcount_jtm.simps) (simp add: pop_step [of x] add.assoc)
next
  case (2 x r)
  then show ?case by (cases "x = 0") (simp_all add: pcount_jtm.simps(2))
qed

lemma r_pop: "pcount_r x = of_nat (pop x)"
proof (induction x rule: pcount_r.induct)
  case (1 x)
  then show ?case by (subst pcount_r.simps) (simp add: pop_step [of x])
qed

lemma bit_of_eq: "bit_of x i = (if bit x i then 1 else 0)"
proof -
  have "drop_bit i x AND 1 = (if bit x i then 1 else 0)"
    by (simp add: and_one_eq odd_iff_mod_2_eq_one [symmetric] bit_iff_odd_drop_bit)
      (simp add: even_iff_mod_2_eq_zero)
  then show ?thesis by (simp add: bit_of_def)
qed

lemma for_pop: "pcount_for x = of_nat (pop x)"
proof -
  have "for_up 0 k (\<lambda>i result. result + bit_of x i) 0 = of_nat (card {n. n < k \<and> bit x n})" for k
  proof (induction k)
    case (Suc k)
    have "{n. n < Suc k \<and> bit x n} = (if bit x k then insert k {n. n < k \<and> bit x n} else {n. n < k \<and> bit x n})"
      by (auto simp: less_Suc_eq)
    then show ?case using Suc by (simp add: for_up_last bit_of_eq)
  qed (simp add: for_up_done)
  moreover have "{n. n < WSIZE \<and> bit x n} = {n. bit x n}" by (auto simp: WSIZE_def dest: bit_imp_le_length)
  ultimately show ?thesis by (simp add: pcount_for_def pop_def)
qed

lemma dw_for: "i < WSIZE \<Longrightarrow> for_dw_loop x i r = for_up i WSIZE (\<lambda>i result. result + bit_of x i) r"
proof (induction x i r rule: for_dw_loop.induct)
  case (1 x i r)
  show ?case
  proof (cases "Suc i < WSIZE")
    case True
    then show ?thesis using 1 by (subst for_dw_loop.simps) (simp add: for_up_step [of i])
  next
    case False
    then show ?thesis using 1 by (subst for_dw_loop.simps) (simp add: for_up_step [of i] for_up_done)
  qed
qed

lemma jtm_for:
  "for_jtm l x i r = (case l of Loop \<Rightarrow> for_up (Suc i) WSIZE (\<lambda>i result. result + bit_of x i) (r + bit_of x i)
     | Test \<Rightarrow> for_up i WSIZE (\<lambda>i result. result + bit_of x i) r)"
proof (induction l x i r rule: for_jtm.induct)
  case (1 x i r)
  then show ?case by (subst for_jtm.simps) simp
next
  case (2 x i r)
  then show ?case by (cases "i < WSIZE") (simp_all add: for_jtm.simps(2) for_up_step [of i] for_up_done)
qed

section \<open>Properties\<close>

text \<open>
  C35 (bit counts, equivalence).  The nine versions of the bit count (do, while and for loops,
  their translations with \<open>goto\<close> in the two styles, and the recursive one) return the same
  value, the number of bits set in the argument.
\<close>

theorem pcounts_agree:
  "pcount_do x = of_nat (card {n. bit x n}) \<and> pcount_goto x = of_nat (card {n. bit x n})
   \<and> pcount_while x = of_nat (card {n. bit x n}) \<and> pcount_goto_dw x = of_nat (card {n. bit x n})
   \<and> pcount_goto_jtm x = of_nat (card {n. bit x n}) \<and> pcount_for x = of_nat (card {n. bit x n})
   \<and> pcount_for_goto_dw x = of_nat (card {n. bit x n}) \<and> pcount_for_goto_jtm x = of_nat (card {n. bit x n})
   \<and> pcount_r x = of_nat (card {n. bit x n})"
proof -
  have "0 < WSIZE" by (simp add: WSIZE_def)
  then have "pcount_for_goto_dw x = pcount_for x" "pcount_for_goto_jtm x = pcount_for x"
    by (simp_all add: pcount_for_goto_dw_def pcount_for_goto_jtm_def pcount_for_def dw_for jtm_for)
  then show ?thesis unfolding pop_def [symmetric]
    by (simp add: pcount_do_def pcount_goto_def pcount_while_def pcount_goto_dw_def pcount_goto_jtm_def
        do_pop goto_do while_pop jtm_pop r_pop for_pop)
qed

lemma sint_diff_small:
  fixes x y :: "64 word"
  assumes "sint y \<le> sint x" "sint x - sint y < 2 ^ 63"
  shows "sint (x - y) = sint x - sint y"
proof -
  have "- (2 ^ 63) \<le> sint x - sint y" using assms(1) by simp
  moreover have "sint (x - y) = signed_take_bit 63 (sint x - sint y)"
    by (simp add: sint_word_ariths)
  ultimately show ?thesis using assms(2) by (simp add: signed_take_bit_int_eq_self)
qed

text \<open>
  Conditional code, equivalence. The three translations of \<open>absdiff\<close> (branch, inverted
  branch, conditional move) agree on all arguments, and the result is the distance of the two
  numbers whenever a \<open>long\<close> can represent it.
\<close>

theorem absdiff_versions:
  "absdiff_j x y = absdiff x y \<and> absdiff_cm x y = absdiff x y
   \<and> (\<bar>sint x - sint y\<bar> < 2 ^ 63 \<longrightarrow> sint (absdiff x y) = \<bar>sint x - sint y\<bar>)"
proof -
  have "absdiff_j x y = absdiff x y \<and> absdiff_cm x y = absdiff x y"
    by (auto simp: absdiff_def absdiff_j_def absdiff_cm_def Let_def)
  moreover have "sint (absdiff x y) = \<bar>sint x - sint y\<bar>" if "\<bar>sint x - sint y\<bar> < 2 ^ 63"
    using that sint_diff_small [of y x] sint_diff_small [of x y] by (auto simp: absdiff_def abs_if not_less split: if_splits)
  ultimately show ?thesis by blast
qed

theorem absdiff_versions_witness: "sint (absdiff (- 5) 7) = 12"
  using absdiff_versions [of "- 5" 7] by simp

text \<open>The sparse switch computes the same cases at other labels.\<close>

lemma sparse_switch_cases:
  "x \<in> {1, 2, 3, 5, 6} \<Longrightarrow> sparse_switch_eg (100 * x) y z = switch_eg x y z"
  by (auto simp: sparse_switch_eg_def switch_eg_def)

text \<open>Stores through pointers, also when the pointers are equal.\<close>

lemma swap_longs_swaps:
  assumes "m xp = Some a" "m yp = Some b"
  shows "\<exists>m'. swap_longs xp yp m = Some m' \<and> m' xp = Some b \<and> m' yp = Some a \<and> (\<forall>p. p \<notin> {xp, yp} \<longrightarrow> m' p = m p)"
  using assms by (auto simp: swap_longs_def)

lemma call_incr_values: "call_incr p m = Some 33426" "call_incr2 p x m = Some (x + 15213)"
  by (simp_all add: call_incr_def call_incr2_def incr_def)

end
