(* ===== verification/Arrays.thy ===== *)
theory Arrays
  imports Matmult
begin

text \<open>
  Programs on arrays: the columns, digits and linked records of \<open>08-machine-data\<close> and
  the optimisation examples of \<open>10-optimization\<close> except the vector type.  Where the code works through pointers that may point into
  one another, the arrays are parts of one memory; an access outside is \<open>None\<close>.
\<close>

section \<open>Columns of a matrix (array.c)\<close>

definition N16 :: nat where "N16 = 16"

definition IDX :: "nat \<Rightarrow> nat \<Rightarrow> nat \<Rightarrow> nat" where
  "IDX n i j = i * n + j"

definition fix_ele :: "32 word list \<Rightarrow> nat \<Rightarrow> nat \<Rightarrow> 32 word option" where
  "fix_ele a i j = rd a (int (i * N16 + j))"

definition var_ele :: "nat \<Rightarrow> 32 word list \<Rightarrow> nat \<Rightarrow> nat \<Rightarrow> 32 word option" where
  "var_ele n a i j = rd a (int (i * n + j))"

definition vec_ele :: "nat \<Rightarrow> 32 word list \<Rightarrow> nat \<Rightarrow> nat \<Rightarrow> 32 word option" where
  "vec_ele n a i j = rd a (int (IDX n i j))"

definition fix_column :: "32 word list \<Rightarrow> nat \<Rightarrow> 32 word list \<Rightarrow> 32 word list option" where
  "fix_column a j dest = for_m 0 N16 (\<lambda>i dest. do { x \<leftarrow> fix_ele a i j; wr dest (int i) x }) dest"

definition vec_column :: "nat \<Rightarrow> 32 word list \<Rightarrow> nat \<Rightarrow> 32 word list \<Rightarrow> 32 word list option" where
  "vec_column n a j dest = for_m 0 n (\<lambda>i dest. do { x \<leftarrow> rd a (int (IDX n i j)); wr dest (int i) x }) dest"

text \<open>The parameter of \<open>var_column\<close> is declared as a matrix of \<open>size_t\<close>.\<close>

definition var_column :: "nat \<Rightarrow> 64 word list \<Rightarrow> nat \<Rightarrow> 32 word list \<Rightarrow> 32 word list option" where
  "var_column n a j dest = for_m 0 n (\<lambda>i dest. do { x \<leftarrow> rd a (int (i * n + j)); wr dest (int i) (ucast x) }) dest"

partial_function (option) fix_column_p_loop ::
  "32 word list \<Rightarrow> int \<Rightarrow> int \<Rightarrow> int \<Rightarrow> 32 word list \<Rightarrow> 32 word list option" where
  "fix_column_p_loop a ap aend d dest = do {
     x \<leftarrow> rd a ap;
     dest1 \<leftarrow> wr dest d x;
     if ap + int N16 \<noteq> aend then fix_column_p_loop a (ap + int N16) aend (d + 1) dest1 else Some dest1 }"

definition fix_column_p :: "32 word list \<Rightarrow> nat \<Rightarrow> 32 word list \<Rightarrow> 32 word list option" where
  "fix_column_p a j dest = fix_column_p_loop a (int j) (int (N16 * N16 + j)) 0 dest"

partial_function (option) var_column_p_loop ::
  "nat \<Rightarrow> 32 word list \<Rightarrow> int \<Rightarrow> int \<Rightarrow> 32 word list \<Rightarrow> 32 word list option" where
  "var_column_p_loop n a ap d dest = (if d \<noteq> int n then do {
     x \<leftarrow> rd a ap;
     dest1 \<leftarrow> wr dest d x;
     var_column_p_loop n a (ap + int n) (d + 1) dest1 } else Some dest)"

definition var_column_p :: "nat \<Rightarrow> 32 word list \<Rightarrow> nat \<Rightarrow> 32 word list \<Rightarrow> 32 word list option" where
  "var_column_p n a j dest = var_column_p_loop n a (int j) 0 dest"

text \<open>The column as a list.\<close>

definition column_of :: "nat \<Rightarrow> 'a list \<Rightarrow> nat \<Rightarrow> nat \<Rightarrow> 'a" where
  "column_of n a j = (\<lambda>i. a ! (i * n + j))"

lemma column_index: "i < n \<Longrightarrow> j < n \<Longrightarrow> i * n + j < n * (n :: nat)"
proof -
  assume "i < n" "j < n"
  then have "i * n + j < Suc i * n" by simp
  also have "\<dots> \<le> n * n" using \<open>i < n\<close> by (intro mult_le_mono1) simp
  finally show ?thesis .
qed

lemma column_read:
  assumes "length a = n * n" "i < n" "j < n"
  shows "rd a (int (i * n + j)) = Some (column_of n a j i)"
  using column_index [OF assms(2,3)] assms(1) by (simp add: rd_nat column_of_def del: of_nat_add of_nat_mult)

lemma column_write: "n \<le> length dest \<Longrightarrow> i < n \<Longrightarrow> wr (written dest 0 f i) (int i) (f i) = Some (written dest 0 f (Suc i))"
  using wr_written [of 0 i dest f] by simp

lemma vec_column_value:
  assumes "length a = n * n" "j < n" "n \<le> length dest"
  shows "vec_column n a j dest = Some (written dest 0 (column_of n a j) n)"
  unfolding vec_column_def IDX_def
  by (rule for_m_follows [where f = "written dest 0 (column_of n a j)"]) (use assms in \<open>simp_all add: column_read column_write del: of_nat_add of_nat_mult\<close>)

lemma fix_column_eq: "fix_column a j dest = vec_column N16 a j dest"
  by (simp add: fix_column_def vec_column_def fix_ele_def IDX_def)

lemma var_column_value:
  assumes "length a = n * n" "j < n" "n \<le> length dest"
  shows "var_column n a j dest = Some (written dest 0 (column_of n (map ucast a) j) n)"
proof -
  have "(ucast (column_of n a j i) :: 32 word) = column_of n (map ucast a) j i" if "i < n" for i
    using column_index [OF that assms(2)] assms(1) by (simp add: column_of_def)
  then show ?thesis unfolding var_column_def
    using column_write [OF assms(3), of _ "column_of n (map ucast a) j"]
    by (intro for_m_follows [where f = "written dest 0 (column_of n (map ucast a) j)"]) (simp_all add: column_read [OF assms(1) _ assms(2)] del: of_nat_add of_nat_mult)
qed

lemma var_column_p_value:
  assumes "length a = n * n" "j < n" "n \<le> length dest"
  shows "var_column_p n a j dest = Some (written dest 0 (column_of n a j) n)"
proof -
  have "var_column_p_loop n a (int (i * n + j)) (int i) (written dest 0 (column_of n a j) i)
      = Some (written dest 0 (column_of n a j) n)" if "i \<le> n" for i
    using that
  proof (induction i rule: inc_induct)
    case base
    then show ?case by (subst var_column_p_loop.simps) simp
  next
    case (step i)
    have e: "int (i * n + j) + int n = int (Suc i * n + j)" "int i + 1 = int (Suc i)" by simp_all
    show ?case
      using step column_read [OF assms(1) _ assms(2), of i] column_write [OF assms(3), of i "column_of n a j"]
      by (subst var_column_p_loop.simps) (simp add: e del: of_nat_add of_nat_mult of_nat_Suc)
  qed
  from this [of 0] show ?thesis by (simp add: var_column_p_def)
qed

lemma fix_column_p_value:
  assumes "length a = N16 * N16" "j < N16" "N16 \<le> length dest"
  shows "fix_column_p a j dest = Some (written dest 0 (column_of N16 a j) N16)"
proof -
  have "fix_column_p_loop a (int (i * N16 + j)) (int (N16 * N16 + j)) (int i) (written dest 0 (column_of N16 a j) i)
      = Some (written dest 0 (column_of N16 a j) N16)" if "i < N16" for i
    using that
  proof (induction "N16 - i" arbitrary: i)
    case (Suc m)
    have e: "int (i * N16 + j) + int N16 = int (Suc i * N16 + j)" "int i + 1 = int (Suc i)" by simp_all
    have ne: "Suc i * N16 + j \<noteq> N16 * N16 + j" if "Suc i \<noteq> N16" using that by (auto simp: N16_def)
    show ?case
    proof (cases "Suc i = N16")
      case True
      then show ?thesis
        using column_read [OF assms(1) Suc.prems assms(2)] column_write [OF assms(3) Suc.prems, of "column_of N16 a j"]
        by (subst fix_column_p_loop.simps) (simp add: e del: of_nat_add of_nat_mult of_nat_Suc)
    next
      case False
      have "fix_column_p_loop a (int (Suc i * N16 + j)) (int (N16 * N16 + j)) (int (Suc i)) (written dest 0 (column_of N16 a j) (Suc i))
        = Some (written dest 0 (column_of N16 a j) N16)" using Suc False by (intro Suc.hyps(1)) auto
      then show ?thesis
        using column_read [OF assms(1) Suc.prems assms(2)] column_write [OF assms(3) Suc.prems, of "column_of N16 a j"] ne [OF False]
        by (subst fix_column_p_loop.simps) (simp add: e del: of_nat_add of_nat_mult of_nat_Suc mult_Suc)
    qed
  qed simp
  from this [of 0] show ?thesis by (simp add: fix_column_p_def N16_def)
qed

lemma written_whole: "n \<le> length dest \<Longrightarrow> written dest 0 f n = map f [0..<n] @ drop n dest"
  by (simp add: written_def blit_def)

text \<open>
  Array.c, equivalence. The five ways to retrieve a column (indexed with a fixed or a
  variable bound, computed index, and two loops over pointers) stay inside the arrays and
  store the same column.
\<close>

theorem columns_agree:
  assumes "length a = 16 * 16" "j < 16" "16 \<le> length dest"
  shows "fix_column a j dest = Some (map (\<lambda>i. a ! (i * 16 + j)) [0..<16] @ drop 16 dest)
    \<and> vec_column 16 a j dest = fix_column a j dest \<and> fix_column_p a j dest = fix_column a j dest
    \<and> var_column_p 16 a j dest = fix_column a j dest
    \<and> var_column 16 (map ucast a) j dest = fix_column a j dest"
proof -
  have n: "N16 = 16" by (simp add: N16_def)
  have u: "map ucast (map (ucast :: 32 word \<Rightarrow> 64 word) a) = a"
  proof -
    have "ucast (ucast x :: 64 word) = x" for x :: "32 word" by (rule bit_word_eqI) (simp add: bit_simps)
    then show ?thesis by (simp add: comp_def map_idI)
  qed
  have "var_column 16 (map ucast a) j dest = Some (written dest 0 (column_of 16 (map ucast (map (ucast :: 32 word \<Rightarrow> 64 word) a)) j) 16)"
    by (rule var_column_value) (use assms in simp_all)
  then show ?thesis
    using vec_column_value [OF assms] var_column_p_value [OF assms] fix_column_p_value [unfolded n, OF assms] written_whole [OF assms(3)]
    by (simp only: u fix_column_eq n) (simp add: column_of_def)
qed

theorem columns_agree_witness:
  "fix_column_p (map word_of_nat [0..<256]) 3 (replicate 16 0) = fix_column (map word_of_nat [0..<256]) 3 (replicate 16 0)"
  using columns_agree [of "map word_of_nat [0..<256]" 3 "replicate 16 0"] by simp

section \<open>Digits (zip.c)\<close>

definition ZLEN :: nat where "ZLEN = 5"

definition cmu :: "32 word list" where "cmu = [1, 5, 2, 1, 3]"
definition mit :: "32 word list" where "mit = [0, 2, 1, 3, 9]"
definition ucb :: "32 word list" where "ucb = [9, 4, 7, 2, 0]"

definition get_digit :: "32 word list \<Rightarrow> nat \<Rightarrow> 32 word option" where
  "get_digit z dig = rd z (int dig)"

definition bump :: "32 word list \<Rightarrow> int \<Rightarrow> 32 word list option" where
  "bump z i = do { x \<leftarrow> rd z i; wr z i (x + 1) }"

definition zincr :: "32 word list \<Rightarrow> 32 word list option" where
  "zincr z = for_m 0 ZLEN (\<lambda>i z. bump z (int i)) z"

partial_function (option) zincr_p_loop :: "int \<Rightarrow> int \<Rightarrow> 32 word list \<Rightarrow> 32 word list option" where
  "zincr_p_loop p zend z = do {
     z1 \<leftarrow> bump z p;
     if p + 1 \<noteq> zend then zincr_p_loop (p + 1) zend z1 else Some z1 }"

definition zincr_p :: "32 word list \<Rightarrow> 32 word list option" where
  "zincr_p z = zincr_p_loop 0 (int ZLEN) z"

definition ISIZE :: int where "ISIZE = 4"

text \<open>The version on a \<open>void\<close> pointer counts bytes.\<close>

partial_function (option) zincr_v_loop :: "int \<Rightarrow> 32 word list \<Rightarrow> 32 word list option" where
  "zincr_v_loop i z = do {
     z1 \<leftarrow> (if i mod ISIZE = 0 then bump z (i div ISIZE) else None);
     if i + ISIZE \<noteq> ISIZE * int ZLEN then zincr_v_loop (i + ISIZE) z1 else Some z1 }"

definition zincr_v :: "32 word list \<Rightarrow> 32 word list option" where
  "zincr_v z = zincr_v_loop 0 z"

definition pgh :: "32 word list list" where
  "pgh = [[1, 5, 2, 0, 6], [1, 5, 2, 1, 3], [1, 5, 2, 1, 7], [1, 5, 2, 2, 1]]"

text \<open>The rows of \<open>pgh\<close> are contiguous, the rows of \<open>univ\<close> are reached through pointers.\<close>

definition get_pgh_digit :: "nat \<Rightarrow> nat \<Rightarrow> 32 word option" where
  "get_pgh_digit index dig = rd (concat pgh) (int (index * ZLEN + dig))"

definition univ :: "32 word list list" where
  "univ = [mit, cmu, ucb]"

definition get_univ_digit :: "nat \<Rightarrow> nat \<Rightarrow> 32 word option" where
  "get_univ_digit index dig = do { z \<leftarrow> rd univ (int index); rd z (int dig) }"

lemma bump_written:
  assumes "i < length z"
  shows "bump (written z 0 (\<lambda>i. z ! i + 1) i) (int i) = Some (written z 0 (\<lambda>i. z ! i + 1) (Suc i))"
  using assms wr_written [of 0 i z "\<lambda>i. z ! i + 1"] by (simp add: bump_def rd_nat written_nth)

lemma written_map: "length z = n \<Longrightarrow> written z 0 (\<lambda>i. g (z ! i)) n = map g z"
  by (rule nth_equalityI) (simp_all add: written_nth)

lemma zincr_p_from:
  assumes "i < length z"
  shows "zincr_p_loop (int i) (int (length z)) (written z 0 (\<lambda>i. z ! i + 1) i) = Some (written z 0 (\<lambda>i. z ! i + 1) (length z))"
  using assms
proof (induction "length z - i" arbitrary: i)
  case (Suc m)
  have e: "int i + 1 = int (Suc i)" by simp
  show ?case
  proof (cases "Suc i = length z")
    case True
    then show ?thesis using bump_written [OF Suc.prems] by (subst zincr_p_loop.simps) (simp add: e del: of_nat_Suc)
  next
    case False
    then have "zincr_p_loop (int (Suc i)) (int (length z)) (written z 0 (\<lambda>i. z ! i + 1) (Suc i)) = Some (written z 0 (\<lambda>i. z ! i + 1) (length z))"
      using Suc by (intro Suc.hyps(1)) auto
    then show ?thesis using bump_written [OF Suc.prems] False by (subst zincr_p_loop.simps) (simp add: e del: of_nat_Suc)
  qed
qed simp

lemma zincr_v_from:
  assumes "i < length z" "length z = ZLEN"
  shows "zincr_v_loop (ISIZE * int i) (written z 0 (\<lambda>i. z ! i + 1) i) = Some (written z 0 (\<lambda>i. z ! i + 1) (length z))"
  using assms(1)
proof (induction "length z - i" arbitrary: i)
  case (Suc m)
  have e: "ISIZE * int i + ISIZE = ISIZE * int (Suc i)" "ISIZE * int i mod ISIZE = 0" "ISIZE * int i div ISIZE = int i"
    by (simp_all add: ISIZE_def)
  show ?case
  proof (cases "Suc i = length z")
    case True
    then show ?thesis using bump_written [OF Suc.prems] assms(2) by (subst zincr_v_loop.simps) (simp add: e del: of_nat_Suc)
  next
    case False
    then have "zincr_v_loop (ISIZE * int (Suc i)) (written z 0 (\<lambda>i. z ! i + 1) (Suc i)) = Some (written z 0 (\<lambda>i. z ! i + 1) (length z))"
      using Suc by (intro Suc.hyps(1)) auto
    moreover have "ISIZE * int (Suc i) \<noteq> ISIZE * int ZLEN" using False assms(2) by (simp add: ISIZE_def del: of_nat_Suc)
    ultimately show ?thesis using bump_written [OF Suc.prems] by (subst zincr_v_loop.simps) (simp add: e del: of_nat_Suc)
  qed
qed simp

lemma zincr_versions:
  assumes "length z = ZLEN"
  shows "zincr z = Some (map (\<lambda>x. x + 1) z)" "zincr_p z = Some (map (\<lambda>x. x + 1) z)" "zincr_v z = Some (map (\<lambda>x. x + 1) z)"
proof -
  have pos: "0 < length z" using assms by (simp add: ZLEN_def)
  have w: "written z 0 (\<lambda>i. z ! i + 1) (length z) = map (\<lambda>x. x + 1) z" by (rule written_map) simp
  have "zincr z = Some (written z 0 (\<lambda>i. z ! i + 1) (length z))"
    unfolding zincr_def assms [symmetric]
    by (rule for_m_follows [where f = "written z 0 (\<lambda>i. z ! i + 1)"]) (simp_all add: bump_written)
  then show "zincr z = Some (map (\<lambda>x. x + 1) z)" using w by simp
  show "zincr_p z = Some (map (\<lambda>x. x + 1) z)" using zincr_p_from [OF pos] assms w by (simp add: zincr_p_def)
  show "zincr_v z = Some (map (\<lambda>x. x + 1) z)" using zincr_v_from [OF pos assms] w by (simp add: zincr_v_def)
qed

lemma get_pgh_digit_row: "index < 4 \<Longrightarrow> dig < 5 \<Longrightarrow> get_pgh_digit index dig = Some (pgh ! index ! dig)"
  by (auto simp: less_Suc_eq numeral_eq_Suc get_pgh_digit_def pgh_def ZLEN_def rd_def)

text \<open>An index past the row reads the next row of \<open>pgh\<close> but leaves the array of \<open>univ\<close>.\<close>

lemma digit_past_row: "get_pgh_digit 0 5 = Some 1" "get_univ_digit 0 5 = None"
  by (simp_all add: get_pgh_digit_def get_univ_digit_def pgh_def univ_def mit_def ZLEN_def rd_def)

section \<open>Linked records (structure.c)\<close>

record rec_node =
  arr :: "32 word list"
  idx :: "64 word"
  next_rec :: nat

type_synonym rec_heap = "nat \<rightharpoonup> rec_node"

definition set_i :: "nat \<Rightarrow> 64 word \<Rightarrow> rec_heap \<Rightarrow> rec_heap option" where
  "set_i r val h = map_option (\<lambda>n. h(r \<mapsto> n\<lparr>idx := val\<rparr>)) (h r)"

text \<open>A null pointer is 0; a cyclic list without the value keeps the loop running.\<close>

partial_function (option) check_val :: "rec_heap \<Rightarrow> nat \<Rightarrow> 32 word \<Rightarrow> 32 word option" where
  "check_val h r val = (if r \<noteq> 0 then do {
     n \<leftarrow> h r;
     x \<leftarrow> rd (arr n) (uint (idx n));
     if x = val then Some 1 else check_val h (next_rec n) val } else Some 0)"

text \<open>Here the index is converted to \<open>int\<close> first.\<close>

partial_function (option) set_val :: "nat \<Rightarrow> 32 word \<Rightarrow> rec_heap \<Rightarrow> rec_heap option" where
  "set_val r val h = (if r \<noteq> 0 then do {
     n \<leftarrow> h r;
     a \<leftarrow> wr (arr n) (sint (ucast (idx n) :: 32 word)) val;
     set_val (next_rec n) val (h(r \<mapsto> n\<lparr>arr := a\<rparr>)) } else Some h)"

text \<open>The nodes of a list that ends, with indices inside the arrays.\<close>

inductive recs_from :: "rec_heap \<Rightarrow> nat \<Rightarrow> nat list \<Rightarrow> bool" for h where
  rec_nil: "recs_from h 0 []"
| rec_cons: "r \<noteq> 0 \<Longrightarrow> h r = Some n \<Longrightarrow> length (arr n) = 4 \<Longrightarrow> uint (idx n) < 4 \<Longrightarrow>
    recs_from h (next_rec n) ps \<Longrightarrow> recs_from h r (r # ps)"

inductive_cases recs_from_consE: "recs_from h r (p # ps)"
inductive_cases recs_from_nilE: "recs_from h r []"

definition current_val :: "rec_heap \<Rightarrow> nat \<Rightarrow> 32 word option" where
  "current_val h p = map_option (\<lambda>n. arr n ! nat (uint (idx n))) (h p)"

lemma check_val_value:
  assumes "recs_from h r ps"
  shows "check_val h r val = Some (if Some val \<in> current_val h ` set ps then 1 else 0)"
  using assms
proof induction
  case rec_nil
  then show ?case by (subst check_val.simps) simp
next
  case (rec_cons r n ps)
  then show ?case by (subst check_val.simps) (auto simp: rd_def current_val_def)
qed

lemma small_index: "uint i < 4 \<Longrightarrow> sint (ucast i :: 32 word) = uint i" for i :: "64 word"
proof -
  assume i: "uint i < 4"
  have "uint (ucast i :: 32 word) = uint i" using i by (simp add: unsigned_ucast_eq take_bit_int_eq_self)
  moreover have "signed_take_bit 31 (uint i) = uint i"
  proof (rule signed_take_bit_int_eq_self)
    show "- (2 ^ 31) \<le> uint i" by (rule order_trans [OF _ uint_ge_0]) simp
    show "uint i < 2 ^ 31" using i by simp
  qed
  ultimately show ?thesis by (simp add: sint_uint)
qed

lemma recs_from_frame:
  assumes "recs_from h r ps" "\<And>p. p \<in> set ps \<Longrightarrow> h' p = h p"
  shows "recs_from h' r ps"
  using assms by induction (auto intro: recs_from.intros)

lemma set_val_value:
  assumes "recs_from h r ps" "distinct ps"
  shows "\<exists>h'. set_val r val h = Some h' \<and> recs_from h' r ps \<and> (\<forall>p \<in> set ps. current_val h' p = Some val)
    \<and> (\<forall>p. p \<notin> set ps \<longrightarrow> h' p = h p)"
  using assms
proof (induction ps arbitrary: h r rule: list.induct)
  case Nil
  then have "r = 0" by (auto elim: recs_from_nilE)
  then show ?case using Nil by (subst set_val.simps) simp
next
  case (Cons p ps)
  obtain n where n: "p = r" "r \<noteq> 0" "h r = Some n" "length (arr n) = 4" "uint (idx n) < 4" "recs_from h (next_rec n) ps"
    using Cons.prems(1) by (auto elim: recs_from_consE)
  define n1 where "n1 = n\<lparr>arr := (arr n)[nat (uint (idx n)) := val]\<rparr>"
  have r: "r \<notin> set ps" "distinct ps" using Cons.prems(2) n(1) by auto
  have "recs_from (h(r \<mapsto> n1)) (next_rec n) ps" by (rule recs_from_frame [OF n(6)]) (use r(1) in auto)
  then obtain h' where h': "set_val (next_rec n) val (h(r \<mapsto> n1)) = Some h'" "recs_from h' (next_rec n) ps"
    "\<forall>p \<in> set ps. current_val h' p = Some val" "\<forall>p. p \<notin> set ps \<longrightarrow> h' p = (h(r \<mapsto> n1)) p"
    using Cons.IH r(2) by blast
  have "h' r = Some n1" using h'(4) r(1) by simp
  have u: "unat (idx n) < 4" 
  proof -
    have "int (unat (idx n)) = uint (idx n)" by simp
    then show ?thesis using n(5) by linarith
  qed
  have "recs_from h' r (r # ps)" "current_val h' r = Some val"
    using n h'(2) u \<open>h' r = Some n1\<close> by (auto simp: n1_def current_val_def intro!: recs_from.rec_cons)
  moreover have "set_val r val h = Some h'"
    using n h'(1) by (subst set_val.simps) (simp add: wr_def small_index n1_def)
  ultimately show ?case using h'(3,4) n(1) by auto
qed

text \<open>
  Structure.c, round trip. \<open>set_val\<close> on a list of distinct records with valid indices ends,
  touches no other record, and afterwards \<open>check_val\<close> finds the value in a nonempty list and
  finds no other value.
\<close>

theorem set_val_check_val:
  assumes "recs_from h r ps" "distinct ps" "ps \<noteq> []"
  shows "\<exists>h'. set_val r val h = Some h' \<and> check_val h' r x = Some (if x = val then 1 else 0)
    \<and> (\<forall>p. p \<notin> set ps \<longrightarrow> h' p = h p)"
proof -
  obtain h' where h': "set_val r val h = Some h'" "recs_from h' r ps" "\<forall>p \<in> set ps. current_val h' p = Some val"
    "\<forall>p. p \<notin> set ps \<longrightarrow> h' p = h p" using set_val_value [OF assms(1,2)] by blast
  have "current_val h' ` set ps = {Some val}" using h'(3) assms(3) by (auto simp: image_iff neq_Nil_conv)
  then show ?thesis using h' check_val_value [OF h'(2), of x] by auto
qed

definition demo_recs :: rec_heap where
  "demo_recs = [1 \<mapsto> \<lparr>arr = [0, 0, 0, 0], idx = 2, next_rec = 5\<rparr>, 5 \<mapsto> \<lparr>arr = [1, 2, 3, 4], idx = 0, next_rec = 0\<rparr>]"

theorem set_val_check_val_witness:
  "\<exists>h'. set_val 1 9 demo_recs = Some h' \<and> check_val h' 1 9 = Some 1"
proof -
  have "recs_from demo_recs 1 [1, 5]" by (auto simp: demo_recs_def intro!: recs_from.intros)
  from set_val_check_val [OF this, of 9 9] show ?thesis by auto
qed

section \<open>Sums of rows and neighbours (sum_rows.c, set_row.c, subexpr.c)\<close>

text \<open>
  One memory of doubles; \<open>a\<close> and \<open>b\<close> are positions in it.  The arithmetic is arbitrary.
\<close>

definition sum_rows1 :: "'d arith \<Rightarrow> nat \<Rightarrow> nat \<Rightarrow> nat \<Rightarrow> 'd list \<Rightarrow> 'd list option" where
  "sum_rows1 f a b n m = for_m 0 n (\<lambda>i m. do {
     m1 \<leftarrow> wr m (int (b + i)) (zero_of f);
     for_m 0 n (\<lambda>j m. do {
       x \<leftarrow> rd m (int (b + i)); y \<leftarrow> rd m (int (a + (i * n + j))); wr m (int (b + i)) (plus_of f x y) }) m1 }) m"

definition sum_rows2 :: "'d arith \<Rightarrow> nat \<Rightarrow> nat \<Rightarrow> nat \<Rightarrow> 'd list \<Rightarrow> 'd list option" where
  "sum_rows2 f a b n m = for_m 0 n (\<lambda>i m. do {
     val \<leftarrow> for_m 0 n (\<lambda>j val. do { y \<leftarrow> rd m (int (a + (i * n + j))); Some (plus_of f val y) }) (zero_of f);
     wr m (int (b + i)) val }) m"

definition set_row :: "nat \<Rightarrow> nat \<Rightarrow> nat \<Rightarrow> nat \<Rightarrow> 'd list \<Rightarrow> 'd list option" where
  "set_row a b i n m = for_m 0 n (\<lambda>j m. do { y \<leftarrow> rd m (int (b + j)); wr m (int (a + (n * i + j))) y }) m"

definition sum_neighbors :: "64 word list \<Rightarrow> int \<Rightarrow> int \<Rightarrow> int \<Rightarrow> 64 word option" where
  "sum_neighbors val i j n = do {
     up \<leftarrow> rd val ((i - 1) * n + j);
     down \<leftarrow> rd val ((i + 1) * n + j);
     left \<leftarrow> rd val (i * n + j - 1);
     right \<leftarrow> rd val (i * n + j + 1);
     Some (up + down + left + right) }"

definition sum_neighbors_opt :: "64 word list \<Rightarrow> int \<Rightarrow> int \<Rightarrow> int \<Rightarrow> 64 word option" where
  "sum_neighbors_opt val i j n = (let inj = i * n + j in do {
     up \<leftarrow> rd val (inj - n);
     down \<leftarrow> rd val (inj + n);
     left \<leftarrow> rd val (inj - 1);
     right \<leftarrow> rd val (inj + 1);
     Some (up + down + left + right) })"

lemma sum_neighbors_opt_eq: "sum_neighbors_opt val i j n = sum_neighbors val i j n"
  by (simp add: sum_neighbors_opt_def sum_neighbors_def Let_def algebra_simps)

text \<open>The sum of one row, added from the left.\<close>

definition row_sum :: "'d arith \<Rightarrow> 'd list \<Rightarrow> nat \<Rightarrow> nat \<Rightarrow> nat \<Rightarrow> nat \<Rightarrow> 'd" where
  "row_sum f m a n i k = fold (\<lambda>j v. plus_of f v (m ! (a + (i * n + j)))) [0..<k] (zero_of f)"

lemma row_sum_Suc: "row_sum f m a n i (Suc k) = plus_of f (row_sum f m a n i k) (m ! (a + (i * n + k)))"
  by (simp add: row_sum_def)

text \<open>What both programs have written after \<open>k\<close> rows when the arrays do not overlap.\<close>

definition disjoint_rows :: "nat \<Rightarrow> nat \<Rightarrow> nat \<Rightarrow> 'd list \<Rightarrow> bool" where
  "disjoint_rows a b n m \<longleftrightarrow> a + n * n \<le> length m \<and> b + n \<le> length m \<and> (b + n \<le> a \<or> a + n * n \<le> b)"

lemma row_position:
  assumes "disjoint_rows a b n m" "i < n" "j < n" "k \<le> n"
  shows "a + (i * n + j) < length m" "written m b g k ! (a + (i * n + j)) = m ! (a + (i * n + j))"
proof -
  have lt: "i * n + j < n * n" by (rule column_index [OF assms(2,3)])
  then show l: "a + (i * n + j) < length m" using assms(1) by (simp add: disjoint_rows_def)
  show "written m b g k ! (a + (i * n + j)) = m ! (a + (i * n + j))"
    using lt l assms(1,4) by (subst written_nth) (auto simp: disjoint_rows_def)
qed

lemma sum_rows2_value:
  assumes d: "disjoint_rows a b n m"
  shows "sum_rows2 f a b n m = Some (written m b (\<lambda>i. row_sum f m a n i n) n)"
  unfolding sum_rows2_def
proof (rule for_m_follows [where f = "written m b (\<lambda>i. row_sum f m a n i n)"])
  fix i assume i: "i < n"
  let ?m = "written m b (\<lambda>i. row_sum f m a n i n) i"
  have len: "length ?m = length m" using d i by (intro length_written) (simp add: disjoint_rows_def)
  have "for_m 0 n (\<lambda>j val. do { y \<leftarrow> rd ?m (int (a + (i * n + j))); Some (plus_of f val y) }) (zero_of f)
      = Some (row_sum f m a n i n)"
  proof (rule for_m_follows [where f = "row_sum f m a n i"])
    fix j assume j: "j < n"
    have "rd ?m (int (a + (i * n + j))) = Some (m ! (a + (i * n + j)))"
      using row_position [OF d i j, of i] i len by (simp only: rd_nat less_imp_le)
    then show "do { y \<leftarrow> rd ?m (int (a + (i * n + j))); Some (plus_of f (row_sum f m a n i j) y) } = Some (row_sum f m a n i (Suc j))"
      by (simp only: bind.bind_lunit row_sum_Suc)
  qed (simp_all add: row_sum_def)
  moreover have "wr ?m (int (b + i)) (row_sum f m a n i n) = Some (written m b (\<lambda>i. row_sum f m a n i n) (Suc i))"
    using wr_written [of b i m "\<lambda>i. row_sum f m a n i n"] d i by (simp add: disjoint_rows_def)
  ultimately show "do { val \<leftarrow> for_m 0 n (\<lambda>j val. do { y \<leftarrow> rd ?m (int (a + (i * n + j))); Some (plus_of f val y) }) (zero_of f);
      wr ?m (int (b + i)) val } = Some (written m b (\<lambda>i. row_sum f m a n i n) (Suc i))"
    by (simp only: bind.bind_lunit)
qed simp_all

lemma sum_rows1_value:
  assumes d: "disjoint_rows a b n m"
  shows "sum_rows1 f a b n m = Some (written m b (\<lambda>i. row_sum f m a n i n) n)"
  unfolding sum_rows1_def
proof (rule for_m_follows [where f = "written m b (\<lambda>i. row_sum f m a n i n)"])
  fix i assume i: "i < n"
  let ?m = "written m b (\<lambda>i. row_sum f m a n i n) i"
  let ?step = "\<lambda>j m. do { x \<leftarrow> rd m (int (b + i)); y \<leftarrow> rd m (int (a + (i * n + j))); wr m (int (b + i)) (plus_of f x y) }"
  have len: "length ?m = length m" using d i by (intro length_written) (simp add: disjoint_rows_def)
  have bi: "b + i < length m" using d i by (simp add: disjoint_rows_def)
  have "for_m 0 n ?step (?m[b + i := zero_of f]) = Some (?m[b + i := row_sum f m a n i n])"
  proof (rule for_m_follows [where f = "\<lambda>j. ?m[b + i := row_sum f m a n i j]"])
    fix j assume j: "j < n"
    have pos: "a + (i * n + j) < length m" "a + (i * n + j) \<noteq> b + i" "?m ! (a + (i * n + j)) = m ! (a + (i * n + j))"
      using row_position [OF d i j, of i] i column_index [OF i j] d by (auto simp: disjoint_rows_def)
    have "rd (?m[b + i := row_sum f m a n i j]) (int (b + i)) = Some (row_sum f m a n i j)"
      using bi len by (simp only: rd_nat length_list_update nth_list_update_eq)
    moreover have "rd (?m[b + i := row_sum f m a n i j]) (int (a + (i * n + j))) = Some (m ! (a + (i * n + j)))"
      using pos len by (simp only: rd_nat length_list_update nth_list_update_neq [OF pos(2) [symmetric]])
    moreover have "wr (?m[b + i := row_sum f m a n i j]) (int (b + i)) (row_sum f m a n i (Suc j)) = Some (?m[b + i := row_sum f m a n i (Suc j)])"
      using bi len by (simp only: wr_nat length_list_update list_update_overwrite)
    ultimately show "?step j (?m[b + i := row_sum f m a n i j]) = Some (?m[b + i := row_sum f m a n i (Suc j)])"
      by (simp only: bind.bind_lunit row_sum_Suc)
  qed (simp_all add: row_sum_def)
  moreover have "wr ?m (int (b + i)) (zero_of f) = Some (?m[b + i := zero_of f])"
    using bi len by (simp only: wr_nat)
  moreover have "?m[b + i := row_sum f m a n i n] = written m b (\<lambda>i. row_sum f m a n i n) (Suc i)"
    using written_Suc [of b i m "\<lambda>i. row_sum f m a n i n"] bi by simp
  ultimately show "do { m1 \<leftarrow> wr ?m (int (b + i)) (zero_of f); for_m 0 n ?step m1 } = Some (written m b (\<lambda>i. row_sum f m a n i n) (Suc i))"
    by (simp only: bind.bind_lunit)
qed simp_all

text \<open>
  Sum_rows.c, equivalence. When the matrix and the vector do not overlap, both programs
  stay in bounds and store the same row sums, for every arithmetic; moving the accumulation
  to a local variable changes nothing.  When the vector lies inside the matrix the two
  programs compute different results.
\<close>

theorem sum_rows_versions:
  assumes "disjoint_rows a b n m"
  shows "sum_rows1 f a b n m = sum_rows2 f a b n m
    \<and> sum_rows2 f a b n m = Some (blit m b (map (\<lambda>i. row_sum f m a n i n) [0..<n]))
    \<and> sum_rows1 exact 0 3 3 [0, 1, 2, 4, 8, 16, 32, 64, 128] = Some [0, 1, 2, 3, 22, 224, 32, 64, 128 :: int]
    \<and> sum_rows2 exact 0 3 3 [0, 1, 2, 4, 8, 16, 32, 64, 128] = Some [0, 1, 2, 3, 27, 224, 32, 64, 128 :: int]"
  using sum_rows1_value [OF assms] sum_rows2_value [OF assms]
  by (simp add: written_def) (simp add: sum_rows1_def sum_rows2_def for_m_def upt_rec rd_def wr_def exact_def)

theorem sum_rows_versions_witness:
  "sum_rows1 exact 0 4 2 [1, 2, 3, 4, 9, 9] = sum_rows2 exact 0 4 2 [1, 2, 3, 4, 9, 9 :: int]"
  using sum_rows_versions [of 0 4 2 "[1, 2, 3, 4, 9, 9 :: int]" exact] by (simp add: disjoint_rows_def)

section \<open>Lower case (lower.c)\<close>

partial_function (option) strlen_c :: "8 word list \<Rightarrow> nat \<Rightarrow> nat \<Rightarrow> nat option" where
  "strlen_c mem s len = do { c \<leftarrow> rd mem (int s); if c \<noteq> 0 then strlen_c mem (s + 1) (len + 1) else Some len }"

text \<open>\<open>char\<close> is signed; \<open>'A' - 'a'\<close> is -32.\<close>

definition lower_char :: "8 word \<Rightarrow> 8 word" where
  "lower_char c = (if 65 \<le> sint c \<and> sint c \<le> 90 then c - (65 - 97) else c)"

definition lower_at :: "nat \<Rightarrow> nat \<Rightarrow> 8 word list \<Rightarrow> 8 word list option" where
  "lower_at s i mem = do { c \<leftarrow> rd mem (int (s + i)); wr mem (int (s + i)) (lower_char c) }"

partial_function (option) lower1_loop :: "nat \<Rightarrow> nat \<Rightarrow> 8 word list \<Rightarrow> 8 word list option" where
  "lower1_loop s i mem = do {
     len \<leftarrow> strlen_c mem s 0;
     if i < len then do { mem1 \<leftarrow> lower_at s i mem; lower1_loop s (i + 1) mem1 } else Some mem }"

definition lower1 :: "nat \<Rightarrow> 8 word list \<Rightarrow> 8 word list option" where
  "lower1 s mem = lower1_loop s 0 mem"

definition lower2 :: "nat \<Rightarrow> 8 word list \<Rightarrow> 8 word list option" where
  "lower2 s mem = do { len \<leftarrow> strlen_c mem s 0; for_m 0 len (lower_at s) mem }"

text \<open>The string at a position: its characters up to the terminating NUL.\<close>

definition string_at :: "8 word list \<Rightarrow> nat \<Rightarrow> 8 word list \<Rightarrow> bool" where
  "string_at mem s cs \<longleftrightarrow> s + length cs < length mem \<and> seg mem s (length cs) = cs \<and> mem ! (s + length cs) = 0 \<and> 0 \<notin> set cs"

lemma string_at_nth: "string_at mem s cs \<Longrightarrow> i < length cs \<Longrightarrow> mem ! (s + i) = cs ! i \<and> mem ! (s + i) \<noteq> 0"
  by (metis string_at_def seg_nth less_imp_le nth_mem)

lemma strlen_from:
  assumes "string_at mem s cs" "i \<le> length cs"
  shows "strlen_c mem (s + i) i = Some (length cs)"
  using assms(2)
proof (induction i rule: inc_induct)
  case base
  then show ?case using assms(1) by (subst strlen_c.simps) (simp add: string_at_def rd_nat del: of_nat_add)
next
  case (step i)
  have "s + i < length mem" using assms(1) step by (simp add: string_at_def)
  moreover have "mem ! (s + i) \<noteq> 0" using string_at_nth [OF assms(1) step(2)] by blast
  ultimately show ?case using step by (subst strlen_c.simps) (simp add: rd_nat del: of_nat_add)
qed

lemma lower_char_zero: "lower_char c = 0 \<longleftrightarrow> c = 0"
proof
  assume l: "lower_char c = 0"
  show "c = 0"
  proof (cases "65 \<le> sint c \<and> sint c \<le> 90")
    case True
    then have "c + 32 = 0" using l by (simp add: lower_char_def)
    then have "c = - 32" by (simp add: eq_neg_iff_add_eq_0)
    then show ?thesis using True by simp
  next
    case False
    then show ?thesis using l by (auto simp: lower_char_def split: if_splits)
  qed
qed (simp add: lower_char_def)

lemma written_string:
  assumes "string_at mem s cs" "i \<le> length cs" "\<And>k. k < i \<Longrightarrow> g k \<noteq> 0"
  shows "string_at (written mem s g i) s (map g [0..<i] @ drop i cs)"
proof -
  have l: "s + length cs < length mem" using assms(1) by (simp add: string_at_def)
  have w: "length (written mem s g i) = length mem" using l assms(2) by (intro length_written) simp
  have "seg (written mem s g i) s (length cs) ! k = (map g [0..<i] @ drop i cs) ! k" if "k < length cs" for k
    using that l assms(2) w string_at_nth [OF assms(1) that] by (simp add: seg_nth written_nth nth_append)
  then have "seg (written mem s g i) s (length cs) = map g [0..<i] @ drop i cs"
    using assms(2) l w by (intro nth_equalityI) (simp_all add: length_seg)
  moreover have "written mem s g i ! (s + length cs) = 0"
    using l assms(1,2) by (subst written_nth) (auto simp: string_at_def)
  moreover have "0 \<notin> set (map g [0..<i] @ drop i cs)"
    using assms(1,3) set_drop_subset [of i cs] by (auto simp: string_at_def)
  ultimately show ?thesis using assms(2) l w by (simp add: string_at_def)
qed

lemma lower_at_step:
  assumes "string_at mem s cs" "i < length cs"
  shows "lower_at s i (written mem s (\<lambda>k. lower_char (cs ! k)) i) = Some (written mem s (\<lambda>k. lower_char (cs ! k)) (Suc i))"
proof -
  have l: "s + i < length mem" using assms by (simp add: string_at_def)
  then have "written mem s (\<lambda>k. lower_char (cs ! k)) i ! (s + i) = cs ! i"
    using string_at_nth [OF assms] by (simp add: written_nth)
  then show ?thesis using l wr_written [of s i mem "\<lambda>k. lower_char (cs ! k)"]
    by (simp add: lower_at_def rd_nat del: of_nat_add)
qed

lemma lower2_value:
  assumes "string_at mem s cs"
  shows "lower2 s mem = Some (written mem s (\<lambda>k. lower_char (cs ! k)) (length cs))"
  using strlen_from [OF assms, of 0] lower_at_step [OF assms]
  by (simp add: lower2_def) (rule for_m_follows [where f = "written mem s (\<lambda>k. lower_char (cs ! k))"]; simp)

lemma lower1_value:
  assumes "string_at mem s cs"
  shows "lower1 s mem = Some (written mem s (\<lambda>k. lower_char (cs ! k)) (length cs))"
proof -
  let ?w = "written mem s (\<lambda>k. lower_char (cs ! k))"
  have nz: "lower_char (cs ! k) \<noteq> 0" if "k < length cs" for k
    using that assms by (auto simp: lower_char_zero string_at_def in_set_conv_nth)
  have len: "strlen_c (?w i) s 0 = Some (length cs)" if "i \<le> length cs" for i
  proof -
    have "\<And>k. k < i \<Longrightarrow> lower_char (cs ! k) \<noteq> 0" using nz that by simp
    from strlen_from [OF written_string [OF assms that this], where i = 0] that show ?thesis by simp
  qed
  have "lower1_loop s i (?w i) = Some (?w (length cs))" if "i \<le> length cs" for i
    using that
  proof (induction i rule: inc_induct)
    case base
    then show ?case using len [of "length cs"] by (subst lower1_loop.simps) simp
  next
    case (step i)
    then show ?case using len [of i] lower_at_step [OF assms, of i] by (subst lower1_loop.simps) simp
  qed
  from this [of 0] show ?thesis by (simp add: lower1_def)
qed

text \<open>
  Lower.c, equivalence. The slow version, which computes the length of the string anew in
  every round while it changes the string, and the fast one agree on every string: they
  replace its capital letters, leave its length and the rest of the memory as they were.
\<close>

theorem lower_versions:
  assumes "string_at mem s cs"
  shows "lower1 s mem = lower2 s mem \<and> lower2 s mem = Some (blit mem s (map lower_char cs))
    \<and> string_at (blit mem s (map lower_char cs)) s (map lower_char cs)"
proof -
  have m: "map (\<lambda>k. lower_char (cs ! k)) [0..<length cs] = map lower_char cs" by (rule nth_equalityI) simp_all
  have nz: "lower_char (cs ! k) \<noteq> 0" if "k < length cs" for k
    using that assms by (auto simp: lower_char_zero string_at_def in_set_conv_nth)
  show ?thesis using lower1_value [OF assms] lower2_value [OF assms]
      written_string [OF assms order_refl, of "\<lambda>k. lower_char (cs ! k)", OF nz]
    by (simp add: written_def m)
qed

theorem lower_versions_witness:
  "lower1 1 [7, 72, 105, 90, 0, 65] = Some [7, 104, 105, 122, 0, 65]"
proof -
  have "string_at [7, 72, 105, 90, 0, 65] 1 [72, 105, 90]" by (simp add: string_at_def seg_def)
  from lower_versions [OF this] show ?thesis by (simp add: blit_def lower_char_def)
qed

end
