(* ===== verification/Vec.thy ===== *)
theory Vec
  imports Arrays
begin

text \<open>
  The vector type of \<open>10-optimization/vec.c\<close> over a heap with an allocator that may fail, its
  contract as a locale, and the array sums and vector routines of \<open>12-cache-memories\<close>,
  \<open>13-linking\<close> and \<open>08-machine-data/float.c\<close>.
\<close>

section \<open>The vector type\<close>

text \<open>
  Headers and element arrays live at addresses; 0 is the null pointer.  An allocation takes a
  fresh address, or fails when the next entry of \<open>fails\<close> says so.
\<close>

record 'd vheap =
  headers :: "nat \<rightharpoonup> 64 word \<times> nat"
  arrays :: "nat \<rightharpoonup> 'd list"
  next_addr :: nat
  fails :: "bool list"

definition allocate :: "'d vheap \<Rightarrow> nat \<times> 'd vheap" where
  "allocate h = (case fails h of
     True # fs \<Rightarrow> (0, h\<lparr>fails := fs\<rparr>)
   | _ \<Rightarrow> (next_addr h, h\<lparr>next_addr := next_addr h + 1, fails := tl (fails h)\<rparr>))"

definition new_vec :: "'d \<Rightarrow> 64 word \<Rightarrow> 'd vheap \<Rightarrow> nat \<times> 'd vheap" where
  "new_vec zero len h = (let (result, h1) = allocate h in
     if result = 0 then (0, h1)
     else let h2 = h1\<lparr>headers := (headers h1)(result \<mapsto> (len, 0))\<rparr> in
       if 0 < len then let (data, h3) = allocate h2 in
         if data = 0 then (0, h3\<lparr>headers := (headers h3)(result := None)\<rparr>)
         else (result, h3\<lparr>arrays := (arrays h3)(data \<mapsto> replicate (unat len) zero),
                         headers := (headers h3)(result \<mapsto> (len, data))\<rparr>)
       else (result, h2))"

definition free_vec :: "nat \<Rightarrow> 'd vheap \<Rightarrow> 'd vheap option" where
  "free_vec v h = do {
     (len, data) \<leftarrow> headers h v;
     let h1 = (if data \<noteq> 0 then h\<lparr>arrays := (arrays h)(data := None)\<rparr> else h);
     Some (h1\<lparr>headers := (headers h1)(v := None)\<rparr>) }"

text \<open>The element is stored at \<open>dest\<close> only when the index is in range; \<open>None\<close> is undefined behaviour.\<close>

definition get_vec_element :: "nat \<Rightarrow> 64 word \<Rightarrow> 'd \<Rightarrow> 'd vheap \<Rightarrow> (32 word \<times> 'd) option" where
  "get_vec_element v index dest h = do {
     (len, data) \<leftarrow> headers h v;
     if len \<le> index then Some (0, dest)
     else do { a \<leftarrow> arrays h data; x \<leftarrow> rd a (uint index); Some (1, x) } }"

definition vec_length :: "nat \<Rightarrow> 'd vheap \<Rightarrow> 64 word option" where
  "vec_length v h = map_option fst (headers h v)"

definition get_vec_start :: "nat \<Rightarrow> 'd vheap \<Rightarrow> nat option" where
  "get_vec_start v h = map_option snd (headers h v)"

definition set_vec_element :: "nat \<Rightarrow> 64 word \<Rightarrow> 'd \<Rightarrow> 'd vheap \<Rightarrow> (32 word \<times> 'd vheap) option" where
  "set_vec_element v index val h = do {
     (len, data) \<leftarrow> headers h v;
     if len \<le> index then Some (0, h)
     else do { a \<leftarrow> arrays h data; a1 \<leftarrow> wr a (uint index) val; Some (1, h\<lparr>arrays := (arrays h)(data \<mapsto> a1)\<rparr>) } }"

section \<open>Contract\<close>

text \<open>
  What a client of a bounded vector relies on: reads and writes inside the bounds behave as on
  a list, reads and writes outside are reported and change nothing, and vectors do not
  interfere.
\<close>

locale bounded_vector =
  fixes get :: "'v \<Rightarrow> 64 word \<Rightarrow> 'd \<Rightarrow> 'h \<Rightarrow> (32 word \<times> 'd) option"
    and set_elem :: "'v \<Rightarrow> 64 word \<Rightarrow> 'd \<Rightarrow> 'h \<Rightarrow> (32 word \<times> 'h) option"
    and contents :: "'h \<Rightarrow> 'v \<Rightarrow> 'd list option"
    and inv :: "'h \<Rightarrow> bool"
  assumes get_in: "inv h \<Longrightarrow> contents h v = Some xs \<Longrightarrow> unat i < length xs \<Longrightarrow> get v i d h = Some (1, xs ! unat i)"
    and get_out: "inv h \<Longrightarrow> contents h v = Some xs \<Longrightarrow> \<not> unat i < length xs \<Longrightarrow> get v i d h = Some (0, d)"
    and set_in: "inv h \<Longrightarrow> contents h v = Some xs \<Longrightarrow> unat i < length xs \<Longrightarrow>
      \<exists>h'. set_elem v i x h = Some (1, h') \<and> inv h' \<and> contents h' = (contents h)(v \<mapsto> xs[unat i := x])"
    and set_out: "inv h \<Longrightarrow> contents h v = Some xs \<Longrightarrow> \<not> unat i < length xs \<Longrightarrow> set_elem v i x h = Some (0, h)"
begin

lemma get_after_set:
  assumes "inv h" "contents h v = Some xs" "unat i < length xs" "unat j < length xs"
  shows "\<exists>h'. set_elem v i x h = Some (1, h') \<and> inv h' \<and> get v j d h' = Some (1, if i = j then x else xs ! unat j)"
proof -
  obtain h' where h': "set_elem v i x h = Some (1, h')" "inv h'" "contents h' = (contents h)(v \<mapsto> xs[unat i := x])"
    using set_in [OF assms(1-3)] by blast
  have "get v j d h' = Some (1, xs[unat i := x] ! unat j)"
    using h' assms(4) by (intro get_in) simp_all
  moreover have "xs[unat i := x] ! unat j = (if i = j then x else xs ! unat j)"
    using assms(3) by (simp add: nth_list_update word_unat_eq_iff)
  ultimately show ?thesis using h'(1,2) by (intro exI [of _ h']) (simp only: simp_thms)
qed

lemma get_other_after_set:
  assumes "inv h" "contents h v = Some xs" "contents h u = Some ys" "u \<noteq> v" "unat i < length xs"
  shows "\<exists>h'. set_elem v i x h = Some (1, h') \<and> get u j d h' = get u j d h"
proof -
  obtain h' where h': "set_elem v i x h = Some (1, h')" "inv h'" "contents h' = (contents h)(v \<mapsto> xs[unat i := x])"
    using set_in [OF assms(1,2,5)] by blast
  have "contents h' u = Some ys" using h'(3) assms(3,4) by simp
  then show ?thesis using h' assms(1,3) get_in [of _ u ys j d] get_out [of _ u ys j d]
    by (cases "unat j < length ys") auto
qed

end

text \<open>The heaps that the operations produce, and what a vector holds in them.\<close>

definition vec_inv :: "'d vheap \<Rightarrow> bool" where
  "vec_inv h \<longleftrightarrow> 0 < next_addr h
     \<and> (\<forall>v len data. headers h v = Some (len, data) \<longrightarrow> 0 < v \<and> v < next_addr h \<and>
          (if len = 0 then data = 0 else 0 < data \<and> data < next_addr h \<and> (\<exists>a. arrays h data = Some a \<and> length a = unat len)))
     \<and> (\<forall>v u len len' data. headers h v = Some (len, data) \<longrightarrow> headers h u = Some (len', data) \<longrightarrow> data \<noteq> 0 \<longrightarrow> u = v)"

definition vec_contents :: "'d vheap \<Rightarrow> nat \<Rightarrow> 'd list option" where
  "vec_contents h v = (case headers h v of None \<Rightarrow> None
     | Some (len, data) \<Rightarrow> if len = 0 then Some [] else arrays h data)"

lemma vec_invD:
  assumes "vec_inv h" "headers h v = Some (len, data)" "len \<noteq> 0"
  obtains a where "arrays h data = Some a" "length a = unat len" "data \<noteq> 0" "vec_contents h v = Some a"
  using assms by (fastforce simp: vec_inv_def vec_contents_def split: if_splits)

lemma vec_contents_header:
  assumes "vec_inv h" "vec_contents h v = Some xs"
  obtains len data where "headers h v = Some (len, data)" "unat len = length xs"
    "len \<noteq> 0 \<longrightarrow> arrays h data = Some xs \<and> data \<noteq> 0"
proof -
  obtain len data where l: "headers h v = Some (len, data)"
    using assms(2) by (auto simp: vec_contents_def split: option.splits)
  show ?thesis
  proof (cases "len = 0")
    case True
    then show ?thesis using that [OF l] assms(2) l by (simp add: vec_contents_def)
  next
    case False
    obtain a where a: "arrays h data = Some a" "length a = unat len" "data \<noteq> 0" "vec_contents h v = Some a"
      by (rule vec_invD [OF assms(1) l False])
    have "a = xs" using a(4) assms(2) by simp
    then show ?thesis using that [OF l] a by simp
  qed
qed

lemma vec_inv_update:
  assumes inv: "vec_inv h" and v: "headers h v = Some (len, data)" "len \<noteq> 0" and l: "length a = unat len"
  shows "vec_inv (h\<lparr>arrays := (arrays h)(data \<mapsto> a)\<rparr>)"
    and "vec_contents (h\<lparr>arrays := (arrays h)(data \<mapsto> a)\<rparr>) = (vec_contents h)(v \<mapsto> a)"
proof -
  have d: "data \<noteq> 0" using vec_invD [OF inv v] by blast
  have other: "u = v" if "headers h u = Some (len', data)" for u len'
    using inv v(1) that d unfolding vec_inv_def by blast
  then have same_len: "unat len = unat len'" if "headers h u = Some (len', data)" for u len'
    using that v(1) by fastforce
  show "vec_inv (h\<lparr>arrays := (arrays h)(data \<mapsto> a)\<rparr>)"
    using inv v l unfolding vec_inv_def by (auto dest: same_len)
  show "vec_contents (h\<lparr>arrays := (arrays h)(data \<mapsto> a)\<rparr>) = (vec_contents h)(v \<mapsto> a)"
  proof
    fix u
    show "vec_contents (h\<lparr>arrays := (arrays h)(data \<mapsto> a)\<rparr>) u = ((vec_contents h)(v \<mapsto> a)) u"
    proof (cases "u = v")
      case True
      then show ?thesis using v by (simp add: vec_contents_def)
    next
      case False
      then have "snd hd \<noteq> data" if "headers h u = Some hd" for hd using that other by (cases hd) auto
      then show ?thesis using False by (simp add: vec_contents_def split: option.split prod.split) fastforce
    qed
  qed
qed

interpretation vec: bounded_vector get_vec_element set_vec_element vec_contents vec_inv
proof
  fix h :: "'a vheap" and v xs and i :: "64 word" and d x :: 'a
  assume inv: "vec_inv h" and c: "vec_contents h v = Some xs"
  obtain len data where h: "headers h v = Some (len, data)" "unat len = length xs"
    "len \<noteq> 0 \<longrightarrow> arrays h data = Some xs \<and> data \<noteq> 0" by (rule vec_contents_header [OF inv c])
  have le: "len \<le> i \<longleftrightarrow> \<not> unat i < length xs" using h(2) by (simp add: word_le_nat_alt not_less)
  show "get_vec_element v i d h = Some (0, d)" if "\<not> unat i < length xs"
    using h(1) le that by (simp add: get_vec_element_def)
  show "set_vec_element v i x h = Some (0, h)" if "\<not> unat i < length xs"
    using h(1) le that by (simp add: set_vec_element_def)
  assume i: "unat i < length xs"
  then have n: "len \<noteq> 0" using h(2) by auto
  have r: "rd xs (uint i) = Some (xs ! unat i)" "wr xs (uint i) x = Some (xs[unat i := x])"
    using rd_nat [OF i] wr_nat [OF i, of x] by simp_all
  show "get_vec_element v i d h = Some (1, xs ! unat i)"
    using h le i n by (simp add: get_vec_element_def r)
  have "set_vec_element v i x h = Some (1, h\<lparr>arrays := (arrays h)(data \<mapsto> xs[unat i := x])\<rparr>)"
    using h le i n by (simp add: set_vec_element_def r)
  then show "\<exists>h'. set_vec_element v i x h = Some (1, h') \<and> vec_inv h' \<and> vec_contents h' = (vec_contents h)(v \<mapsto> xs[unat i := x])"
    using vec_inv_update [OF inv h(1) n, of "xs[unat i := x]"] h(2) by simp
qed

section \<open>Creation\<close>

lemma allocate_cases:
  obtains (failed) fs where "allocate h = (0, h\<lparr>fails := fs\<rparr>)"
  | (fresh) fs where "allocate h = (next_addr h, h\<lparr>next_addr := next_addr h + 1, fails := fs\<rparr>)"
proof (cases "fails h")
  case (Cons b fs)
  then show ?thesis using that by (cases b) (auto simp: allocate_def)
qed (use that in \<open>auto simp: allocate_def\<close>)

lemma vec_inv_irrelevant: "vec_inv (h\<lparr>fails := fs\<rparr>) = vec_inv h" "vec_contents (h\<lparr>fails := fs\<rparr>) = vec_contents h"
  by (simp_all add: vec_inv_def vec_contents_def fun_eq_iff split: option.split)

lemma vec_inv_grow: "vec_inv h \<Longrightarrow> vec_inv (h\<lparr>next_addr := next_addr h + n\<rparr>)"
  by (fastforce simp: vec_inv_def)

lemma fresh_header: "vec_inv h \<Longrightarrow> next_addr h \<le> v \<Longrightarrow> headers h v = None"
  by (cases "headers h v") (fastforce simp: vec_inv_def)+

definition with_vec :: "nat \<Rightarrow> 64 word \<Rightarrow> nat \<Rightarrow> 'd list \<Rightarrow> 'd vheap \<Rightarrow> 'd vheap" where
  "with_vec v len data a h = h\<lparr>headers := (headers h)(v \<mapsto> (len, data)),
     arrays := (if data = 0 then arrays h else (arrays h)(data \<mapsto> a))\<rparr>"

lemma with_vec_simps [simp]:
  "headers (with_vec v len data a h) = (headers h)(v \<mapsto> (len, data))" "next_addr (with_vec v len data a h) = next_addr h"
  "arrays (with_vec v len data a h) = (if data = 0 then arrays h else (arrays h)(data \<mapsto> a))"
  by (simp_all add: with_vec_def)

text \<open>Adding a header whose data, if any, is at an address that no other header uses.\<close>

lemma vec_inv_add:
  assumes inv: "vec_inv h" and v: "headers h v = None" "0 < v" "v < next_addr h"
    and d: "if len = 0 then data = 0 else 0 < data \<and> data < next_addr h \<and> length a = unat len"
    and unused: "\<And>u l. headers h u = Some (l, data) \<Longrightarrow> data = 0"
  shows "vec_inv (with_vec v len data a h)"
    and "vec_contents (with_vec v len data a h)
      = (vec_contents h)(v \<mapsto> (if len = 0 then [] else a))"
proof -
  have other: "data' \<noteq> data" if "headers h u = Some (l, data')" "l \<noteq> 0" for u l data'
    using that inv unused [of u l] unfolding vec_inv_def by fastforce
  show "vec_inv (with_vec v len data a h)"
    unfolding vec_inv_def
  proof (intro conjI allI impI)
    show "0 < next_addr (with_vec v len data a h)"
      using inv by (simp add: vec_inv_def)
  next
    fix u l d'
    assume u: "headers (with_vec v len data a h) u = Some (l, d')"
    show "0 < u" using u inv v by (auto simp: vec_inv_def split: if_splits)
    show "u < next_addr (with_vec v len data a h)"
      using u inv v by (auto simp: vec_inv_def split: if_splits)
    show "if l = 0 then d' = 0 else 0 < d' \<and> d' < next_addr (with_vec v len data a h)
        \<and> (\<exists>b. arrays (with_vec v len data a h) d' = Some b \<and> length b = unat l)"
    proof (cases "u = v")
      case True
      then show ?thesis using u d by (auto split: if_splits)
    next
      case False
      then have h: "headers h u = Some (l, d')" using u by simp
      show ?thesis using h inv other [OF h] unfolding vec_inv_def by (cases "l = 0") fastforce+
    qed
  next
    fix u w l l' d'
    assume "headers (with_vec v len data a h) u = Some (l, d')"
      "headers (with_vec v len data a h) w = Some (l', d')" "d' \<noteq> 0"
    then show "w = u" using unused inv unfolding vec_inv_def by (auto split: if_splits)
  qed
  have ne: "data' \<noteq> data" if "headers h u = Some (l, data')" "l \<noteq> 0" for u l data' using other that .
  show "vec_contents (with_vec v len data a h)
      = (vec_contents h)(v \<mapsto> (if len = 0 then [] else a))"
  proof
    fix u
    show "vec_contents (with_vec v len data a h) u
      = ((vec_contents h)(v \<mapsto> (if len = 0 then [] else a))) u"
    proof (cases "u = v")
      case True
      then show ?thesis using d by (auto simp: vec_contents_def)
    next
      case False
      then show ?thesis using ne [of u] by (auto simp: vec_contents_def split: option.split)
    qed
  qed
qed

lemma new_vec_cases:
  assumes inv: "vec_inv h"
  obtains (no_memory) h' where "new_vec z len h = (0, h')" "headers h' = headers h" "arrays h' = arrays h" "vec_inv h'"
  | (created) v h' where "new_vec z len h = (v, h')" "v \<noteq> 0" "vec_inv h'" "vec_contents h v = None"
      "vec_contents h' = (vec_contents h)(v \<mapsto> replicate (unat len) z)"
proof (cases h rule: allocate_cases)
  case (failed fs)
  then show ?thesis using no_memory inv by (simp add: new_vec_def vec_inv_irrelevant)
next
  case (fresh fs)
  define v where "v = next_addr h"
  define h1 where "h1 = h\<lparr>next_addr := v + 1, fails := fs\<rparr>"
  define h2 where "h2 = h1\<lparr>headers := (headers h1)(v \<mapsto> (len, 0))\<rparr>"
  have v: "0 < v" "headers h v = None" "vec_contents h v = None"
    using inv fresh_header [OF inv, of v] by (auto simp: v_def vec_inv_def vec_contents_def)
  have inv1: "vec_inv (h\<lparr>next_addr := v + n, fails := gs\<rparr>)" "vec_contents (h\<lparr>next_addr := v + n, fails := gs\<rparr>) = vec_contents h" for n gs
    using vec_inv_grow [OF inv, of n] vec_inv_irrelevant(1) [where h = "h\<lparr>next_addr := v + n\<rparr>" and fs = gs]
    by (auto simp: v_def vec_contents_def fun_eq_iff split: option.split)
  have eq: "new_vec z len h = (if 0 < len then let (data, h3) = allocate h2 in
         if data = 0 then (0, h3\<lparr>headers := (headers h3)(v := None)\<rparr>)
         else (v, h3\<lparr>arrays := (arrays h3)(data \<mapsto> replicate (unat len) z), headers := (headers h3)(v \<mapsto> (len, data))\<rparr>)
       else (v, h2))"
    using fresh v(1) unfolding new_vec_def v_def h1_def h2_def by simp
  show ?thesis
  proof (cases "len = 0")
    case True
    have h2: "h2 = with_vec v 0 0 [] h1" using True by (simp add: h2_def with_vec_def)
    have "vec_inv h2" "vec_contents h2 = (vec_contents h1)(v \<mapsto> [])"
      unfolding h2 using vec_inv_add [where h = h1 and v = v and len = 0 and data = 0 and a = "[]"] inv1(1) [where n = 1 and gs = fs] v
      by (simp_all add: h1_def)
    then show ?thesis using created [of v h2] eq True v inv1(2) [where n = 1 and gs = fs] by (simp add: h1_def)
  next
    case False
    then have pos: "0 < len" by (simp add: word_neq_0_conv)
    show ?thesis
    proof (cases h2 rule: allocate_cases)
      case (failed gs)
      have "new_vec z len h = (0, h2\<lparr>fails := gs, headers := headers h\<rparr>)"
        using eq pos failed v(2) by (simp add: h2_def h1_def fun_upd_idem)
      moreover have "vec_inv (h2\<lparr>fails := gs, headers := headers h\<rparr>)"
        using inv1(1) [where n = 1 and gs = gs] by (simp add: h2_def h1_def)
      ultimately show ?thesis using no_memory by (simp add: h2_def h1_def)
    next
      case (fresh gs)
      let ?h = "h\<lparr>next_addr := v + 2, fails := gs\<rparr>"
      have r: "new_vec z len h = (v, with_vec v len (v + 1) (replicate (unat len) z) ?h)"
        using eq pos fresh by (simp add: h2_def h1_def with_vec_def)
      have unused: "headers ?h u = Some (l, v + 1) \<Longrightarrow> v + 1 = 0" for u l
        using inv unfolding vec_inv_def v_def by (cases "l = 0") fastforce+
      have "vec_inv (with_vec v len (v + 1) (replicate (unat len) z) ?h)"
        "vec_contents (with_vec v len (v + 1) (replicate (unat len) z) ?h) = (vec_contents ?h)(v \<mapsto> (if len = 0 then [] else replicate (unat len) z))"
        by (rule vec_inv_add [OF inv1(1) _ _ _ _ unused]; use v False in simp)+
      then show ?thesis using created [OF r] v False inv1(2) [where n = 2 and gs = gs] by simp
    qed
  qed
qed

section \<open>Properties of vectors\<close>

text \<open>
  C27 (vec.c, refinement).  A vector behaves as a list of fixed length: a write inside the bounds
  is what a later read of that index returns and no other index changes, an index outside the
  bounds is reported by a result of 0 and changes nothing, neither the vector nor the
  destination of the read.
\<close>

theorem vec_refines_list:
  assumes "vec_inv h" "vec_contents h v = Some xs" "unat i < length xs" "unat j < length xs" "length xs \<le> unat k"
  shows "(\<exists>h'. set_vec_element v i x h = Some (1, h') \<and> vec_inv h' \<and> get_vec_element v j d h' = Some (1, if i = j then x else xs ! unat j))
    \<and> get_vec_element v k d h = Some (0, d) \<and> set_vec_element v k x h = Some (0, h)"
  using vec.get_after_set [OF assms(1-4), of x d] vec.get_out [OF assms(1,2), of k d] vec.set_out [OF assms(1,2), of k x] assms(5)
  by simp

definition empty_vheap :: "bool list \<Rightarrow> 'd vheap" where
  "empty_vheap fs = \<lparr>headers = Map.empty, arrays = Map.empty, next_addr = 1, fails = fs\<rparr>"

lemma empty_vheap_inv: "vec_inv (empty_vheap fs)"
  by (simp add: vec_inv_def empty_vheap_def)

definition demo_vheap :: "int vheap" where
  "demo_vheap = \<lparr>headers = [1 \<mapsto> (3, 2)], arrays = [2 \<mapsto> [10, 20, 30]], next_addr = 3, fails = []\<rparr>"

theorem vec_refines_list_witness:
  "\<exists>h'. set_vec_element 1 2 7 demo_vheap = Some (1, h') \<and> get_vec_element 1 0 99 h' = Some (1, 10)"
proof -
  have "vec_inv demo_vheap" by (auto simp: vec_inv_def demo_vheap_def)
  moreover have "vec_contents demo_vheap 1 = Some [10, 20, 30]" by (simp add: vec_contents_def demo_vheap_def)
  ultimately show ?thesis using vec_refines_list [of demo_vheap 1 "[10, 20, 30]" 2 0 3 7 99] by auto
qed

text \<open>
  Vec.c, error behaviour. \<open>new_vec\<close> either fails and then leaves no header and no array
  behind, whichever of its two allocations fails, or returns a new vector of the given length
  that is filled with zeros and changes no other vector.
\<close>

theorem new_vec_creates:
  assumes "vec_inv h" "new_vec z len h = (v, h')"
  shows "vec_inv h' \<and> (if v = 0 then headers h' = headers h \<and> arrays h' = arrays h
    else vec_contents h v = None \<and> vec_contents h' = (vec_contents h)(v \<mapsto> replicate (unat len) z))"
  using assms(2) by (cases rule: new_vec_cases [OF assms(1), of z len]) auto

theorem new_vec_creates_witness:
  "headers (snd (new_vec (0 :: int) 3 (empty_vheap [False, True]))) = headers (empty_vheap [False, True] :: int vheap)"
proof -
  have n: "new_vec (0 :: int) 3 (empty_vheap [False, True]) = (0, snd (new_vec 0 3 (empty_vheap [False, True])))"
    by (simp add: new_vec_def empty_vheap_def allocate_def)
  show ?thesis using new_vec_creates [OF empty_vheap_inv n] by simp
qed

text \<open>Releasing a vector removes exactly that vector.\<close>

lemma free_vec_frees:
  assumes inv: "vec_inv h" and v: "vec_contents h v = Some xs"
  shows "\<exists>h'. free_vec v h = Some h' \<and> vec_inv h' \<and> vec_contents h' = (vec_contents h)(v := None)"
proof -
  obtain len data where h: "headers h v = Some (len, data)" using v by (auto simp: vec_contents_def split: option.splits)
  define h' where "h' = h\<lparr>arrays := (if data \<noteq> 0 then (arrays h)(data := None) else arrays h), headers := (headers h)(v := None)\<rparr>"
  have other: "d \<noteq> data" if "headers h u = Some (l, d)" "u \<noteq> v" "l \<noteq> 0" for u l d
  proof
    assume "d = data"
    then have "headers h u = Some (l, data)" using that(1) by simp
    moreover from this have "data \<noteq> 0" using vec_invD [OF inv _ that(3), of u data] by blast
    ultimately show False using inv h that(2) unfolding vec_inv_def by blast
  qed
  have "free_vec v h = Some h'" by (simp add: free_vec_def h h'_def Let_def)
  moreover have "vec_inv h'" unfolding vec_inv_def
  proof (intro conjI allI impI)
    fix u l d assume "headers h' u = Some (l, d)"
    then have u: "headers h u = Some (l, d)" "u \<noteq> v" by (auto simp: h'_def split: if_splits)
    show "if l = 0 then d = 0 else 0 < d \<and> d < next_addr h' \<and> (\<exists>a. arrays h' d = Some a \<and> length a = unat l)"
      using u inv other [OF u] unfolding vec_inv_def h'_def by (cases "l = 0") fastforce+
    show "0 < u" "u < next_addr h'" using u(1) inv unfolding vec_inv_def h'_def by auto
  next
    fix u w l l' d
    assume "headers h' u = Some (l, d)" "headers h' w = Some (l', d)" "d \<noteq> 0"
    then show "w = u" using inv unfolding vec_inv_def h'_def by (auto split: if_splits)
  qed (use inv in \<open>simp add: vec_inv_def h'_def\<close>)
  moreover have "vec_contents h' = (vec_contents h)(v := None)"
  proof
    fix u
    show "vec_contents h' u = ((vec_contents h)(v := None)) u"
      using other [of u] by (auto simp: vec_contents_def h'_def split: option.split)
  qed
  ultimately show ?thesis by blast
qed

text \<open>The heaps that a client can produce with the operations.\<close>

inductive vec_reach :: "'d \<Rightarrow> 'd vheap \<Rightarrow> bool" for zero where
  start: "vec_reach zero (empty_vheap fs)"
| create: "vec_reach zero h \<Longrightarrow> new_vec zero len h = (v, h') \<Longrightarrow> vec_reach zero h'"
| store: "vec_reach zero h \<Longrightarrow> set_vec_element v i x h = Some (r, h') \<Longrightarrow> vec_reach zero h'"
| release: "vec_reach zero h \<Longrightarrow> free_vec v h = Some h' \<Longrightarrow> vec_reach zero h'"

lemma header_contents: "vec_inv h \<Longrightarrow> headers h v = Some l \<Longrightarrow> \<exists>xs. vec_contents h v = Some xs"
  by (cases l) (auto simp: vec_inv_def vec_contents_def, metis)

lemma set_keeps_inv: "vec_inv h \<Longrightarrow> set_vec_element v i x h = Some (r, h') \<Longrightarrow> vec_inv h'"
proof -
  assume inv: "vec_inv h" and s: "set_vec_element v i x h = Some (r, h')"
  obtain l where "headers h v = Some l" using s by (auto simp: set_vec_element_def split: bind_splits)
  then obtain xs where xs: "vec_contents h v = Some xs" using header_contents [OF inv] by blast
  show ?thesis using vec.set_in [OF inv xs, of i x] vec.set_out [OF inv xs, of i x] s inv by (cases "unat i < length xs") auto
qed

lemma vec_reach_inv: "vec_reach zero h \<Longrightarrow> vec_inv h"
proof (induction rule: vec_reach.induct)
  case (create h len v h')
  show ?case using create by (cases rule: new_vec_cases [OF create.IH, of zero len]) auto
next
  case (release h v h')
  then obtain l where "headers h v = Some l" by (auto simp: free_vec_def split: bind_splits)
  then obtain xs where "vec_contents h v = Some xs" using header_contents [OF release.IH] by blast
  from free_vec_frees [OF release.IH this] show ?case using release.hyps(2) by auto
qed (use empty_vheap_inv set_keeps_inv in auto)

text \<open>
  C40 (vec.c, type safety).  A client that uses only the operations of \<open>vec.h\<close> keeps the heap well formed, whatever
  allocations fail: no two headers share an array, and every array has the length of its header.  In such a heap every
  operation on a vector that has not been freed is defined, for all indices: it never follows a dangling pointer and
  never leaves the array.
\<close>

theorem vec_type_safe:
  assumes "vec_reach zero h" "headers h v = Some (len, data)"
  shows "vec_inv h \<and> free_vec v h \<noteq> None \<and> get_vec_element v i d h \<noteq> None \<and> set_vec_element v i x h \<noteq> None"
proof -
  note inv = vec_reach_inv [OF assms(1)]
  obtain xs where xs: "vec_contents h v = Some xs" using header_contents [OF inv assms(2)] by blast
  have "get_vec_element v i d h \<noteq> None" using vec.get_in [OF inv xs, of i d] vec.get_out [OF inv xs, of i d] by (cases "unat i < length xs") auto
  moreover have "set_vec_element v i x h \<noteq> None" using vec.set_in [OF inv xs, of i x] vec.set_out [OF inv xs, of i x] by (cases "unat i < length xs") auto
  ultimately show ?thesis using inv free_vec_frees [OF inv xs] by auto
qed

theorem vec_type_safe_witness:
  "vec_inv (snd (new_vec (0 :: int) 3 (empty_vheap []))) \<and> get_vec_element 1 5 9 (snd (new_vec (0 :: int) 3 (empty_vheap []))) \<noteq> None"
proof -
  let ?h = "snd (new_vec (0 :: int) 3 (empty_vheap []))"
  have "new_vec 0 3 (empty_vheap []) = (fst (new_vec (0 :: int) 3 (empty_vheap [])), ?h)" by simp
  from vec_reach.create [OF vec_reach.start this] have "vec_reach 0 ?h" .
  moreover have "headers ?h 1 = Some (3, 2)" by (simp add: new_vec_def empty_vheap_def allocate_def)
  ultimately show ?thesis using vec_type_safe [of 0 ?h 1 3 2 5 9 0] by simp
qed

section \<open>Array sums (sumvec.c, sumarrayrows.c, sumarraycols.c, sumarray3d.c)\<close>

definition sumvec :: "nat \<Rightarrow> (nat \<Rightarrow> 32 word) \<Rightarrow> 32 word" where
  "sumvec n v = for_up 0 n (\<lambda>i s. s + v i) 0"

definition sumarrayrows :: "nat \<Rightarrow> nat \<Rightarrow> 32 word matrix \<Rightarrow> 32 word" where
  "sumarrayrows m n a = for_up 0 m (\<lambda>i. for_up 0 n (\<lambda>j s. s + a i j)) 0"

definition sumarraycols :: "nat \<Rightarrow> nat \<Rightarrow> 32 word matrix \<Rightarrow> 32 word" where
  "sumarraycols m n a = for_up 0 n (\<lambda>j. for_up 0 m (\<lambda>i s. s + a i j)) 0"

definition sumarray3d :: "nat \<Rightarrow> (nat \<Rightarrow> 32 word matrix) \<Rightarrow> 32 word" where
  "sumarray3d n a = for_up 0 n (\<lambda>i. for_up 0 n (\<lambda>j. for_up 0 n (\<lambda>k s. s + a k i j))) 0"

definition plus_minus :: "nat \<Rightarrow> 32 word" where
  "plus_minus j = (if j mod 2 = 0 then 1 else - 1)"

text \<open>The sums that the main programs print.\<close>

definition main_sumvec :: "(nat \<Rightarrow> 32 word) \<Rightarrow> 32 word" where
  "main_sumvec v = sumvec (2 ^ 20) (for_up 0 (2 ^ 20) (\<lambda>i v. v(i := plus_minus i)) v)"

definition main_rows :: "32 word matrix \<Rightarrow> 32 word" where
  "main_rows a = sumarrayrows (2 ^ 12) (2 ^ 12) (for_up 0 (2 ^ 12) (\<lambda>i. for_up 0 (2 ^ 12) (\<lambda>j. set_entry i j (plus_minus j))) a)"

definition main_cols :: "32 word matrix \<Rightarrow> 32 word" where
  "main_cols a = sumarraycols (2 ^ 12) (2 ^ 12) (for_up 0 (2 ^ 12) (\<lambda>i. for_up 0 (2 ^ 12) (\<lambda>j. set_entry i j (plus_minus j))) a)"

definition main_3d :: "(nat \<Rightarrow> 32 word matrix) \<Rightarrow> 32 word" where
  "main_3d a = sumarray3d (2 ^ 8) (for_up 0 (2 ^ 8) (\<lambda>i. for_up 0 (2 ^ 8) (\<lambda>j. for_up 0 (2 ^ 8)
     (\<lambda>k a. a(i := set_entry j k (plus_minus k) (a i))))) a)"

lemma for_up_sum: "for_up 0 n (\<lambda>i s. s + g i) = (\<lambda>s. s + (\<Sum>i < n. g i))" for g :: "nat \<Rightarrow> 'a :: comm_monoid_add"
proof
  show "for_up 0 n (\<lambda>i s. s + g i) s = s + (\<Sum>i < n. g i)" for s
    by (induction n) (simp_all add: for_up_done for_up_last add.assoc)
qed

lemma sum_values:
  "sumvec n v = (\<Sum>i < n. v i)" "sumarrayrows m n a = (\<Sum>i < m. \<Sum>j < n. a i j)"
  "sumarraycols m n a = (\<Sum>j < n. \<Sum>i < m. a i j)" "sumarray3d n b = (\<Sum>i < n. \<Sum>j < n. \<Sum>k < n. b k i j)"
  by (simp_all add: sumvec_def sumarrayrows_def sumarraycols_def sumarray3d_def for_up_sum)

lemma plus_minus_zero: "(\<Sum>j < 2 * k. plus_minus j) = 0"
  by (induction k) (simp_all add: plus_minus_def)

lemma plus_minus_pow: "0 < e \<Longrightarrow> (\<Sum>j < 2 ^ e. plus_minus j) = 0"
  using plus_minus_zero [of "2 ^ (e - 1)"] by (cases e) simp_all

lemma fold_set_values:
  "fold (\<lambda>i. fold (\<lambda>j. set_entry i j (v i j)) js) is C a b = (if a \<in> set is \<and> b \<in> set js then v a b else C a b)"
proof -
  have row: "fold (\<lambda>j. set_entry i j (v i j)) js C a b = (if a = i \<and> b \<in> set js then v a b else C a b)" for i C
    by (induction js arbitrary: C) (auto simp: set_entry_def)
  show ?thesis by (induction "is" arbitrary: C) (auto simp: row)
qed

lemma init_3d:
  "fold (\<lambda>i. fold (\<lambda>j. fold (\<lambda>k a. a(i := set_entry j k (v k) (a i))) ks) js) is A a b c
   = (if a \<in> set is \<and> b \<in> set js \<and> c \<in> set ks then v c else A a b c)"
proof -
  have inner: "fold (\<lambda>k a. a(i := set_entry j k (v k) (a i))) ks A = A(i := fold (\<lambda>k. set_entry j k (v k)) ks (A i))" for i j ks A
    by (induction ks arbitrary: A) simp_all
  have mid: "fold (\<lambda>j a. a(i := fold (\<lambda>k. set_entry j k (v k)) ks (a i))) js A
      = A(i := fold (\<lambda>j. fold (\<lambda>k. set_entry j k (v k)) ks) js (A i))" for i js A
    by (induction js arbitrary: A) simp_all
  show ?thesis unfolding inner mid by (induction "is" arbitrary: A) (auto simp: fold_set_values [where v = "\<lambda>_. v"])
qed

text \<open>
  Array sums, equivalence. Summing a matrix by rows and by columns gives the same value for
  every matrix, and the four programs print the zero that their comments announce.
\<close>

theorem array_sums:
  "sumarraycols m n a = sumarrayrows m n a \<and> sumarrayrows m n a = (\<Sum>i < m. \<Sum>j < n. a i j)
   \<and> main_sumvec v = 0 \<and> main_rows b = 0 \<and> main_cols b = 0 \<and> main_3d c = 0"
proof (intro conjI)
  show "sumarraycols m n a = sumarrayrows m n a" unfolding sum_values by (rule sum.swap)
  show "sumarrayrows m n a = (\<Sum>i < m. \<Sum>j < n. a i j)" by (rule sum_values)
  have v: "for_up 0 k (\<lambda>i v. v(i := plus_minus i)) v = (\<lambda>i. if i < k then plus_minus i else v i)" for k
    by (induction k) (auto simp: for_up_done for_up_last fun_eq_iff)
  show "main_sumvec v = 0" unfolding main_sumvec_def sum_values v by (simp add: plus_minus_pow del: power_numeral)
  define b' where "b' = for_up 0 (2 ^ 12) (\<lambda>i. for_up 0 (2 ^ 12) (\<lambda>j. set_entry i j (plus_minus j))) b"
  have b': "b' i j = (if i < 2 ^ 12 \<and> j < 2 ^ 12 then plus_minus j else b i j)" for i j
    unfolding b'_def for_up_fold using fold_set_values [where v = "\<lambda>_. plus_minus"] by simp
  have rows: "(\<Sum>i < 2 ^ 12. \<Sum>j < 2 ^ 12. b' i j) = 0" by (simp add: b' plus_minus_pow del: power_numeral)
  then show "main_rows b = 0" unfolding main_rows_def b'_def [symmetric] sum_values .
  show "main_cols b = 0" unfolding main_cols_def b'_def [symmetric] sum_values using rows by (subst sum.swap)
  define c' where "c' = for_up 0 (2 ^ 8) (\<lambda>i. for_up 0 (2 ^ 8) (\<lambda>j. for_up 0 (2 ^ 8)
     (\<lambda>k a. a(i := set_entry j k (plus_minus k) (a i))))) c"
  have c': "c' i j k = (if i < 2 ^ 8 \<and> j < 2 ^ 8 \<and> k < 2 ^ 8 then plus_minus k else c i j k)" for i j k
    unfolding c'_def for_up_fold init_3d by simp
  have "(\<Sum>i < 2 ^ 8. \<Sum>j < 2 ^ 8. \<Sum>k < 2 ^ 8. c' k i j) = (\<Sum>i < (2 :: nat) ^ 8. \<Sum>j < (2 :: nat) ^ 8. \<Sum>k < (2 :: nat) ^ 8. plus_minus j)"
    by (intro sum.cong refl) (simp add: c')
  also have "\<dots> = 0" by (simp only: sum_constant) (simp only: plus_minus_pow flip: sum_distrib_left, simp)
  finally show "main_3d c = 0" unfolding main_3d_def c'_def [symmetric] sum_values .
qed

section \<open>Vector routines (addvec.c, multvec.c, sum.c, float.c)\<close>

text \<open>The counters of calls are part of the state.\<close>

definition addvec :: "32 word list \<Rightarrow> 32 word list \<Rightarrow> nat \<Rightarrow> 32 word \<times> 32 word list \<Rightarrow> (32 word \<times> 32 word list) option" where
  "addvec x y n = (\<lambda>(addcnt, z). do {
     z1 \<leftarrow> for_m 0 n (\<lambda>i z. do { a \<leftarrow> rd x (int i); b \<leftarrow> rd y (int i); wr z (int i) (a + b) }) z;
     Some (addcnt + 1, z1) })"

definition multvec :: "32 word list \<Rightarrow> 32 word list \<Rightarrow> nat \<Rightarrow> 32 word \<times> 32 word list \<Rightarrow> (32 word \<times> 32 word list) option" where
  "multvec x y n = (\<lambda>(multcnt, z). do {
     z1 \<leftarrow> for_m 0 n (\<lambda>i z. do { a \<leftarrow> rd x (int i); b \<leftarrow> rd y (int i); wr z (int i) (a * b) }) z;
     Some (multcnt + 1, z1) })"

definition sum_c :: "32 word list \<Rightarrow> nat \<Rightarrow> 32 word option" where
  "sum_c a n = for_m 0 n (\<lambda>i s. do { x \<leftarrow> rd a (int i); Some (s + x) }) 0"

definition dvprod :: "'d arith \<Rightarrow> nat \<Rightarrow> 'd list \<Rightarrow> 'd list \<Rightarrow> 'd option" where
  "dvprod f n a b = for_m 0 n (\<lambda>i val. do { x \<leftarrow> rd a (int i); y \<leftarrow> rd b (int i); Some (plus_of f val (times_of f x y)) }) (zero_of f)"

lemma map2_loop:
  assumes "n \<le> length x" "n \<le> length y" "n \<le> length z"
  shows "for_m 0 n (\<lambda>i z. do { a \<leftarrow> rd x (int i); b \<leftarrow> rd y (int i); wr z (int i) (g a b) }) z
    = Some (map2 g (take n x) (take n y) @ drop n z)"
proof -
  have "for_m 0 n (\<lambda>i z. do { a \<leftarrow> rd x (int i); b \<leftarrow> rd y (int i); wr z (int i) (g a b) }) z
      = Some (written z 0 (\<lambda>i. g (x ! i) (y ! i)) n)"
    by (rule for_m_follows [where f = "written z 0 (\<lambda>i. g (x ! i) (y ! i))"])
      (use assms column_write [OF assms(3), of _ "\<lambda>i. g (x ! i) (y ! i)"] in \<open>simp_all add: rd_nat\<close>)
  moreover have "map (\<lambda>i. g (x ! i) (y ! i)) [0..<n] = map2 g (take n x) (take n y)"
    using assms by (intro nth_equalityI) simp_all
  ultimately show ?thesis using assms(3) by (simp add: written_whole)
qed

lemma addvec_value: "n \<le> length x \<Longrightarrow> n \<le> length y \<Longrightarrow> n \<le> length z \<Longrightarrow>
    addvec x y n (c, z) = Some (c + 1, map2 (+) (take n x) (take n y) @ drop n z)"
  by (simp add: addvec_def map2_loop)

lemma multvec_value: "n \<le> length x \<Longrightarrow> n \<le> length y \<Longrightarrow> n \<le> length z \<Longrightarrow>
    multvec x y n (c, z) = Some (c + 1, map2 (*) (take n x) (take n y) @ drop n z)"
  by (simp add: multvec_def map2_loop)

lemma sum_c_value: "n \<le> length a \<Longrightarrow> sum_c a n = Some (sum_list (take n a))"
  unfolding sum_c_def
  by (rule for_m_follows [where f = "\<lambda>i. sum_list (take i a)"]) (simp_all add: rd_nat take_Suc_conv_app_nth)

lemma dvprod_exact: "n \<le> length a \<Longrightarrow> n \<le> length b \<Longrightarrow> dvprod exact n a b = Some (\<Sum>i < n. a ! i * b ! i)"
  unfolding dvprod_def
  by (rule for_m_follows [where f = "\<lambda>k. \<Sum>i < k. a ! i * b ! i"]) (simp_all add: rd_nat exact_def)

section \<open>The other functions of float.c\<close>

definition dadd :: "'d arith \<Rightarrow> 'd \<Rightarrow> 'd \<Rightarrow> 'd" where
  "dadd f x y = plus_of f x y"

definition fadd :: "'d arith \<Rightarrow> 'd \<Rightarrow> 'd \<Rightarrow> 'd" where
  "fadd f x y = plus_of f x y"

text \<open>\<open>p\<close> is an address; the result is the old contents.\<close>

definition dincr :: "'d arith \<Rightarrow> nat \<Rightarrow> 'd \<Rightarrow> (nat \<rightharpoonup> 'd) \<Rightarrow> ('d \<times> (nat \<rightharpoonup> 'd)) option" where
  "dincr f p v m = do { x \<leftarrow> m p; Some (x, m(p \<mapsto> plus_of f x v)) }"

definition fvprod :: "'d arith \<Rightarrow> nat \<Rightarrow> 'd list \<Rightarrow> 'd list \<Rightarrow> 'd option" where
  "fvprod f n a b = for_m 0 n (\<lambda>i val. do { x \<leftarrow> rd a (int i); y \<leftarrow> rd b (int i); Some (plus_of f val (times_of f x y)) }) (zero_of f)"

definition float_gt :: "('d \<Rightarrow> 'd \<Rightarrow> bool) \<Rightarrow> 'd \<Rightarrow> 'd \<Rightarrow> int" where
  "float_gt exceeds x y = (if exceeds x y then 1 else 0)"

text \<open>
  The loops of \<open>magnitude\<close>: divide by ten until the number is zero.  A number that never becomes zero, such as an infinity, makes the
  loop run for ever, which is \<open>None\<close>.
\<close>

partial_function (option) decades :: "('d \<Rightarrow> 'd) \<Rightarrow> ('d \<Rightarrow> bool) \<Rightarrow> 'd \<Rightarrow> int \<Rightarrow> int option" where
  "decades by_ten is_zero x mag = (if is_zero x then Some mag else decades by_ten is_zero (by_ten x) (mag + 1))"

definition magnitude :: "('d \<Rightarrow> 'd) \<Rightarrow> ('d \<Rightarrow> bool) \<Rightarrow> 'd \<Rightarrow> 'd \<Rightarrow> int option" where
  "magnitude by_ten is_zero one x = do { refmag \<leftarrow> decades by_ten is_zero one 0; xmag \<leftarrow> decades by_ten is_zero x 0; Some (xmag - refmag) }"

definition float_main :: "('d \<Rightarrow> 'd) \<Rightarrow> ('d \<Rightarrow> bool) \<Rightarrow> 'd \<Rightarrow> int \<Rightarrow> 'd \<Rightarrow> ('d \<times> int) option option" where
  "float_main by_ten is_zero one argc val = (if argc \<noteq> 2 then Some None
     else map_option (\<lambda>m. Some (val, m)) (magnitude by_ten is_zero one val))"

lemma decades_first:
  assumes "is_zero ((by_ten ^^ n) x)" "\<And>i. i < n \<Longrightarrow> \<not> is_zero ((by_ten ^^ i) x)"
  shows "decades by_ten is_zero x mag = Some (mag + int n)"
  using assms
proof (induction n arbitrary: x mag)
  case 0
  then show ?case by (subst decades.simps) simp
next
  case (Suc n)
  have "\<not> is_zero x" using Suc.prems(2) [of 0] by simp
  moreover have "decades by_ten is_zero (by_ten x) (mag + 1) = Some (mag + 1 + int n)"
    using Suc.IH [of "by_ten x" "mag + 1"] Suc.prems(1) Suc.prems(2) [of "Suc _"] by (simp add: funpow_swap1)
  ultimately show ?case by (subst decades.simps) simp
qed

lemma decades_returns:
  assumes "decades by_ten is_zero x mag = Some r"
  shows "\<exists>i. is_zero ((by_ten ^^ i) x)"
proof -
  let ?P = "\<lambda>f z x m r. \<exists>i. z ((f ^^ i) x)"
  have step: "?P f z x m r" if ih: "\<And>f z x m r. dec f z x m = Some r \<Longrightarrow> ?P f z x m r"
      and v: "(if z x then Some m else dec f z (f x) (m + 1)) = Some r" for dec f z and x :: 'a and m r :: int
  proof (cases "z x")
    case True
    then show ?thesis by (intro exI [of _ 0]) simp
  next
    case False
    then obtain i where "z ((f ^^ i) (f x))" using v ih [of f z "f x" "m + 1" r] by auto
    then show ?thesis by (intro exI [of _ "Suc i"]) (simp add: funpow_swap1)
  qed
  show ?thesis
    by (rule decades.raw_induct [where P = ?P and xa = "(((by_ten, is_zero), x), mag)" and y = r, unfolded prod.case]) (erule (1) step, rule assms)
qed

lemma decades_diverges: "(\<And>i. \<not> is_zero ((by_ten ^^ i) x)) \<Longrightarrow> decades by_ten is_zero x mag = None"
  using decades_returns [of by_ten is_zero x mag] by (cases "decades by_ten is_zero x mag") auto

text \<open>
  \<open>magnitude\<close> is the difference of the numbers of divisions that make \<open>x\<close> and 1 vanish.  So a number that becomes 1 after \<open>k\<close> divisions, and not
  zero before, has the magnitude \<open>k\<close>; and a number that never vanishes makes the function run for ever.
\<close>

lemma magnitude_power:
  assumes "is_zero ((by_ten ^^ r) one)" "\<And>i. i < r \<Longrightarrow> \<not> is_zero ((by_ten ^^ i) one)"
    and "(by_ten ^^ k) x = one" "\<And>i. i < k \<Longrightarrow> \<not> is_zero ((by_ten ^^ i) x)"
  shows "magnitude by_ten is_zero one x = Some (int k)"
proof -
  have s: "(by_ten ^^ (i + k)) x = (by_ten ^^ i) one" for i by (simp add: funpow_add assms(3))
  have "\<not> is_zero ((by_ten ^^ i) x)" if "i < r + k" for i
  proof (cases "i < k")
    case False
    then have "i = (i - k) + k" "i - k < r" using that by auto
    then show ?thesis using s [of "i - k"] assms(2) by metis
  qed (use assms(4) in simp)
  then have "decades by_ten is_zero x 0 = Some (int (r + k))"
    using decades_first [where n = "r + k" and x = x and mag = 0] s [of r] assms(1) by simp
  then show ?thesis using decades_first [of is_zero r by_ten one 0] assms(1,2) by (simp add: magnitude_def)
qed

lemma magnitude_diverges: "(\<And>i. \<not> is_zero ((by_ten ^^ i) x)) \<Longrightarrow> magnitude by_ten is_zero one x = None"
  using decades_diverges [of is_zero by_ten x 0] by (simp add: magnitude_def bind_eq_None_conv)

end
