(* ===== verification/Filmlist.thy ===== *)
theory Filmlist
  imports Prelude
begin

text \<open>
  The list type of \<open>C_Primer_Plus/ADT\<close> (\<open>list.h\<close>, \<open>list.c\<close>): a linked list of items in a heap
  whose allocator may fail, the contract that the comments of \<open>list.h\<close> state as a locale,
  and the proof that \<open>list.c\<close> keeps it.
\<close>

section \<open>Definitions\<close>

record item =
  title :: "byte list"
  rating :: int

record node =
  node_item :: item
  node_next :: nat

text \<open>
  The heap of nodes; 0 is the null pointer.  \<open>malloc\<close> takes a fresh address, or fails when the
  next entry of \<open>lfails\<close> says so.
\<close>

record lheap =
  nodes :: "nat \<rightharpoonup> node"
  fresh :: nat
  lfails :: "bool list"

definition malloc_node :: "lheap \<Rightarrow> nat \<times> lheap" where
  "malloc_node h = (case lfails h of
     True # fs \<Rightarrow> (0, h\<lparr>lfails := fs\<rparr>)
   | _ \<Rightarrow> (fresh h, h\<lparr>nodes := (nodes h)(fresh h \<mapsto> \<lparr>node_item = \<lparr>title = [], rating = 0\<rparr>, node_next = 0\<rparr>),
                      fresh := fresh h + 1, lfails := tl (lfails h)\<rparr>))"

text \<open>\<open>free(NULL)\<close> does nothing; freeing an address that is not allocated is undefined.\<close>

definition free_node :: "nat \<Rightarrow> lheap \<Rightarrow> lheap option" where
  "free_node p h = (if p = 0 then Some h else if p \<in> dom (nodes h) then Some (h\<lparr>nodes := (nodes h)(p := None)\<rparr>) else None)"

definition InitializeList :: nat where
  "InitializeList = 0"

definition ListIsEmpty :: "nat \<Rightarrow> bool" where
  "ListIsEmpty plist = (if plist = 0 then True else False)"

definition ListIsFull :: "lheap \<Rightarrow> (bool \<times> lheap) option" where
  "ListIsFull h = (let (pt, h1) = malloc_node h; full = (if pt = 0 then True else False)
     in map_option (Pair full) (free_node pt h1))"

partial_function (option) count_loop :: "(nat \<rightharpoonup> node) \<Rightarrow> nat \<Rightarrow> 32 word \<Rightarrow> 32 word option" where
  "count_loop ns pnode cnt = (if pnode \<noteq> 0
     then do { n \<leftarrow> ns pnode; count_loop ns (node_next n) (cnt + 1) } else Some cnt)"

definition ListItemCount :: "nat \<Rightarrow> lheap \<Rightarrow> 32 word option" where
  "ListItemCount plist h = count_loop (nodes h) plist 0"

definition CopyToNode :: "item \<Rightarrow> nat \<Rightarrow> lheap \<Rightarrow> lheap option" where
  "CopyToNode i pnode h = map_option (\<lambda>n. h\<lparr>nodes := (nodes h)(pnode \<mapsto> n\<lparr>node_item := i\<rparr>)\<rparr>) (nodes h pnode)"

definition set_next :: "nat \<Rightarrow> nat \<Rightarrow> lheap \<Rightarrow> lheap option" where
  "set_next p q h = map_option (\<lambda>n. h\<lparr>nodes := (nodes h)(p \<mapsto> n\<lparr>node_next := q\<rparr>)\<rparr>) (nodes h p)"

partial_function (option) find_end :: "(nat \<rightharpoonup> node) \<Rightarrow> nat \<Rightarrow> nat option" where
  "find_end ns scan = do { n \<leftarrow> ns scan; if node_next n \<noteq> 0 then find_end ns (node_next n) else Some scan }"

definition AddItem :: "item \<Rightarrow> nat \<Rightarrow> lheap \<Rightarrow> (bool \<times> nat \<times> lheap) option" where
  "AddItem i plist h = (let scan = plist; (pnew, h1) = malloc_node h in
     if pnew = 0 then Some (False, plist, h1)
     else do {
       h2 \<leftarrow> CopyToNode i pnew h1;
       h3 \<leftarrow> set_next pnew 0 h2;
       if scan = 0 then Some (True, pnew, h3)
       else do {
         last_node \<leftarrow> find_end (nodes h3) scan;
         h4 \<leftarrow> set_next last_node pnew h3;
         Some (True, plist, h4) } })"

partial_function (option) traverse_loop :: "(nat \<rightharpoonup> node) \<Rightarrow> (item \<Rightarrow> 's \<Rightarrow> 's) \<Rightarrow> nat \<Rightarrow> 's \<Rightarrow> 's option" where
  "traverse_loop ns pfun pnode s = (if pnode \<noteq> 0
     then do { n \<leftarrow> ns pnode; traverse_loop ns pfun (node_next n) (pfun (node_item n) s) } else Some s)"

definition Traverse :: "nat \<Rightarrow> (item \<Rightarrow> 's \<Rightarrow> 's) \<Rightarrow> lheap \<Rightarrow> 's \<Rightarrow> 's option" where
  "Traverse plist pfun h s = traverse_loop (nodes h) pfun plist s"

partial_function (option) EmptyTheList :: "nat \<Rightarrow> lheap \<Rightarrow> (nat \<times> lheap) option" where
  "EmptyTheList plist h = (if plist \<noteq> 0 then do {
     n \<leftarrow> nodes h plist;
     let psave = node_next n;
     h1 \<leftarrow> free_node plist h;
     EmptyTheList psave h1 } else Some (plist, h))"

section \<open>Contract\<close>

text \<open>
  The comments of \<open>list.h\<close>: \<open>holds h l xs\<close> says that the list variable \<open>l\<close> is initialised, the list
  has the items \<open>xs\<close>, and the heap holds nothing else.
\<close>

locale list_adt =
  fixes holds :: "'h \<Rightarrow> 'l \<Rightarrow> item list \<Rightarrow> bool"
    and initial :: 'l
    and is_empty :: "'l \<Rightarrow> bool"
    and is_full :: "'h \<Rightarrow> (bool \<times> 'h) option"
    and item_count :: "'l \<Rightarrow> 'h \<Rightarrow> 32 word option"
    and add_item :: "item \<Rightarrow> 'l \<Rightarrow> 'h \<Rightarrow> (bool \<times> 'l \<times> 'h) option"
    and visit :: "'l \<Rightarrow> (item \<Rightarrow> item list \<Rightarrow> item list) \<Rightarrow> 'h \<Rightarrow> item list \<Rightarrow> item list option"
    and empty_list :: "'l \<Rightarrow> 'h \<Rightarrow> ('l \<times> 'h) option"
  assumes empty_iff: "holds h l xs \<Longrightarrow> is_empty l \<longleftrightarrow> xs = []"
    and full_keeps: "holds h l xs \<Longrightarrow> \<exists>b h'. is_full h = Some (b, h') \<and> holds h' l xs"
    and count_items: "holds h l xs \<Longrightarrow> item_count l h = Some (of_nat (length xs))"
    and add_end: "holds h l xs \<Longrightarrow> \<exists>b l' h'. add_item i l h = Some (b, l', h') \<and> holds h' l' (if b then xs @ [i] else xs)"
    and visit_all: "holds h l xs \<Longrightarrow> visit l f h s = Some (fold f xs s)"
    and empty_all: "holds h l xs \<Longrightarrow> \<exists>h'. empty_list l h = Some (initial, h') \<and> holds h' initial []"
begin

text \<open>A client that adds items while there is room.\<close>

fun add_all :: "item list \<Rightarrow> 'l \<Rightarrow> 'h \<Rightarrow> ('l \<times> 'h) option" where
  "add_all [] l h = Some (l, h)"
| "add_all (i # is) l h = do {
     (b, l1, h1) \<leftarrow> add_item i l h;
     if b then add_all is l1 h1 else Some (l1, h1) }"

lemma add_all_prefix:
  assumes "holds h l xs"
  shows "\<exists>k l' h'. add_all is l h = Some (l', h') \<and> k \<le> length is \<and> holds h' l' (xs @ take k is)"
  using assms
proof (induction "is" arbitrary: h l xs)
  case Nil
  then show ?case by auto
next
  case (Cons i "is")
  obtain b l1 h1 where a: "add_item i l h = Some (b, l1, h1)" "holds h1 l1 (if b then xs @ [i] else xs)"
    using add_end [OF Cons.prems] by blast
  show ?case
  proof (cases b)
    case True
    then obtain k l' h' where "add_all is l1 h1 = Some (l', h')" "k \<le> length is" "holds h' l' ((xs @ [i]) @ take k is)"
      using Cons.IH [of h1 l1 "xs @ [i]"] a(2) by auto
    then show ?thesis using a(1) True by (intro exI [of _ "Suc k"]) auto
  next
    case False
    then show ?thesis using a by (intro exI [of _ 0]) auto
  qed
qed

lemma visit_items: "holds h l xs \<Longrightarrow> visit l (\<lambda>i s. s @ [i]) h [] = Some xs"
proof -
  have "fold (\<lambda>i s. s @ [i]) xs s = s @ xs" for s by (induction xs arbitrary: s) auto
  then show "holds h l xs \<Longrightarrow> ?thesis" by (simp add: visit_all)
qed

end

section \<open>The linked list keeps the contract\<close>

fun lseg :: "(nat \<rightharpoonup> node) \<Rightarrow> nat \<Rightarrow> nat list \<Rightarrow> nat \<Rightarrow> bool" where
  "lseg ns l [] e \<longleftrightarrow> l = e"
| "lseg ns l (p # ps) e \<longleftrightarrow> l = p \<and> p \<noteq> 0 \<and> (\<exists>n. ns p = Some n \<and> lseg ns (node_next n) ps e)"

text \<open>The nodes are exactly the list at the addresses \<open>ps\<close>.\<close>

definition list_at :: "(nat \<rightharpoonup> node) \<Rightarrow> nat \<Rightarrow> nat list \<Rightarrow> item list \<Rightarrow> bool" where
  "list_at ns l ps xs \<longleftrightarrow> lseg ns l ps 0 \<and> distinct ps \<and> dom ns = set ps
     \<and> map (\<lambda>p. map_option node_item (ns p)) ps = map Some xs"

definition heap_list :: "lheap \<Rightarrow> nat \<Rightarrow> item list \<Rightarrow> bool" where
  "heap_list h l xs \<longleftrightarrow> (\<exists>ps. list_at (nodes h) l ps xs \<and> 0 < fresh h \<and> (\<forall>p \<in> set ps. p < fresh h))"

lemma lseg_append: "lseg ns l (ps @ qs) e \<longleftrightarrow> (\<exists>m. lseg ns l ps m \<and> lseg ns m qs e)"
  by (induction ps arbitrary: l) auto

lemma lseg_frame: "lseg ns l ps e \<Longrightarrow> (\<And>p. p \<in> set ps \<Longrightarrow> ns' p = ns p) \<Longrightarrow> lseg ns' l ps e"
  by (induction ps arbitrary: l) auto

lemma count_lseg: "lseg ns l ps 0 \<Longrightarrow> count_loop ns l c = Some (c + of_nat (length ps))"
proof (induction ps arbitrary: l c)
  case Nil
  then show ?case by (subst count_loop.simps) simp
next
  case (Cons p ps)
  then show ?case by (subst count_loop.simps) (auto simp: add.assoc)
qed

lemma traverse_lseg:
  "lseg ns l ps 0 \<Longrightarrow> map (\<lambda>p. map_option node_item (ns p)) ps = map Some xs \<Longrightarrow> traverse_loop ns f l s = Some (fold f xs s)"
proof (induction ps arbitrary: l s xs)
  case Nil
  then show ?case by (subst traverse_loop.simps) simp
next
  case (Cons p ps)
  then obtain x xs' where "xs = x # xs'" by (cases xs) auto
  with Cons show ?case by (subst traverse_loop.simps) auto
qed

lemma find_end_lseg: "lseg ns l (ps @ [q]) 0 \<Longrightarrow> find_end ns l = Some q"
proof (induction ps arbitrary: l)
  case Nil
  then show ?case by (subst find_end.simps) auto
next
  case (Cons p ps)
  then obtain n where n: "l = p" "ns p = Some n" "lseg ns (node_next n) (ps @ [q]) 0" by auto
  then have "node_next n \<noteq> 0" by (cases ps) auto
  with n Cons.IH show ?case by (subst find_end.simps) simp
qed

lemma malloc_node_cases:
  obtains (failed) fs where "malloc_node h = (0, h\<lparr>lfails := fs\<rparr>)"
  | (taken) n fs where "malloc_node h = (fresh h, h\<lparr>nodes := (nodes h)(fresh h \<mapsto> n), fresh := fresh h + 1, lfails := fs\<rparr>)"
proof (cases "lfails h")
  case (Cons b fs)
  then show ?thesis using that by (cases b) (auto simp: malloc_node_def)
qed (use that in \<open>auto simp: malloc_node_def\<close>)

lemma heap_list_fails: "heap_list (h\<lparr>lfails := fs\<rparr>) l xs = heap_list h l xs"
  by (simp add: heap_list_def)

lemma fresh_unused: "heap_list h l xs \<Longrightarrow> nodes h (fresh h) = None"
  by (auto simp: heap_list_def list_at_def domIff [symmetric])

lemma full_heap:
  assumes "heap_list h l xs"
  shows "\<exists>b h'. ListIsFull h = Some (b, h') \<and> heap_list h' l xs"
proof (cases h rule: malloc_node_cases)
  case (failed fs)
  then show ?thesis using assms by (auto simp: ListIsFull_def free_node_def heap_list_fails)
next
  case (taken n fs)
  have f: "0 < fresh h" using assms by (auto simp: heap_list_def list_at_def)
  have "(nodes h)(fresh h := None) = nodes h" using fresh_unused [OF assms] by (simp add: fun_upd_idem)
  then have "ListIsFull h = Some (False, h\<lparr>fresh := fresh h + 1, lfails := fs\<rparr>)"
    using taken f by (simp add: ListIsFull_def free_node_def)
  moreover have "heap_list (h\<lparr>fresh := fresh h + 1, lfails := fs\<rparr>) l xs"
    using assms unfolding heap_list_def list_at_def by (auto simp: less_Suc_eq)
  ultimately show ?thesis by blast
qed

text \<open>Appending a new node after the last one.\<close>

lemma lseg_snoc:
  assumes "lseg ns l (qs @ [q]) 0" "distinct (qs @ [q])" "p \<notin> set (qs @ [q])" "p \<noteq> 0" "ns q = Some m" "node_next n = 0"
  shows "lseg (ns(p \<mapsto> n, q \<mapsto> m\<lparr>node_next := p\<rparr>)) l ((qs @ [q]) @ [p]) 0"
proof -
  have "lseg ns l qs q" "q \<noteq> 0" using assms(1) by (auto simp: lseg_append)
  moreover have "lseg (ns(p \<mapsto> n, q \<mapsto> m\<lparr>node_next := p\<rparr>)) l qs q"
    by (rule lseg_frame [OF \<open>lseg ns l qs q\<close>]) (use assms(2,3) in auto)
  ultimately show ?thesis using assms(3,4,6) by (auto simp: lseg_append)
qed

text \<open>The nodes after the new node has been linked to the end.\<close>

definition link_end :: "(nat \<rightharpoonup> node) \<Rightarrow> nat list \<Rightarrow> nat \<Rightarrow> node \<Rightarrow> (nat \<rightharpoonup> node)" where
  "link_end ns ps p n = (if ps = [] then ns(p \<mapsto> n)
     else ns(p \<mapsto> n, last ps \<mapsto> (the (ns (last ps)))\<lparr>node_next := p\<rparr>))"

lemma list_at_link:
  assumes at: "list_at ns l ps xs" and p: "p \<notin> set ps" "p \<noteq> 0" and n: "node_next n = 0"
  shows "list_at (link_end ns ps p n) (if ps = [] then p else l) (ps @ [p]) (xs @ [node_item n])"
proof (cases ps rule: rev_cases)
  case Nil
  then show ?thesis using at p n by (auto simp: list_at_def link_end_def)
next
  case (snoc qs q)
  obtain m where m: "ns q = Some m" using at snoc by (auto simp: list_at_def lseg_append)
  let ?ns = "ns(p \<mapsto> n, q \<mapsto> m\<lparr>node_next := p\<rparr>)"
  have e: "link_end ns ps p n = ?ns" using snoc m by (simp add: link_end_def)
  have qp: "q \<noteq> p" "q \<in> set ps" using p(1) snoc by auto
  have "lseg ?ns l (ps @ [p]) 0" using lseg_snoc [of ns l qs q p m n] at p m n snoc by (simp add: list_at_def)
  moreover have "map_option node_item (?ns r) = map_option node_item (ns r)" if "r \<in> set ps" for r
    using that p(1) m by auto
  then have "map (\<lambda>r. map_option node_item (?ns r)) (ps @ [p]) = map Some (xs @ [node_item n])"
    using at qp by (simp add: list_at_def cong: map_cong)
  moreover have "dom ?ns = set (ps @ [p])" using at qp by (auto simp: list_at_def)
  ultimately show ?thesis using at p snoc e by (simp add: list_at_def)
qed

lemma add_heap:
  assumes inv: "heap_list h l xs"
  shows "\<exists>b l' h'. AddItem i l h = Some (b, l', h') \<and> heap_list h' l' (if b then xs @ [i] else xs)"
proof (cases h rule: malloc_node_cases)
  case (failed fs)
  have "AddItem i l h = Some (False, l, h\<lparr>lfails := fs\<rparr>)" using failed by (simp add: AddItem_def)
  then show ?thesis using inv by (auto simp: heap_list_fails)
next
  case (taken n0 fs)
  define p n where "p = fresh h" and "n = n0\<lparr>node_item := i, node_next := 0\<rparr>"
  define h3 where "h3 = h\<lparr>nodes := (nodes h)(p \<mapsto> n), fresh := p + 1, lfails := fs\<rparr>"
  obtain ps where ps: "list_at (nodes h) l ps xs" "0 < p" "\<forall>q \<in> set ps. q < p" using inv by (auto simp: heap_list_def list_at_def p_def)
  have p: "p \<notin> set ps" "p \<noteq> 0" using ps(2,3) by auto
  have eq: "AddItem i l h = (if l = 0 then Some (True, p, h3)
      else do { q \<leftarrow> find_end (nodes h3) l; h4 \<leftarrow> set_next q p h3; Some (True, l, h4) })"
    using taken p(2) by (simp add: AddItem_def CopyToNode_def set_next_def h3_def n_def p_def)
  have l0: "l = 0 \<longleftrightarrow> ps = []" using ps(1) by (cases ps) (auto simp: list_at_def)
  have "AddItem i l h = Some (True, if ps = [] then p else l, h3\<lparr>nodes := link_end (nodes h) ps p n\<rparr>)"
  proof (cases ps rule: rev_cases)
    case Nil
    then show ?thesis using eq l0 by (simp add: link_end_def h3_def)
  next
    case (snoc qs q)
    obtain m where m: "nodes h q = Some m" using ps(1) snoc by (auto simp: list_at_def lseg_append)
    have qp: "q \<noteq> p" using p(1) snoc by auto
    have "lseg (nodes h3) l ps 0"
      by (rule lseg_frame [of "nodes h"]) (use ps(1) p(1) in \<open>auto simp: h3_def list_at_def\<close>)
    then show ?thesis
      using eq l0 snoc find_end_lseg [of "nodes h3" l qs q] m qp by (simp add: set_next_def link_end_def h3_def)
  qed
  moreover have "heap_list (h3\<lparr>nodes := link_end (nodes h) ps p n\<rparr>) (if ps = [] then p else l) (xs @ [i])"
    unfolding heap_list_def using list_at_link [OF ps(1) p, of n] ps(2,3)
    by (intro exI [of _ "ps @ [p]"]) (auto simp: h3_def n_def less_Suc_eq)
  ultimately show ?thesis by (intro exI [of _ True]) auto
qed

lemma empty_lseg:
  assumes "lseg (nodes h) l ps 0" "distinct ps" "set ps \<subseteq> dom (nodes h)"
  shows "\<exists>h'. EmptyTheList l h = Some (0, h') \<and> nodes h' = (nodes h) |` (- set ps) \<and> fresh h' = fresh h"
  using assms
proof (induction ps arbitrary: l h)
  case Nil
  then show ?case by (subst EmptyTheList.simps) (simp add: restrict_map_def)
next
  case (Cons p ps)
  then obtain n where n: "l = p" "p \<noteq> 0" "nodes h p = Some n" "lseg (nodes h) (node_next n) ps 0" by auto
  define h1 where "h1 = h\<lparr>nodes := (nodes h)(p := None)\<rparr>"
  have "lseg (nodes h1) (node_next n) ps 0"
    by (rule lseg_frame [OF n(4)]) (use Cons.prems(2) in \<open>auto simp: h1_def\<close>)
  moreover have "set ps \<subseteq> dom (nodes h1)" using Cons.prems(2,3) by (auto simp: h1_def)
  ultimately obtain h' where h': "EmptyTheList (node_next n) h1 = Some (0, h')" "nodes h' = (nodes h1) |` (- set ps)" "fresh h' = fresh h1"
    using Cons.IH [of h1 "node_next n"] Cons.prems(2) by auto
  have "EmptyTheList l h = Some (0, h')" using n h'(1) by (subst EmptyTheList.simps) (simp add: free_node_def h1_def domIff)
  moreover have "(nodes h1) |` (- set ps) = (nodes h) |` (- set (p # ps))"
    by (auto simp: h1_def restrict_map_def fun_eq_iff)
  ultimately show ?case using h' by (auto simp: h1_def)
qed

lemma empty_heap:
  assumes "heap_list h l xs"
  shows "\<exists>h'. EmptyTheList l h = Some (InitializeList, h') \<and> heap_list h' InitializeList []"
proof -
  obtain ps where ps: "lseg (nodes h) l ps 0" "distinct ps" "dom (nodes h) = set ps" "0 < fresh h"
    using assms by (auto simp: heap_list_def list_at_def)
  obtain h' where h': "EmptyTheList l h = Some (0, h')" "nodes h' = (nodes h) |` (- set ps)" "fresh h' = fresh h"
    using empty_lseg [OF ps(1,2)] ps(3) by auto
  have "nodes h' = Map.empty" unfolding h'(2) using ps(3) by (auto simp: restrict_map_def fun_eq_iff domIff)
  then show ?thesis using h' ps(4) by (auto simp: heap_list_def list_at_def InitializeList_def)
qed

lemma traverse_heap: "heap_list h l xs \<Longrightarrow> Traverse l f h s = Some (fold f xs s)"
  unfolding Traverse_def heap_list_def list_at_def by (blast intro: traverse_lseg)

interpretation films: list_adt heap_list InitializeList ListIsEmpty ListIsFull ListItemCount AddItem Traverse EmptyTheList
proof
  fix h l xs
  assume a: "heap_list h l xs"
  then obtain ps where ps: "lseg (nodes h) l ps 0" "map (\<lambda>p. map_option node_item (nodes h p)) ps = map Some xs"
    by (auto simp: heap_list_def list_at_def)
  have len: "length ps = length xs" using ps(2) by (metis length_map)
  show "ListIsEmpty l \<longleftrightarrow> xs = []" using ps(1) len by (cases ps; cases xs) (auto simp: ListIsEmpty_def)
  show "\<exists>b h'. ListIsFull h = Some (b, h') \<and> heap_list h' l xs" using a by (rule full_heap)
  show "ListItemCount l h = Some (of_nat (length xs))" using count_lseg [OF ps(1)] len by (simp add: ListItemCount_def)
  show "\<exists>b l' h'. AddItem i l h = Some (b, l', h') \<and> heap_list h' l' (if b then xs @ [i] else xs)" for i using a by (rule add_heap)
  show "Traverse l f h s = Some (fold f xs s)" for f s by (rule traverse_heap [OF a])
  show "\<exists>h'. EmptyTheList l h = Some (InitializeList, h') \<and> heap_list h' InitializeList []" using a by (rule empty_heap)
qed

section \<open>Properties\<close>


definition empty_lheap :: lheap where
  "empty_lheap = \<lparr>nodes = Map.empty, fresh = 1, lfails = []\<rparr>"

lemma empty_lheap_list: "heap_list empty_lheap InitializeList []"
  by (simp add: heap_list_def list_at_def empty_lheap_def InitializeList_def)


end
