(* ===== verification/Films.thy ===== *)
theory Films
  imports Filmlist
begin

text \<open>
  The film programs of \<open>C_Primer_Plus\<close>: line input with \<open>s_gets\<close>, the client \<open>films.c\<close> of the list
  type, and \<open>films_linkedlist.c\<close>, which builds its list with its own pointers.  Input is the
  list of the bytes that are still to be read.  The outer \<open>None\<close> of an operation means that it
  does not return or that its behaviour is undefined.
\<close>

section \<open>Input\<close>

abbreviation newline :: byte where "newline \<equiv> 10"

definition TSIZE :: nat where "TSIZE = 45"

text \<open>What \<open>fgets\<close> stores: at most \<open>k\<close> bytes, up to and with the first newline.\<close>

fun take_line :: "nat \<Rightarrow> byte list \<Rightarrow> byte list \<times> byte list" where
  "take_line 0 inp = ([], inp)"
| "take_line (Suc k) [] = ([], [])"
| "take_line (Suc k) (c # cs) = (if c = newline then ([c], cs) else let (l, r) = take_line k cs in (c # l, r))"

text \<open>\<open>while (getchar() != '\n') continue;\<close> which does not end at the end of the input.\<close>

fun discard_line :: "byte list \<Rightarrow> byte list option" where
  "discard_line [] = None"
| "discard_line (c # cs) = (if c = newline then Some cs else discard_line cs)"

text \<open>A C string is what stands before the first NUL.\<close>

definition cstr :: "byte list \<Rightarrow> byte list" where
  "cstr s = takeWhile (\<lambda>c. c \<noteq> 0) s"

text \<open>\<open>Some None\<close> is the null pointer that \<open>fgets\<close> returns at the end of the input.\<close>

definition s_gets :: "nat \<Rightarrow> byte list \<Rightarrow> (byte list \<times> byte list) option option" where
  "s_gets n inp = (if inp = [] then Some None
     else let (st, r) = take_line (n - 1) inp in
       if newline \<in> set (cstr st) then Some (Some (takeWhile (\<lambda>c. c \<noteq> newline) (cstr st), r))
       else map_option (\<lambda>r1. Some (cstr st, r1)) (discard_line r))"

text \<open>\<open>scanf("%d")\<close>: \<open>Some (None, r)\<close> when there is no number; a number out of range is undefined.\<close>

definition is_digit :: "byte \<Rightarrow> bool" where
  "is_digit c \<longleftrightarrow> 48 \<le> c \<and> c \<le> 57"

definition digits_value :: "byte list \<Rightarrow> int" where
  "digits_value ds = fold (\<lambda>d v. 10 * v + (uint d - 48)) ds 0"

definition scan_int :: "byte list \<Rightarrow> (int option \<times> byte list) option" where
  "scan_int inp = (let s = dropWhile (\<lambda>c. c \<in> {9, 10, 11, 12, 13, 32}) inp;
     (neg, s1) = (case s of c # cs \<Rightarrow> if c = 45 then (True, cs) else if c = 43 then (False, cs) else (False, s) | [] \<Rightarrow> (False, []));
     ds = takeWhile is_digit s1; r = dropWhile is_digit s1; v = (if neg then - digits_value ds else digits_value ds)
     in if ds = [] then Some (None, r)
        else if - (2 ^ 31) \<le> v \<and> v < 2 ^ 31 then Some (Some v, r) else None)"

section \<open>films.c\<close>

datatype out_line = NoMemory | NoData | Heading | Movie item | Entered "32 word" | Bye

text \<open>The loop that gathers the films; \<open>rt\<close> is the content of \<open>temp.rating\<close>.\<close>

partial_function (option) gather :: "nat \<Rightarrow> lheap \<Rightarrow> int \<Rightarrow> byte list \<Rightarrow> (nat \<times> lheap \<times> byte list) option" where
  "gather movies h rt inp = do {
     line \<leftarrow> s_gets TSIZE inp;
     case line of
       None \<Rightarrow> Some (movies, h, inp)
     | Some (t, inp1) \<Rightarrow>
         if t = [] then Some (movies, h, inp1)
         else do {
           (v, inp2) \<leftarrow> scan_int inp1;
           let rt1 = (case v of None \<Rightarrow> rt | Some x \<Rightarrow> x);
           inp3 \<leftarrow> discard_line inp2;
           (ok, movies1, h1) \<leftarrow> AddItem \<lparr>title = t, rating = rt1\<rparr> movies h;
           if \<not> ok then Some (movies1, h1, inp3)
           else do {
             (full, h2) \<leftarrow> ListIsFull h1;
             if full then Some (movies1, h2, inp3) else gather movies1 h2 rt1 inp3 } } }"

definition showmovies :: "item \<Rightarrow> out_line list \<Rightarrow> out_line list" where
  "showmovies i out = out @ [Movie i]"

definition films_main :: "int \<Rightarrow> lheap \<Rightarrow> byte list \<Rightarrow> (out_line list \<times> lheap) option" where
  "films_main rt h inp = do {
     let movies = InitializeList;
     (full, h1) \<leftarrow> ListIsFull h;
     if full then Some ([NoMemory], h1)
     else do {
       (movies1, h2, inp1) \<leftarrow> gather movies h1 rt inp;
       out \<leftarrow> (if ListIsEmpty movies1 then Some [NoData] else Traverse movies1 showmovies h2 [Heading]);
       n \<leftarrow> ListItemCount movies1 h2;
       (movies2, h3) \<leftarrow> EmptyTheList movies1 h2;
       Some (out @ [Entered n, Bye], h3) } }"

section \<open>films_linkedlist.c\<close>

text \<open>
  The same record type with the link inside; \<open>malloc\<close> is not checked, so that its failure makes
  the next store undefined.
\<close>

partial_function (option) linked_gather :: "nat \<Rightarrow> nat \<Rightarrow> lheap \<Rightarrow> byte list \<Rightarrow> (nat \<times> lheap \<times> byte list) option" where
  "linked_gather hd_ptr prev h inp = do {
     line \<leftarrow> s_gets TSIZE inp;
     case line of
       None \<Rightarrow> Some (hd_ptr, h, inp)
     | Some (t, inp1) \<Rightarrow>
         if t = [] then Some (hd_ptr, h, inp1)
         else do {
           let (current, h1) = malloc_node h;
           h2 \<leftarrow> (if hd_ptr = 0 then Some h1 else set_next prev current h1);
           let hd1 = (if hd_ptr = 0 then current else hd_ptr);
           h3 \<leftarrow> set_next current 0 h2;
           n \<leftarrow> nodes h3 current;
           h4 \<leftarrow> CopyToNode ((node_item n)\<lparr>title := t\<rparr>) current h3;
           (v, inp2) \<leftarrow> scan_int inp1;
           n1 \<leftarrow> nodes h4 current;
           h5 \<leftarrow> (case v of None \<Rightarrow> Some h4 | Some x \<Rightarrow> CopyToNode ((node_item n1)\<lparr>rating := x\<rparr>) current h4);
           inp3 \<leftarrow> discard_line inp2;
           linked_gather hd1 current h5 inp3 } }"

partial_function (option) linked_show :: "(nat \<rightharpoonup> node) \<Rightarrow> nat \<Rightarrow> out_line list \<Rightarrow> out_line list option" where
  "linked_show ns current out = (if current \<noteq> 0
     then do { n \<leftarrow> ns current; linked_show ns (node_next n) (out @ [Movie (node_item n)]) } else Some out)"

partial_function (option) linked_free :: "nat \<Rightarrow> lheap \<Rightarrow> lheap option" where
  "linked_free current h = (if current \<noteq> 0
     then do { n \<leftarrow> nodes h current; h1 \<leftarrow> free_node current h; linked_free (node_next n) h1 } else Some h)"

definition linked_main :: "lheap \<Rightarrow> byte list \<Rightarrow> (out_line list \<times> lheap) option" where
  "linked_main h inp = do {
     (hd_ptr, h1, inp1) \<leftarrow> linked_gather 0 0 h inp;
     out \<leftarrow> linked_show (nodes h1) hd_ptr [if hd_ptr = 0 then NoData else Heading];
     h2 \<leftarrow> linked_free hd_ptr h1;
     Some (out @ [Bye], h2) }"

section \<open>Lines\<close>

lemma discard_after: "newline \<notin> set t \<Longrightarrow> discard_line (t @ newline # r) = Some r"
  by (induction t) auto

lemma take_line_short: "newline \<notin> set t \<Longrightarrow> length t < k \<Longrightarrow> take_line k (t @ newline # r) = (t @ [newline], r)"
proof (induction t arbitrary: k)
  case Nil
  then show ?case by (cases k) auto
next
  case (Cons c t)
  then show ?case by (cases k) auto
qed

lemma take_line_long: "newline \<notin> set t \<Longrightarrow> k \<le> length t \<Longrightarrow> take_line k (t @ r) = (take k t, drop k t @ r)"
proof (induction t arbitrary: k)
  case (Cons c t)
  then show ?case by (cases k) auto
qed simp

lemma cstr_id: "0 \<notin> set s \<Longrightarrow> cstr s = s"
  by (auto simp: cstr_def takeWhile_eq_all_conv)

lemma until_newline: "newline \<notin> set t \<Longrightarrow> takeWhile (\<lambda>c. c \<noteq> newline) (t @ [newline]) = t"
  by (induction t) auto

text \<open>A line is read whole, and cut at the size of the buffer.\<close>

lemma s_gets_line:
  assumes "newline \<notin> set t" "0 \<notin> set t"
  shows "s_gets n (t @ newline # r) = Some (Some (take (n - 1) t, r))"
proof (cases "length t < n - 1")
  case True
  have "newline \<in> set (cstr (t @ [newline]))" "takeWhile (\<lambda>c. c \<noteq> newline) (cstr (t @ [newline])) = t"
    using assms until_newline [OF assms(1)] by (simp_all add: cstr_id)
  then show ?thesis using True take_line_short [OF assms(1) True] by (simp add: s_gets_def)
next
  case False
  have z: "0 \<notin> set (take (n - 1) t)" "newline \<notin> set (take (n - 1) t)" using assms by (auto dest: in_set_takeD)
  have "discard_line (drop (n - 1) t @ newline # r) = Some r" by (rule discard_after) (use assms(1) in \<open>auto dest: in_set_dropD\<close>)
  then show ?thesis using False take_line_long [OF assms(1), of "n - 1" "newline # r"] z by (simp add: s_gets_def cstr_id)
qed

text \<open>Without a newline before the end of the input the function does not return.\<close>

lemma s_gets_hangs:
  assumes "newline \<notin> set t" "t \<noteq> []"
  shows "s_gets n t = None"
proof -
  have d: "discard_line s = None" if "newline \<notin> set s" for s using that by (induction s) auto
  have sub: "set l \<union> set r \<subseteq> set t" if "take_line k t = (l, r)" for k l r
    using that
  proof (induction k t arbitrary: l r rule: take_line.induct)
    case (3 k c cs)
    then show ?case by (auto split: if_splits prod.splits)
  qed auto
  obtain l r where lr: "take_line (n - 1) t = (l, r)" by fastforce
  have "newline \<notin> set (cstr l)" "newline \<notin> set r" using sub [OF lr] assms(1) by (auto simp: cstr_def dest: set_takeWhileD)
  then show ?thesis using assms(2) lr d by (simp add: s_gets_def)
qed

lemma scan_digits:
  assumes "ds \<noteq> []" "list_all is_digit ds" "digits_value ds < 2 ^ 31" "0 \<le> digits_value ds"
  shows "scan_int (ds @ newline # r) = Some (Some (digits_value ds), newline # r)"
proof -
  obtain d ds' where d: "ds = d # ds'" "is_digit d" using assms(1,2) by (cases ds) auto
  have nd: "d \<notin> {9, 10, 11, 12, 13, 32, 45, 43}" using d(2) by (auto simp: is_digit_def)
  have sk: "dropWhile (\<lambda>c. c \<in> {9, 10, 11, 12, 13, 32}) (ds @ newline # r) = ds @ newline # r" using d(1) nd by simp
  have tw: "takeWhile is_digit (ds @ newline # r) = ds" "dropWhile is_digit (ds @ newline # r) = newline # r"
  proof -
    have "\<not> is_digit newline" by (simp add: is_digit_def)
    then show "takeWhile is_digit (ds @ newline # r) = ds" "dropWhile is_digit (ds @ newline # r) = newline # r"
      using assms(2) by (auto simp: list_all_iff takeWhile_append2 dropWhile_append2)
  qed
  show ?thesis using sk tw assms nd d(1) unfolding scan_int_def Let_def sk by simp
qed

section \<open>The film program\<close>

type_synonym entry = "byte list \<times> byte list"

text \<open>What a user types: a title and a number for each film.\<close>

definition entry_ok :: "entry \<Rightarrow> bool" where
  "entry_ok e \<longleftrightarrow> fst e \<noteq> [] \<and> newline \<notin> set (fst e) \<and> 0 \<notin> set (fst e)
     \<and> snd e \<noteq> [] \<and> list_all is_digit (snd e) \<and> 0 \<le> digits_value (snd e) \<and> digits_value (snd e) < 2 ^ 31"

definition typed :: "entry list \<Rightarrow> byte list" where
  "typed es = concat (map (\<lambda>e. fst e @ newline # snd e @ [newline]) es)"

definition film_of :: "entry \<Rightarrow> item" where
  "film_of e = \<lparr>title = take 44 (fst e), rating = digits_value (snd e)\<rparr>"

lemma add_with_memory:
  assumes "heap_list h l xs" "lfails h = []"
  shows "\<exists>l' h'. AddItem i l h = Some (True, l', h') \<and> heap_list h' l' (xs @ [i]) \<and> lfails h' = []"
proof -
  obtain b l' h' where a: "AddItem i l h = Some (b, l', h')" "heap_list h' l' (if b then xs @ [i] else xs)"
    using films.add_end [OF assms(1), of i] by blast
  have "0 < fresh h" using assms(1) by (auto simp: heap_list_def list_at_def)
  then have "b \<and> lfails h' = []"
    using a(1) assms(2) by (auto simp: AddItem_def malloc_node_def CopyToNode_def set_next_def bind_Some_iff split: if_splits)
  then show ?thesis using a by auto
qed

lemma full_with_memory:
  assumes "heap_list h l xs" "lfails h = []"
  shows "\<exists>h'. ListIsFull h = Some (False, h') \<and> heap_list h' l xs \<and> lfails h' = []"
proof -
  obtain b h' where a: "ListIsFull h = Some (b, h')" "heap_list h' l xs" using films.full_keeps [OF assms(1)] by blast
  have "0 < fresh h" using assms(1) by (auto simp: heap_list_def list_at_def)
  then have "\<not> b \<and> lfails h' = []"
    using a(1) assms(2) by (auto simp: ListIsFull_def malloc_node_def free_node_def split: if_splits)
  then show ?thesis using a by auto
qed

text \<open>One film of the input.\<close>

lemma typed_Cons: "typed (e # es) @ r = fst e @ newline # (snd e @ newline # (typed es @ r))"
  by (simp add: typed_def)

lemma entry_read:
  assumes "entry_ok e"
  shows "s_gets TSIZE (fst e @ newline # r) = Some (Some (take 44 (fst e), r))" "take 44 (fst e) \<noteq> []"
    "scan_int (snd e @ newline # q) = Some (Some (digits_value (snd e)), newline # q)" "discard_line (newline # q) = Some q"
  using assms s_gets_line [of "fst e" TSIZE r] scan_digits [of "snd e" q] by (auto simp: entry_ok_def TSIZE_def)

lemma gather_films:
  assumes "heap_list h l xs" "lfails h = []" "list_all entry_ok es"
  shows "\<exists>l' h'. gather l h rt (typed es @ newline # r) = Some (l', h', r) \<and> heap_list h' l' (xs @ map film_of es) \<and> lfails h' = []"
  using assms
proof (induction es arbitrary: l h xs rt)
  case Nil
  have "s_gets TSIZE (newline # r) = Some (Some ([], r))" using s_gets_line [of "[]" TSIZE r] by simp
  then show ?case using Nil by (subst gather.simps) (simp add: typed_def)
next
  case (Cons e es)
  have e: "entry_ok e" using Cons.prems(3) by simp
  obtain l1 h1 where a: "AddItem (film_of e) l h = Some (True, l1, h1)" "heap_list h1 l1 (xs @ [film_of e])" "lfails h1 = []"
    using add_with_memory [OF Cons.prems(1,2)] by blast
  obtain h2 where f: "ListIsFull h1 = Some (False, h2)" "heap_list h2 l1 (xs @ [film_of e])" "lfails h2 = []"
    using full_with_memory [OF a(2,3)] by blast
  have "gather l h rt (typed (e # es) @ newline # r) = gather l1 h2 (digits_value (snd e)) (typed es @ newline # r)"
    unfolding typed_Cons using entry_read [OF e] a(1) f(1)
    by (subst gather.simps) (simp add: film_of_def)
  then show ?case using Cons.IH [OF f(2,3), of "digits_value (snd e)"] Cons.prems(3) by simp
qed

text \<open>
  C32 (films.c, functional).  On input that is a sequence of titles and ratings followed by an
  empty line, the program ends, prints every film once and in the order of entry, with its
  title cut to the 44 bytes that fit the buffer, prints their number, and has released all
  memory; reading a title that is not ended by a newline never returns.
\<close>

theorem films_main_lists:
  assumes "list_all entry_ok es" "heap_list h 0 []" "lfails h = []" "newline \<notin> set t" "t \<noteq> []"
  shows "\<exists>h'. films_main rt h (typed es @ newline # r)
      = Some ((if es = [] then [NoData] else Heading # map (\<lambda>e. Movie (film_of e)) es) @ [Entered (of_nat (length es)), Bye], h')
    \<and> nodes h' = Map.empty \<and> films_main rt h t = None"
proof -
  have h0: "heap_list h InitializeList []" using assms(2) by (simp add: InitializeList_def)
  obtain h1 where h1: "ListIsFull h = Some (False, h1)" "heap_list h1 InitializeList []" "lfails h1 = []"
    using full_with_memory [OF h0 assms(3)] by blast
  obtain l2 h2 where g: "gather InitializeList h1 rt (typed es @ newline # r) = Some (l2, h2, r)" "heap_list h2 l2 (map film_of es)"
    using gather_films [OF h1(2,3) assms(1), of rt r] by auto
  obtain h3 where h3: "EmptyTheList l2 h2 = Some (InitializeList, h3)" "nodes h3 = Map.empty"
    using films.empty_all [OF g(2)] by (auto simp: heap_list_def list_at_def InitializeList_def)
  have "Traverse l2 showmovies h2 [Heading] = Some (fold showmovies (map film_of es) [Heading])"
    by (rule traverse_heap [OF g(2)])
  moreover have "fold showmovies is out = out @ map Movie is" for "is" out
    by (induction "is" arbitrary: out) (auto simp: showmovies_def)
  moreover have "gather InitializeList h1 rt t = None"
    using s_gets_hangs [OF assms(4,5), of TSIZE] by (subst gather.simps) simp
  ultimately show ?thesis
    using h1(1) g(1) h3 films.empty_iff [OF g(2)] films.count_items [OF g(2)] by (simp add: films_main_def comp_def)
qed

theorem films_main_lists_witness:
  "\<exists>h'. films_main 0 empty_lheap (typed [([74, 97, 119, 115], [57])] @ newline # [])
      = Some ([Heading, Movie \<lparr>title = [74, 97, 119, 115], rating = 9\<rparr>, Entered 1, Bye], h')"
proof -
  have "list_all entry_ok [([74, 97, 119, 115], [57])]" by (simp add: entry_ok_def is_digit_def digits_value_def)
  moreover have "heap_list empty_lheap 0 []" "lfails empty_lheap = []"
    using empty_lheap_list by (simp_all add: InitializeList_def empty_lheap_def)
  ultimately show ?thesis
    using films_main_lists [of "[([74, 97, 119, 115], [57])]" empty_lheap "[65]" 0 "[]"]
    by (auto simp: film_of_def digits_value_def)
qed

section \<open>The program with its own list\<close>

lemma linked_show_list:
  "lseg ns l ps 0 \<Longrightarrow> map (\<lambda>p. map_option node_item (ns p)) ps = map Some xs \<Longrightarrow> linked_show ns l out = Some (out @ map Movie xs)"
proof (induction ps arbitrary: l out xs)
  case Nil
  then show ?case by (subst linked_show.simps) simp
next
  case (Cons p ps)
  then obtain x xs' where "xs = x # xs'" by (cases xs) auto
  with Cons show ?case by (subst linked_show.simps) auto
qed

lemma linked_free_list:
  assumes "lseg (nodes h) l ps 0" "distinct ps" "set ps \<subseteq> dom (nodes h)"
  shows "\<exists>h'. linked_free l h = Some h' \<and> nodes h' = (nodes h) |` (- set ps)"
  using assms
proof (induction ps arbitrary: l h)
  case Nil
  then show ?case by (subst linked_free.simps) (simp add: restrict_map_def)
next
  case (Cons p ps)
  then obtain n where n: "l = p" "p \<noteq> 0" "nodes h p = Some n" "lseg (nodes h) (node_next n) ps 0" by auto
  define h1 where "h1 = h\<lparr>nodes := (nodes h)(p := None)\<rparr>"
  have "lseg (nodes h1) (node_next n) ps 0"
    by (rule lseg_frame [OF n(4)]) (use Cons.prems(2) in \<open>auto simp: h1_def\<close>)
  moreover have "set ps \<subseteq> dom (nodes h1)" using Cons.prems(2,3) by (auto simp: h1_def)
  ultimately obtain h' where h': "linked_free (node_next n) h1 = Some h'" "nodes h' = (nodes h1) |` (- set ps)"
    using Cons.IH [of h1 "node_next n"] Cons.prems(2) by auto
  have "linked_free l h = Some h'" using n h'(1) by (subst linked_free.simps) (simp add: free_node_def h1_def domIff)
  moreover have "(nodes h1) |` (- set ps) = (nodes h) |` (- set (p # ps))"
    by (auto simp: h1_def restrict_map_def fun_eq_iff)
  ultimately show ?case using h' by auto
qed

text \<open>The state of the gathering loop: \<open>prev\<close> is the last node.\<close>

definition linked_inv :: "nat \<Rightarrow> nat \<Rightarrow> lheap \<Rightarrow> item list \<Rightarrow> bool" where
  "linked_inv l prev h xs \<longleftrightarrow> (\<exists>ps. list_at (nodes h) l ps xs \<and> 0 < fresh h \<and> (\<forall>p \<in> set ps. p < fresh h)
     \<and> (ps \<noteq> [] \<longrightarrow> prev = last ps) \<and> lfails h = [])"

lemma linked_step:
  assumes inv: "linked_inv l prev h xs" and e: "entry_ok e"
  shows "\<exists>l' prev' h'. linked_gather l prev h (fst e @ newline # snd e @ newline # r) = linked_gather l' prev' h' r
    \<and> linked_inv l' prev' h' (xs @ [film_of e])"
proof -
  obtain ps where ps: "list_at (nodes h) l ps xs" "0 < fresh h" "\<forall>p \<in> set ps. p < fresh h"
    "ps \<noteq> [] \<Longrightarrow> prev = last ps" "lfails h = []" using inv by (auto simp: linked_inv_def)
  define p where "p = fresh h"
  define n where "n = \<lparr>node_item = film_of e, node_next = 0\<rparr>"
  define h' where "h' = h\<lparr>fresh := p + 1, nodes := link_end (nodes h) ps p n\<rparr>"
  have p: "p \<notin> set ps" "p \<noteq> 0" using ps(2,3) by (auto simp: p_def)
  have l0: "l = 0 \<longleftrightarrow> ps = []" using ps(1) by (cases ps) (auto simp: list_at_def)
  have m: "malloc_node h = (p, h\<lparr>nodes := (nodes h)(p \<mapsto> \<lparr>node_item = \<lparr>title = [], rating = 0\<rparr>, node_next = 0\<rparr>), fresh := p + 1\<rparr>)"
    using ps(5) by (simp add: malloc_node_def p_def)
  have "linked_gather l prev h (fst e @ newline # snd e @ newline # r) = linked_gather (if ps = [] then p else l) p h' r"
  proof (cases "ps = []")
    case True
    then show ?thesis using l0 m entry_read [OF e]
      by (subst (1) linked_gather.simps) (simp add: set_next_def CopyToNode_def h'_def link_end_def n_def film_of_def)
  next
    case False
    have "prev \<in> dom (nodes h)" using ps(1,4) False by (simp add: list_at_def)
    then obtain k where k: "nodes h prev = Some k" by blast
    have "prev \<noteq> p" using ps(4) False p(1) by auto
    then show ?thesis using False l0 m entry_read [OF e] k ps(4)
      by (subst (1) linked_gather.simps)
        (simp add: set_next_def CopyToNode_def h'_def link_end_def n_def film_of_def fun_upd_twist)
  qed
  moreover have "linked_inv (if ps = [] then p else l) p h' (xs @ [film_of e])"
    unfolding linked_inv_def using list_at_link [OF ps(1) p, of n] ps(2,3,5)
    by (intro exI [of _ "ps @ [p]"]) (auto simp: h'_def n_def p_def less_Suc_eq)
  ultimately show ?thesis by blast
qed

lemma linked_gather_films:
  assumes "linked_inv l prev h xs" "list_all entry_ok es"
  shows "\<exists>l' prev' h'. linked_gather l prev h (typed es @ newline # r) = Some (l', h', r) \<and> linked_inv l' prev' h' (xs @ map film_of es)"
  using assms
proof (induction es arbitrary: l prev h xs)
  case Nil
  have "s_gets TSIZE (newline # r) = Some (Some ([], r))" using s_gets_line [of "[]" TSIZE r] by simp
  then show ?case using Nil by (subst linked_gather.simps) (auto simp: typed_def)
next
  case (Cons e es)
  obtain l1 prev1 h1 where "linked_gather l prev h (typed (e # es) @ newline # r) = linked_gather l1 prev1 h1 (typed es @ newline # r)"
    "linked_inv l1 prev1 h1 (xs @ [film_of e])"
    unfolding typed_Cons using linked_step [OF Cons.prems(1), where e = e and r = "typed es @ newline # r"] Cons.prems(2) by auto
  then show ?case using Cons.IH [of l1 prev1 h1 "xs @ [film_of e]"] Cons.prems(2) by simp
qed

text \<open>
  Films_linkedlist.c, functional. The program that links the records itself prints the same
  films in the same order and frees every record; when the first allocation fails its
  behaviour is undefined, because the result of \<open>malloc\<close> is not tested.
\<close>

theorem linked_main_lists:
  assumes "list_all entry_ok es" "heap_list h 0 []" "lfails h = []"
  shows "(\<exists>h'. linked_main h (typed es @ newline # r)
      = Some ((if es = [] then [NoData] else Heading # map (\<lambda>e. Movie (film_of e)) es) @ [Bye], h') \<and> nodes h' = Map.empty)
    \<and> (es \<noteq> [] \<longrightarrow> linked_main (h\<lparr>lfails := [True]\<rparr>) (typed es @ newline # r) = None)"
proof
  have "linked_inv 0 0 h []" using assms(2,3) by (auto simp: heap_list_def list_at_def linked_inv_def)
  then obtain l prev h1 where g: "linked_gather 0 0 h (typed es @ newline # r) = Some (l, h1, r)" "linked_inv l prev h1 (map film_of es)"
    using linked_gather_films [of 0 0 h "[]", OF _ assms(1), where r = r] by auto
  obtain ps where ps: "list_at (nodes h1) l ps (map film_of es)" using g(2) by (auto simp: linked_inv_def)
  have s: "linked_show (nodes h1) l out = Some (out @ map Movie (map film_of es))" for out
    using ps unfolding list_at_def by (blast intro: linked_show_list)
  obtain h2 where f: "linked_free l h1 = Some h2" "nodes h2 = (nodes h1) |` (- set ps)"
    using linked_free_list [of h1 l ps] ps by (auto simp: list_at_def)
  have "nodes h2 = Map.empty" unfolding f(2) using ps by (auto simp: list_at_def restrict_map_def fun_eq_iff domIff)
  moreover have "l = 0 \<longleftrightarrow> es = []"
  proof -
    have "length ps = length es" using ps by (metis list_at_def length_map)
    then show ?thesis using ps by (cases ps; cases es) (auto simp: list_at_def)
  qed
  ultimately show "\<exists>h'. linked_main h (typed es @ newline # r)
      = Some ((if es = [] then [NoData] else Heading # map (\<lambda>e. Movie (film_of e)) es) @ [Bye], h') \<and> nodes h' = Map.empty"
    using g(1) s f(1) by (simp add: linked_main_def comp_def)
  show "es \<noteq> [] \<longrightarrow> linked_main (h\<lparr>lfails := [True]\<rparr>) (typed es @ newline # r) = None"
  proof
    assume "es \<noteq> []"
    then obtain e es' where es: "es = e # es'" "entry_ok e" using assms(1) by (cases es) auto
    have "nodes h 0 = None" using assms(2) by (auto simp: heap_list_def list_at_def)
    then have "linked_gather 0 0 (h\<lparr>lfails := [True]\<rparr>) (typed es @ newline # r) = None"
      unfolding es(1) typed_Cons using entry_read [OF es(2)]
      by (subst linked_gather.simps) (simp add: malloc_node_def set_next_def)
    then show "linked_main (h\<lparr>lfails := [True]\<rparr>) (typed es @ newline # r) = None" by (simp add: linked_main_def)
  qed
qed

theorem linked_main_lists_witness:
  "\<exists>h'. linked_main empty_lheap (typed [([74, 97, 119, 115], [57])] @ newline # [])
      = Some ([Heading, Movie \<lparr>title = [74, 97, 119, 115], rating = 9\<rparr>, Bye], h')"
proof -
  have "list_all entry_ok [([74, 97, 119, 115], [57])]" by (simp add: entry_ok_def is_digit_def digits_value_def)
  moreover have "heap_list empty_lheap 0 []" "lfails empty_lheap = []"
    using empty_lheap_list by (simp_all add: InitializeList_def empty_lheap_def)
  ultimately show ?thesis
    using linked_main_lists [of "[([74, 97, 119, 115], [57])]" empty_lheap "[]"]
    by (auto simp: film_of_def digits_value_def)
qed

end
