(* ===== verification/Interleaving.thy ===== *)
theory Interleaving
  imports Prelude
begin

text \<open>
  Threads that wait for semaphores, under an arbitrary scheduler.  A thread is a local state and a
  function \<open>act\<close> that performs its next memory access or semaphore operation; \<open>None\<close> says that
  the thread cannot move, because it waits or because it has returned.  A schedule is a list of
  thread numbers; a scheduled thread that cannot move does nothing.  The locales are the
  interfaces for the clients: an invariant that every action keeps, and a semaphore that
  is the property of the threads in a certain section of their code.
\<close>

type_synonym ('g, 'l) threads = "'g \<times> 'l list"

definition move :: "(nat \<Rightarrow> 'l \<Rightarrow> 'g \<Rightarrow> ('l \<times> 'g) option) \<Rightarrow> nat \<Rightarrow> ('g, 'l) threads \<Rightarrow> ('g, 'l) threads" where
  "move act t s = (case s of (g, ls) \<Rightarrow>
     if t < length ls then (case act t (ls ! t) g of None \<Rightarrow> (g, ls) | Some (l, g1) \<Rightarrow> (g1, ls[t := l]))
     else (g, ls))"

definition run_threads :: "(nat \<Rightarrow> 'l \<Rightarrow> 'g \<Rightarrow> ('l \<times> 'g) option) \<Rightarrow> nat list \<Rightarrow> ('g, 'l) threads \<Rightarrow> ('g, 'l) threads" where
  "run_threads act sched s = fold (move act) sched s"

lemma run_threads_simps [simp]:
  "run_threads act [] s = s"
  "run_threads act (t # ts) s = run_threads act ts (move act t s)"
  by (simp_all add: run_threads_def)

lemma run_threads_append: "run_threads act (xs @ ys) s = run_threads act ys (run_threads act xs s)"
  by (simp add: run_threads_def)

lemma length_move [simp]: "length (snd (move act t s)) = length (snd s)"
  by (auto simp: move_def split: prod.splits option.splits)

lemma length_run [simp]: "length (snd (run_threads act sched s)) = length (snd s)"
  by (induction sched arbitrary: s) auto

text \<open>An invariant of the actions holds under every schedule.\<close>

locale kept =
  fixes act :: "nat \<Rightarrow> 'l \<Rightarrow> 'g \<Rightarrow> ('l \<times> 'g) option"
    and inv :: "'g \<Rightarrow> 'l list \<Rightarrow> bool"
  assumes act_keeps: "inv g ls \<Longrightarrow> t < length ls \<Longrightarrow> act t (ls ! t) g = Some (l, g1) \<Longrightarrow> inv g1 (ls[t := l])"
begin

lemma move_keeps: "inv (fst s) (snd s) \<Longrightarrow> inv (fst (move act t s)) (snd (move act t s))"
  using act_keeps by (auto simp: move_def split: prod.splits option.splits)

lemma run_keeps: "inv (fst s) (snd s) \<Longrightarrow> inv (fst (run_threads act sched s)) (snd (run_threads act sched s))"
  using move_keeps by (induction sched arbitrary: s) auto

end

section \<open>Counting threads\<close>

definition num :: "('a \<Rightarrow> bool) \<Rightarrow> 'a list \<Rightarrow> nat" where
  "num p ts = length (filter p ts)"

lemma num_update: "t < length ts \<Longrightarrow> num p (ts[t := c]) + (if p (ts ! t) then 1 else 0) = num p ts + (if p c then 1 else 0)"
proof (induction ts arbitrary: t)
  case (Cons a ts)
  then show ?case by (cases t) (auto simp: num_def)
qed simp

lemma num_pos: "t < length ts \<Longrightarrow> p (ts ! t) \<Longrightarrow> 0 < num p ts"
  by (metis num_def filter_empty_conv length_greater_0_conv nth_mem)

lemma num_zero: "num p ts = 0 \<longleftrightarrow> list_all (\<lambda>l. \<not> p l) ts"
  by (simp add: num_def filter_empty_conv list_all_iff)

text \<open>Two threads in a section that at most one can be in are the same thread.\<close>

lemma num_le_1_unique:
  assumes "num p ts \<le> 1" "t < length ts" "u < length ts" "p (ts ! t)" "p (ts ! u)"
  shows "t = u"
proof (rule ccontr)
  assume "t \<noteq> u"
  then have "{t, u} \<subseteq> {i. i < length ts \<and> p (ts ! i)}" using assms by auto
  then have "card {t, u} \<le> num p ts" unfolding num_def length_filter_conv_card by (rule card_mono [rotated]) simp
  then show False using \<open>t \<noteq> u\<close> assms(1) by simp
qed

section \<open>Semaphores\<close>

text \<open>Every action that takes a unit of the semaphore enters the section, every one that gives it back leaves it.\<close>

locale semaphore =
  fixes act :: "nat \<Rightarrow> 'l \<Rightarrow> 'g \<Rightarrow> ('l \<times> 'g) option"
    and sem :: "'g \<Rightarrow> nat"
    and holds :: "'l \<Rightarrow> bool"
  assumes balance: "act t l g = Some (l1, g1) \<Longrightarrow> sem g1 + (if holds l1 then 1 else 0) = sem g + (if holds l then 1 else 0)"
begin

lemma act_units: "t < length ls \<Longrightarrow> act t (ls ! t) g = Some (l, g1) \<Longrightarrow> sem g1 + num holds (ls[t := l]) = sem g + num holds ls"
  using balance [of t "ls ! t" g l g1] num_update [of t ls holds l] by auto

lemma move_units: "sem (fst (move act t s)) + num holds (snd (move act t s)) = sem (fst s) + num holds (snd s)"
  using act_units by (auto simp: move_def split: prod.splits option.splits)

lemma run_units: "sem (fst (run_threads act sched s)) + num holds (snd (run_threads act sched s)) = sem (fst s) + num holds (snd s)"
  by (induction sched arbitrary: s) (auto simp: move_units)

end

section \<open>Progress\<close>

lemma sum_threads_update:
  assumes "t < length ls"
  shows "(\<Sum>u < length ls. f u (ls[t := l] ! u)) + f t (ls ! t) = (\<Sum>u < length ls. f u (ls ! u)) + (f t l :: 'a :: comm_monoid_add)"
proof -
  have "(\<Sum>u < length ls. f u (ls[t := l] ! u)) = f t l + (\<Sum>u \<in> {..<length ls} - {t}. f u (ls ! u))"
    using assms by (subst sum.remove [of _ t]) auto
  moreover have "(\<Sum>u < length ls. f u (ls ! u)) = f t (ls ! t) + (\<Sum>u \<in> {..<length ls} - {t}. f u (ls ! u))"
    using assms by (subst sum.remove [of _ t]) auto
  ultimately show ?thesis by (simp add: ac_simps)
qed

text \<open>The threads are scheduled in turn, \<open>k\<close> times.\<close>

definition rounds :: "nat \<Rightarrow> nat \<Rightarrow> nat list" where
  "rounds n k = concat (replicate k [0..<n])"

text \<open>
  Every action is a part of the work that its thread has left, and some thread can move as long
  as not all have finished.  Then the threads finish when they are scheduled in turn.
\<close>

locale progressing = kept +
  fixes work :: "nat \<Rightarrow> 'b \<Rightarrow> nat"
    and finished :: "'b \<Rightarrow> bool"
  assumes act_works: "inv g ls \<Longrightarrow> t < length ls \<Longrightarrow> act t (ls ! t) g = Some (l, g1) \<Longrightarrow> work t l < work t (ls ! t)"
    and not_stuck: "inv g ls \<Longrightarrow> \<not> list_all finished ls \<Longrightarrow> \<exists>t < length ls. act t (ls ! t) g \<noteq> None"
begin

definition total_work where
  "total_work ls = (\<Sum>t < length ls. work t (ls ! t))"

lemma move_works: "inv (fst s) (snd s) \<Longrightarrow> move act t s = s \<or> total_work (snd (move act t s)) < total_work (snd s)"
proof -
  assume i: "inv (fst s) (snd s)"
  have "total_work ((snd s)[t := l]) < total_work (snd s)" if "t < length (snd s)" "act t (snd s ! t) (fst s) = Some (l, g1)" for l g1
    using act_works [OF i that] sum_threads_update [OF that(1), of work l] by (simp add: total_work_def)
  then show ?thesis by (auto simp: move_def split: prod.splits option.splits)
qed

lemma run_work_le: "inv (fst s) (snd s) \<Longrightarrow> total_work (snd (run_threads act ts s)) \<le> total_work (snd s)"
proof (induction ts arbitrary: s)
  case (Cons t ts)
  show ?case using Cons.IH [OF move_keeps [OF Cons.prems], of t] move_works [OF Cons.prems, of t] by auto
qed simp

lemma run_works:
  assumes "inv (fst s) (snd s)"
  shows "(\<forall>t \<in> set ts. move act t s = s) \<or> total_work (snd (run_threads act ts s)) < total_work (snd s)"
proof (induction ts)
  case (Cons t ts)
  show ?case
  proof (cases "move act t s = s")
    case True
    then show ?thesis using Cons.IH by simp
  next
    case False
    then show ?thesis using move_works [OF assms, of t] run_work_le [OF move_keeps [OF assms], of ts t] by simp
  qed
qed simp

lemma stays_finished:
  assumes "inv (fst s) (snd s)" "\<forall>t < length (snd s). move act t s = s"
  shows "list_all finished (snd s)"
proof (rule ccontr)
  assume "\<not> ?thesis"
  then obtain t l g1 where "t < length (snd s)" "act t (snd s ! t) (fst s) = Some (l, g1)"
    using not_stuck [OF assms(1)] by fastforce
  moreover then have "(snd s)[t := l] \<noteq> snd s" using act_works [OF assms(1)] by (metis nth_list_update_eq less_irrefl)
  ultimately have "snd (move act t s) \<noteq> snd s" by (simp add: move_def split_beta)
  then show False using assms(2) \<open>t < length (snd s)\<close> by simp
qed

lemma rounds_finish: "inv (fst s) (snd s) \<Longrightarrow> total_work (snd s) \<le> k \<Longrightarrow> list_all finished (snd (run_threads act (rounds (length (snd s)) k) s))"
proof (induction k arbitrary: s)
  case 0
  then have "\<forall>t < length (snd s). move act t s = s" using move_works [OF 0(1)] by auto
  then show ?case using stays_finished [OF 0(1)] by (simp add: rounds_def)
next
  case (Suc k)
  let ?s = "run_threads act [0..<length (snd s)] s"
  have r: "run_threads act (rounds (length (snd s)) (Suc k)) s = run_threads act (rounds (length (snd ?s)) k) ?s"
    by (simp add: rounds_def run_threads_append)
  show ?case
  proof (cases "\<forall>t < length (snd s). move act t s = s")
    case True
    then have "run_threads act ts s = s" if "\<forall>t \<in> set ts. t < length (snd s)" for ts
      using that by (induction ts) auto
    then have "run_threads act (rounds (length (snd s)) (Suc k)) s = s" by (auto simp: rounds_def)
    then show ?thesis using stays_finished [OF Suc.prems(1) True] by simp
  next
    case False
    then have "total_work (snd ?s) < total_work (snd s)" using run_works [OF Suc.prems(1), of "[0..<length (snd s)]"] by auto
    then show ?thesis unfolding r using Suc.prems(2) by (intro Suc.IH run_keeps [OF Suc.prems(1)]) simp
  qed
qed

end

end
