(* ===== verification/Counters.thy ===== *)
theory Counters
  imports Interleaving "HOL-Library.Word"
begin

text \<open>
  The shared counters of \<open>24-sync-basic/goodcnt.c\<close> and \<open>badcnt.c\<close>, and the loop that adds under
  a mutex, which \<open>26-parallelism/psum-mutex.c\<close> has as well.  A thread performs the test of its
  loop, the semaphore operations, and the load and the store of the shared \<open>long\<close> as separate
  actions, so that the increments of two threads can overlap.
\<close>

section \<open>Definitions\<close>

record add_shared =
  total :: "64 word"
  lock :: nat

text \<open>The next action of a thread in round \<open>i\<close> of its loop.\<close>

datatype add_pc = Test int | Acquire int | Load int | Store int "64 word" | Release int | Finished

text \<open>\<open>for (; i < e; i++) { P(&mutex); total += a(i); V(&mutex); }\<close>\<close>

fun locked_add :: "(int \<Rightarrow> 64 word) \<Rightarrow> int \<Rightarrow> add_pc \<Rightarrow> add_shared \<Rightarrow> (add_pc \<times> add_shared) option" where
  "locked_add a e (Test i) g = Some (if i < e then Acquire i else Finished, g)"
| "locked_add a e (Acquire i) g = (if 0 < lock g then Some (Load i, g\<lparr>lock := lock g - 1\<rparr>) else None)"
| "locked_add a e (Load i) g = Some (Store i (total g), g)"
| "locked_add a e (Store i x) g = Some (Release i, g\<lparr>total := x + a i\<rparr>)"
| "locked_add a e (Release i) g = Some (Test (i + 1), g\<lparr>lock := lock g + 1\<rparr>)"
| "locked_add a e Finished g = None"

definition good_thread :: "int \<Rightarrow> add_pc \<Rightarrow> add_shared \<Rightarrow> (add_pc \<times> add_shared) option" where
  "good_thread niters = locked_add (\<lambda>i. 1) niters"

text \<open>The thread of \<open>badcnt.c\<close> has no semaphore operations.\<close>

fun bad_thread :: "int \<Rightarrow> add_pc \<Rightarrow> add_shared \<Rightarrow> (add_pc \<times> add_shared) option" where
  "bad_thread niters (Test i) g = Some (if i < niters then Load i else Finished, g)"
| "bad_thread niters (Load i) g = Some (Store i (total g), g)"
| "bad_thread niters (Store i x) g = Some (Test (i + 1), g\<lparr>total := x + 1\<rparr>)"
| "bad_thread niters _ g = None"

datatype cnt_output = Usage | BOOM "64 word" | OK "64 word"

text \<open>
  \<open>main\<close>, for the value that \<open>atoi\<close> delivers: after the schedule it still waits for its threads
  (\<open>None\<close>) or has printed its line.  In \<open>goodcnt.c\<close> \<open>2 * niters\<close> is a product of \<open>int\<close>s, in
  \<open>badcnt.c\<close> of \<open>long\<close>s.
\<close>

definition start_cnt :: "(add_shared, add_pc) threads" where
  "start_cnt = (\<lparr>total = 0, lock = 1\<rparr>, replicate 2 (Test 0))"

definition good_main :: "nat \<Rightarrow> int \<Rightarrow> nat list \<Rightarrow> cnt_output option" where
  "good_main argc niters sched = (if argc \<noteq> 2 then Some Usage
     else case run_threads (\<lambda>t. good_thread niters) sched start_cnt of (g, ls) \<Rightarrow>
       if list_all ((=) Finished) ls
       then Some (if total g \<noteq> word_of_int (signed_take_bit 31 (2 * niters)) then BOOM (total g) else OK (total g))
       else None)"

definition bad_main :: "nat \<Rightarrow> int \<Rightarrow> nat list \<Rightarrow> cnt_output option" where
  "bad_main argc niters sched = (if argc \<noteq> 2 then Some Usage
     else case run_threads (\<lambda>t. bad_thread niters) sched start_cnt of (g, ls) \<Rightarrow>
       if list_all ((=) Finished) ls
       then Some (if total g \<noteq> 2 * word_of_int niters then BOOM (total g) else OK (total g))
       else None)"

section \<open>Adding under a mutex\<close>

fun locked :: "add_pc \<Rightarrow> bool" where
  "locked (Load i) = True" | "locked (Store i x) = True" | "locked (Release i) = True" | "locked _ = False"

interpretation mtx: semaphore "\<lambda>t. locked_add a (e t)" lock locked for a e
proof unfold_locales
  show "lock g1 + (if locked l1 then 1 else 0) = lock g + (if locked l then 1 else 0)"
    if "locked_add a (e t) l g = Some (l1, g1)" for t l g l1 g1
    using that by (cases l) (auto split: if_splits)
qed

text \<open>The rounds that a thread has completed, and what it has added to the sum in them.\<close>

fun rounds_done :: "int \<Rightarrow> add_pc \<Rightarrow> int" where
  "rounds_done e (Test i) = i" | "rounds_done e (Acquire i) = i" | "rounds_done e (Load i) = i"
| "rounds_done e (Store i x) = i" | "rounds_done e (Release i) = i + 1" | "rounds_done e Finished = e"

definition added :: "(int \<Rightarrow> 64 word) \<Rightarrow> int \<Rightarrow> int \<Rightarrow> add_pc \<Rightarrow> 64 word" where
  "added a b e l = (\<Sum>i = b..<rounds_done e l. a i)"

fun in_loop :: "int \<Rightarrow> int \<Rightarrow> add_pc \<Rightarrow> bool" where
  "in_loop b e (Test i) \<longleftrightarrow> b \<le> i \<and> (i \<le> e \<or> i = b)"
| "in_loop b e (Acquire i) \<longleftrightarrow> b \<le> i \<and> i < e" | "in_loop b e (Load i) \<longleftrightarrow> b \<le> i \<and> i < e"
| "in_loop b e (Store i x) \<longleftrightarrow> b \<le> i \<and> i < e" | "in_loop b e (Release i) \<longleftrightarrow> b \<le> i \<and> i < e"
| "in_loop b e Finished \<longleftrightarrow> True"

text \<open>The value in the register of a thread between its load and its store.\<close>

fun pending :: "add_pc \<Rightarrow> 64 word option" where
  "pending (Store i x) = Some x" | "pending _ = None"

definition add_inv :: "(int \<Rightarrow> 64 word) \<Rightarrow> (nat \<Rightarrow> int) \<Rightarrow> (nat \<Rightarrow> int) \<Rightarrow> add_shared \<Rightarrow> add_pc list \<Rightarrow> bool" where
  "add_inv a b e g ls \<longleftrightarrow> lock g + num locked ls = 1 \<and> total g = (\<Sum>t < length ls. added a (b t) (e t) (ls ! t))
     \<and> (\<forall>t < length ls. in_loop (b t) (e t) (ls ! t)) \<and> (\<forall>t < length ls. \<forall>x. pending (ls ! t) = Some x \<longrightarrow> x = total g)"

lemma sum_next: "(b :: int) \<le> i \<Longrightarrow> (\<Sum>j = b..<i + 1. f j) = (\<Sum>j = b..<i. f j) + (f i :: 64 word)"
proof -
  assume "b \<le> i"
  then have "{b..<i + 1} = insert i {b..<i}" by auto
  then show ?thesis by (simp add: add.commute)
qed

text \<open>What one action does to the thread that performs it.\<close>

lemma locked_add_local:
  assumes "locked_add a e l g = Some (l1, g1)" "in_loop b e l" "\<And>x. pending l = Some x \<Longrightarrow> x = total g"
  shows "in_loop b e l1" "\<And>x. pending l1 = Some x \<Longrightarrow> x = total g1" "total g1 + added a b e l = total g + added a b e l1"
    "total g1 \<noteq> total g \<Longrightarrow> locked l" 
proof -
  show "in_loop b e l1" using assms(1,2) by (cases l) (auto split: if_splits)
  show "x = total g1" if "pending l1 = Some x" for x using that assms(1) by (cases l) (auto split: if_splits)
  show "total g1 + added a b e l = total g + added a b e l1"
    using assms by (cases l) (auto simp: added_def sum_next split: if_splits)
  show "locked l" if "total g1 \<noteq> total g" using that assms(1) by (cases l) (auto split: if_splits)
qed

lemma pending_locked: "pending l = Some x \<Longrightarrow> locked l"
  by (cases l) auto

lemma add_inv_act:
  assumes inv: "add_inv a b e g ls" and t: "t < length ls" and act: "locked_add a (e t) (ls ! t) g = Some (l, g1)"
  shows "add_inv a b e g1 (ls[t := l])"
proof -
  have units: "lock g + num locked ls = 1" using inv by (simp add: add_inv_def)
  have own: "in_loop (b t) (e t) (ls ! t)" "\<And>x. pending (ls ! t) = Some x \<Longrightarrow> x = total g" using inv t by (auto simp: add_inv_def)
  note loc = locked_add_local [OF act own]
  have lock: "lock g1 + num locked (ls[t := l]) = 1" using mtx.act_units [of t ls a e, OF t act] units by simp
  have "total g1 + added a (b t) (e t) (ls ! t) = (\<Sum>u < length ls. added a (b u) (e u) (ls[t := l] ! u)) + added a (b t) (e t) (ls ! t)"
    using loc(3) inv sum_threads_update [OF t, of "\<lambda>u. added a (b u) (e u)" l] by (simp add: add_inv_def)
  then have sum: "total g1 = (\<Sum>u < length ls. added a (b u) (e u) (ls[t := l] ! u))" by simp
  have pend: "x = total g1" if "u < length ls" "pending (ls[t := l] ! u) = Some x" for u x
  proof (cases "u = t")
    case True
    then show ?thesis using that t loc(2) by simp
  next
    case False
    then have u: "pending (ls ! u) = Some x" using that by simp
    have "\<not> locked (ls ! t)"
      using num_le_1_unique [of locked ls t u] units that(1) t False pending_locked [OF u] by auto
    then have "total g1 = total g" using loc(4) by blast
    moreover have "x = total g" using inv that(1) u unfolding add_inv_def by blast
    ultimately show ?thesis by simp
  qed
  have loop: "in_loop (b u) (e u) (ls[t := l] ! u)" if "u < length ls" for u
    using that inv loc(1) by (cases "u = t") (auto simp: add_inv_def)
  show ?thesis using lock sum pend loop by (simp add: add_inv_def)
qed

text \<open>The actions that a thread has left: five for every round, one for the last test.\<close>

fun add_work :: "int \<Rightarrow> add_pc \<Rightarrow> nat" where
  "add_work e (Test i) = 5 * nat (e - i) + 1" | "add_work e (Acquire i) = 5 * nat (e - i)"
| "add_work e (Load i) = 5 * nat (e - i) - 1" | "add_work e (Store i x) = 5 * nat (e - i) - 2"
| "add_work e (Release i) = 5 * nat (e - i) - 3" | "add_work e Finished = 0"

interpretation adders: progressing "\<lambda>t. locked_add a (e t)" "add_inv a b e" "\<lambda>t. add_work (e t)" "(=) Finished" for a b e
proof unfold_locales
  fix g ls t l g1
  assume inv: "add_inv a b e g ls" and t: "t < length ls" and act: "locked_add a (e t) (ls ! t) g = Some (l, g1)"
  show "add_inv a b e g1 (ls[t := l])" using add_inv_act [OF inv t act] .
  have "in_loop (b t) (e t) (ls ! t)" using inv t by (simp add: add_inv_def)
  then show "add_work (e t) l < add_work (e t) (ls ! t)"
    using act by (cases "ls ! t") (auto split: if_splits)
next
  fix g ls
  assume inv: "add_inv a b e g ls" and "\<not> list_all ((=) Finished) ls"
  then obtain u where u: "u < length ls" "ls ! u \<noteq> Finished" by (auto simp: list_all_length)
  show "\<exists>t < length ls. locked_add a (e t) (ls ! t) g \<noteq> None"
  proof (cases "lock g = 0")
    case True
    then have "num locked ls = 1" using inv by (simp add: add_inv_def)
    then obtain t where "t < length ls" "locked (ls ! t)" using num_zero [of locked ls] by (auto simp: list_all_length)
    then show ?thesis by (cases "ls ! t") (auto intro!: exI [of _ t])
  next
    case False
    then show ?thesis using u by (cases "ls ! u") (auto intro!: exI [of _ u])
  qed
qed

lemma start_add_inv:
  "add_inv a b e \<lparr>total = 0, lock = 1\<rparr> (map (\<lambda>t. Test (b t)) [0..<n])"
  by (simp add: add_inv_def num_def added_def)

text \<open>
  Threads that add under the mutex: when they have finished, the total is the sum of everything
  they had to add, and they do finish.
\<close>

lemma adders_total:
  fixes sched a b e n
  defines "run \<equiv> \<lambda>ts. run_threads (\<lambda>t. locked_add a (e t)) ts (\<lparr>total = 0, lock = 1\<rparr>, map (\<lambda>t. Test (b t)) [0..<n])"
  shows "list_all ((=) Finished) (snd (run sched)) \<Longrightarrow> total (fst (run sched)) = (\<Sum>t < n. \<Sum>i = b t..<e t. a i)"
    and "\<exists>k. list_all ((=) Finished) (snd (run (sched @ rounds n k)))"
proof -
  have len: "length (snd (run ts)) = n" for ts by (simp add: run_def)
  have inv: "add_inv a b e (fst (run ts)) (snd (run ts))" for ts
    unfolding run_def by (rule adders.run_keeps) (use start_add_inv in simp)
  show "total (fst (run sched)) = (\<Sum>t < n. \<Sum>i = b t..<e t. a i)" if fin: "list_all ((=) Finished) (snd (run sched))"
  proof -
    have "snd (run sched) ! t = Finished" if "t < n" for t using fin that len by (simp add: list_all_length)
    then show ?thesis using inv [of sched] len [of sched] by (simp add: add_inv_def added_def)
  qed
  have "list_all ((=) Finished) (snd (run (sched @ rounds n k)))" if "k = adders.total_work e (snd (run sched))" for k
    using adders.rounds_finish [OF inv [of sched], of k] that len [of sched] by (simp add: run_def run_threads_append)
  then show "\<exists>k. list_all ((=) Finished) (snd (run (sched @ rounds n k)))" by blast
qed

section \<open>Without a mutex\<close>

text \<open>A thread that runs alone counts correctly.\<close>

lemma bad_alone:
  "k = nat (n - i) \<Longrightarrow> i \<le> n \<Longrightarrow> t < length ls \<Longrightarrow> ls ! t = Test i \<Longrightarrow>
   run_threads (\<lambda>t. bad_thread n) (replicate (3 * k + 1) t) (g, ls) = (g\<lparr>total := total g + of_nat k\<rparr>, ls[t := Finished])"
proof (induction k arbitrary: i g ls)
  case 0
  then show ?case by (simp add: move_def)
next
  case (Suc k)
  let ?g = "g\<lparr>total := total g + 1\<rparr>"
  have i: "i < n" using Suc.prems(1) by simp
  have k: "k = nat (n - (i + 1))" using Suc.prems(1) by simp
  have split: "replicate (3 * Suc k + 1) t = [t, t, t] @ replicate (3 * k + 1) t" by (simp add: numeral_eq_Suc)
  have first: "run_threads (\<lambda>t. bad_thread n) [t, t, t] (g, ls) = (?g, ls[t := Test (i + 1)])"
    using Suc.prems(2-) i by (simp add: move_def)
  have "run_threads (\<lambda>t. bad_thread n) (replicate (3 * k + 1) t) (?g, ls[t := Test (i + 1)])
      = (?g\<lparr>total := total ?g + of_nat k\<rparr>, (ls[t := Test (i + 1)])[t := Finished])"
    using Suc.prems(3) i by (intro Suc.IH [OF k]) simp_all
  then show ?case unfolding split run_threads_append first by (simp add: add.assoc)
qed

definition losing_schedule :: "int \<Rightarrow> nat list" where
  "losing_schedule n = [1, 1] @ replicate (3 * nat n + 1) 0 @ [1] @ replicate (3 * nat (n - 1) + 1) 1"

lemma losing_run:
  assumes "1 \<le> n"
  shows "run_threads (\<lambda>t. bad_thread n) (losing_schedule n) start_cnt = (\<lparr>total = of_nat (nat n), lock = 1\<rparr>, [Finished, Finished])"
proof -
  have 1: "run_threads (\<lambda>t. bad_thread n) [1, 1] start_cnt = (\<lparr>total = 0, lock = 1\<rparr>, [Test 0, Store 0 0])"
    using assms by (simp add: start_cnt_def move_def numeral_2_eq_2)
  have 2: "run_threads (\<lambda>t. bad_thread n) (replicate (3 * nat n + 1) 0) (\<lparr>total = 0, lock = 1\<rparr>, [Test 0, Store 0 0])
      = (\<lparr>total = of_nat (nat n), lock = 1\<rparr>, [Finished, Store 0 0])"
    using bad_alone [of "nat n" n 0 0 "[Test 0, Store 0 0]" "\<lparr>total = 0, lock = 1\<rparr>"] assms by simp
  have 3: "run_threads (\<lambda>t. bad_thread n) [1] (\<lparr>total = of_nat (nat n), lock = 1\<rparr>, [Finished, Store 0 0])
      = (\<lparr>total = 1, lock = 1\<rparr>, [Finished, Test 1])"
    by (simp add: move_def)
  have 4: "run_threads (\<lambda>t. bad_thread n) (replicate (3 * nat (n - 1) + 1) 1) (\<lparr>total = 1, lock = 1\<rparr>, [Finished, Test 1])
      = (\<lparr>total = 1 + of_nat (nat (n - 1)), lock = 1\<rparr>, [Finished, Finished])"
    using bad_alone [of "nat (n - 1)" n 1 1 "[Finished, Test 1]" "\<lparr>total = 1, lock = 1\<rparr>"] assms by simp
  have "1 + of_nat (nat (n - 1)) = (of_nat (nat n) :: 64 word)"
    using assms by (metis Suc_nat_eq_nat_zadd1 diff_add_cancel diff_ge_0_iff_ge add.commute of_nat_Suc)
  then show ?thesis using 1 2 3 4 unfolding losing_schedule_def run_threads_append by simp
qed

text \<open>No interleaving counts more than the threads have done.\<close>

definition bad_inv :: "int \<Rightarrow> add_shared \<Rightarrow> add_pc list \<Rightarrow> bool" where
  "bad_inv n g ls \<longleftrightarrow> (\<forall>t < length ls. in_loop 0 n (ls ! t)) \<and> 0 \<le> n
     \<and> int (unat (total g)) \<le> (\<Sum>t < length ls. rounds_done n (ls ! t))
     \<and> (\<forall>t < length ls. \<forall>x. pending (ls ! t) = Some x \<longrightarrow> int (unat x) \<le> (\<Sum>t < length ls. rounds_done n (ls ! t)))"

lemma uint_plus_1_le: "uint (x + 1 :: 64 word) \<le> uint x + 1"
  by (simp add: uint_word_ariths zmod_le_nonneg_dividend)

lemma bad_inv_act:
  assumes inv: "bad_inv n g ls" and t: "t < length ls" and act: "bad_thread n (ls ! t) g = Some (l, g1)"
  shows "bad_inv n g1 (ls[t := l])"
proof -
  let ?S = "\<Sum>u < length ls. rounds_done n (ls ! u)" and ?S1 = "\<Sum>u < length ls. rounds_done n (ls[t := l] ! u)"
  have S: "?S1 + rounds_done n (ls ! t) = ?S + rounds_done n l" by (rule sum_threads_update [OF t])
  have own: "in_loop 0 n (ls ! t)" "0 \<le> n" "int (unat (total g)) \<le> ?S" "\<And>x. pending (ls ! t) = Some x \<Longrightarrow> int (unat x) \<le> ?S"
    using inv t by (auto simp: bad_inv_def)
  have "rounds_done n (ls ! t) \<le> rounds_done n l" using act own(1,2) by (cases "ls ! t") (auto split: if_splits)
  then have le: "?S \<le> ?S1" using S by simp
  have loop: "in_loop 0 n l" using act own(1) by (cases "ls ! t") (auto split: if_splits)
  have tot: "int (unat (total g1)) \<le> ?S1"
  proof (cases "ls ! t")
    case (Store i x)
    then have "?S1 = ?S + 1" "total g1 = x + 1" using act S by auto
    then show ?thesis using own(4) Store uint_plus_1_le [of x] by simp
  qed (use act own(3) le in auto)
  have pend: "int (unat x) \<le> ?S1" if "u < length ls" "pending (ls[t := l] ! u) = Some x" for u x
  proof (cases "u = t")
    case True
    then show ?thesis using that t act own(3) le by (cases "ls ! t") (auto split: if_splits)
  next
    case False
    then have "int (unat x) \<le> ?S" using that inv unfolding bad_inv_def by (metis nth_list_update_neq)
    then show ?thesis using le by simp
  qed
  have "in_loop 0 n (ls[t := l] ! u)" if "u < length ls" for u
    using that loop inv by (cases "u = t") (auto simp: bad_inv_def)
  then show ?thesis using own(2) tot pend by (simp add: bad_inv_def)
qed

interpretation bad: kept "\<lambda>t. bad_thread n" "bad_inv n" for n
  by unfold_locales (rule bad_inv_act)

section \<open>Properties\<close>

lemma good_total:
  fixes sched niters
  defines "run \<equiv> \<lambda>ts. run_threads (\<lambda>t. good_thread niters) ts start_cnt"
  shows "list_all ((=) Finished) (snd (run sched)) \<Longrightarrow> total (fst (run sched)) = 2 * of_nat (nat niters)"
    and "\<exists>k. list_all ((=) Finished) (snd (run (sched @ rounds 2 k)))"
proof -
  have s: "start_cnt = (\<lparr>total = 0, lock = 1\<rparr>, map (\<lambda>t. Test 0) [0..<2])"
    by (simp add: start_cnt_def numeral_2_eq_2)
  have "(\<Sum>i = 0..<niters. 1) = (of_nat (nat niters) :: 64 word)" by simp
  then show "total (fst (run sched)) = 2 * of_nat (nat niters)" if "list_all ((=) Finished) (snd (run sched))"
    using adders_total(1) [where e = "\<lambda>t. niters" and b = "\<lambda>t. 0" and n = 2 and a = "\<lambda>i. 1"] that
    by (simp add: run_def s good_thread_def numeral_2_eq_2)
  show "\<exists>k. list_all ((=) Finished) (snd (run (sched @ rounds 2 k)))"
    using adders_total(2) [where e = "\<lambda>t. niters" and b = "\<lambda>t. 0" and n = 2 and a = "\<lambda>i. 1"]
    by (simp add: run_def s good_thread_def)
qed

text \<open>
  C14 (goodcnt.c, safety).  With the mutex no increment is lost: whatever the interleaving of the
  loads and stores of the two threads, the program has not yet printed anything or it has
  printed OK with twice the number of iterations, and after every prefix of a run the threads
  finish when they are scheduled in turn.
\<close>

theorem goodcnt_counts:
  assumes "0 \<le> niters" "niters < 2 ^ 30"
  shows "good_main 2 niters sched \<in> {None, Some (OK (word_of_int (2 * niters)))}
    \<and> (\<exists>k. good_main 2 niters (sched @ rounds 2 k) = Some (OK (word_of_int (2 * niters))))"
proof -
  have "signed_take_bit 31 (2 * niters) = 2 * niters"
    using assms by (intro signed_take_bit_int_eq_self) auto
  moreover have "2 * of_nat (nat niters) = (word_of_int (2 * niters) :: 64 word)" using assms by simp
  ultimately have out: "good_main 2 niters ts = (if list_all ((=) Finished) (snd (run_threads (\<lambda>t. good_thread niters) ts start_cnt))
      then Some (OK (word_of_int (2 * niters))) else None)" for ts
    using good_total(1) [of niters ts] by (simp add: good_main_def split_beta)
  then show ?thesis using good_total(2) [of niters sched] by auto
qed

theorem goodcnt_counts_witness:
  "good_main 2 1 [0, 0, 1, 1, 0, 1, 0, 1, 0, 0, 1, 1, 1, 1, 1] = Some (OK 2)
   \<and> good_main 2 1 [0, 0, 1] \<in> {None, Some (OK 2)}"
proof
  show "good_main 2 1 [0, 0, 1, 1, 0, 1, 0, 1, 0, 0, 1, 1, 1, 1, 1] = Some (OK 2)" by code_simp
  show "good_main 2 1 [0, 0, 1] \<in> {None, Some (OK 2)}" using goodcnt_counts [of 1 "[0, 0, 1]"] by simp
qed

text \<open>From \<open>2 ^ 30\<close> iterations on the test of \<open>goodcnt.c\<close> overflows and reports an error although the count is right.\<close>

lemma goodcnt_overflow:
  assumes "2 ^ 30 \<le> niters" "niters < 2 ^ 31"
  shows "good_main 2 niters sched \<in> {None, Some (BOOM (word_of_int (2 * niters)))}"
proof -
  have r: "signed_take_bit 31 (2 * niters) = 2 * niters - 2 ^ 32"
  proof -
    have "signed_take_bit 31 (2 * niters) = signed_take_bit 31 (2 * niters - 2 ^ 32)"
      by (simp add: signed_take_bit_eq_take_bit_shift take_bit_eq_mod mod_simps) (smt (verit) mod_add_self2)
    also have "\<dots> = 2 * niters - 2 ^ 32" using assms by (intro signed_take_bit_int_eq_self) auto
    finally show ?thesis .
  qed
  have "(word_of_int (2 * niters) :: 64 word) \<noteq> word_of_int (2 * niters - 2 ^ 32)"
    by simp
  moreover have "2 * of_nat (nat niters) = (word_of_int (2 * niters) :: 64 word)" using assms by simp
  ultimately show ?thesis using good_total(1) [of niters sched] r by (auto simp: good_main_def split_beta)
qed

text \<open>
  C15 (badcnt.c, bounds).  Without the mutex the program never prints a count above twice the number
  of iterations, but for every number of iterations there is an interleaving in which half of
  the increments are lost.
\<close>

theorem badcnt_loses:
  assumes "1 \<le> niters" "niters < 2 ^ 31"
  shows "(case bad_main 2 niters sched of Some (BOOM v) \<Rightarrow> uint v \<le> 2 * niters | Some (OK v) \<Rightarrow> uint v = 2 * niters | _ \<Rightarrow> True)
    \<and> bad_main 2 niters (losing_schedule niters) = Some (BOOM (word_of_int niters))"
proof -
  have u: "uint (2 * word_of_int niters :: 64 word) = 2 * niters" "uint (word_of_int niters :: 64 word) = niters"
    using assms by (simp_all add: uint_word_ariths uint_word_of_int)
  have "bad_inv niters (fst start_cnt) (snd start_cnt)"
    using assms by (auto simp: bad_inv_def start_cnt_def numeral_2_eq_2 less_Suc_eq)
  then have inv: "bad_inv niters (fst (run_threads (\<lambda>t. bad_thread niters) sched start_cnt)) (snd (run_threads (\<lambda>t. bad_thread niters) sched start_cnt))"
    by (rule bad.run_keeps)
  have len: "length (snd (run_threads (\<lambda>t. bad_thread niters) sched start_cnt)) = 2" by (simp add: start_cnt_def)
  have "uint v \<le> 2 * niters"
    if "run_threads (\<lambda>t. bad_thread niters) sched start_cnt = (g, ls)" "list_all ((=) Finished) ls" "v = total g" for g ls v
    using that inv len by (simp add: bad_inv_def list_all_length)
  then have "case bad_main 2 niters sched of Some (BOOM v) \<Rightarrow> uint v \<le> 2 * niters | Some (OK v) \<Rightarrow> uint v = 2 * niters | _ \<Rightarrow> True"
    using u(1) by (auto simp: bad_main_def split: prod.splits)
  moreover have "word_of_int niters \<noteq> (2 * word_of_int niters :: 64 word)" using u assms(1) by (metis add_cancel_left_left mult_2 not_one_le_zero)
  then have "bad_main 2 niters (losing_schedule niters) = Some (BOOM (word_of_int niters))"
    using losing_run [OF assms(1)] assms by (simp add: bad_main_def)
  ultimately show ?thesis by simp
qed

theorem badcnt_loses_witness: "bad_main 2 3 (losing_schedule 3) = Some (BOOM 3)"
  using badcnt_loses [of 3] by simp

end
