(* ===== verification/Psum.thy ===== *)
theory Psum
  imports Counters
begin

text \<open>
  The three parallel sums of \<open>26-parallelism\<close>: \<open>psum-mutex.c\<close>, where the threads add to one
  variable under a mutex, \<open>psum-array.c\<close>, where each of them adds to its own array element, and
  \<open>psum-local.c\<close>, where each of them adds to a local variable and stores it once.  The arguments
  are the values that \<open>atoi\<close> delivers.
\<close>

section \<open>Definitions\<close>

definition MAXTHREADS :: nat where "MAXTHREADS = 32"

text \<open>
  The arguments: a shift outside the width of \<open>long\<close>, a division by zero and more threads than the
  arrays have elements are undefined.
\<close>

datatype psum_args_t = BadArgs | InvalidArgs | Args int int

definition psum_args :: "int \<Rightarrow> int \<Rightarrow> psum_args_t" where
  "psum_args nthreads log_nelems =
     (if log_nelems < 0 \<or> 63 \<le> log_nelems then BadArgs
      else let nelems = 2 ^ nat log_nelems in
        if nthreads = 0 then BadArgs
        else if crem nelems nthreads \<noteq> 0 \<or> 31 < log_nelems then InvalidArgs
        else if int MAXTHREADS < nthreads then BadArgs
        else Args nelems (cdiv nelems nthreads))"

datatype psum_output = PUsage | PInvalid | PUndefined | PError "64 word" | PSilent

definition with_args :: "nat \<Rightarrow> int \<Rightarrow> int \<Rightarrow> (int \<Rightarrow> int \<Rightarrow> psum_output option) \<Rightarrow> psum_output option" where
  "with_args argc nthreads log_nelems f = (if argc \<noteq> 3 then Some PUsage
     else case psum_args nthreads log_nelems of BadArgs \<Rightarrow> Some PUndefined | InvalidArgs \<Rightarrow> Some PInvalid
       | Args nelems nelems_per_thread \<Rightarrow> f nelems nelems_per_thread)"

definition check_answer :: "64 word \<Rightarrow> int \<Rightarrow> psum_output" where
  "check_answer result nelems = (if result \<noteq> word_of_int (cdiv (nelems * (nelems - 1)) 2) then PError result else PSilent)"

definition add_psums :: "64 word list \<Rightarrow> nat \<Rightarrow> 64 word" where
  "add_psums psum nthreads = for_up 0 nthreads (\<lambda>i result. result + psum ! i) 0"

text \<open>The elements of a thread.\<close>

abbreviation first_elem :: "int \<Rightarrow> nat \<Rightarrow> int" where "first_elem m t \<equiv> int t * m"
abbreviation end_elem :: "int \<Rightarrow> nat \<Rightarrow> int" where "end_elem m t \<equiv> int t * m + m"

subsection \<open>\<open>psum-mutex.c\<close>\<close>

definition sum_mutex :: "int \<Rightarrow> nat \<Rightarrow> add_pc \<Rightarrow> add_shared \<Rightarrow> (add_pc \<times> add_shared) option" where
  "sum_mutex nelems_per_thread myid = locked_add word_of_int (end_elem nelems_per_thread myid)"

definition psum_mutex_main :: "nat \<Rightarrow> int \<Rightarrow> int \<Rightarrow> nat list \<Rightarrow> psum_output option" where
  "psum_mutex_main argc nthreads log_nelems sched = with_args argc nthreads log_nelems (\<lambda>nelems m.
     case run_threads (sum_mutex m) sched (\<lparr>total = 0, lock = 1\<rparr>, map (\<lambda>t. Test (first_elem m t)) [0..<nat nthreads]) of
       (g, ls) \<Rightarrow> if list_all ((=) Finished) ls then Some (check_answer (total g) nelems) else None)"

subsection \<open>\<open>psum-local.c\<close>\<close>

text \<open>A thread in its loop, before the store of its sum, and after it.\<close>

datatype local_pc = Summing int "64 word" | Deliver "64 word" | Delivered

fun sum_local :: "int \<Rightarrow> nat \<Rightarrow> local_pc \<Rightarrow> 64 word list \<Rightarrow> (local_pc \<times> 64 word list) option" where
  "sum_local m myid (Summing i s) psum = Some (if i < end_elem m myid then Summing (i + 1) (s + word_of_int i) else Deliver s, psum)"
| "sum_local m myid (Deliver s) psum = Some (Delivered, psum[myid := s])"
| "sum_local m myid Delivered psum = None"

definition psum_local_main :: "nat \<Rightarrow> int \<Rightarrow> int \<Rightarrow> nat list \<Rightarrow> psum_output option" where
  "psum_local_main argc nthreads log_nelems sched = with_args argc nthreads log_nelems (\<lambda>nelems m.
     case run_threads (sum_local m) sched (replicate MAXTHREADS 0, map (\<lambda>t. Summing (first_elem m t) 0) [0..<nat nthreads]) of
       (psum, ls) \<Rightarrow> if list_all ((=) Delivered) ls then Some (check_answer (add_psums psum (nat nthreads)) nelems) else None)"

subsection \<open>\<open>psum-array.c\<close>\<close>

datatype array_pc = ATest int | ALoad int | AStore int "64 word" | ADone

fun sum_array :: "int \<Rightarrow> nat \<Rightarrow> array_pc \<Rightarrow> 64 word list \<Rightarrow> (array_pc \<times> 64 word list) option" where
  "sum_array m myid (ATest i) psum = Some (if i < end_elem m myid then ALoad i else ADone, psum)"
| "sum_array m myid (ALoad i) psum = Some (AStore i (psum ! myid), psum)"
| "sum_array m myid (AStore i x) psum = Some (ATest (i + 1), psum[myid := x + word_of_int i])"
| "sum_array m myid ADone psum = None"

definition psum_array_main :: "nat \<Rightarrow> int \<Rightarrow> int \<Rightarrow> nat list \<Rightarrow> psum_output option" where
  "psum_array_main argc nthreads log_nelems sched = with_args argc nthreads log_nelems (\<lambda>nelems m.
     case run_threads (sum_array m) sched (replicate MAXTHREADS 0, map (\<lambda>t. ATest (first_elem m t)) [0..<nat nthreads]) of
       (psum, ls) \<Rightarrow> if list_all ((=) ADone) ls then Some (check_answer (add_psums psum (nat nthreads)) nelems) else None)"

section \<open>The sum of the elements\<close>

lemma sum_blocks: "0 \<le> m \<Longrightarrow> (\<Sum>t < n. \<Sum>i = first_elem m t..<end_elem m t. f i) = (\<Sum>i = 0..<int n * m. f i :: 64 word)"
proof (induction n)
  case (Suc n)
  have "{0..<k + m} = {0..<k} \<union> {k..<k + m}" if "0 \<le> k" for k using that Suc.prems by auto
  from this [of "int n * m"] have "{0..<int (Suc n) * m} = {0..<int n * m} \<union> {int n * m..<int n * m + m}"
    using Suc.prems by (simp add: distrib_right add.commute)
  moreover have "sum f ({0..<int n * m} \<union> {int n * m..<int n * m + m}) = sum f {0..<int n * m} + sum f {int n * m..<int n * m + m}"
    by (rule sum.union_disjoint) auto
  ultimately show ?case using Suc by simp
qed simp

lemma gauss: "(\<Sum>i = 0..<int n. word_of_int i) = (word_of_int (cdiv (int n * (int n - 1)) 2) :: 64 word)"
proof -
  have "(\<Sum>i = 0..<int n. i) = int n * (int n - 1) div 2"
  proof (induction n)
    case (Suc n)
    have "{0..<int (Suc n)} = insert (int n) {0..<int n}" by auto
    then have "(\<Sum>i = 0..<int (Suc n). i) = int n + int n * (int n - 1) div 2" using Suc by simp
    also have "\<dots> = (int n * 2 + int n * (int n - 1)) div 2" by (subst div_mult_self3) simp_all
    also have "\<dots> = int (Suc n) * (int (Suc n) - 1) div 2" by (simp add: algebra_simps)
    finally show ?case .
  qed simp
  moreover have "0 \<le> int n * (int n - 1)" by (cases n) auto
  ultimately show ?thesis by (simp add: cdiv_nonneg flip: of_int_sum)
qed

text \<open>With arguments that the programs accept, the threads' sums make up the expected answer.\<close>

lemma args_ok:
  assumes "1 \<le> nthreads" "nthreads \<le> 32" "0 \<le> log_nelems" "log_nelems \<le> 31" "nthreads dvd 2 ^ nat log_nelems"
  obtains m where "\<forall>f. with_args 3 nthreads log_nelems f = f (2 ^ nat log_nelems) m" "0 \<le> m"
    "check_answer (\<Sum>t < nat nthreads. \<Sum>i = first_elem m t..<end_elem m t. word_of_int i) (2 ^ nat log_nelems) = PSilent"
proof -
  let ?N = "2 ^ nat log_nelems :: int" and ?m = "2 ^ nat log_nelems div nthreads :: int"
  have m: "crem ?N nthreads = 0" "cdiv ?N nthreads = ?m" "0 \<le> ?m"
    using assms by (simp_all add: cdiv_nonneg crem_nonneg pos_imp_zdiv_nonneg_iff)
  have N: "int (nat nthreads) * ?m = int (2 ^ nat log_nelems)" using assms by simp
  have "check_answer (\<Sum>t < nat nthreads. \<Sum>i = first_elem ?m t..<end_elem ?m t. word_of_int i) ?N = PSilent"
    unfolding sum_blocks [OF m(3)] N gauss by (simp add: check_answer_def)
  then show ?thesis using m assms by (intro that) (simp_all add: with_args_def psum_args_def MAXTHREADS_def Let_def)
qed

lemma add_psums_sum: "add_psums psum n = (\<Sum>t < n. psum ! t)"
proof -
  have "for_up 0 n (\<lambda>i result. result + psum ! i) 0 = (\<Sum>t < n. psum ! t)"
    by (induction n) (simp_all add: for_up_done for_up_last)
  then show ?thesis by (simp add: add_psums_def)
qed

section \<open>Threads with an array element of their own\<close>

text \<open>What a thread has put into its local variable or into its array element.\<close>

definition upto_elem :: "int \<Rightarrow> nat \<Rightarrow> int \<Rightarrow> 64 word" where
  "upto_elem m t i = (\<Sum>j = first_elem m t..<i. word_of_int j)"

lemma upto_elem_simps [simp]:
  "upto_elem m t (first_elem m t) = 0"
  "first_elem m t \<le> i \<Longrightarrow> upto_elem m t (i + 1) = upto_elem m t i + word_of_int i"
  by (simp_all add: upto_elem_def sum_next)

fun local_ok :: "int \<Rightarrow> nat \<Rightarrow> local_pc \<Rightarrow> 64 word \<Rightarrow> bool" where
  "local_ok m t (Summing i s) p \<longleftrightarrow> first_elem m t \<le> i \<and> i \<le> end_elem m t \<and> s = upto_elem m t i"
| "local_ok m t (Deliver s) p \<longleftrightarrow> s = upto_elem m t (end_elem m t)"
| "local_ok m t Delivered p \<longleftrightarrow> p = upto_elem m t (end_elem m t)"

fun array_ok :: "int \<Rightarrow> nat \<Rightarrow> array_pc \<Rightarrow> 64 word \<Rightarrow> bool" where
  "array_ok m t (ATest i) p \<longleftrightarrow> first_elem m t \<le> i \<and> i \<le> end_elem m t \<and> p = upto_elem m t i"
| "array_ok m t (ALoad i) p \<longleftrightarrow> first_elem m t \<le> i \<and> i < end_elem m t \<and> p = upto_elem m t i"
| "array_ok m t (AStore i x) p \<longleftrightarrow> first_elem m t \<le> i \<and> i < end_elem m t \<and> p = upto_elem m t i \<and> x = p"
| "array_ok m t ADone p \<longleftrightarrow> p = upto_elem m t (end_elem m t)"

fun local_work :: "int \<Rightarrow> nat \<Rightarrow> local_pc \<Rightarrow> nat" where
  "local_work m t (Summing i s) = nat (end_elem m t - i) + 2" | "local_work m t (Deliver s) = 1" | "local_work m t Delivered = 0"

fun array_work :: "int \<Rightarrow> nat \<Rightarrow> array_pc \<Rightarrow> nat" where
  "array_work m t (ATest i) = 3 * nat (end_elem m t - i) + 1" | "array_work m t (ALoad i) = 3 * nat (end_elem m t - i)"
| "array_work m t (AStore i x) = 3 * nat (end_elem m t - i) - 1" | "array_work m t ADone = 0"

text \<open>
  Threads that touch only their own element of an array: what each thread keeps of it holds for
  all of them together, and they finish.
\<close>

locale own_elements =
  fixes act :: "nat \<Rightarrow> 'l \<Rightarrow> 'v list \<Rightarrow> ('l \<times> 'v list) option"
    and ok :: "nat \<Rightarrow> 'l \<Rightarrow> 'v \<Rightarrow> bool"
    and work :: "nat \<Rightarrow> 'l \<Rightarrow> nat"
    and final :: 'l
  assumes act_own: "act t l p = Some (l1, p1) \<Longrightarrow> length p1 = length p \<and> (\<forall>u. u \<noteq> t \<longrightarrow> p1 ! u = p ! u)"
    and act_ok: "t < length p \<Longrightarrow> ok t l (p ! t) \<Longrightarrow> act t l p = Some (l1, p1) \<Longrightarrow> ok t l1 (p1 ! t) \<and> work t l1 < work t l"
    and act_moves: "act t l p = None \<Longrightarrow> l = final"
begin

definition all_ok where
  "all_ok p ls \<longleftrightarrow> length ls \<le> length p \<and> (\<forall>t < length ls. ok t (ls ! t) (p ! t))"

lemma act_all_ok:
  assumes "all_ok p ls" "t < length ls" "act t (ls ! t) p = Some (l, p1)"
  shows "all_ok p1 (ls[t := l])" "work t l < work t (ls ! t)"
proof -
  have t: "t < length p" "ok t (ls ! t) (p ! t)" using assms(1,2) by (auto simp: all_ok_def)
  show "work t l < work t (ls ! t)" using act_ok [OF t assms(3)] by simp
  have "ok u (ls[t := l] ! u) (p1 ! u)" if "u < length ls" for u
    using that assms(1) act_own [OF assms(3)] act_ok [OF t assms(3)] by (cases "u = t") (auto simp: all_ok_def)
  then show "all_ok p1 (ls[t := l])" using assms(1) act_own [OF assms(3)] by (simp add: all_ok_def)
qed

end

sublocale own_elements \<subseteq> progressing act all_ok work "(=) final"
proof unfold_locales
  show "all_ok p1 (ls[t := l])" "work t l < work t (ls ! t)" if "all_ok p ls" "t < length ls" "act t (ls ! t) p = Some (l, p1)" for p ls t l p1
    using act_all_ok [OF that] by simp_all
  show "\<exists>t < length ls. act t (ls ! t) p \<noteq> None" if "\<not> list_all ((=) final) ls" for p ls
    using that act_moves by (fastforce simp: list_all_length)
qed

context own_elements
begin

lemma threads_finish:
  assumes "all_ok p ls"
  shows "list_all ((=) final) (snd (run_threads act sched (p, ls))) \<Longrightarrow>
      \<forall>t < length ls. ok t final (fst (run_threads act sched (p, ls)) ! t)"
    and "\<exists>k. list_all ((=) final) (snd (run_threads act (sched @ rounds (length ls) k) (p, ls)))"
proof -
  let ?s = "run_threads act sched (p, ls)"
  have inv: "all_ok (fst ?s) (snd ?s)" using run_keeps [of "(p, ls)" sched] assms by simp
  show "\<forall>t < length ls. ok t final (fst ?s ! t)" if "list_all ((=) final) (snd ?s)"
    using inv that by (auto simp: all_ok_def list_all_length)
  show "\<exists>k. list_all ((=) final) (snd (run_threads act (sched @ rounds (length ls) k) (p, ls)))"
    using rounds_finish [OF inv order_refl] by (auto simp: run_threads_append)
qed

end

interpretation locals: own_elements "sum_local m" "local_ok m" "local_work m" Delivered for m
proof unfold_locales
  show "length p1 = length p \<and> (\<forall>u. u \<noteq> t \<longrightarrow> p1 ! u = p ! u)" if "sum_local m t l p = Some (l1, p1)" for t l p l1 p1
    using that by (cases l) auto
  show "local_ok m t l1 (p1 ! t) \<and> local_work m t l1 < local_work m t l"
    if "t < length p" "local_ok m t l (p ! t)" "sum_local m t l p = Some (l1, p1)" for t p l l1 p1
    using that by (cases l) auto
  show "l = Delivered" if "sum_local m t l p = None" for t l p using that by (cases l) auto
qed

interpretation arrays: own_elements "sum_array m" "array_ok m" "array_work m" ADone for m
proof unfold_locales
  show "length p1 = length p \<and> (\<forall>u. u \<noteq> t \<longrightarrow> p1 ! u = p ! u)" if "sum_array m t l p = Some (l1, p1)" for t l p l1 p1
    using that by (cases l) auto
  show "array_ok m t l1 (p1 ! t) \<and> array_work m t l1 < array_work m t l"
    if "t < length p" "array_ok m t l (p ! t)" "sum_array m t l p = Some (l1, p1)" for t p l l1 p1
    using that by (cases l) auto
  show "l = ADone" if "sum_array m t l p = None" for t l p using that by (cases l) auto
qed

section \<open>Properties\<close>

lemma start_own:
  "n \<le> MAXTHREADS \<Longrightarrow> 0 \<le> m \<Longrightarrow> locals.all_ok m (replicate MAXTHREADS 0) (map (\<lambda>t. Summing (first_elem m t) 0) [0..<n])"
  "n \<le> MAXTHREADS \<Longrightarrow> 0 \<le> m \<Longrightarrow> arrays.all_ok m (replicate MAXTHREADS 0) (map (\<lambda>t. ATest (first_elem m t)) [0..<n])"
  by (simp_all add: locals.all_ok_def arrays.all_ok_def)

text \<open>
  C16 (psum programs, equivalence).  For every number of threads that the arrays have room for and that
  divides the number of elements, all three programs compute the same sum in every interleaving,
  the one their check expects: they end without an error message, and after every prefix of a
  run they do end when the threads are scheduled in turn.
\<close>

theorem psum_programs_agree:
  assumes "1 \<le> nthreads" "nthreads \<le> 32" "0 \<le> log_nelems" "log_nelems \<le> 31" "nthreads dvd 2 ^ nat log_nelems"
    and "prog \<in> {psum_mutex_main, psum_local_main, psum_array_main}"
  shows "prog 3 nthreads log_nelems sched \<in> {None, Some PSilent}
    \<and> (\<exists>k. prog 3 nthreads log_nelems (sched @ rounds (nat nthreads) k) = Some PSilent)"
proof -
  let ?n = "nat nthreads"
  obtain m where args: "\<forall>f. with_args 3 nthreads log_nelems f = f (2 ^ nat log_nelems) m" and m: "0 \<le> m"
    and answer: "check_answer (\<Sum>t < ?n. \<Sum>i = first_elem m t..<end_elem m t. word_of_int i) (2 ^ nat log_nelems) = PSilent"
    by (rule args_ok [OF assms(1-5)])
  have n: "?n \<le> MAXTHREADS" using assms(2) by (simp add: MAXTHREADS_def)
  note own = locals.threads_finish [OF start_own(1) [OF n m]] arrays.threads_finish [OF start_own(2) [OF n m]]
  have sums: "check_answer (add_psums p ?n) (2 ^ nat log_nelems) = PSilent" if "\<forall>t < ?n. p ! t = upto_elem m t (end_elem m t)" for p
    using that answer by (simp add: add_psums_sum upto_elem_def)
  consider "prog = psum_mutex_main" | "prog = psum_local_main" | "prog = psum_array_main" using assms(6) by blast
  then show ?thesis
  proof cases
    case 1
    have act: "sum_mutex m = (\<lambda>t. locked_add word_of_int (end_elem m t))" by (rule ext) (simp add: sum_mutex_def)
    show ?thesis
      using adders_total [where a = word_of_int and e = "end_elem m" and b = "first_elem m" and n = ?n] answer
      by (auto simp: 1 args [rule_format] psum_mutex_main_def act split_beta)
  next
    case 2
    show ?thesis using own(1,2) sums by (auto simp: 2 args [rule_format] psum_local_main_def split_beta)
  next
    case 3
    show ?thesis using own(3,4) sums by (auto simp: 3 args [rule_format] psum_array_main_def split_beta)
  qed
qed

theorem psum_programs_agree_witness:
  "psum_array_main 3 2 1 [0, 1, 1, 0] \<in> {None, Some PSilent} \<and> psum_array_main 3 2 1 [0, 1, 1, 0, 0, 0, 1, 1] = Some PSilent
   \<and> psum_mutex_main 3 2 1 [0, 0, 1, 1, 1, 0] \<in> {None, Some PSilent}"
proof -
  have "psum_array_main 3 2 1 [0, 1, 1, 0, 0, 0, 1, 1] = Some PSilent" by code_simp
  then show ?thesis
    using psum_programs_agree [of 2 1 psum_array_main "[0, 1, 1, 0]"] psum_programs_agree [of 2 1 psum_mutex_main "[0, 0, 1, 1, 1, 0]"] by simp
qed

end
