(* ===== verification/Readers.thy ===== *)
theory Readers
  imports Interleaving
begin

text \<open>
  The first readers-writers solution, \<open>25-sync-advanced/rw1.c\<close>, for any number of readers and
  writers under every interleaving of their statements.
\<close>

section \<open>Definitions\<close>

record rw_shared =
  readcnt :: int
  mutex :: nat
  w :: nat

text \<open>The statement that a reader or a writer executes next.\<close>

datatype rw_pc = RLock | RInc | RFirst | RWait | REnter | Reading | RRelock | RDec | RLast | RSignal | RLeave
  | WWait | Writing | WSignal

fun reader :: "rw_pc \<Rightarrow> rw_shared \<Rightarrow> (rw_pc \<times> rw_shared) option" where
  "reader RLock g = (if 0 < mutex g then Some (RInc, g\<lparr>mutex := mutex g - 1\<rparr>) else None)"
| "reader RInc g = Some (RFirst, g\<lparr>readcnt := signed_take_bit 31 (readcnt g + 1)\<rparr>)"
| "reader RFirst g = Some (if readcnt g = 1 then RWait else REnter, g)"
| "reader RWait g = (if 0 < w g then Some (REnter, g\<lparr>w := w g - 1\<rparr>) else None)"
| "reader REnter g = Some (Reading, g\<lparr>mutex := mutex g + 1\<rparr>)"
| "reader Reading g = Some (RRelock, g)"
| "reader RRelock g = (if 0 < mutex g then Some (RDec, g\<lparr>mutex := mutex g - 1\<rparr>) else None)"
| "reader RDec g = Some (RLast, g\<lparr>readcnt := signed_take_bit 31 (readcnt g - 1)\<rparr>)"
| "reader RLast g = Some (if readcnt g = 0 then RSignal else RLeave, g)"
| "reader RSignal g = Some (RLeave, g\<lparr>w := w g + 1\<rparr>)"
| "reader RLeave g = Some (RLock, g\<lparr>mutex := mutex g + 1\<rparr>)"
| "reader _ g = None"

fun writer :: "rw_pc \<Rightarrow> rw_shared \<Rightarrow> (rw_pc \<times> rw_shared) option" where
  "writer WWait g = (if 0 < w g then Some (Writing, g\<lparr>w := w g - 1\<rparr>) else None)"
| "writer Writing g = Some (WSignal, g)"
| "writer WSignal g = Some (WWait, g\<lparr>w := w g + 1\<rparr>)"
| "writer _ g = None"

definition rw_act :: "rw_pc \<Rightarrow> rw_shared \<Rightarrow> (rw_pc \<times> rw_shared) option" where
  "rw_act l g = (if l \<in> {WWait, Writing, WSignal} then writer l g else reader l g)"

definition rw_start :: "nat \<Rightarrow> nat \<Rightarrow> (rw_shared, rw_pc) threads" where
  "rw_start readers writers = (\<lparr>readcnt = 0, mutex = 1, w = 1\<rparr>, replicate readers RLock @ replicate writers WWait)"

section \<open>Invariant\<close>

text \<open>The number of threads at a statement.\<close>

abbreviation at :: "rw_pc \<Rightarrow> rw_pc list \<Rightarrow> nat" where
  "at l ls \<equiv> num ((=) l) ls"

text \<open>Whether the readers together hold the semaphore of the writers.\<close>

definition readers_hold :: "rw_shared \<Rightarrow> rw_pc list \<Rightarrow> bool" where
  "readers_hold g ls = (if 0 < at RFirst ls + at RWait ls then 2 \<le> readcnt g
     else 0 < at RLast ls + at RSignal ls \<or> 1 \<le> readcnt g)"

definition rw_inv :: "rw_shared \<Rightarrow> rw_pc list \<Rightarrow> bool" where
  "rw_inv g ls \<longleftrightarrow> mutex g + (at RInc ls + at RFirst ls + at RWait ls + at REnter ls + at RDec ls + at RLast ls + at RSignal ls + at RLeave ls) = 1
     \<and> readcnt g = int (at RFirst ls + at RWait ls + at REnter ls + at Reading ls + at RRelock ls + at RDec ls)
     \<and> w g + at Writing ls + at WSignal ls + (if readers_hold g ls then 1 else 0) = 1
     \<and> (0 < at RWait ls \<longrightarrow> readcnt g = 1) \<and> (0 < at RSignal ls \<longrightarrow> readcnt g = 0)
     \<and> length ls < 2 ^ 31"

lemma at_update: "t < length ls \<Longrightarrow> ls ! t = l0 \<Longrightarrow> l0 \<noteq> l1 \<Longrightarrow>
    at l (ls[t := l1]) = (if l = l1 then at l ls + 1 else if l = l0 then at l ls - 1 else at l ls)"
  using num_update [of t ls "(=) l" l1] by (auto split: if_splits)

lemma at_readers: "at RFirst ls + at RWait ls + at REnter ls + at Reading ls + at RRelock ls + at RDec ls + at RInc ls \<le> length ls"
  by (induction ls) (auto simp: num_def)

lemmas rw_simps = rw_inv_def rw_act_def readers_hold_def

lemma rw_inv_act:
  assumes inv: "rw_inv g ls" and t: "t < length ls" and act: "rw_act (ls ! t) g = Some (l, g1)"
  shows "rw_inv g1 (ls[t := l])"
proof -
  have pos: "0 < at (ls ! t) ls" by (rule num_pos [OF t]) simp
  have small: "signed_take_bit 31 (readcnt g + 1) = readcnt g + 1" if "0 < at RInc ls"
    using inv that at_readers [of ls] by (intro signed_take_bit_int_eq_self) (auto simp: rw_inv_def)
  have small': "signed_take_bit 31 (readcnt g - 1) = readcnt g - 1"
    using inv at_readers [of ls] by (intro signed_take_bit_int_eq_self) (auto simp: rw_inv_def)
  note facts = inv act pos small small' and up = at_update [OF t]
  show ?thesis
  proof (cases "ls ! t")
    case RLock
    then show ?thesis using facts(1-3) by (auto simp: rw_simps up [OF RLock] split: if_splits)
  next
    case RInc
    then show ?thesis using facts by (auto simp: rw_simps up [OF RInc] split: if_splits)
  next
    case RFirst
    then show ?thesis using facts by (auto simp: rw_simps up [OF RFirst] split: if_splits)
  next
    case RWait
    then show ?thesis using facts by (auto simp: rw_simps up [OF RWait] split: if_splits)
  next
    case REnter
    then show ?thesis using facts by (auto simp: rw_simps up [OF REnter] split: if_splits)
  next
    case Reading
    then show ?thesis using facts by (auto simp: rw_simps up [OF Reading] split: if_splits)
  next
    case RRelock
    then show ?thesis using facts by (auto simp: rw_simps up [OF RRelock] split: if_splits)
  next
    case RDec
    then show ?thesis using facts by (auto simp: rw_simps up [OF RDec] split: if_splits)
  next
    case RLast
    have "at RFirst ls = 0" "at RWait ls = 0" "at RSignal ls = 0" "at RLast ls = 1" using inv pos RLast unfolding rw_inv_def by simp_all
    then show ?thesis using RLast facts(1,2) by (auto simp: rw_simps up [OF RLast] split: if_splits)
  next
    case RSignal
    then show ?thesis using facts by (auto simp: rw_simps up [OF RSignal] split: if_splits)
  next
    case RLeave
    then show ?thesis using facts by (auto simp: rw_simps up [OF RLeave] split: if_splits)
  next
    case WWait
    then have "readers_hold g1 (ls[t := l]) = readers_hold g ls"
      using act by (auto simp: rw_act_def readers_hold_def up [OF WWait] split: if_splits)
    then show ?thesis using WWait facts(1-3) by (auto simp: rw_inv_def rw_act_def up [OF WWait] split: if_splits)
  next
    case Writing
    then have "readers_hold g1 (ls[t := l]) = readers_hold g ls"
      using act by (auto simp: rw_act_def readers_hold_def up [OF Writing] split: if_splits)
    then show ?thesis using Writing facts(1-3) by (auto simp: rw_inv_def rw_act_def up [OF Writing] split: if_splits)
  next
    case WSignal
    then have "readers_hold g1 (ls[t := l]) = readers_hold g ls"
      using act by (auto simp: rw_act_def readers_hold_def up [OF WSignal] split: if_splits)
    then show ?thesis using WSignal facts(1-3) by (auto simp: rw_inv_def rw_act_def up [OF WSignal] split: if_splits)
  qed
qed

interpretation rw: kept "\<lambda>t. rw_act" rw_inv
  by unfold_locales (rule rw_inv_act)

lemma num_append_replicate [simp]: "num p (replicate n l) = (if p l then n else 0)" "num p (xs @ ys) = num p xs + num p ys"
  by (simp_all add: num_def filter_replicate)

lemma rw_start_inv: "readers + writers < 2 ^ 31 \<Longrightarrow> rw_inv (fst (rw_start readers writers)) (snd (rw_start readers writers))"
  by (simp add: rw_start_def rw_inv_def readers_hold_def)

lemma at_pos: "0 < at l ls \<longleftrightarrow> l \<in> set ls"
  by (auto simp: num_def filter_empty_conv)

section \<open>Properties\<close>

text \<open>
  C17 (rw1.c, safety).  In every interleaving at most one writer is in its critical section, and while
  one is there, no reader is in its own.  As long as there are threads, one of them can move.
\<close>

theorem rw_exclusion:
  assumes "readers + writers < 2 ^ 31" "run_threads (\<lambda>t. rw_act) sched (rw_start readers writers) = (g, ls)"
  shows "num ((=) Writing) ls \<le> 1 \<and> (Writing \<in> set ls \<longrightarrow> Reading \<notin> set ls)
    \<and> (ls \<noteq> [] \<longrightarrow> (\<exists>l \<in> set ls. rw_act l g \<noteq> None))"
proof -
  have inv: "rw_inv g ls" using rw.run_keeps [OF rw_start_inv [OF assms(1)], of sched] assms(2) by simp
  have safe: "at Writing ls \<le> 1" "\<not> (0 < at Writing ls \<and> 0 < at Reading ls)"
    using inv by (auto simp: rw_inv_def readers_hold_def split: if_splits)
  have "\<exists>l \<in> set ls. rw_act l g \<noteq> None" if "ls \<noteq> []"
  proof (rule ccontr)
    assume stuck: "\<not> ?thesis"
    have gone: "at l ls = 0" if "rw_act l g \<noteq> None" for l using stuck that at_pos [of l ls] by fastforce
    have "at RInc ls = 0" "at RFirst ls = 0" "at REnter ls = 0" "at Reading ls = 0" "at RDec ls = 0" "at RLast ls = 0"
      "at RSignal ls = 0" "at RLeave ls = 0" "at Writing ls = 0" "at WSignal ls = 0"
      by (rule gone; simp add: rw_act_def)+
    moreover have "at RLock ls = 0 \<and> at RRelock ls = 0" if "0 < mutex g" using that by (auto intro!: gone simp: rw_act_def)
    moreover have "at RWait ls = 0 \<and> at WWait ls = 0" if "0 < w g" using that by (auto intro!: gone simp: rw_act_def)
    ultimately have "at l ls = 0" for l
      using inv by (cases l) (auto simp: rw_inv_def readers_hold_def split: if_splits)
    then have "set ls = {}" using at_pos [of _ ls] by (metis equals0I less_numeral_extra(3))
    then show False using that by simp
  qed
  then show ?thesis using safe at_pos [of Writing ls] at_pos [of Reading ls] by auto
qed

theorem rw_exclusion_witness:
  "\<exists>g ls. run_threads (\<lambda>t. rw_act) [0, 0, 0, 0, 2, 0] (rw_start 2 1) = (g, ls) \<and> Reading \<in> set ls \<and> num ((=) Writing) ls \<le> 1"
proof -
  have "run_threads (\<lambda>t. rw_act) [0, 0, 0, 0, 2, 0] (rw_start 2 1) = (\<lparr>readcnt = 1, mutex = 1, w = 0\<rparr>, [Reading, RLock, WWait])"
    by code_simp
  from rw_exclusion [OF _ this] this show ?thesis by simp
qed

end
