(* ===== verification/Races.thy ===== *)
theory Races
  imports Interleaving
begin

text \<open>
  \<open>25-sync-advanced/race.c\<close> and \<open>norace.c\<close>: a main thread creates peer threads and hands each an
  argument.  In \<open>race.c\<close> all get the address of the loop variable, in \<open>norace.c\<close> each gets
  a block of its own.  Thread 0 is the main thread,
  thread \<open>k + 1\<close> the peer with number \<open>k\<close>; the accesses to shared variables are separate actions.
\<close>

definition N :: nat where "N = 4"

section \<open>Definitions\<close>

text \<open>Shared state of \<open>norace.c\<close>: the heap, the arguments of the threads created so far, the lines printed, the threads that have ended.\<close>

record blocks =
  heap :: "nat \<rightharpoonup> int"
  next_block :: nat
  args :: "nat list"
  hellos :: "int list"
  ended :: "nat list"

datatype norace_pc =
    MallocPtr nat | InitPtr nat nat | CreateThread nat nat | JoinThread nat | Exited
  | Started | GotId int | FreedArg int | SaidHello | Ended | Fault

fun norace_main :: "norace_pc \<Rightarrow> blocks \<Rightarrow> (norace_pc \<times> blocks) option" where
  "norace_main (MallocPtr i) g = Some (if i < N
     then (InitPtr i (next_block g), g\<lparr>heap := (heap g)(next_block g \<mapsto> 0), next_block := next_block g + 1\<rparr>) else (JoinThread 0, g))"
| "norace_main (InitPtr i p) g = Some (CreateThread i p, g\<lparr>heap := (heap g)(p \<mapsto> int i)\<rparr>)"
| "norace_main (CreateThread i p) g = Some (MallocPtr (i + 1), g\<lparr>args := args g @ [p]\<rparr>)"
| "norace_main (JoinThread i) g = (if i < N then (if i \<in> set (ended g) then Some (JoinThread (i + 1), g) else None) else Some (Exited, g))"
| "norace_main _ g = None"

text \<open>The thread routine; an access to a block that is not allocated is a fault.\<close>

fun norace_thread :: "nat \<Rightarrow> norace_pc \<Rightarrow> blocks \<Rightarrow> (norace_pc \<times> blocks) option" where
  "norace_thread k Started g = (if k < length (args g)
     then Some (case heap g (args g ! k) of None \<Rightarrow> Fault | Some v \<Rightarrow> GotId v, g) else None)"
| "norace_thread k (GotId myid) g = Some (if heap g (args g ! k) = None then (Fault, g)
     else (FreedArg myid, g\<lparr>heap := (heap g)(args g ! k := None)\<rparr>))"
| "norace_thread k (FreedArg myid) g = Some (SaidHello, g\<lparr>hellos := hellos g @ [myid]\<rparr>)"
| "norace_thread k SaidHello g = Some (Ended, g\<lparr>ended := ended g @ [k]\<rparr>)"
| "norace_thread k _ g = None"

definition norace_act :: "nat \<Rightarrow> norace_pc \<Rightarrow> blocks \<Rightarrow> (norace_pc \<times> blocks) option" where
  "norace_act t = (if t = 0 then norace_main else norace_thread (t - 1))"

definition norace_start :: "(blocks, norace_pc) threads" where
  "norace_start = (\<lparr>heap = Map.empty, next_block = 1, args = [], hellos = [], ended = []\<rparr>, MallocPtr 0 # replicate N Started)"

text \<open>Shared state of \<open>race.c\<close>: the variable \<open>i\<close> of \<open>main\<close> is in memory.\<close>

record var_i =
  shared_i :: int
  created :: nat
  lines :: "int list"
  finished :: "nat list"

datatype race_pc = TestCreate | Create | IncCreate | ResetI | TestJoin | Join | IncJoin | Left | Begin | Got int | Said | Over

fun race_main :: "race_pc \<Rightarrow> var_i \<Rightarrow> (race_pc \<times> var_i) option" where
  "race_main TestCreate g = Some (if shared_i g < int N then Create else ResetI, g)"
| "race_main Create g = Some (IncCreate, g\<lparr>created := created g + 1\<rparr>)"
| "race_main IncCreate g = Some (TestCreate, g\<lparr>shared_i := shared_i g + 1\<rparr>)"
| "race_main ResetI g = Some (TestJoin, g\<lparr>shared_i := 0\<rparr>)"
| "race_main TestJoin g = Some (if shared_i g < int N then Join else Left, g)"
| "race_main Join g = (if nat (shared_i g) \<in> set (finished g) then Some (IncJoin, g) else None)"
| "race_main IncJoin g = Some (TestJoin, g\<lparr>shared_i := shared_i g + 1\<rparr>)"
| "race_main _ g = None"

fun race_thread :: "nat \<Rightarrow> race_pc \<Rightarrow> var_i \<Rightarrow> (race_pc \<times> var_i) option" where
  "race_thread k Begin g = (if k < created g then Some (Got (shared_i g), g) else None)"
| "race_thread k (Got myid) g = Some (Said, g\<lparr>lines := lines g @ [myid]\<rparr>)"
| "race_thread k Said g = Some (Over, g\<lparr>finished := finished g @ [k]\<rparr>)"
| "race_thread k _ g = None"

definition race_act :: "nat \<Rightarrow> race_pc \<Rightarrow> var_i \<Rightarrow> (race_pc \<times> var_i) option" where
  "race_act t = (if t = 0 then race_main else race_thread (t - 1))"

definition race_start :: "(var_i, race_pc) threads" where
  "race_start = (\<lparr>shared_i = 0, created = 0, lines = [], finished = []\<rparr>, TestCreate # replicate N Begin)"

section \<open>No race\<close>

definition said :: "norace_pc \<Rightarrow> bool" where
  "said c \<longleftrightarrow> c = SaidHello \<or> c = Ended"

fun peer_ok :: "(nat \<rightharpoonup> int) \<Rightarrow> nat \<Rightarrow> nat \<Rightarrow> norace_pc \<Rightarrow> bool" where
  "peer_ok h p k Started \<longleftrightarrow> h p = Some (int k)"
| "peer_ok h p k (GotId v) \<longleftrightarrow> v = int k \<and> h p = Some (int k)"
| "peer_ok h p k (FreedArg v) \<longleftrightarrow> v = int k \<and> h p = None"
| "peer_ok h p k c \<longleftrightarrow> said c \<and> h p = None"

fun main_ok :: "blocks \<Rightarrow> norace_pc \<Rightarrow> bool" where
  "main_ok g (MallocPtr i) \<longleftrightarrow> length (args g) = i \<and> i \<le> N \<and> (\<forall>q. heap g q \<noteq> None \<longrightarrow> q \<in> set (args g))"
| "main_ok g (InitPtr i p) \<longleftrightarrow> length (args g) = i \<and> i < N \<and> p \<notin> set (args g) \<and> p < next_block g \<and> (\<forall>q. heap g q \<noteq> None \<longrightarrow> q = p \<or> q \<in> set (args g))"
| "main_ok g (CreateThread i p) \<longleftrightarrow> length (args g) = i \<and> i < N \<and> p \<notin> set (args g) \<and> p < next_block g \<and> heap g p = Some (int i)
     \<and> (\<forall>q. heap g q \<noteq> None \<longrightarrow> q = p \<or> q \<in> set (args g))"
| "main_ok g (JoinThread i) \<longleftrightarrow> length (args g) = N \<and> i \<le> N \<and> {..<i} \<subseteq> set (ended g) \<and> (\<forall>q. heap g q \<noteq> None \<longrightarrow> q \<in> set (args g))"
| "main_ok g Exited \<longleftrightarrow> length (args g) = N \<and> {..<N} \<subseteq> set (ended g) \<and> (\<forall>q. heap g q \<noteq> None \<longrightarrow> q \<in> set (args g))"
| "main_ok g _ \<longleftrightarrow> False"

definition norace_inv :: "blocks \<Rightarrow> norace_pc list \<Rightarrow> bool" where
  "norace_inv g ls \<longleftrightarrow> length ls = Suc N \<and> main_ok g (ls ! 0) \<and> distinct (args g) \<and> (\<forall>p \<in> set (args g). p < next_block g)
     \<and> (\<forall>k < length (args g). peer_ok (heap g) (args g ! k) k (ls ! Suc k)) \<and> (\<forall>k < N. length (args g) \<le> k \<longrightarrow> ls ! Suc k = Started)
     \<and> distinct (hellos g) \<and> set (hellos g) = {int k |k. k < N \<and> said (ls ! Suc k)} \<and> set (ended g) = {k. k < N \<and> ls ! Suc k = Ended}"

lemma peer_ok_cong: "h' p = h p \<Longrightarrow> peer_ok h' p k c = peer_ok h p k c"
  by (cases c) simp_all

lemma norace_main_keeps:
  assumes inv: "norace_inv g ls" and m: "norace_main (ls ! 0) g = Some (l, g1)"
  shows "norace_inv g1 (ls[0 := l])"
proof -
  have len: "length ls = Suc N" and ok: "main_ok g (ls ! 0)" and z: "ls[0 := c] ! 0 = c" for c using inv by (simp_all add: norace_inv_def)
  show ?thesis
  proof (cases "ls ! 0")
    case (MallocPtr i)
    have new: "args g ! k \<noteq> next_block g" if "k < length (args g)" for k
      using inv that nth_mem [OF that] by (fastforce simp: norace_inv_def)
    have "peer_ok ((heap g)(next_block g \<mapsto> 0)) (args g ! k) k c = peer_ok (heap g) (args g ! k) k c" if "k < length (args g)" for k c
      using new [OF that] by (intro peer_ok_cong) simp
    moreover have "next_block g \<notin> set (args g)" using inv by (auto simp: norace_inv_def)
    ultimately show ?thesis using inv m MallocPtr len z by (auto simp: norace_inv_def less_Suc_eq split: if_splits)
  next
    case (InitPtr i p)
    have new: "args g ! k \<noteq> p" if "k < length (args g)" for k using ok InitPtr nth_mem [OF that] by auto
    have "peer_ok ((heap g)(p \<mapsto> x)) (args g ! k) k c = peer_ok (heap g) (args g ! k) k c" if "k < length (args g)" for k c x
      using new [OF that] by (intro peer_ok_cong) simp
    then show ?thesis using inv m InitPtr len by (auto simp: norace_inv_def) blast
  next
    case (CreateThread i p)
    then show ?thesis using inv m ok len by (auto simp: norace_inv_def nth_append less_Suc_eq)
  next
    case (JoinThread i)
    then show ?thesis using inv m len by (auto simp: norace_inv_def lessThan_Suc split: if_splits)
  qed (use m in auto)
qed

text \<open>A change of the record and of the block of one peer.\<close>

lemma norace_peer:
  assumes inv: "norace_inv g ls" and k: "k < length (args g)" and l: "peer_ok h1 (args g ! k) k l"
    and h1: "\<And>q. q \<noteq> args g ! k \<Longrightarrow> h1 q = heap g q" "\<And>q. h1 q \<noteq> None \<Longrightarrow> heap g q \<noteq> None"
    and g1: "heap g1 = h1" "next_block g1 = next_block g" "args g1 = args g"
    and "distinct (hellos g1)" "set (hellos g1) = {int j |j. j < N \<and> said (ls[Suc k := l] ! Suc j)}"
    and "set (ended g1) = {j. j < N \<and> ls[Suc k := l] ! Suc j = Ended}" "set (ended g) \<subseteq> set (ended g1)"
  shows "norace_inv g1 (ls[Suc k := l])"
proof -
  have len: "length ls = Suc N" "length (args g) \<le> N" and main: "main_ok g (ls ! 0)"
    using inv by (auto simp: norace_inv_def elim!: main_ok.elims)
  have "main_ok g1 (ls ! 0)"
  proof (cases "ls ! 0")
    case (CreateThread i p)
    then have "h1 p = heap g p" using main k nth_mem by (intro h1(1)) auto
    then show ?thesis using main CreateThread h1(2) g1 by auto
  qed (use main h1(2) g1(1,2,3) assms(12) in auto)
  moreover have "peer_ok h1 (args g ! j) j (ls[Suc k := l] ! Suc j)" if j: "j < length (args g)" for j
  proof (cases "j = k")
    case True
    then show ?thesis using l len k by simp
  next
    case False
    have "args g ! j \<noteq> args g ! k" using inv k j False by (auto simp: norace_inv_def nth_eq_iff_index_eq)
    then have "peer_ok h1 (args g ! j) j c = peer_ok (heap g) (args g ! j) j c" for c by (intro peer_ok_cong h1(1))
    then show ?thesis using inv j False by (simp add: norace_inv_def)
  qed
  ultimately show ?thesis using inv k len g1 assms(9-11) by (auto simp: norace_inv_def)
qed

lemma norace_thread_keeps:
  assumes inv: "norace_inv g ls" and k: "k < N" and m: "norace_thread k (ls ! Suc k) g = Some (l, g1)"
  shows "norace_inv g1 (ls[Suc k := l])"
proof -
  have len: "length ls = Suc N" and h: "distinct (hellos g)" "set (hellos g) = {int j |j. j < N \<and> said (ls ! Suc j)}"
    and e: "set (ended g) = {j. j < N \<and> ls ! Suc j = Ended}" using inv by (auto simp: norace_inv_def)
  have started: "k < length (args g)"
    using inv k m by (cases "k < length (args g)") (auto simp: norace_inv_def split: if_splits)
  then have ok: "peer_ok (heap g) (args g ! k) k (ls ! Suc k)" using inv by (simp add: norace_inv_def)
  note peer = norace_peer [OF inv started]
  have upd: "ls[Suc k := c] ! Suc j = (if j = k then c else ls ! Suc j)" if "j < N" for c j using that len by simp
  have same: "{int j |j. j < N \<and> said (ls[Suc k := c] ! Suc j)} = set (hellos g)" if "said c = said (ls ! Suc k)" for c
    unfolding h(2) using upd that by (auto split: if_splits)
  have ended: "{j. j < N \<and> ls[Suc k := c] ! Suc j = Ended} = set (ended g)" if "c \<noteq> Ended" "ls ! Suc k \<noteq> Ended" for c
    unfolding e using upd that by (auto split: if_splits)
  show ?thesis
  proof (cases "ls ! Suc k")
    case Started
    then have "l = GotId (int k)" "g1 = g" using m ok started by auto
    then show ?thesis using ok Started same [of l] ended [of l] h by (intro peer [where ?h1.0 = "heap g"]) (auto simp: said_def)
  next
    case (GotId v)
    then have l: "l = FreedArg (int k)" "g1 = g\<lparr>heap := (heap g)(args g ! k := None)\<rparr>" using m ok by auto
    show ?thesis using ok GotId same [of l] ended [of l] h l
      by (intro peer [where ?h1.0 = "(heap g)(args g ! k := None)"]) (auto simp: said_def split: if_splits)
  next
    case (FreedArg v)
    then have l: "l = SaidHello" "g1 = g\<lparr>hellos := hellos g @ [int k]\<rparr>" using m ok by auto
    have new: "int k \<notin> set (hellos g)" unfolding h(2) using FreedArg by (auto simp: said_def)
    have "{int j |j. j < N \<and> said (ls[Suc k := l] ! Suc j)} = insert (int k) (set (hellos g))"
      unfolding h(2) using upd k l(1) by (auto simp: said_def split: if_splits)
    then show ?thesis using ok FreedArg ended [of l] h(1) new l by (intro peer [where ?h1.0 = "heap g"]) (auto simp: said_def)
  next
    case SaidHello
    then have l: "l = Ended" "g1 = g\<lparr>ended := ended g @ [k]\<rparr>" using m by auto
    have "{j. j < N \<and> ls[Suc k := l] ! Suc j = Ended} = insert k (set (ended g))" unfolding e using upd k l(1) by (auto split: if_splits)
    then show ?thesis using ok SaidHello same [of l] h l by (intro peer [where ?h1.0 = "heap g"]) (auto simp: said_def)
  qed (use m in auto)
qed

interpretation norace: kept norace_act norace_inv
proof
  fix g ls t l g1
  assume inv: "norace_inv g ls" and t: "t < length ls" and m: "norace_act t (ls ! t) g = Some (l, g1)"
  show "norace_inv g1 (ls[t := l])"
  proof (cases t)
    case 0
    then show ?thesis using norace_main_keeps [OF inv] m by (simp add: norace_act_def)
  next
    case (Suc k)
    then show ?thesis using norace_thread_keeps [OF inv, of k] m t inv by (simp add: norace_act_def norace_inv_def)
  qed
qed

lemma norace_start_inv: "norace_inv (fst norace_start) (snd norace_start)"
  by (auto simp: norace_inv_def norace_start_def said_def nth_Cons split: nat.splits)

text \<open>
  C23 (safety). In \<open>norace.c\<close> every thread prints its own number: in every interleaving no number is printed twice, no
  thread touches memory that is not allocated, and when \<open>main\<close> exits all four numbers have
  been printed and every block has been freed.
\<close>

theorem norace_prints:
  "let (g, ls) = run_threads norace_act sched norace_start in
     distinct (hellos g) \<and> set (hellos g) \<subseteq> {0..<int N} \<and> Fault \<notin> set ls
     \<and> (ls ! 0 = Exited \<longrightarrow> set (hellos g) = {0..<int N} \<and> heap g = Map.empty)"
proof -
  obtain g ls where s: "run_threads norace_act sched norace_start = (g, ls)" by fastforce
  have inv: "norace_inv g ls" using norace.run_keeps [OF norace_start_inv, of sched] s by simp
  have h: "set (hellos g) = {int k |k. k < N \<and> said (ls ! Suc k)}" and len: "length ls = Suc N" using inv by (auto simp: norace_inv_def)
  have peer: "peer_ok (heap g) (args g ! k) k (ls ! Suc k)" if "k < length (args g)" for k using inv that by (simp add: norace_inv_def)
  have "ls ! j \<noteq> Fault" if "j < length ls" for j
  proof (cases j)
    case 0
    then show ?thesis using inv by (auto simp: norace_inv_def)
  next
    case (Suc k)
    show ?thesis
    proof (cases "k < length (args g)")
      case True
      then show ?thesis using peer [OF True] Suc by (auto simp: said_def)
    next
      case False
      then show ?thesis using inv Suc that len by (auto simp: norace_inv_def)
    qed
  qed
  then have fault: "Fault \<notin> set ls" by (metis in_set_conv_nth)
  have "set (hellos g) = {0..<int N} \<and> heap g = Map.empty" if x: "ls ! 0 = Exited"
  proof
    have all: "length (args g) = N" "k < N \<Longrightarrow> ls ! Suc k = Ended" "heap g q \<noteq> None \<Longrightarrow> q \<in> set (args g)" for k q
      using inv x by (auto simp: norace_inv_def)
    have "set (hellos g) = int ` {0..<N}" unfolding h using all(2) by (auto simp: said_def)
    then show "set (hellos g) = {0..<int N}" by (simp add: image_int_atLeastLessThan)
    have "heap g q = None" for q
    proof (rule ccontr)
      assume q: "heap g q \<noteq> None"
      obtain k where "k < N" "q = args g ! k" using all(1) all(3) [OF q] by (metis in_set_conv_nth)
      then show False using peer [of k] all(1,2) q by simp
    qed
    then show "heap g = Map.empty" by (simp add: fun_eq_iff)
  qed
  moreover have "set (hellos g) \<subseteq> {0..<int N}" unfolding h by auto
  ultimately show ?thesis using inv fault s by (simp add: norace_inv_def)
qed

lemma norace_exits: "snd (run_threads norace_act (concat (replicate 20 [0, 1, 2, 3, 4])) norace_start) ! 0 = Exited"
  by code_simp

theorem norace_prints_witness:
  "set (hellos (fst (run_threads norace_act (concat (replicate 20 [0, 1, 2, 3, 4])) norace_start))) = {0..<int N}"
  using norace_prints [of "concat (replicate 20 [0, 1, 2, 3, 4])"] norace_exits by (simp add: split_beta)

text \<open>
  Safety. In \<open>race.c\<close> the threads share the variable \<open>i\<close>: there is an interleaving in which all four print
  the number 4, which belongs to no thread, before \<open>main\<close> starts to wait.
\<close>

theorem race_prints_four:
  "\<exists>sched. lines (fst (run_threads race_act sched race_start)) = replicate N 4"
proof -
  have "lines (fst (run_threads race_act (replicate 13 0 @ [1, 2, 3, 4, 1, 2, 3, 4]) race_start)) = replicate N 4" by code_simp
  then show ?thesis by blast
qed

end
