(* ===== verification/Sbuf.thy ===== *)
theory Sbuf
  imports Interleaving
begin

text \<open>
  The bounded buffer of \<open>25-sync-advanced/sbuf.c\<close> under arbitrary interleavings of any number of
  threads.  A thread executes \<open>sbuf_insert\<close> or \<open>sbuf_remove\<close> statement by statement; \<open>P\<close> on a
  semaphore with value zero blocks.  The counters \<open>front\<close> and \<open>rear\<close> are \<open>int\<close> values that wrap
  around; an access outside the array is an error.
\<close>

section \<open>Definitions\<close>

record sbuf_t =
  buf :: "int list"
  slots_n :: nat
  front :: int
  rear :: int
  mutex :: nat
  slots :: nat
  items :: nat

definition sbuf_init :: "nat \<Rightarrow> sbuf_t" where
  "sbuf_init n = \<lparr>buf = replicate n 0, slots_n = n, front = 0, rear = 0, mutex = 1, slots = n, items = 0\<rparr>"

text \<open>\<open>++x\<close> on an \<open>int\<close>.\<close>

definition incr32 :: "int \<Rightarrow> int" where
  "incr32 x = signed_take_bit 31 (x + 1)"

datatype effect = Blocked | Error | Next sbuf_t

text \<open>The statements of \<open>sbuf_insert\<close>, numbered from 0.\<close>

definition sbuf_insert :: "nat \<Rightarrow> int \<Rightarrow> sbuf_t \<Rightarrow> effect" where
  "sbuf_insert k item sp =
     (if k = 0 then if 0 < slots sp then Next (sp\<lparr>slots := slots sp - 1\<rparr>) else Blocked
      else if k = 1 then if 0 < mutex sp then Next (sp\<lparr>mutex := mutex sp - 1\<rparr>) else Blocked
      else if k = 2 then let r = incr32 (rear sp) in
        (case wr (buf sp) (crem r (int (slots_n sp))) item of None \<Rightarrow> Error | Some b \<Rightarrow> Next (sp\<lparr>buf := b, rear := r\<rparr>))
      else if k = 3 then Next (sp\<lparr>mutex := mutex sp + 1\<rparr>)
      else Next (sp\<lparr>items := items sp + 1\<rparr>))"

text \<open>The statements of \<open>sbuf_remove\<close>, with the item that the third of them reads.\<close>

definition sbuf_remove :: "nat \<Rightarrow> sbuf_t \<Rightarrow> effect" where
  "sbuf_remove k sp =
     (if k = 0 then if 0 < items sp then Next (sp\<lparr>items := items sp - 1\<rparr>) else Blocked
      else if k = 1 then if 0 < mutex sp then Next (sp\<lparr>mutex := mutex sp - 1\<rparr>) else Blocked
      else if k = 2 then let f = incr32 (front sp) in
        (case rd (buf sp) (crem f (int (slots_n sp))) of None \<Rightarrow> Error | Some x \<Rightarrow> Next (sp\<lparr>front := f\<rparr>))
      else if k = 3 then Next (sp\<lparr>mutex := mutex sp + 1\<rparr>)
      else Next (sp\<lparr>slots := slots sp + 1\<rparr>))"

text \<open>\<open>sbuf_deinit\<close> frees the array, so that no access to it is valid any more.\<close>

definition sbuf_deinit :: "sbuf_t \<Rightarrow> sbuf_t" where
  "sbuf_deinit sp = sp\<lparr>buf := []\<rparr>"

definition removed_item :: "sbuf_t \<Rightarrow> int" where
  "removed_item sp = buf sp ! nat (crem (incr32 (front sp)) (int (slots_n sp)))"

text \<open>
  The threads: the next statement of the call that a thread executes, the buffer, and the items
  in the order in which they were stored and read.
\<close>

datatype thread_pc = Idle | Ins nat int | Rem nat

record system =
  sp :: sbuf_t
  pcs :: "thread_pc list"
  stored :: "int list"
  fetched :: "int list"

inductive sbuf_step :: "system \<Rightarrow> system \<Rightarrow> bool" where
  start_insert: "t < length (pcs s) \<Longrightarrow> pcs s ! t = Idle \<Longrightarrow> sbuf_step s (s\<lparr>pcs := (pcs s)[t := Ins 0 x]\<rparr>)"
| start_remove: "t < length (pcs s) \<Longrightarrow> pcs s ! t = Idle \<Longrightarrow> sbuf_step s (s\<lparr>pcs := (pcs s)[t := Rem 0]\<rparr>)"
| insert: "t < length (pcs s) \<Longrightarrow> pcs s ! t = Ins k x \<Longrightarrow> sbuf_insert k x (sp s) = Next b \<Longrightarrow>
    sbuf_step s (s\<lparr>sp := b, pcs := (pcs s)[t := if k < 4 then Ins (k + 1) x else Idle],
                   stored := stored s @ (if k = 2 then [x] else [])\<rparr>)"
| remove: "t < length (pcs s) \<Longrightarrow> pcs s ! t = Rem k \<Longrightarrow> sbuf_remove k (sp s) = Next b \<Longrightarrow>
    sbuf_step s (s\<lparr>sp := b, pcs := (pcs s)[t := if k < 4 then Rem (k + 1) else Idle],
                   fetched := fetched s @ (if k = 2 then [removed_item (sp s)] else [])\<rparr>)"

definition sbuf_start :: "nat \<Rightarrow> nat \<Rightarrow> system" where
  "sbuf_start n threads = \<lparr>sp = sbuf_init n, pcs = replicate threads Idle, stored = [], fetched = []\<rparr>"

inductive sbuf_reach :: "nat \<Rightarrow> nat \<Rightarrow> system \<Rightarrow> bool" for n threads where
  start: "sbuf_reach n threads (sbuf_start n threads)"
| step: "sbuf_reach n threads s \<Longrightarrow> sbuf_step s s' \<Longrightarrow> sbuf_reach n threads s'"

section \<open>Counting threads\<close>

fun holding :: "thread_pc \<Rightarrow> bool" where
  "holding Idle = False" | "holding (Ins k x) = (k \<in> {2, 3})" | "holding (Rem k) = (k \<in> {2, 3})"

fun will_store :: "thread_pc \<Rightarrow> bool" where
  "will_store (Ins k x) = (k \<in> {1, 2})" | "will_store _ = False"

fun has_stored :: "thread_pc \<Rightarrow> bool" where
  "has_stored (Ins k x) = (k \<in> {3, 4})" | "has_stored _ = False"

fun will_fetch :: "thread_pc \<Rightarrow> bool" where
  "will_fetch (Rem k) = (k \<in> {1, 2})" | "will_fetch _ = False"

fun has_fetched :: "thread_pc \<Rightarrow> bool" where
  "has_fetched (Rem k) = (k \<in> {3, 4})" | "has_fetched _ = False"

text \<open>Where the semaphores stand.\<close>

definition sem_inv :: "nat \<Rightarrow> system \<Rightarrow> bool" where
  "sem_inv n s \<longleftrightarrow> mutex (sp s) + num holding (pcs s) = 1
     \<and> length (fetched s) + items (sp s) + num has_stored (pcs s) + num will_fetch (pcs s) = length (stored s)
     \<and> length (stored s) + slots (sp s) + num will_store (pcs s) + num has_fetched (pcs s) = n + length (fetched s)"

fun pc_ok :: "thread_pc \<Rightarrow> bool" where
  "pc_ok Idle = True" | "pc_ok (Ins k x) = (k \<le> 4)" | "pc_ok (Rem k) = (k \<le> 4)"

lemmas nums_update = num_update [where p = holding] num_update [where p = will_store] num_update [where p = has_stored]
  num_update [where p = will_fetch] num_update [where p = has_fetched]

text \<open>A thread that is past its \<open>P\<close> operations when the buffer is cleaned up makes an invalid access.\<close>

lemma sbuf_deinit_use: "sbuf_insert 2 item (sbuf_deinit b) = Error" "sbuf_remove 2 (sbuf_deinit b) = Error"
  by (simp_all add: sbuf_insert_def sbuf_remove_def sbuf_deinit_def Let_def rd_def wr_def)

lemma pcs_ok_update: "list_all pc_ok ts \<Longrightarrow> pc_ok c \<Longrightarrow> list_all pc_ok (ts[t := c])"
  by (auto simp: list_all_iff dest: set_update_subset_insert [THEN subsetD])

text \<open>What the statements do to the semaphores.\<close>

lemma insert_sems:
  assumes "sbuf_insert k x p = Next b"
  shows "mutex b = (if k = 1 then mutex p - 1 else if k = 3 then mutex p + 1 else mutex p)" "k = 1 \<Longrightarrow> 0 < mutex p"
    "slots b = (if k = 0 then slots p - 1 else slots p)" "k = 0 \<Longrightarrow> 0 < slots p"
    "items b = (if k < 4 then items p else items p + 1)"
  using assms by (auto simp: sbuf_insert_def Let_def split: if_splits option.splits)

lemma remove_sems:
  assumes "sbuf_remove k p = Next b"
  shows "mutex b = (if k = 1 then mutex p - 1 else if k = 3 then mutex p + 1 else mutex p)" "k = 1 \<Longrightarrow> 0 < mutex p"
    "items b = (if k = 0 then items p - 1 else items p)" "k = 0 \<Longrightarrow> 0 < items p"
    "slots b = (if k < 4 then slots p else slots p + 1)"
  using assms by (auto simp: sbuf_remove_def Let_def split: if_splits option.splits)

lemma sem_inv_step:
  assumes "sbuf_step s s'" "sem_inv n s" "list_all pc_ok (pcs s)"
  shows "sem_inv n s' \<and> list_all pc_ok (pcs s')"
  using assms
proof cases
  case (start_insert t x)
  then show ?thesis using assms(2,3) nums_update [OF start_insert(2), of "Ins 0 x"]
    by (simp add: sem_inv_def pcs_ok_update)
next
  case (start_remove t)
  then show ?thesis using assms(2,3) nums_update [OF start_remove(2), of "Rem 0"]
    by (simp add: sem_inv_def pcs_ok_update)
next
  case (insert t k x b)
  have "k \<le> 4" using insert(2,3) assms(3) by (metis list_all_length pc_ok.simps(2))
  then have "pc_ok (if k < 4 then Ins (k + 1) x else Idle)" by simp
  then have "list_all pc_ok (pcs s')" using insert(1) assms(3) by (simp add: pcs_ok_update)
  moreover have "sem_inv n s'"
  proof -
    consider "k = 0" | "k = 1" | "k = 2" | "k = 3" | "k = 4" using \<open>k \<le> 4\<close> by linarith
    then show ?thesis
      using insert(1,3) assms(2) insert_sems [OF insert(4)] nums_update [OF insert(2), of "if k < 4 then Ins (k + 1) x else Idle"]
      by cases (simp_all add: sem_inv_def)
  qed
  ultimately show ?thesis by simp
next
  case (remove t k b)
  have "k \<le> 4" using remove(2,3) assms(3) by (metis list_all_length pc_ok.simps(3))
  then have "pc_ok (if k < 4 then Rem (k + 1) else Idle)" by simp
  then have "list_all pc_ok (pcs s')" using remove(1) assms(3) by (simp add: pcs_ok_update)
  moreover have "sem_inv n s'"
  proof -
    consider "k = 0" | "k = 1" | "k = 2" | "k = 3" | "k = 4" using \<open>k \<le> 4\<close> by linarith
    then show ?thesis
      using remove(1,3) assms(2) remove_sems [OF remove(4)] nums_update [OF remove(2), of "if k < 4 then Rem (k + 1) else Idle"]
      by cases (auto simp: sem_inv_def)
  qed
  ultimately show ?thesis by simp
qed

lemma sem_inv_reach: "sbuf_reach n threads s \<Longrightarrow> sem_inv n s \<and> list_all pc_ok (pcs s)"
proof (induction rule: sbuf_reach.induct)
  case start
  then show ?case by (auto simp: sem_inv_def sbuf_start_def sbuf_init_def num_def list_all_iff)
next
  case (step s s')
  then show ?case using sem_inv_step by blast
qed

section \<open>The ring\<close>

text \<open>The buffer holds the items that are stored and not yet fetched.\<close>

definition ring_inv :: "nat \<Rightarrow> system \<Rightarrow> bool" where
  "ring_inv n s \<longleftrightarrow> length (buf (sp s)) = n \<and> slots_n (sp s) = n \<and> front (sp s) = int (length (fetched s))
     \<and> rear (sp s) = int (length (stored s)) \<and> fetched s = take (length (fetched s)) (stored s)
     \<and> (\<forall>i. length (fetched s) \<le> i \<and> i < length (stored s) \<longrightarrow> buf (sp s) ! (Suc i mod n) = stored s ! i)"

lemma incr32_small: "n + 1 < 2 ^ 31 \<Longrightarrow> incr32 (int n) = int (n + 1)"
proof -
  assume "n + 1 < 2 ^ 31"
  then have "int (n + 1) < 2 ^ 31" using of_nat_less_iff [of "n + 1" "2 ^ 31", where 'a = int] by simp
  then show ?thesis by (simp add: incr32_def signed_take_bit_int_eq_self add.commute)
qed

lemma ring_index: "0 < n \<Longrightarrow> m + 1 < 2 ^ 31 \<Longrightarrow> crem (incr32 (int m)) (int n) = int (Suc m mod n)"
  by (simp add: incr32_small crem_nonneg zmod_int del: of_nat_add)

lemma ring_pos: "0 < n \<Longrightarrow> crem (int (Suc m)) (int n) = int (Suc m mod n)"
  by (simp add: crem_nonneg zmod_int del: of_nat_Suc)

lemma ring_distinct:
  assumes "i < j" "j - i < n"
  shows "Suc i mod n \<noteq> Suc j mod (n :: nat)"
proof
  assume "Suc i mod n = Suc j mod n"
  then have "n dvd Suc j - Suc i" using assms(1) by (metis mod_eq_dvd_iff_nat less_imp_le Suc_le_mono)
  then show False using assms by (auto dest: dvd_imp_le)
qed

lemma room_to_store:
  assumes "sem_inv n s" "t < length (pcs s)" "will_store (pcs s ! t)"
  shows "length (stored s) - length (fetched s) < n \<and> length (fetched s) \<le> length (stored s)"
  using assms(1) num_pos [of t "pcs s" will_store] assms(2,3) by (auto simp: sem_inv_def)

lemma item_to_fetch:
  assumes "sem_inv n s" "t < length (pcs s)" "will_fetch (pcs s ! t)"
  shows "length (fetched s) < length (stored s)"
  using assms(1) num_pos [of t "pcs s" will_fetch] assms(2,3) by (auto simp: sem_inv_def)

lemma store_statement:
  assumes "sem_inv n s" "ring_inv n s" "0 < n" "length (stored s) + 1 < 2 ^ 31"
  shows "sbuf_insert 2 x (sp s) = Next ((sp s)\<lparr>buf := (buf (sp s))[Suc (length (stored s)) mod n := x], rear := int (length (stored s) + 1)\<rparr>)"
  using assms by (simp add: sbuf_insert_def ring_inv_def incr32_small ring_pos wr_nat Let_def del: of_nat_add of_nat_Suc)

lemma fetch_statement:
  assumes "sem_inv n s" "ring_inv n s" "0 < n" "length (fetched s) < length (stored s)" "length (stored s) < 2 ^ 31"
  shows "sbuf_remove 2 (sp s) = Next ((sp s)\<lparr>front := int (length (fetched s) + 1)\<rparr>)"
    and "removed_item (sp s) = stored s ! length (fetched s)"
proof -
  have l: "length (fetched s) + 1 < 2 ^ 31" using assms(4,5) by simp
  show "sbuf_remove 2 (sp s) = Next ((sp s)\<lparr>front := int (length (fetched s) + 1)\<rparr>)"
    using assms(2,3) l by (simp add: sbuf_remove_def ring_inv_def incr32_small ring_pos rd_nat Let_def del: of_nat_add of_nat_Suc)
  show "removed_item (sp s) = stored s ! length (fetched s)"
    using assms(2,3,4) l by (simp add: removed_item_def ring_inv_def ring_index del: of_nat_add of_nat_Suc)
qed

lemma keeps_ring:
  assumes "ring_inv n s" "buf b = buf (sp s)" "slots_n b = slots_n (sp s)" "front b = front (sp s)" "rear b = rear (sp s)"
    "stored s' = stored s" "fetched s' = fetched s" "sp s' = b"
  shows "ring_inv n s'"
  using assms by (simp add: ring_inv_def)

lemma other_statements:
  "sbuf_insert k x p = Next b \<Longrightarrow> k \<noteq> 2 \<Longrightarrow> buf b = buf p \<and> slots_n b = slots_n p \<and> front b = front p \<and> rear b = rear p"
  "sbuf_remove k p = Next b \<Longrightarrow> k \<noteq> 2 \<Longrightarrow> buf b = buf p \<and> slots_n b = slots_n p \<and> front b = front p \<and> rear b = rear p"
  by (auto simp: sbuf_insert_def sbuf_remove_def split: if_splits)

lemma ring_inv_step:
  assumes st: "sbuf_step s s'" and sem: "sem_inv n s" and ring: "ring_inv n s" and n: "0 < n" and small: "length (stored s') < 2 ^ 31"
  shows "ring_inv n s'"
  using st
proof cases
  case (start_insert t x)
  then show ?thesis using ring by (simp add: ring_inv_def)
next
  case (start_remove t)
  then show ?thesis using ring by (simp add: ring_inv_def)
next
  case (insert t k x b)
  show ?thesis
  proof (cases "k = 2")
    case False
    then show ?thesis using keeps_ring [OF ring, of b s'] other_statements(1) [OF insert(4)] insert(1) by simp
  next
    case True
    have room: "length (stored s) - length (fetched s) < n" "length (fetched s) \<le> length (stored s)"
      using room_to_store [OF sem insert(2)] insert(3) True by simp_all
    have "length (stored s) + 1 < 2 ^ 31" using small insert(1) True by simp
    from store_statement [OF sem ring n this, of x]
    have b: "b = (sp s)\<lparr>buf := (buf (sp s))[Suc (length (stored s)) mod n := x], rear := int (length (stored s) + 1)\<rparr>"
      using insert(4) True by simp
    have "(buf (sp s))[Suc (length (stored s)) mod n := x] ! (Suc i mod n) = (stored s @ [x]) ! i"
      if "length (fetched s) \<le> i" "i < Suc (length (stored s))" for i
    proof (cases "i = length (stored s)")
      case True
      then show ?thesis using ring n by (simp add: ring_inv_def)
    next
      case False
      then have "Suc i mod n \<noteq> Suc (length (stored s)) mod n" using that room by (intro ring_distinct) auto
      then show ?thesis using ring that False by (simp add: ring_inv_def nth_append)
    qed
    then show ?thesis using ring insert(1) b True room(2) by (simp add: ring_inv_def)
  qed
next
  case (remove t k b)
  show ?thesis
  proof (cases "k = 2")
    case False
    then show ?thesis using keeps_ring [OF ring, of b s'] other_statements(2) [OF remove(4)] remove(1) by simp
  next
    case True
    have lt: "length (fetched s) < length (stored s)" using item_to_fetch [OF sem remove(2)] remove(3) True by simp
    have sm: "length (stored s) < 2 ^ 31" using small remove(1) by simp
    note f = fetch_statement [OF sem ring n lt sm]
    have "b = (sp s)\<lparr>front := int (length (fetched s) + 1)\<rparr>" using f(1) remove(4) True by simp
    moreover have "fetched s @ [stored s ! length (fetched s)] = take (Suc (length (fetched s))) (stored s)"
      using lt ring by (simp add: ring_inv_def take_Suc_conv_app_nth)
    ultimately show ?thesis using ring remove(1) True f(2) lt by (simp add: ring_inv_def min_def)
  qed
qed

lemma stored_grows: "sbuf_step s s' \<Longrightarrow> length (stored s) \<le> length (stored s')"
  by (induction rule: sbuf_step.induct) auto

lemma ring_inv_reach: "sbuf_reach n threads s \<Longrightarrow> 0 < n \<Longrightarrow> length (stored s) < 2 ^ 31 \<Longrightarrow> ring_inv n s"
proof (induction rule: sbuf_reach.induct)
  case start
  then show ?case by (simp add: ring_inv_def sbuf_start_def sbuf_init_def)
next
  case (step s s')
  have "length (stored s) < 2 ^ 31" using stored_grows [OF step(2)] step(5) by simp
  then show ?case using ring_inv_step [OF step(2)] sem_inv_reach [OF step(1)] step by blast
qed

section \<open>Properties\<close>

text \<open>
  C4 (sbuf.c, refinement).  In every interleaving of any number of inserting and removing threads
  the buffer is a bounded first-in first-out queue: the items are fetched in the order in which
  they were stored, none twice and none lost, at most \<open>n\<close> of them are in the buffer, at most one
  thread works on the array at a time, and no statement accesses the array outside its bounds.
  This holds until the \<open>int\<close> counter of insertions overflows.
\<close>

theorem sbuf_fifo:
  assumes "sbuf_reach n threads s" "0 < n" "length (stored s) + 1 < 2 ^ 31"
  shows "fetched s = take (length (fetched s)) (stored s) \<and> length (stored s) \<le> length (fetched s) + n
    \<and> length (filter holding (pcs s)) \<le> 1
    \<and> list_all (\<lambda>c. case c of Ins k x \<Rightarrow> sbuf_insert k x (sp s) \<noteq> Error | Rem k \<Rightarrow> sbuf_remove k (sp s) \<noteq> Error | Idle \<Rightarrow> True) (pcs s)"
proof -
  have sem: "sem_inv n s" "list_all pc_ok (pcs s)" using sem_inv_reach [OF assms(1)] by simp_all
  have ring: "ring_inv n s" using ring_inv_reach [OF assms(1,2)] assms(3) by simp
  have "case c of Ins k x \<Rightarrow> sbuf_insert k x (sp s) \<noteq> Error | Rem k \<Rightarrow> sbuf_remove k (sp s) \<noteq> Error | Idle \<Rightarrow> True"
    if c: "c \<in> set (pcs s)" for c
  proof (cases c)
    case (Ins k x)
    then show ?thesis using store_statement [OF sem(1) ring assms(2,3), of x] by (cases "k = 2") (auto simp: sbuf_insert_def)
  next
    case (Rem k)
    obtain t where t: "t < length (pcs s)" "pcs s ! t = c" using c unfolding in_set_conv_nth by blast
    have "length (fetched s) < length (stored s)" if "k = 2" using item_to_fetch [OF sem(1), of t] t Rem that by simp
    then show ?thesis using fetch_statement(1) [OF sem(1) ring assms(2)] assms(3) Rem by (cases "k = 2") (auto simp: sbuf_remove_def)
  qed simp
  then have "list_all (\<lambda>c. case c of Ins k x \<Rightarrow> sbuf_insert k x (sp s) \<noteq> Error | Rem k \<Rightarrow> sbuf_remove k (sp s) \<noteq> Error | Idle \<Rightarrow> True) (pcs s)"
    by (simp add: list_all_iff)
  then show ?thesis using sem(1) ring by (auto simp: sem_inv_def ring_inv_def num_def)
qed

theorem sbuf_fifo_witness:
  "\<exists>s. sbuf_reach 2 3 s \<and> pcs s ! 0 = Ins 0 7 \<and> length (stored s) \<le> length (fetched s) + 2"
proof -
  let ?s = "(sbuf_start 2 3)\<lparr>pcs := [Ins 0 7, Idle, Idle]\<rparr>"
  have "sbuf_step (sbuf_start 2 3) ((sbuf_start 2 3)\<lparr>pcs := (pcs (sbuf_start 2 3))[0 := Ins 0 7]\<rparr>)"
    by (rule sbuf_step.start_insert) (simp_all add: sbuf_start_def)
  then have "sbuf_step (sbuf_start 2 3) ?s" by (simp add: sbuf_start_def numeral_eq_Suc)
  then have r: "sbuf_reach 2 3 ?s" by (rule sbuf_reach.step [OF sbuf_reach.start])
  then show ?thesis using sbuf_fifo [OF r] by (intro exI [of _ ?s]) (simp add: sbuf_start_def)
qed

text \<open>A thread can perform its next statement.\<close>

definition can_move :: "system \<Rightarrow> thread_pc \<Rightarrow> bool" where
  "can_move s c = (case c of Idle \<Rightarrow> True | Ins k x \<Rightarrow> sbuf_insert k x (sp s) \<noteq> Blocked | Rem k \<Rightarrow> sbuf_remove k (sp s) \<noteq> Blocked)"

text \<open>
  C30 (sbuf.c, liveness).  The buffer does not deadlock by itself: when no thread can move, every
  thread waits at the first statement of its call, the inserting ones because the buffer is
  full and the removing ones because it is empty, so that with at least one slot not both
  kinds wait.
\<close>

theorem sbuf_no_deadlock:
  assumes "sbuf_reach n threads s" "0 < n" "list_all (\<lambda>c. \<not> can_move s c) (pcs s)"
  shows "list_all (\<lambda>c. case c of Idle \<Rightarrow> False | Ins k x \<Rightarrow> k = 0 \<and> length (stored s) = length (fetched s) + n
      | Rem k \<Rightarrow> k = 0 \<and> length (stored s) = length (fetched s)) (pcs s)"
proof -
  have sem: "sem_inv n s" "list_all pc_ok (pcs s)" using sem_inv_reach [OF assms(1)] by simp_all
  have blocked: "\<not> can_move s c" "pc_ok c" if "c \<in> set (pcs s)" for c
    using that assms(3) sem(2) by (simp_all add: list_all_iff)
  have stay: "\<not> holding c \<and> \<not> has_stored c \<and> \<not> has_fetched c" if "c \<in> set (pcs s)" for c
    using blocked [OF that] by (cases c) (auto simp: can_move_def sbuf_insert_def sbuf_remove_def Let_def split: if_splits option.splits)
  then have z: "num holding (pcs s) = 0" "num has_stored (pcs s) = 0" "num has_fetched (pcs s) = 0"
    by (auto simp: num_def filter_empty_conv)
  then have m: "mutex (sp s) = 1" using sem(1) by (simp add: sem_inv_def)
  have first: "case c of Idle \<Rightarrow> False | Ins k x \<Rightarrow> k = 0 \<and> slots (sp s) = 0 | Rem k \<Rightarrow> k = 0 \<and> items (sp s) = 0"
    if "c \<in> set (pcs s)" for c
    using blocked [OF that] stay [OF that] m
    by (cases c) (auto simp: can_move_def sbuf_insert_def sbuf_remove_def Let_def split: if_splits option.splits)
  then have "\<not> will_store c \<and> \<not> will_fetch c" if "c \<in> set (pcs s)" for c
    using that first [OF that] by (cases c) auto
  then have "num will_store (pcs s) = 0" "num will_fetch (pcs s) = 0" by (auto simp: num_def filter_empty_conv)
  then have "length (stored s) = length (fetched s) + n" if "slots (sp s) = 0" 
    using that z sem(1) by (simp add: sem_inv_def)
  moreover have "length (stored s) = length (fetched s)" if "items (sp s) = 0"
    using that z sem(1) \<open>num will_fetch (pcs s) = 0\<close> by (simp add: sem_inv_def)
  ultimately show ?thesis using first unfolding list_all_iff by (fastforce split: thread_pc.splits)
qed

theorem sbuf_no_deadlock_witness:
  "\<exists>s. sbuf_reach 2 1 s \<and> pcs s = [Rem 0] \<and> length (stored s) = length (fetched s)"
proof -
  let ?s = "(sbuf_start 2 1)\<lparr>pcs := [Rem 0]\<rparr>"
  have "sbuf_step (sbuf_start 2 1) ((sbuf_start 2 1)\<lparr>pcs := (pcs (sbuf_start 2 1))[0 := Rem 0]\<rparr>)"
    by (rule sbuf_step.start_remove) (simp_all add: sbuf_start_def)
  then have "sbuf_step (sbuf_start 2 1) ?s" by (simp add: sbuf_start_def)
  then have r: "sbuf_reach 2 1 ?s" by (rule sbuf_reach.step [OF sbuf_reach.start])
  have "list_all (\<lambda>c. \<not> can_move ?s c) (pcs ?s)" by (simp add: can_move_def sbuf_start_def sbuf_init_def sbuf_remove_def)
  from sbuf_no_deadlock [OF r _ this] r show ?thesis by (intro exI [of _ ?s]) simp
qed

end
