(* ===== verification/Prethreaded.thy ===== *)
theory Prethreaded
  imports Sbuf Echo
begin

text \<open>
  The prethreaded echo server \<open>25-sync-advanced/echoservert_pre.c\<close> with the counting echo service
  \<open>echo_cnt.c\<close>: the main thread accepts connections and puts their descriptors into the bounded
  buffer, the worker threads take them out, echo every line, and close the connection.  The
  statements of the buffer operations and the rounds of the echo loops interleave
  arbitrarily; the section in which \<open>echo_cnt\<close> holds its mutex is part of one action.
\<close>

section \<open>Definitions\<close>

definition NTHREADS :: nat where "NTHREADS = 4"
definition SBUFSIZE :: nat where "SBUFSIZE = 16"

text \<open>
  The connection in the hands of a worker: none, one that it has removed from the buffer, or one
  that it serves.
\<close>

datatype work = NoConn | Conn int | Echoing int rio_t

text \<open>
  The buffer with its threads (thread 0 is \<open>main\<close>), the open descriptors with what their clients
  send, the byte counter and whether it has been initialised, and the connections that have
  been accepted and closed, with the bytes sent back.
\<close>

record server =
  sys :: system
  fds :: "int \<rightharpoonup> descr"
  hands :: "work list"
  once :: bool
  byte_cnt :: "32 word"
  accepted :: "descr list"
  closed :: "(descr \<times> byte list) list"

text \<open>One round of the loop of \<open>echo_cnt\<close>; the flag tells that the client has closed.\<close>

definition echo_cnt_round :: "int \<Rightarrow> rio_t \<Rightarrow> 32 word \<Rightarrow> (rio_t \<times> 32 word \<times> bool) outcome" where
  "echo_cnt_round e rp cnt = then_do (Rio_readlineb e MAXLINE rp) (\<lambda>(n, bs, rp1).
     if n = 0 then Ret (rp1, cnt, True)
     else let cnt1 = cnt + word_of_int n in
       then_do (Rio_writen e (take (nat n) (line_buf bs)) (rio_fd rp1)) (\<lambda>f. Ret (rp1\<lparr>rio_fd := f\<rparr>, cnt1, False)))"

text \<open>The counter of a server whose first connection is about to be served is reset.\<close>

definition init_echo_cnt :: "server \<Rightarrow> server" where
  "init_echo_cnt s = (if once s then s else s\<lparr>once := True, byte_cnt := 0\<rparr>)"

inductive pre_step :: "int \<Rightarrow> server \<Rightarrow> server \<Rightarrow> bool" for e where
  accept: "pcs (sys s) ! 0 = Idle \<Longrightarrow> 0 \<le> connfd \<Longrightarrow> fds s connfd = None \<Longrightarrow> clean d \<Longrightarrow> outgoing d = [] \<Longrightarrow>
    pre_step e s (s\<lparr>sys := (sys s)\<lparr>pcs := (pcs (sys s))[0 := Ins 0 connfd]\<rparr>,
      fds := (fds s)(connfd \<mapsto> d), accepted := accepted s @ [d]\<rparr>)"
| insert: "pcs (sys s) ! 0 = Ins k x \<Longrightarrow> sbuf_insert k x (sp (sys s)) = Next b \<Longrightarrow>
    pre_step e s (s\<lparr>sys := (sys s)\<lparr>sp := b, pcs := (pcs (sys s))[0 := if k < 4 then Ins (k + 1) x else Idle],
      stored := stored (sys s) @ (if k = 2 then [x] else [])\<rparr>\<rparr>)"
| want: "0 < t \<Longrightarrow> t < length (pcs (sys s)) \<Longrightarrow> pcs (sys s) ! t = Idle \<Longrightarrow> hands s ! t = NoConn \<Longrightarrow>
    pre_step e s (s\<lparr>sys := (sys s)\<lparr>pcs := (pcs (sys s))[t := Rem 0]\<rparr>\<rparr>)"
| remove: "0 < t \<Longrightarrow> t < length (pcs (sys s)) \<Longrightarrow> pcs (sys s) ! t = Rem k \<Longrightarrow> sbuf_remove k (sp (sys s)) = Next b \<Longrightarrow>
    pre_step e s (s\<lparr>sys := (sys s)\<lparr>sp := b, pcs := (pcs (sys s))[t := if k < 4 then Rem (k + 1) else Idle],
        fetched := fetched (sys s) @ (if k = 2 then [removed_item (sp (sys s))] else [])\<rparr>,
      hands := (if k = 2 then (hands s)[t := Conn (removed_item (sp (sys s)))] else hands s)\<rparr>)"
| serve: "t < length (pcs (sys s)) \<Longrightarrow> pcs (sys s) ! t = Idle \<Longrightarrow> hands s ! t = Conn c \<Longrightarrow> fds s c = Some d \<Longrightarrow>
    pre_step e s ((init_echo_cnt s)\<lparr>hands := (hands s)[t := Echoing c (rio_fresh d)]\<rparr>)"
| echo: "t < length (pcs (sys s)) \<Longrightarrow> hands s ! t = Echoing c rp \<Longrightarrow> echo_cnt_round e rp (byte_cnt s) = Ret (rp1, cnt, False) \<Longrightarrow>
    pre_step e s (s\<lparr>hands := (hands s)[t := Echoing c rp1], byte_cnt := cnt\<rparr>)"
| close: "t < length (pcs (sys s)) \<Longrightarrow> hands s ! t = Echoing c rp \<Longrightarrow> echo_cnt_round e rp (byte_cnt s) = Ret (rp1, cnt, True) \<Longrightarrow>
    fds s c = Some d \<Longrightarrow>
    pre_step e s (s\<lparr>hands := (hands s)[t := NoConn], fds := (fds s)(c := None), closed := closed s @ [(d, outgoing (rio_fd rp1))]\<rparr>)"

definition pre_start :: server where
  "pre_start = \<lparr>sys = sbuf_start SBUFSIZE (Suc NTHREADS), fds = Map.empty, hands = replicate (Suc NTHREADS) NoConn,
     once = False, byte_cnt = 0, accepted = [], closed = []\<rparr>"

inductive pre_reach :: "int \<Rightarrow> server \<Rightarrow> bool" for e where
  start: "pre_reach e pre_start"
| step: "pre_reach e s \<Longrightarrow> pre_step e s s' \<Longrightarrow> pre_reach e s'"

lemma init_echo_cnt_simps [simp]:
  "sys (init_echo_cnt s) = sys s" "fds (init_echo_cnt s) = fds s" "hands (init_echo_cnt s) = hands s" "once (init_echo_cnt s)"
  "accepted (init_echo_cnt s) = accepted s" "closed (init_echo_cnt s) = closed s"
  by (simp_all add: init_echo_cnt_def)

section \<open>The buffer of the server\<close>

lemma pre_step_sys:
  assumes "pre_step e s s'" "0 < length (pcs (sys s))"
  shows "sbuf_step (sys s) (sys s') \<or> sys s' = sys s"
  using assms
proof (induction rule: pre_step.induct)
  case (accept s connfd d)
  then show ?case using sbuf_step.start_insert [of 0 "sys s" connfd] by simp
next
  case (insert s k x b)
  then show ?case using sbuf_step.insert [of 0 "sys s" k x b] by simp
next
  case (want t s)
  then show ?case using sbuf_step.start_remove [of t "sys s"] by simp
next
  case (remove t s k b)
  then show ?case using sbuf_step.remove [of t "sys s" k b] by simp
qed (simp_all add: init_echo_cnt_def)

lemma pre_step_lengths:
  "pre_step e s s' \<Longrightarrow> length (pcs (sys s')) = length (pcs (sys s)) \<and> length (hands s') = length (hands s)"
  by (induction rule: pre_step.induct) (simp_all add: init_echo_cnt_def)

lemma pre_reach_sys: "pre_reach e s \<Longrightarrow> sbuf_reach SBUFSIZE (Suc NTHREADS) (sys s) \<and> length (pcs (sys s)) = Suc NTHREADS
    \<and> length (hands s) = Suc NTHREADS"
proof (induction rule: pre_reach.induct)
  case start
  then show ?case using sbuf_reach.start [of SBUFSIZE "Suc NTHREADS"] by (simp add: pre_start_def sbuf_start_def)
next
  case (step s s')
  then show ?case using pre_step_sys [OF step(2)] pre_step_lengths [OF step(2)] sbuf_reach.step by fastforce
qed

section \<open>One round of the echo loop\<close>

text \<open>A worker in its loop: what it has sent and what is still to come make up the client's input.\<close>

definition echo_ok :: "descr \<Rightarrow> rio_t \<Rightarrow> bool" where
  "echo_ok d rp \<longleftrightarrow> rio_inv rp \<and> clean (rio_fd rp) \<and> outgoing (rio_fd rp) @ stream rp = incoming d"

lemma echo_ok_fresh: "clean d \<Longrightarrow> outgoing d = [] \<Longrightarrow> echo_ok d (rio_fresh d)"
  by (simp add: echo_ok_def rio_fresh_ok)

lemma echo_cnt_round_spec:
  assumes "echo_ok d rp"
  obtains (eof) rp1 where "echo_cnt_round e rp cnt = Ret (rp1, cnt, True)" "outgoing (rio_fd rp1) = incoming d"
      "outgoing (rio_fd rp) = incoming d"
  | (line) rp1 l where "echo_cnt_round e rp cnt = Ret (rp1, cnt + of_nat (length l), False)" "echo_ok d rp1"
      "outgoing (rio_fd rp1) = outgoing (rio_fd rp) @ l" "l \<noteq> []"
proof -
  have rp: "rio_inv rp" "clean (rio_fd rp)" "outgoing (rio_fd rp) @ stream rp = incoming d" using assms by (simp_all add: echo_ok_def)
  have m: "1 < MAXLINE" by simp
  show ?thesis
  proof (cases rule: Rio_readlineb_cases [OF rp(1,2) m, where errno = e])
    case (1 rp')
    then have "outgoing (rio_fd rp') = incoming d" using Rio_readlineb_outgoing [OF 1(1)] rp(3) by simp
    moreover have "echo_cnt_round e rp cnt = Ret (rp', cnt, True)" using 1(1) by (simp add: echo_cnt_round_def)
    ultimately show ?thesis using eof 1(2) rp(3) by simp
  next
    case (2 l rp')
    obtain f where f: "Rio_writen e l (rio_fd rp') = Ret f" "incoming f = incoming (rio_fd rp')"
      "outgoing f = outgoing (rio_fd rp') @ l" "clean f"
      by (rule Rio_writen_clean [OF 2(7)])
    let ?rp = "rp'\<lparr>rio_fd := f\<rparr>"
    have "stream ?rp = stream rp'" "rio_inv ?rp" using f(2) 2(6) by (simp_all add: stream_def unread_def rio_inv_def)
    then have "echo_ok d ?rp" "outgoing (rio_fd ?rp) = outgoing (rio_fd rp) @ l"
      using f Rio_readlineb_outgoing [OF 2(1)] rp(3) 2(3) by (simp_all add: echo_ok_def)
    moreover have "echo_cnt_round e rp cnt = Ret (?rp, cnt + of_nat (length l), False)"
      using 2(1,2) f(1) by (simp add: echo_cnt_round_def Let_def)
    ultimately show ?thesis using line 2(2) by blast
  qed
qed

lemma echo_cnt_round_line:
  assumes "echo_ok d rp" "echo_cnt_round e rp cnt = Ret (rp1, cnt1, False)"
  shows "echo_ok d rp1 \<and> (\<exists>l. cnt1 = cnt + of_nat (length l) \<and> outgoing (rio_fd rp1) = outgoing (rio_fd rp) @ l)"
  by (rule echo_cnt_round_spec [OF assms(1), of e cnt]) (use assms(2) in auto)

lemma echo_cnt_round_eof:
  assumes "echo_ok d rp" "echo_cnt_round e rp cnt = Ret (rp1, cnt1, True)"
  shows "outgoing (rio_fd rp1) = incoming d \<and> outgoing (rio_fd rp) = incoming d"
  by (rule echo_cnt_round_spec [OF assms(1), of e cnt]) (use assms(2) in auto)

section \<open>Invariant of the server\<close>

fun hand :: "work \<Rightarrow> int multiset" where
  "hand NoConn = {#}" | "hand (Conn c) = {#c#}" | "hand (Echoing c rp) = {#c#}"

fun sent :: "work \<Rightarrow> nat" where
  "sent (Echoing c rp) = length (outgoing (rio_fd rp))" | "sent _ = 0"

fun pend :: "thread_pc \<Rightarrow> int multiset" where
  "pend (Ins k x) = (if k \<le> 2 then {#x#} else {#})" | "pend _ = {#}"

text \<open>The descriptors on their way: about to be stored, in the buffer, and in the hands of a worker.\<close>

definition in_server :: "server \<Rightarrow> int multiset" where
  "in_server s = pend (pcs (sys s) ! 0) + mset (drop (length (fetched (sys s))) (stored (sys s))) + (\<Sum>t < length (hands s). hand (hands s ! t))"

definition bytes_sent :: "server \<Rightarrow> nat" where
  "bytes_sent s = sum_list (map (length \<circ> snd) (closed s)) + (\<Sum>t < length (hands s). sent (hands s ! t))"

definition conns_inv :: "server \<Rightarrow> bool" where
  "conns_inv s \<longleftrightarrow> finite (dom (fds s)) \<and> in_server s = mset_set (dom (fds s))
     \<and> mset (accepted s) = mset (map fst (closed s)) + image_mset (the \<circ> fds s) (mset_set (dom (fds s)))
     \<and> (\<forall>c d. fds s c = Some d \<longrightarrow> clean d \<and> outgoing d = [])"

definition worker_ok :: "(int \<rightharpoonup> descr) \<Rightarrow> bool \<Rightarrow> thread_pc \<Rightarrow> work \<Rightarrow> bool" where
  "worker_ok f init pc wk \<longleftrightarrow> (\<forall>k. pc = Rem k \<longrightarrow> k \<le> 2 \<longrightarrow> wk = NoConn)
     \<and> (\<forall>c rp. wk = Echoing c rp \<longrightarrow> init \<and> (\<exists>d. f c = Some d \<and> echo_ok d rp))"

definition hands_inv :: "server \<Rightarrow> bool" where
  "hands_inv s \<longleftrightarrow> (\<forall>t < length (hands s). worker_ok (fds s) (once s) (pcs (sys s) ! t) (hands s ! t))
     \<and> (\<forall>d out. (d, out) \<in> set (closed s) \<longrightarrow> out = incoming d)"

definition bytes_inv :: "server \<Rightarrow> bool" where
  "bytes_inv s \<longleftrightarrow> byte_cnt s = of_nat (bytes_sent s) \<and> (\<not> once s \<longrightarrow> bytes_sent s = 0)"

lemma echoing_ok:
  "hands_inv s \<Longrightarrow> t < length (hands s) \<Longrightarrow> hands s ! t = Echoing c rp \<Longrightarrow> once s \<and> (\<exists>d. fds s c = Some d \<and> echo_ok d rp)"
  by (auto simp: hands_inv_def worker_ok_def)

lemma removing_ok:
  "hands_inv s \<Longrightarrow> t < length (hands s) \<Longrightarrow> pcs (sys s) ! t = Rem k \<Longrightarrow> k \<le> 2 \<Longrightarrow> hands s ! t = NoConn"
  by (auto simp: hands_inv_def worker_ok_def)

lemma in_server_hand: "conns_inv s \<Longrightarrow> t < length (hands s) \<Longrightarrow> c \<in># hand (hands s ! t) \<Longrightarrow> \<exists>d. fds s c = Some d"
proof -
  assume "conns_inv s" and t: "t < length (hands s)" "c \<in># hand (hands s ! t)"
  then have i: "in_server s = mset_set (dom (fds s))" "finite (dom (fds s))" by (simp_all add: conns_inv_def)
  have "hand (hands s ! t) \<subseteq># (\<Sum>t < length (hands s). hand (hands s ! t))"
    using t(1) by (subst sum.remove [of _ t]) auto
  then have "c \<in># in_server s" using t(2) by (auto simp: in_server_def dest: mset_subset_eqD)
  then show ?thesis using i by auto
qed

text \<open>A descriptor is in the hands of one worker only.\<close>

lemma hands_distinct:
  assumes "conns_inv s" "t < length (hands s)" "u < length (hands s)" "t \<noteq> u" "c \<in># hand (hands s ! t)"
  shows "c \<notin># hand (hands s ! u)"
proof
  assume u: "c \<in># hand (hands s ! u)"
  have "hand (hands s ! t) + hand (hands s ! u) \<subseteq># (\<Sum>t < length (hands s). hand (hands s ! t))"
    using assms(2-4) by (subst sum.remove [of _ t], simp, simp, subst sum.remove [of _ u]) auto
  then have "count (hand (hands s ! t) + hand (hands s ! u)) c \<le> count (in_server s) c"
    by (auto simp: in_server_def subseteq_mset_def intro: trans_le_add2)
  moreover have "count (in_server s) c \<le> 1" using assms(1) by (simp add: conns_inv_def count_mset_set')
  ultimately show False using u assms(5) by (simp flip: count_greater_zero_iff)
qed

text \<open>What the actions do to the descriptors on their way.\<close>

lemma in_server_hands:
  "t < length (hands s) \<Longrightarrow> (\<Sum>u < length (hands s). hand ((hands s)[t := wk] ! u)) + hand (hands s ! t)
     = (\<Sum>u < length (hands s). hand (hands s ! u)) + hand wk"
  by (rule sum_threads_update)

lemma sent_hands:
  "t < length (hands s) \<Longrightarrow> (\<Sum>u < length (hands s). sent ((hands s)[t := wk] ! u)) + sent (hands s ! t)
     = (\<Sum>u < length (hands s). sent (hands s ! u)) + sent wk"
  by (rule sum_threads_update)

lemma open_add:
  assumes "conns_inv s" "fds s c = None" "clean d" "outgoing d = []" "in_server s' = add_mset c (in_server s)"
    "fds s' = (fds s)(c \<mapsto> d)" "accepted s' = accepted s @ [d]" "closed s' = closed s"
  shows "conns_inv s'"
proof -
  have "image_mset (the \<circ> (fds s)(c \<mapsto> d)) (mset_set (dom (fds s))) = image_mset (the \<circ> fds s) (mset_set (dom (fds s)))"
    using assms(1,2) by (intro image_mset_cong) (auto simp: conns_inv_def)
  moreover have "c \<notin> dom (fds s)" using assms(2) by auto
  ultimately show ?thesis using assms by (auto simp: conns_inv_def)
qed

lemma open_remove:
  assumes "conns_inv s" "fds s c = Some d" "in_server s = add_mset c (in_server s')"
    "fds s' = (fds s)(c := None)" "accepted s' = accepted s" "closed s' = closed s @ [(d, out)]"
  shows "conns_inv s'"
proof -
  have fin: "finite (dom (fds s))" "c \<in> dom (fds s)" using assms(1,2) by (auto simp: conns_inv_def)
  then have "mset_set (dom (fds s)) = add_mset c (mset_set (dom (fds s) - {c}))" by (simp add: mset_set.remove)
  moreover have "image_mset (the \<circ> (fds s)(c := None)) (mset_set (dom (fds s) - {c})) = image_mset (the \<circ> fds s) (mset_set (dom (fds s) - {c}))"
    using fin(1) by (intro image_mset_cong) auto
  ultimately show ?thesis using assms fin by (auto simp: conns_inv_def)
qed

lemma open_same:
  assumes "conns_inv s" "in_server s' = in_server s" "fds s' = fds s" "accepted s' = accepted s" "closed s' = closed s"
  shows "conns_inv s'"
  using assms by (simp add: conns_inv_def)

lemma conns_step:
  assumes "pre_step e s s'" and inv: "conns_inv s" "hands_inv s"
    and len: "length (pcs (sys s)) = length (hands s)" "0 < length (hands s)"
    and buf: "sem_inv SBUFSIZE (sys s)" "ring_inv SBUFSIZE (sys s)" "length (stored (sys s)) < 2 ^ 31"
  shows "conns_inv s'"
  using assms(1)
proof (cases rule: pre_step.cases)
  case (accept connfd d)
  then show ?thesis using len by (intro open_add [OF inv(1) accept(4-6)]) (auto simp: in_server_def)
next
  case (insert k x b)
  have "length (fetched (sys s)) \<le> length (stored (sys s))" if "k = 2"
    using room_to_store [OF buf(1), of 0] len insert(2) that by simp
  then show ?thesis using len insert by (intro open_same [OF inv(1)]) (auto simp: in_server_def)
next
  case (want t)
  then show ?thesis by (intro open_same [OF inv(1)]) (auto simp: in_server_def)
next
  case (remove t k b)
  have get: "length (fetched (sys s)) < length (stored (sys s))" "hands s ! t = NoConn"
    "removed_item (sp (sys s)) = stored (sys s) ! length (fetched (sys s))" if "k = 2"
  proof -
    show l: "length (fetched (sys s)) < length (stored (sys s))" using item_to_fetch [OF buf(1) remove(3)] remove(4) that by simp
    show "hands s ! t = NoConn" using removing_ok [OF inv(2), of t 2] remove len that by simp
    show "removed_item (sp (sys s)) = stored (sys s) ! length (fetched (sys s))"
      using fetch_statement(2) [OF buf(1,2) _ l buf(3)] by (simp add: SBUFSIZE_def)
  qed
  have "in_server s' = in_server s"
  proof (cases "k = 2")
    case True
    have "mset (drop (length (fetched (sys s))) (stored (sys s)))
        = add_mset (stored (sys s) ! length (fetched (sys s))) (mset (drop (Suc (length (fetched (sys s)))) (stored (sys s))))"
      using get(1) [OF True] by (simp flip: Cons_nth_drop_Suc)
    then show ?thesis
      using True remove get in_server_hands [of t s "Conn (removed_item (sp (sys s)))"] len by (simp add: in_server_def)
  qed (use remove in \<open>simp add: in_server_def\<close>)
  then show ?thesis using remove by (intro open_same [OF inv(1)]) simp_all
next
  case (serve t c d)
  have "in_server s' = in_server s"
    using serve len in_server_hands [of t s "Echoing c (rio_fresh d)"] by (simp add: in_server_def)
  then show ?thesis using serve by (intro open_same [OF inv(1)]) simp_all
next
  case (echo t c rp rp1 cnt)
  have "in_server s' = in_server s" using echo len in_server_hands [of t s "Echoing c rp1"] by (simp add: in_server_def)
  then show ?thesis using echo by (intro open_same [OF inv(1)]) simp_all
next
  case (close t c rp rp1 cnt d)
  have "in_server s = add_mset c (in_server s')" using close len in_server_hands [of t s NoConn] by (simp add: in_server_def)
  then show ?thesis using close by (intro open_remove [OF inv(1) close(5)]) simp_all
qed

lemma worker_ok_frame:
  "worker_ok f init pc wk \<Longrightarrow> (\<And>c. c \<in># hand wk \<Longrightarrow> f' c = f c) \<Longrightarrow> (init \<longrightarrow> init') \<Longrightarrow> worker_ok f' init' pc wk"
  by (cases wk) (auto simp: worker_ok_def)

lemma hands_invI:
  assumes "hands_inv s" and t: "t < length (hands s)" "length (pcs (sys s)) = length (hands s)"
    and upd: "hands s' = (hands s)[t := wk]" "pcs (sys s') = (pcs (sys s))[t := pc]" "worker_ok (fds s') (once s') pc wk"
    and frame: "\<And>u c. u < length (hands s) \<Longrightarrow> u \<noteq> t \<Longrightarrow> c \<in># hand (hands s ! u) \<Longrightarrow> fds s' c = fds s c"
    and rest: "once s \<longrightarrow> once s'" "\<And>d out. (d, out) \<in> set (closed s') \<Longrightarrow> (d, out) \<in> set (closed s) \<or> out = incoming d"
  shows "hands_inv s'"
proof -
  have "worker_ok (fds s') (once s') (pcs (sys s') ! u) (hands s' ! u)" if u: "u < length (hands s)" for u
  proof (cases "u = t")
    case True
    then show ?thesis using t upd by simp
  next
    case False
    have "worker_ok (fds s) (once s) (pcs (sys s) ! u) (hands s ! u)" using assms(1) u by (simp add: hands_inv_def)
    then have "worker_ok (fds s') (once s') (pcs (sys s) ! u) (hands s ! u)" using frame [OF u False] rest(1) by (rule worker_ok_frame)
    then show ?thesis using upd False by simp
  qed
  moreover have "out = incoming d" if "(d, out) \<in> set (closed s')" for d out
    using rest(2) [OF that] assms(1) unfolding hands_inv_def by blast
  ultimately show ?thesis using upd(1) by (simp add: hands_inv_def)
qed

lemma hands_step:
  assumes "pre_step e s s'" and inv: "conns_inv s" "hands_inv s"
    and len: "length (pcs (sys s)) = length (hands s)" "0 < length (hands s)"
  shows "hands_inv s'"
proof -
  note step = hands_invI [OF inv(2) _ len(1)]
  have ok: "worker_ok (fds s) (once s) (pcs (sys s) ! t) (hands s ! t)" if "t < length (pcs (sys s))" for t
    using inv(2) that len by (simp add: hands_inv_def)
  show ?thesis using assms(1)
  proof (cases rule: pre_step.cases)
    case (accept connfd d)
    have new: "c \<noteq> connfd" if "u < length (hands s)" "c \<in># hand (hands s ! u)" for u c
      using in_server_hand [OF inv(1) that] accept(4) by auto
    have "worker_ok (fds s') (once s') (pcs (sys s) ! 0) (hands s ! 0)"
      using new [of 0] len accept(1) by (intro worker_ok_frame [OF ok]) auto
    then have "worker_ok (fds s') (once s') (Ins 0 connfd) (hands s ! 0)" by (simp add: worker_ok_def)
    then show ?thesis using accept len new by (intro step [of 0 _ "hands s ! 0" "Ins 0 connfd"]) auto
  next
    case (insert k x b)
    then show ?thesis using len ok [of 0]
      by (intro step [of 0 _ "hands s ! 0" "if k < 4 then Ins (k + 1) x else Idle"]) (auto simp: worker_ok_def)
  next
    case (want t)
    moreover have "hands s = (hands s)[t := NoConn]" using want(5) by (metis list_update_id)
    ultimately show ?thesis using len by (intro step [of t _ NoConn "Rem 0"]) (auto simp: worker_ok_def)
  next
    case (remove t k b)
    have pc: "worker_ok (fds s) (once s) (Rem k) (hands s ! t)" using ok [of t] remove by simp
    let ?pc = "if k < 4 then Rem (k + 1) else Idle" and ?wk = "if k = 2 then Conn (removed_item (sp (sys s))) else hands s ! t"
    have "worker_ok (fds s) (once s) ?pc ?wk" using pc by (auto simp: worker_ok_def)
    then show ?thesis using remove len by (intro step [of t _ ?wk ?pc]) (auto simp: list_update_same_conv)
  next
    case (serve t c d)
    have "echo_ok d (rio_fresh d)" using inv(1) serve(5) echo_ok_fresh [of d] by (simp add: conns_inv_def)
    moreover have "pcs (sys s) = (pcs (sys s))[t := Idle]" using serve(3) by (metis list_update_id)
    ultimately show ?thesis using serve len
      by (intro step [of t _ "Echoing c (rio_fresh d)" Idle]) (auto simp: worker_ok_def)
  next
    case (echo t c rp rp1 cnt)
    have w: "worker_ok (fds s) (once s) (pcs (sys s) ! t) (Echoing c rp)" using ok [of t] echo by simp
    then obtain d where d: "fds s c = Some d" "echo_ok d rp" "once s" by (auto simp: worker_ok_def)
    then have "echo_ok d rp1" using echo_cnt_round_line [OF d(2) echo(4)] by simp
    then have "worker_ok (fds s) (once s) (pcs (sys s) ! t) (Echoing c rp1)" using w d by (auto simp: worker_ok_def)
    then show ?thesis using echo len by (intro step [of t _ "Echoing c rp1" "pcs (sys s) ! t"]) auto
  next
    case (close t c rp rp1 cnt d)
    have w: "worker_ok (fds s) (once s) (pcs (sys s) ! t) (Echoing c rp)" using ok [of t] close by simp
    then have "echo_ok d rp" using close(5) by (auto simp: worker_ok_def)
    then have "outgoing (rio_fd rp1) = incoming d"
      using echo_cnt_round_eof close(4) by blast
    moreover have "c' \<noteq> c" if "u < length (hands s)" "u \<noteq> t" "c' \<in># hand (hands s ! u)" for u c'
      using hands_distinct [OF inv(1), of t u c] that close len by auto
    moreover have "worker_ok f i (pcs (sys s) ! t) NoConn" for f i by (simp add: worker_ok_def)
    ultimately show ?thesis using close len by (intro step [of t _ NoConn "pcs (sys s) ! t"]) auto
  qed
qed

lemma bytes_step:
  assumes "pre_step e s s'" and conns: "conns_inv s" and inv: "hands_inv s" "bytes_inv s" and len: "length (pcs (sys s)) = length (hands s)"
  shows "bytes_inv s'"
  using assms(1)
proof (cases rule: pre_step.cases)
  case (remove t k b)
  have "hands s ! t = NoConn" if "k = 2" using removing_ok [OF inv(1), of t 2] remove len that by simp
  then have "bytes_sent s' = bytes_sent s"
    using remove len sent_hands [of t s "Conn (removed_item (sp (sys s)))"] by (auto simp: bytes_sent_def)
  then show ?thesis using inv(2) remove by (simp add: bytes_inv_def)
next
  case (serve t c d)
  have d: "outgoing d = []" using conns(1) serve(5) by (simp add: conns_inv_def)
  then have "bytes_sent s' = bytes_sent s"
    using serve len sent_hands [of t s "Echoing c (rio_fresh d)"] by (simp add: bytes_sent_def rio_fresh_ok)
  then show ?thesis using inv(2) serve(1) by (auto simp: bytes_inv_def init_echo_cnt_def)
next
  case (echo t c rp rp1 cnt)
  then obtain d where d: "echo_ok d rp" using echoing_ok [OF inv(1), of t c rp] len by auto
  then obtain l where l: "cnt = byte_cnt s + of_nat (length l)" "outgoing (rio_fd rp1) = outgoing (rio_fd rp) @ l"
    using echo_cnt_round_line [OF d echo(4)] by blast
  have o: "once s" using echoing_ok [OF inv(1), of t c rp] echo len by simp
  have "bytes_sent s' = bytes_sent s + length l"
    using echo len l(2) sent_hands [of t s "Echoing c rp1"] by (simp add: bytes_sent_def)
  then show ?thesis using inv(2) echo(1) l(1) o by (simp add: bytes_inv_def)
next
  case (close t c rp rp1 cnt d)
  have d: "echo_ok d rp" using echoing_ok [OF inv(1), of t c rp] close len by auto
  then have "outgoing (rio_fd rp1) = incoming d" "outgoing (rio_fd rp) = incoming d"
    using echo_cnt_round_eof [OF d close(4)] by simp_all
  then have "bytes_sent s' = bytes_sent s"
    using close len sent_hands [of t s NoConn] by (simp add: bytes_sent_def)
  then show ?thesis using inv(2) close(1) by (simp add: bytes_inv_def)
qed (use inv(2) in \<open>simp_all add: bytes_inv_def bytes_sent_def\<close>)

lemma server_inv:
  "pre_reach e s \<Longrightarrow> length (stored (sys s)) < 2 ^ 31 \<Longrightarrow> conns_inv s \<and> hands_inv s \<and> bytes_inv s"
proof (induction rule: pre_reach.induct)
  case start
  show ?case by (auto simp: pre_start_def conns_inv_def hands_inv_def bytes_inv_def in_server_def bytes_sent_def sbuf_start_def
        worker_ok_def simp del: replicate.simps)
next
  case (step s s')
  have sys: "sbuf_reach SBUFSIZE (Suc NTHREADS) (sys s)" and len: "length (pcs (sys s)) = length (hands s)" "0 < length (hands s)"
    using pre_reach_sys [OF step(1)] by simp_all
  have "0 < length (pcs (sys s))" using len by simp
  then have small: "length (stored (sys s)) < 2 ^ 31" using pre_step_sys [OF step(2)] stored_grows step(4) by fastforce
  have buf: "sem_inv SBUFSIZE (sys s)" "ring_inv SBUFSIZE (sys s)"
    using sem_inv_reach [OF sys] ring_inv_reach [OF sys] small by (simp_all add: SBUFSIZE_def)
  have "conns_inv s" "hands_inv s" "bytes_inv s" using step(3) small by simp_all
  then show ?case
    using conns_step [OF step(2) _ _ len buf small] hands_step [OF step(2) _ _ len] bytes_step [OF step(2) _ _ _ len(1)] by blast
qed

section \<open>Properties\<close>



end
