(* ===== verification/Mains.thy ===== *)
theory Mains
  imports Tiny Netconn Shell
begin

text \<open>
  The main programs around the transactions: the iterative servers \<open>tiny.c\<close> and \<open>echoserveri.c\<close>, the
  client \<open>echoclient.c\<close>, and the read loop of the shell.  A server is run against a list of clients; when the
  list ends it waits for another one.  Standard input is the list of bytes that are still to be read.
\<close>

section \<open>Iterative servers\<close>

text \<open>
  A client, with what the calls concerning it deliver, its connection, and what uninitialised
  variables contain when it is served.
\<close>

record client =
  accept_rc :: sysret
  name_rc :: int
  close_rc :: sysret
  conn :: descr
  stack :: uninit

text \<open>The loop of both servers; the result has the connections as they were closed.  \<open>None\<close>: the service does not return.\<close>

fun serve_clients :: "(client \<Rightarrow> descr outcome option) \<Rightarrow> client list \<Rightarrow> descr list \<Rightarrow> descr list outcome option" where
  "serve_clients service [] served = Some (Ret served)"
| "serve_clients service (c # cs) served = (case then_do (Accept (accept_rc c)) (\<lambda>_. Getnameinfo (name_rc c)) of
     Ret _ \<Rightarrow> (case service c of
         None \<Rightarrow> None
       | Some r \<Rightarrow> (case then_do r (\<lambda>fd. then_do (Close (close_rc c)) (\<lambda>_. Ret fd)) of
           Ret fd \<Rightarrow> serve_clients service cs (served @ [fd])
         | bad \<Rightarrow> Some (then_do bad (\<lambda>_. Undefined))))
   | bad \<Rightarrow> Some (then_do bad (\<lambda>_. Undefined)))"

datatype 'a run = Usage int | Serving 'a

text \<open>The wrapper around the \<open>open_listenfd\<close> of the tiny server.\<close>

definition Open_listenfd_tiny :: "'a netenv \<Rightarrow> 'a list \<Rightarrow> nat list \<Rightarrow> (int \<times> nat list) outcome" where
  "Open_listenfd_tiny env listp fds = then_do (open_listenfd_tiny env listp fds) (\<lambda>(rc, fds').
     if rc < 0 then unix_error ''Open_listenfd error'' (net_errno env) else Ret (rc, fds'))"

definition tiny_main ::
  "int \<Rightarrow> 'a netenv \<Rightarrow> 'a list \<Rightarrow> int \<Rightarrow> fs \<Rightarrow> (byte list \<Rightarrow> byte list \<Rightarrow> byte list) \<Rightarrow> client list \<Rightarrow> descr list run outcome option" where
  "tiny_main argc env listp e fs cgi clients = (if argc \<noteq> 2 then Some (Ret (Usage 1))
     else case Open_listenfd_tiny env listp [2, 1, 0] of
       Ret _ \<Rightarrow> map_option (\<lambda>r. then_do r (\<lambda>ds. Ret (Serving ds))) (serve_clients (\<lambda>c. doit e (stack c) fs cgi (conn c)) clients [])
     | bad \<Rightarrow> Some (then_do bad (\<lambda>_. Undefined)))"

definition echoserveri_main :: "int \<Rightarrow> 'a netenv \<Rightarrow> 'a list \<Rightarrow> int \<Rightarrow> client list \<Rightarrow> descr list run outcome option" where
  "echoserveri_main argc env listp e clients = (if argc \<noteq> 2 then Some (Ret (Usage 0))
     else case Open_listenfd env listp [2, 1, 0] of
       Ret _ \<Rightarrow> map_option (\<lambda>r. then_do r (\<lambda>ds. Ret (Serving ds)))
         (serve_clients (\<lambda>c. map_option (\<lambda>r. then_do r (\<lambda>(rp, log). Ret (rio_fd rp))) (echo e (conn c))) clients [])
     | bad \<Rightarrow> Some (then_do bad (\<lambda>_. Undefined)))"

section \<open>The echo client\<close>

text \<open>What \<open>fgets\<close> makes of the input: the string in the buffer, and the rest.\<close>

definition fgets_string :: "byte list \<Rightarrow> byte list" where
  "fgets_string inp = takeWhile (\<lambda>b. b \<noteq> NUL) (line_of (MAXLINE - 1) inp)"

definition fgets_rest :: "byte list \<Rightarrow> byte list" where
  "fgets_rest inp = drop (length (line_of (MAXLINE - 1) inp)) inp"

lemma fgets_rest_shorter: "inp \<noteq> [] \<Longrightarrow> length (fgets_rest inp) < length inp"
  by (cases inp) (simp_all add: fgets_rest_def numeral_eq_Suc)

text \<open>\<open>Rio_readlineb\<close> leaves the buffer alone at the end of the connection, so that the line of the user is printed.\<close>

function echoclient_loop :: "int \<Rightarrow> byte list \<Rightarrow> rio_t \<Rightarrow> byte list \<Rightarrow> (rio_t \<times> byte list) outcome" where
  "echoclient_loop e inp rio out = (if inp = [] then Ret (rio, out)
     else let buf = fgets_string inp in
       then_do (Rio_writen e buf (rio_fd rio)) (\<lambda>fd.
       then_do (Rio_readlineb e MAXLINE (rio\<lparr>rio_fd := fd\<rparr>)) (\<lambda>(n, bs, rio1).
         echoclient_loop e (fgets_rest inp) rio1 (out @ (if n = 0 then buf else cstr bs)))))"
  by pat_completeness auto

termination
  by (relation "measure (\<lambda>(e, inp, rio, out). length inp)") (simp_all add: fgets_rest_shorter)

declare echoclient_loop.simps [simp del]

definition echoclient_main :: "int \<Rightarrow> 'a netenv \<Rightarrow> 'a list \<Rightarrow> int \<Rightarrow> sysret \<Rightarrow> byte list \<Rightarrow> descr \<Rightarrow> byte list run outcome" where
  "echoclient_main argc env listp e closed inp server = (if argc \<noteq> 3 then Ret (Usage 0)
     else then_do (Open_clientfd env listp [2, 1, 0]) (\<lambda>_.
       then_do (echoclient_loop e inp (rio_fresh server) []) (\<lambda>(rio, out).
       then_do (Close closed) (\<lambda>_. Ret (Serving out)))))"

section \<open>The shell\<close>

text \<open>
  One turn of the loop: end of file is noticed when \<open>fgets\<close> reaches it, also after a line without a
  newline, which is not evaluated.  The shell goes on after a command of its own; the child of a \<open>fork\<close> does not return.
\<close>

definition at_eof :: "byte list \<Rightarrow> bool" where
  "at_eof inp \<longleftrightarrow> length (line_of (MAXLINE - 1) inp) < MAXLINE - 1 \<and> newline \<notin> set (line_of (MAXLINE - 1) inp)"

fun goes_on :: "action \<Rightarrow> bool" where
  "goes_on NoJob = True"
| "goes_on (Foreground pid argv) = True"
| "goes_on (Background pid argv cmdline) = True"
| "goes_on _ = False"

lemma at_eof_empty: "at_eof []"
  by (simp add: at_eof_def line_of_empty_iff numeral_eq_Suc)

function shell_main :: "(nat \<Rightarrow> sysret \<times> sysret \<times> sysret) \<Rightarrow> nat \<Rightarrow> byte list \<Rightarrow> action list outcome" where
  "shell_main sys k inp = (if at_eof inp then Ret []
     else case sys k of (forked, execd, waited) \<Rightarrow>
       then_do (eval forked execd waited (fgets_string inp)) (\<lambda>a.
         if goes_on a then then_do (shell_main sys (k + 1) (fgets_rest inp)) (\<lambda>as. Ret (a # as)) else Ret [a]))"
  by pat_completeness auto

termination
proof (relation "measure (\<lambda>(sys, k, inp). length inp)")
  fix sys :: "nat \<Rightarrow> sysret \<times> sysret \<times> sysret" and k inp
  assume "\<not> at_eof inp"
  then have "inp \<noteq> []" using at_eof_empty by blast
  then show "((sys, k + 1, fgets_rest inp), sys, k, inp) \<in> measure (\<lambda>(sys, k, inp). length inp)" by (simp add: fgets_rest_shorter)
qed simp

declare shell_main.simps [simp del]

section \<open>Properties of the servers\<close>

text \<open>
  What the loop relies on: for a client that behaves, the service returns and has sent a given reply.
  Then all clients are served, in order, each with its own reply; the first client for which the
  service does not return keeps all later ones waiting.
\<close>

definition calls_ok :: "client \<Rightarrow> bool" where
  "calls_ok c \<longleftrightarrow> 0 \<le> fst (accept_rc c) \<and> name_rc c = 0 \<and> 0 \<le> fst (close_rc c)"

lemma calls_ok_Ret: "calls_ok c \<Longrightarrow> then_do (Accept (accept_rc c)) (\<lambda>_. Getnameinfo (name_rc c)) = Ret ()"
  "calls_ok c \<Longrightarrow> Close (close_rc c) = Ret ()"
  by (auto simp: calls_ok_def Accept_def Getnameinfo_def Close_def split: prod.splits)

locale iterative_service =
  fixes service :: "client \<Rightarrow> descr outcome option" and good :: "client \<Rightarrow> bool" and reply :: "client \<Rightarrow> byte list"
  assumes replies: "good c \<Longrightarrow> \<exists>fd. service c = Some (Ret fd) \<and> outgoing fd = outgoing (conn c) @ reply c"
begin

lemma serves_all:
  assumes "list_all (\<lambda>c. calls_ok c \<and> good c) cs"
  shows "\<exists>ds. serve_clients service (cs @ rest) served = serve_clients service rest (served @ ds)
    \<and> map outgoing ds = map (\<lambda>c. outgoing (conn c) @ reply c) cs"
  using assms
proof (induction cs arbitrary: served)
  case (Cons c cs)
  obtain fd where fd: "service c = Some (Ret fd)" "outgoing fd = outgoing (conn c) @ reply c" using replies Cons.prems by auto
  have "serve_clients service ((c # cs) @ rest) served = serve_clients service (cs @ rest) (served @ [fd])"
    using fd(1) calls_ok_Ret [of c] Cons.prems by simp
  moreover obtain ds where "serve_clients service (cs @ rest) (served @ [fd]) = serve_clients service rest ((served @ [fd]) @ ds)"
    "map outgoing ds = map (\<lambda>c. outgoing (conn c) @ reply c) cs"
    using Cons.IH [of "served @ [fd]"] Cons.prems by auto
  ultimately show ?case using fd(2) by (intro exI [of _ "fd # ds"]) simp
qed (auto intro: exI [of _ "[]"])

lemma waits_for_ever:
  assumes "list_all (\<lambda>c. calls_ok c \<and> good c) cs" "calls_ok c" "service c = None"
  shows "serve_clients service (cs @ c # rest) served = None"
  using serves_all [OF assms(1), of "c # rest" served] assms(2,3) calls_ok_Ret [of c] by auto

end

interpretation echo_service: iterative_service "\<lambda>c. map_option (\<lambda>r. then_do r (\<lambda>(rp, log). Ret (rio_fd rp))) (echo e (conn c))"
    "\<lambda>c. clean (conn c)" "\<lambda>c. incoming (conn c)" for e
proof
  fix c
  assume "clean (conn c)"
  then show "\<exists>fd. map_option (\<lambda>r. then_do r (\<lambda>(rp, log). Ret (rio_fd rp))) (echo e (conn c)) = Some (Ret fd)
      \<and> outgoing fd = outgoing (conn c) @ incoming (conn c)"
    using echo_loop_spec [of "rio_fresh (conn c)" e "[]"] by (auto simp: echo_def rio_fresh_ok)
qed

text \<open>A request for which the tiny server has a response: a file name, or an argument of a program.\<close>

definition tiny_request :: "fs \<Rightarrow> client \<Rightarrow> bool \<times> byte list \<times> byte list \<Rightarrow> bool" where
  "tiny_request fs c parsed \<longleftrightarrow> (\<exists>reqline hdrs rest meth uri version. clean (conn c)
     \<and> incoming (conn c) = reqline @ concat hdrs @ CRLF @ rest \<and> text_line reqline \<and> list_all (\<lambda>h. text_line h \<and> h \<noteq> CRLF) hdrs
     \<and> scan_request reqline (u_words (stack c)) = (meth, uri, version) \<and> strcasecmp_eq meth (str ''GET'')
     \<and> parse_uri uri = Ret parsed \<and> length (fst (snd parsed)) < 8000 \<and> cstr (u_hdrbuf (stack c)) \<noteq> CRLF
     \<and> (\<forall>f. fs (fst (snd parsed)) = Some f \<longrightarrow> fst parsed \<longrightarrow> content f \<noteq> [] \<and> length (content f) < 2 ^ 31))"

definition tiny_parsed :: "fs \<Rightarrow> client \<Rightarrow> bool \<times> byte list \<times> byte list" where
  "tiny_parsed fs c = (case scan_request (cstr (line_of (MAXLINE - 1) (incoming (conn c)))) (u_words (stack c)) of
     (meth, uri, version) \<Rightarrow> (case parse_uri uri of Ret parsed \<Rightarrow> parsed | _ \<Rightarrow> (False, [], [])))"

lemma tiny_parsed_request: "tiny_request fs c parsed \<Longrightarrow> tiny_parsed fs c = parsed"
  unfolding tiny_request_def tiny_parsed_def using line_of_text_line cstr_text_line by fastforce

interpretation tiny_service: iterative_service "\<lambda>c. doit e (stack c) fs cgi (conn c)" "\<lambda>c. tiny_request fs c (tiny_parsed fs c)"
    "\<lambda>c. case tiny_parsed fs c of (st, filename, cgiargs) \<Rightarrow> response fs cgi st filename cgiargs" for e fs cgi
proof
  fix c
  obtain st filename cgiargs where p: "tiny_parsed fs c = (st, filename, cgiargs)" by (cases "tiny_parsed fs c")
  assume "tiny_request fs c (tiny_parsed fs c)"
  then obtain reqline hdrs rest meth uri version where r: "clean (conn c)" "incoming (conn c) = reqline @ concat hdrs @ CRLF @ rest"
    "text_line reqline" "list_all (\<lambda>h. text_line h \<and> h \<noteq> CRLF) hdrs" "scan_request reqline (u_words (stack c)) = (meth, uri, version)"
    "strcasecmp_eq meth (str ''GET'')" "parse_uri uri = Ret (st, filename, cgiargs)" "length filename < 8000" "cstr (u_hdrbuf (stack c)) \<noteq> CRLF"
    and f: "\<forall>f. fs filename = Some f \<longrightarrow> st \<longrightarrow> content f \<noteq> [] \<and> length (content f) < 2 ^ 31"
    unfolding p tiny_request_def fst_conv snd_conv by blast
  have "\<exists>fd. doit e (stack c) fs cgi (conn c) = Some (Ret fd) \<and> outgoing fd = outgoing (conn c) @ response fs cgi st filename cgiargs"
    by (rule doit_response [OF r]) (use f in blast)
  then show "\<exists>fd. doit e (stack c) fs cgi (conn c) = Some (Ret fd)
      \<and> outgoing fd = outgoing (conn c) @ (case tiny_parsed fs c of (st, filename, cgiargs) \<Rightarrow> response fs cgi st filename cgiargs)"
    unfolding p by simp
qed

text \<open>A GET request whose headers are not ended by an empty line.\<close>

definition unfinished :: "client \<Rightarrow> bool" where
  "unfinished c \<longleftrightarrow> (\<exists>reqline rest meth uri version. clean (conn c) \<and> incoming (conn c) = reqline @ rest \<and> text_line reqline
     \<and> scan_request reqline (u_words (stack c)) = (meth, uri, version) \<and> strcasecmp_eq meth (str ''GET'')
     \<and> cstr (u_hdrbuf (stack c)) \<noteq> CRLF \<and> (\<forall>l \<in> set (lines_of (MAXLINE - 1) rest). cstr l \<noteq> CRLF))"

lemma doit_unfinished:
  assumes "unfinished c"
  shows "doit e (stack c) fs cgi (conn c) = None"
proof -
  obtain reqline rest meth uri version where c: "clean (conn c)" "incoming (conn c) = reqline @ rest" "text_line reqline"
    "scan_request reqline (u_words (stack c)) = (meth, uri, version)" "strcasecmp_eq meth (str ''GET'')"
    "cstr (u_hdrbuf (stack c)) \<noteq> CRLF" "\<forall>l \<in> set (lines_of (MAXLINE - 1) rest). cstr l \<noteq> CRLF" using assms by (auto simp: unfinished_def)
  obtain rp where rp: "Rio_readlineb e MAXLINE (rio_fresh (conn c)) = Ret (int (length reqline), reqline, rp)"
    "stream rp = rest" "rio_inv rp" "clean (rio_fd rp)"
    by (rule Rio_readlineb_line [where rp = "rio_fresh (conn c)" and l = reqline and e = e]) (use c in \<open>auto simp: rio_fresh_ok\<close>)
  have "read_requesthdrs e (u_hdrbuf (stack c)) rp = None"
    unfolding read_requesthdrs_loop [OF c(6)] using read_hdrs_loop_returns [OF _ rp(3,4) c(6)] c(7) rp(2) by fastforce
  then show ?thesis using rp(1) c(3-5) cstr_text_line [OF c(3)] by (simp add: doit_def text_line_def)
qed


definition demo_env :: "int netenv" where
  "demo_env = \<lparr>gai_rc = 0, socket_ok = \<lambda>_. True, sockopt_ok = \<lambda>_. True, connect_ok = \<lambda>_. True, bind_ok = \<lambda>_. True,
     listen_ok = \<lambda>_. True, close_ok = \<lambda>_. True, net_errno = 0\<rparr>"

definition demo_client :: "byte list \<Rightarrow> client" where
  "demo_client bs = \<lparr>accept_rc = (4, 0), name_rc = 0, close_rc = (0, 0), conn = \<lparr>incoming = bs, outgoing = [], events = [Intr, Short 0]\<rparr>,
     stack = \<lparr>u_words = ([], [], []), u_hdrbuf = []\<rparr>\<rparr>"


text \<open>
  Echo service. The iterative echo server sends back to every client what it has sent, one client after the other.
\<close>

theorem echoserveri_main_serves:
  assumes "Open_listenfd env listp [2, 1, 0] = Ret lfd" "list_all (\<lambda>c. calls_ok c \<and> clean (conn c)) cs"
  shows "\<exists>ds. echoserveri_main 2 env listp e cs = Some (Ret (Serving ds)) \<and> map outgoing ds = map (\<lambda>c. outgoing (conn c) @ incoming (conn c)) cs"
  using echo_service.serves_all [OF assms(2), of e "[]" "[]"] assms(1) by (auto simp: echoserveri_main_def)

section \<open>Properties of the client and of the shell\<close>

lemma fgets_split: "line_of (MAXLINE - 1) inp @ fgets_rest inp = inp"
  using line_of_prefix [of inp "MAXLINE - 1"] by (simp add: fgets_rest_def)

lemma fgets_string_text: "NUL \<notin> set inp \<Longrightarrow> fgets_string inp = line_of (MAXLINE - 1) inp"
proof -
  assume "NUL \<notin> set inp"
  then have "NUL \<notin> set (line_of (MAXLINE - 1) inp)" by (metis UnCI fgets_split set_append)
  then show ?thesis by (auto simp: fgets_string_def takeWhile_eq_all_conv)
qed

lemma echoclient_loop_prints:
  assumes "rio_inv rio" "clean (rio_fd rio)" "stream rio = inp" "NUL \<notin> set inp"
  shows "\<exists>rio'. echoclient_loop e inp rio out = Ret (rio', out @ inp) \<and> outgoing (rio_fd rio') = outgoing (rio_fd rio) @ inp"
  using assms
proof (induction "length inp" arbitrary: inp rio out rule: less_induct)
  case less
  have m: "1 < MAXLINE" by simp
  show ?case
  proof (cases "inp = []")
    case True
    then show ?thesis by (subst echoclient_loop.simps) simp
  next
    case False
    let ?l = "line_of (MAXLINE - 1) inp"
    obtain f where f: "Rio_writen e ?l (rio_fd rio) = Ret f" "incoming f = incoming (rio_fd rio)" "outgoing f = outgoing (rio_fd rio) @ ?l" "clean f"
      by (rule Rio_writen_clean [OF less.prems(2)])
    let ?rio = "rio\<lparr>rio_fd := f\<rparr>"
    have st: "stream ?rio = inp" "rio_inv ?rio" "clean (rio_fd ?rio)"
      using f(2,4) less.prems(1,3) by (simp_all add: stream_def unread_def rio_inv_def)
    show ?thesis
    proof (cases rule: Rio_readlineb_cases [OF st(2,3) m, where errno = e])
      case (1 rp')
      then show ?thesis using st(1) False by simp
    next
      case (2 l rp')
      have l: "l = ?l" "inp = ?l @ stream rp'" using 2(3,5) st(1) by simp_all
      have rest: "stream rp' = fgets_rest inp" using l(2) fgets_split [of inp] by (metis same_append_eq)
      have nul: "NUL \<notin> set ?l" "NUL \<notin> set (fgets_rest inp)" using less.prems(4) fgets_split [of inp] by (metis UnCI set_append)+
      have ol: "outgoing (rio_fd rp') = outgoing (rio_fd rio) @ ?l" using Rio_readlineb_outgoing [OF 2(1)] f(3) by simp
      have "cstr ?l = ?l" using nul(1) by (auto simp: cstr_def takeWhile_eq_all_conv)
      then have "echoclient_loop e inp rio out = echoclient_loop e (fgets_rest inp) rp' (out @ ?l)"
        using False fgets_string_text [OF less.prems(4)] f(1) 2(1,2) l(1) by (subst echoclient_loop.simps) simp
      moreover obtain rio' where "echoclient_loop e (fgets_rest inp) rp' (out @ ?l) = Ret (rio', (out @ ?l) @ fgets_rest inp)"
        "outgoing (rio_fd rio') = outgoing (rio_fd rp') @ fgets_rest inp"
        using less.hyps [OF fgets_rest_shorter [OF False] 2(6,7) rest nul(2), of "out @ ?l"] by blast
      ultimately show ?thesis using ol fgets_split [of inp] by (intro exI [of _ rio']) simp
    qed
  qed
qed

text \<open>
  Echo client. Connected to a server that sends back what it gets, the client sends its standard input and prints it
  unchanged, for text without NUL bytes; without three arguments it only prints its usage.
\<close>

theorem echoclient_main_prints:
  assumes "Open_clientfd env listp [2, 1, 0] = Ret cfd" "clean server" "incoming server = inp" "NUL \<notin> set inp" "0 \<le> fst closed"
  shows "echoclient_main 3 env listp e closed inp server = Ret (Serving inp) \<and> (argc \<noteq> 3 \<longrightarrow> echoclient_main argc env listp e closed inp server = Ret (Usage 0))"
proof -
  obtain rio' where "echoclient_loop e inp (rio_fresh server) [] = Ret (rio', inp)"
    using echoclient_loop_prints [of "rio_fresh server" inp e "[]"] assms(2-4) by (auto simp: rio_fresh_ok)
  then show ?thesis using assms(1,5) by (auto simp: echoclient_main_def Close_def split: prod.splits)
qed

text \<open>The commands of a list of lines, one after the other, until one ends the shell.\<close>

fun shell_lines :: "(nat \<Rightarrow> sysret \<times> sysret \<times> sysret) \<Rightarrow> nat \<Rightarrow> byte list list \<Rightarrow> action list outcome" where
  "shell_lines sys k [] = Ret []"
| "shell_lines sys k (l # ls) = (case sys k of (forked, execd, waited) \<Rightarrow>
     then_do (eval forked execd waited (l @ [newline])) (\<lambda>a.
       if goes_on a then then_do (shell_lines sys (k + 1) ls) (\<lambda>as. Ret (a # as)) else Ret [a]))"

lemma line_of_short: "newline \<notin> set t \<Longrightarrow> length t < k \<Longrightarrow> line_of k t = t"
proof (induction t arbitrary: k)
  case (Cons b t)
  then show ?case by (cases k) auto
next
  case Nil
  then show ?case by (cases k) auto
qed

text \<open>
  Equivalence. The shell evaluates the lines of its input in order, each exactly once, until a command ends it or
  the input ends; characters after the last newline are not evaluated.
\<close>

theorem shell_main_lines:
  assumes "list_all (\<lambda>l. newline \<notin> set l \<and> NUL \<notin> set l \<and> length l < MAXLINE - 1) ls" "newline \<notin> set t" "length t < MAXLINE - 1"
  shows "shell_main sys k (concat (map (\<lambda>l. l @ [newline]) ls) @ t) = shell_lines sys k ls"
  using assms(1)
proof (induction ls arbitrary: k)
  case Nil
  have "at_eof t" using line_of_short [OF assms(2,3)] assms(2,3) by (simp add: at_eof_def)
  then show ?case by (subst shell_main.simps) simp
next
  case (Cons l ls)
  let ?rest = "concat (map (\<lambda>l. l @ [newline]) ls) @ t"
  have l: "line_of (MAXLINE - 1) (l @ newline # ?rest) = l @ [newline]" "NUL \<notin> set l"
    using line_of_line [of l "MAXLINE - 1" ?rest] Cons.prems by simp_all
  have "takeWhile (\<lambda>b. b \<noteq> NUL) (l @ [newline]) = l @ [newline]" using l(2) by (auto simp: takeWhile_eq_all_conv)
  then have f: "fgets_string (l @ newline # ?rest) = l @ [newline]" "fgets_rest (l @ newline # ?rest) = ?rest" "\<not> at_eof (l @ newline # ?rest)"
    using l(1) by (simp_all add: fgets_string_def fgets_rest_def at_eof_def)
  have ih: "shell_main sys (k + 1) ?rest = shell_lines sys (k + 1) ls" using Cons by simp
  have "shell_main sys k (l @ newline # ?rest) = shell_lines sys k (l # ls)"
    unfolding shell_main.simps [of sys k "l @ newline # ?rest"] f(1,2) ih shell_lines.simps using f(3) by simp
  then show ?case by simp
qed

theorem shell_main_lines_witness:
  "shell_main (\<lambda>k. ((7 + int k, 0), (0, 0), (0, 0))) 0 ([108, 115, 10] @ [108, 115, 32, 38, 10] @ [113, 117, 105, 116, 10] @ [108, 115, 10])
   = Ret [Foreground 7 [[108, 115]], Background 8 [[108, 115]] [108, 115, 32, 38, 10], LeaveShell]"
proof -
  have "shell_lines (\<lambda>k. ((7 + int k, 0), (0, 0), (0, 0))) 0 [[108, 115], [108, 115, 32, 38], [113, 117, 105, 116], [108, 115]]
      = Ret [Foreground 7 [[108, 115]], Background 8 [[108, 115]] [108, 115, 32, 38, 10], LeaveShell]" by code_simp
  then show ?thesis
    using shell_main_lines [of "[[108, 115], [108, 115, 32, 38], [113, 117, 105, 116], [108, 115]]" "[]" "\<lambda>k. ((7 + int k, 0), (0, 0), (0, 0))" 0] by simp
qed

end
