(* ===== verification/Filmarrays.thy ===== *)
theory Filmarrays
  imports Films
begin

text \<open>
  The film programs of \<open>C_Primer_Plus/Data_Representation\<close> that keep the films in an array: \<open>films.c\<close>
  with a fixed array and \<open>films_malloc.c\<close> with an array of the size that the user enters.
\<close>

definition FMAX :: nat where "FMAX = 5"

text \<open>
  The loop that both programs share, with \<open>lim\<close> the size; \<open>movies\<close> is the array with whatever it contains.  A title is
  stored before it is tested.
\<close>

function (sequential) array_gather :: "int \<Rightarrow> item list \<Rightarrow> nat \<Rightarrow> byte list \<Rightarrow> (item list \<times> nat \<times> byte list) option" where
  "array_gather lim movies i inp = (if int i < lim then do {
       line \<leftarrow> s_gets TSIZE inp;
       case line of
         None \<Rightarrow> Some (movies, i, inp)
       | Some (t, inp1) \<Rightarrow> do {
           m \<leftarrow> rd movies (int i);
           movies1 \<leftarrow> wr movies (int i) (m\<lparr>title := t\<rparr>);
           if t = [] then Some (movies1, i, inp1)
           else do {
             (v, inp2) \<leftarrow> scan_int inp1;
             movies2 \<leftarrow> wr movies1 (int i) (m\<lparr>title := t, rating := (case v of None \<Rightarrow> rating m | Some x \<Rightarrow> x)\<rparr>);
             inp3 \<leftarrow> discard_line inp2;
             array_gather lim movies2 (i + 1) inp3 } } }
     else Some (movies, i, inp))"
  by pat_completeness auto

termination
  by (relation "measure (\<lambda>(lim, movies, i, inp). nat (lim - int i))") auto

declare array_gather.simps [simp del]

text \<open>The output after the loop.\<close>

definition array_show :: "item list \<Rightarrow> nat \<Rightarrow> out_line list" where
  "array_show movies i = (if i = 0 then [NoData] else [Heading]) @ map (\<lambda>j. Movie (movies ! j)) [0..<i] @ [Bye]"

definition films_array_main :: "item list \<Rightarrow> byte list \<Rightarrow> out_line list option" where
  "films_array_main movies inp = do {
     (movies1, i, inp1) \<leftarrow> array_gather (int FMAX) movies 0 inp;
     Some (array_show movies1 i) }"

text \<open>
  \<open>memory n\<close> is the block that \<open>malloc\<close> delivers for \<open>n\<close> records, or the empty list when it returns the null
  pointer, as it does for a negative \<open>n\<close>, which is a huge number of bytes.
\<close>

definition films_malloc_main :: "(int \<Rightarrow> item list) \<Rightarrow> byte list \<Rightarrow> out_line list option" where
  "films_malloc_main memory inp = do {
     (v, inp1) \<leftarrow> scan_int inp;
     let n = (case v of None \<Rightarrow> 0 | Some x \<Rightarrow> x);
     let inp2 = tl inp1;
     (movies1, i, inp3) \<leftarrow> array_gather n (memory n) 0 inp2;
     Some (array_show movies1 i) }"

section \<open>Properties\<close>

lemma array_gather_films:
  assumes "list_all entry_ok es" "int i \<le> lim" "lim \<le> int (length movies)"
  shows "\<exists>movies' rest. array_gather lim movies i (typed es @ newline # r) = Some (movies', i + min (nat lim - i) (length es), rest)
    \<and> take (i + min (nat lim - i) (length es)) movies' = take i movies @ map film_of (take (nat lim - i) es) \<and> length movies' = length movies"
  using assms
proof (induction es arbitrary: i movies)
  case Nil
  have s: "s_gets TSIZE (newline # r) = Some (Some ([], r))" using s_gets_line [of "[]" TSIZE r] by simp
  show ?case
  proof (cases "int i < lim")
    case True
    then have i: "i < length movies" using Nil.prems by simp
    then show ?thesis using True s rd_nat [OF i] wr_nat [OF i] by (subst array_gather.simps) (simp add: typed_def)
  next
    case False
    then show ?thesis by (subst array_gather.simps) (simp add: typed_def)
  qed
next
  case (Cons e es)
  have e: "entry_ok e" using Cons.prems(1) by simp
  show ?case
  proof (cases "int i < lim")
    case False
    then have "nat lim - i = 0" by simp
    then show ?thesis using False by (subst array_gather.simps) simp
  next
    case True
    then have i: "i < length movies" using Cons.prems by simp
    let ?m = "movies[i := film_of e]"
    have f: "(movies ! i)\<lparr>title := take 44 (fst e), rating := digits_value (snd e)\<rparr> = film_of e" by (simp add: film_of_def)
    have step: "array_gather lim movies i (typed (e # es) @ newline # r) = array_gather lim ?m (i + 1) (typed es @ newline # r)"
      unfolding typed_Cons using True entry_read [OF e] rd_nat [OF i] wr_nat [OF i] wr_nat [of i "movies[i := x]" for x] i
      by (subst array_gather.simps) (simp add: f)
    have "min (nat lim - i) (length (e # es)) = Suc (min (nat lim - (i + 1)) (length es))" using True by simp
    moreover have "take (nat lim - i) (e # es) = e # take (nat lim - (i + 1)) es" using True by (simp add: take_Cons' Suc_diff_Suc)
    moreover have "take (i + 1) ?m = take i movies @ [film_of e]" using i by (simp add: take_Suc_conv_app_nth)
    ultimately show ?thesis using Cons.IH [of "i + 1" ?m] Cons.prems True unfolding step by auto
  qed
qed

lemma array_show_films: "take n movies = map film_of es \<Longrightarrow> n = length es \<Longrightarrow> n \<le> length movies \<Longrightarrow>
    array_show movies n = (if es = [] then [NoData] else Heading # map (\<lambda>e. Movie (film_of e)) es) @ [Bye]"
proof -
  assume a: "take n movies = map film_of es" "n = length es" "n \<le> length movies"
  have "movies ! j = film_of (es ! j)" if "j < n" for j using a that by (metis nth_map nth_take)
  then have "map (\<lambda>j. Movie (movies ! j)) [0..<n] = map (\<lambda>e. Movie (film_of e)) es"
    using a(2) by (intro nth_equalityI) auto
  then show ?thesis using a(2) by (auto simp: array_show_def)
qed

text \<open>
  Films.c and films_malloc.c, functional. Both array programs end and print the films in the order of entry, as
  many as fit: at most five, or at most the number that the user has given, for which the block must have been allocated; a
  negative number stores nothing.
\<close>

theorem film_arrays_list:
  assumes "list_all entry_ok es" "length movies = FMAX" "list_all is_digit ds" "ds \<noteq> []" "digits_value ds < 2 ^ 31" "0 \<le> digits_value ds"
    "length (memory (digits_value ds)) = nat (digits_value ds)"
  shows "films_array_main movies (typed es @ newline # r)
      = Some ((if es = [] then [NoData] else Heading # map (\<lambda>e. Movie (film_of e)) (take FMAX es)) @ [Bye])
    \<and> films_malloc_main memory (ds @ newline # typed es @ newline # r)
      = Some ((if take (nat (digits_value ds)) es = [] then [NoData] else Heading # map (\<lambda>e. Movie (film_of e)) (take (nat (digits_value ds)) es)) @ [Bye])"
proof -
  have go: "\<exists>movies' rest. array_gather lim mv 0 (typed es @ newline # r) = Some (movies', length (take (nat lim) es), rest)
      \<and> array_show movies' (length (take (nat lim) es)) = (if take (nat lim) es = [] then [NoData] else Heading # map (\<lambda>e. Movie (film_of e)) (take (nat lim) es)) @ [Bye]"
    if lim: "0 \<le> lim" "length mv = nat lim" for lim mv
  proof -
    obtain mv' rest where g: "array_gather lim mv 0 (typed es @ newline # r) = Some (mv', min (nat lim) (length es), rest)"
      "take (min (nat lim) (length es)) mv' = map film_of (take (nat lim) es)" "length mv' = length mv"
      using array_gather_films [OF assms(1), of 0 lim mv r] lim by auto
    then show ?thesis using array_show_films [OF g(2)] lim(2) by (auto simp: min.commute)
  qed
  have "films_array_main movies (typed es @ newline # r)
      = Some ((if es = [] then [NoData] else Heading # map (\<lambda>e. Movie (film_of e)) (take FMAX es)) @ [Bye])"
    using go [of "int FMAX" movies] assms(2) by (auto simp: films_array_main_def FMAX_def)
  then show ?thesis
    using go [OF assms(6), of "memory (digits_value ds)"] assms(7) scan_digits [OF assms(4,3,5,6), of "typed es @ newline # r"]
    by (auto simp: films_malloc_main_def)
qed

end
