(* ===== verification/Sortbench.thy ===== *)
theory Sortbench
  imports Tqsort
begin

text \<open>
  The test program \<open>sortbench.c\<close> around the multi-threaded quicksort: options, generation of the data, the call of the sort, and the
  check of its result against the library sort.  \<open>ok\<close> says which calls of \<open>calloc\<close> succeed,
  \<open>rnd\<close> what \<open>random\<close> delivers; the elapsed time is left out.
\<close>

section \<open>Definitions\<close>

definition MAXCPY :: nat where "MAXCPY = 5"

text \<open>Why the program ends before its last line.\<close>

datatype bench_exit = TooManyCopies | CannotAllocate nat | DiffersFromLibrary nat | OutOfOrder nat | UsageShown | InvalidOption char

definition gen_data :: "(nat \<Rightarrow> bool) \<Rightarrow> (nat \<Rightarrow> data_t) \<Rightarrow> nat \<Rightarrow> nat \<Rightarrow> bench_exit + data_t list list" where
  "gen_data ok rnd ncpy nele = (if MAXCPY < ncpy then Inl TooManyCopies
     else if \<not> list_all ok [0..<ncpy] then Inl (CannotAllocate nele)
     else Inr (map (\<lambda>c. map rnd [0..<nele]) [0..<ncpy]))"

text \<open>The loop that compares the sorted data with the copy sorted by the library, from index \<open>i\<close> on.\<close>

function check_results :: "nat \<Rightarrow> data_t list \<Rightarrow> data_t list \<Rightarrow> nat \<Rightarrow> bench_exit option" where
  "check_results i data0 data2 nele = (if i < nele
     then if data0 ! i \<noteq> data2 ! i then Some (DiffersFromLibrary i)
       else if i < nele - 1 \<and> data0 ! (i + 1) < data0 ! i then Some (OutOfOrder i)
       else check_results (i + 1) data0 data2 nele
     else None)"
  by pat_completeness auto

termination
  by (relation "measure (\<lambda>(i, data0, data2, nele). nele - i)") auto

declare check_results.simps [simp del]

text \<open>
  \<open>run_test\<close>, for a sort function that gets the data and the scratch space; \<open>None\<close> is undefined behaviour of the sort
  functions.
\<close>

definition run_test ::
  "(data_t list \<Rightarrow> nat \<Rightarrow> data_t list \<Rightarrow> (data_t list \<times> data_t list) option) \<Rightarrow> (nat \<Rightarrow> bool) \<Rightarrow> (nat \<Rightarrow> data_t) \<Rightarrow> nat \<Rightarrow> bool
   \<Rightarrow> (bench_exit + data_t list) option" where
  "run_test sfun ok rnd nele check = (let ncpy = (if check then 3 else 2) in
     case gen_data ok rnd ncpy nele of
       Inl x \<Rightarrow> Some (Inl x)
     | Inr data \<Rightarrow> do {
         (data0, data1) \<leftarrow> sfun (data ! 0) nele (data ! 1);
         if check then do {
           data2 \<leftarrow> qsort_lib (data ! 2) 0 nele;
           Some (case check_results 0 data0 data2 nele of Some x \<Rightarrow> Inl x | None \<Rightarrow> Inr data0) }
         else Some (Inr data0) })"

text \<open>The options as \<open>getopt\<close> and the conversions of their arguments deliver them.\<close>

datatype bench_option = Opt_h | Opt_n nat | Opt_v int | Opt_f nat | Opt_F nat | Opt_l | Opt_c | Opt_other char

record bench =
  nele_opt :: nat
  check_opt :: bool
  verbose :: int
  tun :: tuning

definition bench_defaults :: bench where
  "bench_defaults = \<lparr>nele_opt = 2 ^ 20, check_opt = False, verbose = 0, tun = \<lparr>serial_sort_fraction = 32, serial_partition_fraction = 1,
     use_qsort_lib = False, nele_max_sort_serial = 0, nele_max_partition_serial = 0\<rparr>\<rparr>"

fun read_options :: "bench_option list \<Rightarrow> bench \<Rightarrow> bench_exit + bench" where
  "read_options [] b = Inr b"
| "read_options (Opt_h # os) b = Inl UsageShown"
| "read_options (Opt_n n # os) b = read_options os (b\<lparr>nele_opt := n\<rparr>)"
| "read_options (Opt_v v # os) b = read_options os (b\<lparr>verbose := v\<rparr>)"
| "read_options (Opt_f f # os) b = read_options os (b\<lparr>tun := (tun b)\<lparr>serial_sort_fraction := f\<rparr>\<rparr>)"
| "read_options (Opt_F f # os) b = read_options os (b\<lparr>tun := (tun b)\<lparr>serial_partition_fraction := f\<rparr>\<rparr>)"
| "read_options (Opt_l # os) b = read_options os (b\<lparr>tun := (tun b)\<lparr>use_qsort_lib := True\<rparr>\<rparr>)"
| "read_options (Opt_c # os) b = read_options os (b\<lparr>check_opt := True\<rparr>)"
| "read_options (Opt_other c # os) b = Inl (InvalidOption c)"

definition bench_main :: "(nat \<Rightarrow> bool) \<Rightarrow> (nat \<Rightarrow> data_t) \<Rightarrow> tq_sched \<Rightarrow> bench_option list \<Rightarrow> (bench_exit + data_t list) option" where
  "bench_main ok rnd es os = (case read_options os bench_defaults of
       Inl x \<Rightarrow> Some (Inl x)
     | Inr b \<Rightarrow> run_test (\<lambda>data nele scratch. map_option (\<lambda>s. (tq_base s, tq_scratch s)) (tqsort (tun b) es data 0 nele scratch 0))
         ok rnd (nele_opt b) (check_opt b))"

section \<open>Properties\<close>

text \<open>The check accepts a result if and only if it is sorted and equal to the result of the library.\<close>

lemma check_results_iff:
  assumes "nele \<le> length data0" "nele \<le> length data2"
  shows "check_results i data0 data2 nele = None \<longleftrightarrow>
    (\<forall>j. i \<le> j \<and> j < nele \<longrightarrow> data0 ! j = data2 ! j) \<and> (\<forall>j. i \<le> j \<and> Suc j < nele \<longrightarrow> data0 ! j \<le> data0 ! Suc j)"
proof (induction i data0 data2 nele rule: check_results.induct)
  case (1 i data0 data2 nele)
  show ?case
  proof (cases "i < nele")
    case False
    then show ?thesis by (subst check_results.simps) auto
  next
    case True
    have all: "(\<forall>j. i \<le> j \<and> P j \<longrightarrow> Q j) \<longleftrightarrow> (P i \<longrightarrow> Q i) \<and> (\<forall>j. i + 1 \<le> j \<and> P j \<longrightarrow> Q j)" for P Q
      by (metis Suc_eq_plus1 Suc_leD le_refl not_less_eq_eq order_antisym)
    show ?thesis
    proof (cases "data0 ! i \<noteq> data2 ! i \<or> i < nele - 1 \<and> data0 ! (i + 1) < data0 ! i")
      case bad: True
      then show ?thesis using True by (subst check_results.simps) (auto simp: not_le intro: exI [of _ i])
    next
      case False
      then show ?thesis using True 1 by (subst check_results.simps, subst (1 2) all) (auto simp: not_less)
    qed
  qed
qed

text \<open>The check accepts the sorted data.\<close>

lemma check_results_sorted: "sorted xs \<Longrightarrow> check_results 0 xs xs (length xs) = None"
  by (subst check_results_iff) (auto simp: sorted_iff_nth_Suc)

lemma sort_whole: "sort_range 0 (length a) a = sort a"
  by (simp add: sort_range_def blit_def seg_def)



end
