(* ===== verification/Procs.thy ===== *)
theory Procs
  imports Prelude
begin

text \<open>
  Processes: a kernel with a process table, for the programs of \<open>15-ecf-signals\<close> that call \<open>fork\<close>, \<open>exit\<close>,
  \<open>wait\<close>, \<open>kill\<close> and \<open>signal\<close>.  A program is a tree of system calls and visible effects whose
  branches are the values that a call returns.  The kernel executes one action of one process
  at a time, in an arbitrary order.  A signal is pending at most once; a pending signal that is
  not blocked is delivered before the next action of its process; the handler of a signal runs
  with that signal blocked.
\<close>

section \<open>Programs\<close>

type_synonym pid = nat

datatype signal = SIGINT | SIGCHLD

text \<open>What \<open>wait\<close> reports of a child.\<close>

datatype wstatus = Exited int | Signaled signal

datatype handler = Default | IntHandler | ChildHandler | ChildHandler2 | JobHandler

text \<open>
  \<open>Print\<close> has the format and the arguments.  \<open>SetC\<close>, \<open>DecC\<close> and \<open>SpinC\<close> work on the global
  variable \<open>ccount\<close>: an assignment, \<open>ccount--\<close>, and \<open>while (ccount > 0) ;\<close>.  \<open>Spin\<close> is \<open>while (1) ;\<close>
  and \<open>Return\<close> the end of a signal handler, \<open>Again\<close> the jump back to the start of the loop of the handler.
  \<open>Sigmask\<close> is \<open>sigprocmask\<close>: it has the new mask as a function of the old one, and continues with the old one.
  \<open>Wait\<close> and \<open>Waitpid\<close> continue with \<open>None\<close> when
  the process has no such child.
\<close>

datatype prog =
    Exit int
  | Print string "int list" prog
  | GetPid "pid \<Rightarrow> prog"
  | Fork "pid \<Rightarrow> prog"
  | Wait "(pid \<times> wstatus) option \<Rightarrow> prog"
  | Waitpid pid "(pid \<times> wstatus) option \<Rightarrow> prog"
  | Kill pid signal prog
  | Install signal handler prog
  | Sigmask "signal list \<Rightarrow> signal list" "signal list \<Rightarrow> prog"
  | Atexit prog
  | Sleep prog
  | SetC int prog
  | DecC prog
  | SpinC prog
  | Spin
  | Return
  | Again

section \<open>The kernel\<close>

record process =
  code :: prog
  parent :: pid
  handlers :: "signal \<Rightarrow> handler"
  pending :: "signal list"
  saved :: "(signal \<times> prog) list"
  blocked :: "signal list"
  ccount :: int
  cleanups :: nat

text \<open>
  \<open>saved\<close> has the signals whose handlers are running, with the interrupted code; these signals are
  blocked, and so are those of the mask \<open>blocked\<close>.
\<close>

datatype entry = Run process | Zombie pid wstatus

record kernel =
  table :: "pid \<rightharpoonup> entry"
  next_pid :: pid
  printed :: "(string \<times> int list) list"

text \<open>Process 1 is \<open>init\<close>, which is not in the table.\<close>

definition init_pid :: pid where "init_pid = 1"

definition set_entry :: "pid \<Rightarrow> entry \<Rightarrow> kernel \<Rightarrow> kernel" where
  "set_entry p x k = k\<lparr>table := (table k)(p \<mapsto> x)\<rparr>"

fun parent_of :: "entry \<Rightarrow> pid" where
  "parent_of (Run r) = parent r" | "parent_of (Zombie pp w) = pp"

definition is_child :: "pid \<Rightarrow> pid \<Rightarrow> kernel \<Rightarrow> bool" where
  "is_child p q k = (case table k q of None \<Rightarrow> False | Some x \<Rightarrow> parent_of x = p)"

text \<open>Process numbers are below \<open>next_pid\<close>.\<close>

definition has_children :: "pid \<Rightarrow> kernel \<Rightarrow> bool" where
  "has_children p k = list_ex (\<lambda>q. is_child p q k) [0..<next_pid k]"

text \<open>A signal becomes pending; signals that are ignored by default are dropped.\<close>

definition post :: "signal \<Rightarrow> process \<Rightarrow> process" where
  "post sig r = (if sig = SIGCHLD \<and> handlers r sig = Default \<or> sig \<in> set (pending r) then r else r\<lparr>pending := pending r @ [sig]\<rparr>)"

definition post_to :: "pid \<Rightarrow> signal \<Rightarrow> kernel \<Rightarrow> kernel" where
  "post_to p sig k = (case table k p of Some (Run r) \<Rightarrow> set_entry p (Run (post sig r)) k | _ \<Rightarrow> k)"

text \<open>The children of a process that ends become children of \<open>init\<close>, which reaps those that have ended.\<close>

definition reparent :: "pid \<Rightarrow> kernel \<Rightarrow> kernel" where
  "reparent p k = k\<lparr>table := (\<lambda>q. case table k q of
       Some (Run r) \<Rightarrow> Some (Run (if parent r = p then r\<lparr>parent := init_pid\<rparr> else r))
     | Some (Zombie pp w) \<Rightarrow> if pp = p then None else Some (Zombie pp w)
     | None \<Rightarrow> None)\<rparr>"

text \<open>The end of process \<open>p\<close>: its parent can learn of it, or \<open>init\<close> does.\<close>

definition terminate :: "pid \<Rightarrow> pid \<Rightarrow> wstatus \<Rightarrow> kernel \<Rightarrow> kernel" where
  "terminate p pp w k = (let k1 = reparent p k in
     case table k1 pp of
       Some (Run _) \<Rightarrow> post_to pp SIGCHLD (set_entry p (Zombie pp w) k1)
     | _ \<Rightarrow> k1\<lparr>table := (table k1)(p := None)\<rparr>)"

section \<open>Actions\<close>

text \<open>The handlers of \<open>forks.c\<close>, which continue with \<open>Return\<close> where they return.\<close>

definition int_handler :: prog where
  "int_handler = GetPid (\<lambda>p. Print ''Process %d received signal %d'' [int p, 2] (Exit 0))"

definition child_handler :: prog where
  "child_handler = Wait (\<lambda>r. case r of None \<Rightarrow> Print ''wait error'' [] (Exit 1)
     | Some (p, w) \<Rightarrow> DecC (Print ''Handler reaped child '' [int p] (Sleep Return)))"

text \<open>\<open>while ((pid = wait(NULL)) > 0)\<close>; when \<open>wait\<close> fails, \<open>errno\<close> is \<open>ECHILD\<close>.\<close>

definition child_handler2 :: prog where
  "child_handler2 = Wait (\<lambda>r. case r of None \<Rightarrow> Return
     | Some (p, w) \<Rightarrow> DecC (Print ''Handler reaped child '' [int p] Again))"

text \<open>
  The handler of \<open>procmask1.c\<close> and \<open>procmask2.c\<close>, which deletes the children from the job list with all signals blocked; the call
  of \<open>deletejob\<close> is visible as a line.
\<close>

definition job_handler :: prog where
  "job_handler = Wait (\<lambda>r. case r of None \<Rightarrow> Return
     | Some (p, w) \<Rightarrow> Sigmask (\<lambda>_. [SIGINT, SIGCHLD]) (\<lambda>prev_all. Print ''deletejob'' [int p] (Sigmask (\<lambda>_. prev_all) (\<lambda>_. Again))))"

fun handler_code :: "handler \<Rightarrow> prog" where
  "handler_code IntHandler = int_handler"
| "handler_code ChildHandler = child_handler"
| "handler_code ChildHandler2 = child_handler2"
| "handler_code JobHandler = job_handler"
| "handler_code Default = Return"

text \<open>
  The next action of the running process \<open>p\<close> with record \<open>r\<close>.  \<open>q\<close> is the child that \<open>wait\<close> reaps if
  it has ended; otherwise the process waits.
\<close>

definition continue :: "pid \<Rightarrow> process \<Rightarrow> prog \<Rightarrow> kernel \<Rightarrow> kernel" where
  "continue p r c k = set_entry p (Run (r\<lparr>code := c\<rparr>)) k"

definition reap :: "pid \<Rightarrow> process \<Rightarrow> pid \<Rightarrow> ((pid \<times> wstatus) option \<Rightarrow> prog) \<Rightarrow> kernel \<Rightarrow> kernel" where
  "reap p r q c k = (case table k q of
       Some (Zombie pp w) \<Rightarrow> if pp = p then continue p r (c (Some (q, w))) (k\<lparr>table := (table k)(q := None)\<rparr>) else k
     | _ \<Rightarrow> k)"

definition say :: "string \<Rightarrow> int list \<Rightarrow> kernel \<Rightarrow> kernel" where
  "say s xs k = k\<lparr>printed := printed k @ [(s, xs)]\<rparr>"

fun act :: "pid \<Rightarrow> pid \<Rightarrow> process \<Rightarrow> prog \<Rightarrow> kernel \<Rightarrow> kernel" where
  "act p q r (Exit n) k = terminate p (parent r) (Exited n) (k\<lparr>printed := printed k @ replicate (cleanups r) (''Cleaning up'', [])\<rparr>)"
| "act p q r (Print s xs c) k = continue p r c (say s xs k)"
| "act p q r (GetPid c) k = continue p r (c p) k"
| "act p q r (Fork c) k = (let n = next_pid k in
     set_entry n (Run (r\<lparr>code := c 0, parent := p, pending := []\<rparr>)) (continue p r (c n) (k\<lparr>next_pid := n + 1\<rparr>)))"
| "act p q r (Wait c) k = (if has_children p k then reap p r q c k else continue p r (c None) k)"
| "act p q r (Waitpid n c) k = (if is_child p n k then reap p r n c k else continue p r (c None) k)"
| "act p q r (Kill n sig c) k = post_to n sig (continue p r c k)"
| "act p q r (Install sig h c) k = continue p (r\<lparr>handlers := (handlers r)(sig := h)\<rparr>) c k"
| "act p q r (Sigmask f c) k = continue p (r\<lparr>blocked := f (blocked r)\<rparr>) (c (blocked r)) k"
| "act p q r (Atexit c) k = continue p (r\<lparr>cleanups := cleanups r + 1\<rparr>) c k"
| "act p q r (Sleep c) k = continue p r c k"
| "act p q r (SetC n c) k = continue p (r\<lparr>ccount := n\<rparr>) c k"
| "act p q r (DecC c) k = continue p (r\<lparr>ccount := ccount r - 1\<rparr>) c k"
| "act p q r (SpinC c) k = (if 0 < ccount r then k else continue p r c k)"
| "act p q r Spin k = k"
| "act p q r Return k = (case saved r of [] \<Rightarrow> k | (sig, c) # rest \<Rightarrow> continue p (r\<lparr>saved := rest\<rparr>) c k)"
| "act p q r Again k = (case saved r of [] \<Rightarrow> k | (sig, c) # _ \<Rightarrow> continue p r (handler_code (handlers r sig)) k)"

declare act.simps [simp del]

text \<open>The delivery of the first pending signal that is not blocked.\<close>

definition deliverable :: "process \<Rightarrow> signal list" where
  "deliverable r = filter (\<lambda>sig. sig \<notin> fst ` set (saved r) \<and> sig \<notin> set (blocked r)) (pending r)"

definition deliver :: "pid \<Rightarrow> process \<Rightarrow> signal \<Rightarrow> kernel \<Rightarrow> kernel" where
  "deliver p r sig k = (if handlers r sig = Default then terminate p (parent r) (Signaled sig) k
     else continue p (r\<lparr>pending := remove1 sig (pending r), saved := (sig, code r) # saved r\<rparr>) (handler_code (handlers r sig)) k)"

text \<open>One entry of a schedule: the process that runs, and the child that it would reap.\<close>

definition kstep :: "pid \<times> pid \<Rightarrow> kernel \<Rightarrow> kernel" where
  "kstep e k = (case e of (p, q) \<Rightarrow> (case table k p of
       Some (Run r) \<Rightarrow> (case deliverable r of sig # _ \<Rightarrow> deliver p r sig k | [] \<Rightarrow> act p q r (code r) k)
     | _ \<Rightarrow> k))"

definition krun :: "(pid \<times> pid) list \<Rightarrow> kernel \<Rightarrow> kernel" where
  "krun sched k = fold kstep sched k"

text \<open>A program started by process 1.\<close>

definition main_pid :: pid where "main_pid = 2"

definition boot :: "prog \<Rightarrow> kernel" where
  "boot c = \<lparr>table = [main_pid \<mapsto> Run \<lparr>code = c, parent = init_pid, handlers = (\<lambda>_. Default), pending = [], saved = [],
       blocked = [], ccount = 0, cleanups = 0\<rparr>], next_pid = main_pid + 1, printed = []\<rparr>"

text \<open>All processes have ended.\<close>

definition all_ended :: "kernel \<Rightarrow> bool" where
  "all_ended k = list_all (\<lambda>p. table k p = None) [0..<next_pid k]"

section \<open>Programs that only print, fork and exit\<close>

text \<open>
  \<open>writes f a c M n\<close>: the program \<open>c\<close>, with \<open>a\<close> registered exit functions, and all its descendants
  together print the lines \<open>M\<close>, up to \<open>f\<close>, in \<open>n\<close> actions, whatever the process numbers are.
\<close>

inductive writes :: "(string \<times> int list \<Rightarrow> 'a) \<Rightarrow> nat \<Rightarrow> prog \<Rightarrow> 'a multiset \<Rightarrow> nat \<Rightarrow> bool" for f where
  Exit: "writes f a (Exit n) (replicate_mset a (f (''Cleaning up'', []))) 1"
| Print: "writes f a c M n \<Longrightarrow> writes f a (Print s xs c) (add_mset (f (s, xs)) M) (Suc n)"
| GetPid: "(\<And>p. writes f a (c p) M n) \<Longrightarrow> writes f a (GetPid c) M (Suc n)"
| Fork: "writes f a (c 0) M0 n0 \<Longrightarrow> (\<And>p. 0 < p \<Longrightarrow> writes f a (c p) M n) \<Longrightarrow> writes f a (Fork c) (M0 + M) (Suc (n0 + n))"
| Sleep: "writes f a c M n \<Longrightarrow> writes f a (Sleep c) M (Suc n)"
| Atexit: "writes f (Suc a) c M n \<Longrightarrow> writes f a (Atexit c) M (Suc n)"

definition running :: "kernel \<Rightarrow> pid \<Rightarrow> bool" where
  "running k p = (case table k p of Some (Run r) \<Rightarrow> True | _ \<Rightarrow> False)"

text \<open>What the running processes have still to print, and in how many actions.\<close>

fun entry_ok :: "(string \<times> int list \<Rightarrow> 'a) \<Rightarrow> kernel \<Rightarrow> pid \<Rightarrow> entry option \<Rightarrow> 'a multiset \<Rightarrow> nat \<Rightarrow> bool" where
  "entry_ok f k p None M n \<longleftrightarrow> M = {#} \<and> n = 0"
| "entry_ok f k p (Some (Zombie pp w)) M n \<longleftrightarrow> running k pp \<and> p < next_pid k \<and> M = {#} \<and> n = 0"
| "entry_ok f k p (Some (Run r)) M n \<longleftrightarrow> init_pid < p \<and> p < next_pid k \<and> parent r \<noteq> p \<and> pending r = []
     \<and> handlers r = (\<lambda>_. Default) \<and> writes f (cleanups r) (code r) M n"

definition to_write :: "(string \<times> int list \<Rightarrow> 'a) \<Rightarrow> kernel \<Rightarrow> (pid \<Rightarrow> 'a multiset) \<Rightarrow> (pid \<Rightarrow> nat) \<Rightarrow> bool" where
  "to_write f k M n \<longleftrightarrow> init_pid < next_pid k \<and> (\<forall>p. entry_ok f k p (table k p) (M p) (n p))"

definition writes_inv :: "(string \<times> int list \<Rightarrow> 'a) \<Rightarrow> 'a multiset \<Rightarrow> nat \<Rightarrow> kernel \<Rightarrow> bool" where
  "writes_inv f T m k \<longleftrightarrow> (\<exists>M n. to_write f k M n
     \<and> image_mset f (mset (printed k)) + (\<Sum>p < next_pid k. M p) = T \<and> (\<Sum>p < next_pid k. n p) = m)"

lemma entry_cases [case_names None Run Zombie]:
  obtains "x = None" | r where "x = Some (Run r)" | pp w where "x = Some (Zombie pp w)"
proof (cases x)
  case (Some y)
  then show ?thesis using that by (cases y) auto
qed (use that in auto)

lemma writes_invI:
  "to_write f k M n \<Longrightarrow> image_mset f (mset (printed k)) + (\<Sum>p < next_pid k. M p) = T \<Longrightarrow> (\<Sum>p < next_pid k. n p) = m
   \<Longrightarrow> writes_inv f T m k"
  unfolding writes_inv_def by blast

lemma sum_fun_upd: "(p :: nat) < n \<Longrightarrow> (\<Sum>q < n. (M(p := x)) q) + M p = (\<Sum>q < n. M q) + (x :: 'a :: comm_monoid_add)"
  by (subst (1 2) sum.remove [of _ p]) (auto simp: ac_simps)

lemma to_write_run:
  assumes "to_write f k M n" "table k p = Some (Run r)"
  shows "init_pid < p \<and> p < next_pid k \<and> parent r \<noteq> p \<and> pending r = [] \<and> handlers r = (\<lambda>_. Default)
    \<and> writes f (cleanups r) (code r) (M p) (n p)"
proof -
  have "entry_ok f k p (table k p) (M p) (n p)" using assms(1) by (simp add: to_write_def)
  then show ?thesis using assms(2) by simp
qed

lemma to_write_fresh:
  assumes "to_write f k M n"
  shows "table k (next_pid k) = None \<and> M (next_pid k) = {#} \<and> n (next_pid k) = 0"
proof -
  have "entry_ok f k (next_pid k) (table k (next_pid k)) (M (next_pid k)) (n (next_pid k))" using assms by (simp add: to_write_def)
  then show ?thesis by (cases "(f, k, next_pid k, table k (next_pid k), M (next_pid k), n (next_pid k))" rule: entry_ok.cases) auto
qed

text \<open>The other processes do not mind what a process does, as long as the running ones keep running.\<close>

lemma entry_ok_mono:
  "entry_ok f k p x M n \<Longrightarrow> (\<And>q. running k q \<Longrightarrow> running k' q) \<Longrightarrow> next_pid k \<le> next_pid k' \<Longrightarrow> entry_ok f k' p x M n"
  by (cases "(f, k, p, x, M, n)" rule: entry_ok.cases) auto

text \<open>A process that goes on with other code, and may have printed something.\<close>

lemma writes_inv_continue:
  assumes w: "to_write f k M n" "table k p = Some (Run r)"
    and r': "writes f (cleanups r') (code r') M' n'" "parent r' = parent r" "pending r' = []" "handlers r' = (\<lambda>_. Default)"
    and k': "table k' = (table k)(p \<mapsto> Run r')" "next_pid k' = next_pid k" "mset (printed k') = mset (printed k) + L"
    and step: "M p = image_mset f L + M'" "n p = Suc n'"
    and sums: "image_mset f (mset (printed k)) + (\<Sum>p < next_pid k. M p) = T" "(\<Sum>p < next_pid k. n p) = Suc m"
  shows "writes_inv f T m k'"
proof (rule writes_invI)
  note r = to_write_run [OF w]
  then have p: "p < next_pid k" by simp
  have run: "running k u \<Longrightarrow> running k' u" for u using w(2) k'(1) by (auto simp: running_def)
  have "entry_ok f k' u (table k' u) ((M(p := M')) u) ((n(p := n')) u)" for u
  proof (cases "u = p")
    case True
    then show ?thesis using r r' k' by simp
  next
    case False
    have "entry_ok f k u (table k u) (M u) (n u)" using w(1) by (simp add: to_write_def)
    then have "entry_ok f k' u (table k u) (M u) (n u)" using run by (rule entry_ok_mono) (simp_all add: k')
    then show ?thesis using False k' by simp
  qed
  then show "to_write f k' (M(p := M')) (n(p := n'))" using w(1) k'(2) by (simp add: to_write_def)
  show "image_mset f (mset (printed k')) + (\<Sum>q < next_pid k'. (M(p := M')) q) = T"
    using sum_fun_upd [OF p, of M M'] k'(2,3) step(1) sums(1) by (auto simp: ac_simps)
  show "(\<Sum>q < next_pid k'. (n(p := n')) q) = m" using sum_fun_upd [OF p, of n n'] sums(2) step(2) k'(2) by simp
qed

lemma writes_inv_fork:
  assumes w: "to_write f k M n" "table k p = Some (Run r)" "code r = Fork c"
    and sums: "image_mset f (mset (printed k)) + (\<Sum>p < next_pid k. M p) = T" "(\<Sum>p < next_pid k. n p) = Suc m"
  shows "writes_inv f T m (act p q r (Fork c) k)"
proof -
  note r = to_write_run [OF w(1,2)]
  have "writes f (cleanups r) (Fork c) (M p) (n p)" using r w(3) by simp
  then obtain M0 n0 M1 n1 where c: "writes f (cleanups r) (c 0) M0 n0" "\<And>p. 0 < p \<Longrightarrow> writes f (cleanups r) (c p) M1 n1"
    "M p = M0 + M1" "n p = Suc (n0 + n1)" by cases auto
  let ?N = "next_pid k" and ?k = "act p q r (Fork c) k"
  let ?M = "M(p := M1, ?N := M0)" and ?n = "n(p := n1, ?N := n0)"
  have new: "table k ?N = None" "M ?N = {#}" "n ?N = 0" using to_write_fresh [OF w(1)] by simp_all
  have N: "init_pid < ?N" "0 < ?N" "p \<noteq> ?N" "p < ?N" using r w(1) by (auto simp: to_write_def)
  have t: "table ?k = (table k)(p \<mapsto> Run (r\<lparr>code := c ?N\<rparr>), ?N \<mapsto> Run (r\<lparr>code := c 0, parent := p, pending := []\<rparr>))"
    and np: "next_pid ?k = Suc ?N" and out: "printed ?k = printed k"
    by (simp_all add: act.simps Let_def continue_def set_entry_def)
  have run: "running k u \<Longrightarrow> running ?k u" for u unfolding running_def t by (auto split: option.splits entry.splits)
  have "entry_ok f ?k u (table ?k u) (?M u) (?n u)" for u
  proof (cases "u = p \<or> u = ?N")
    case True
    then show ?thesis using r c(1,2) N unfolding t by (auto simp: np)
  next
    case False
    have "entry_ok f k u (table k u) (M u) (n u)" using w(1) by (simp add: to_write_def)
    then have "entry_ok f ?k u (table k u) (M u) (n u)" using run by (rule entry_ok_mono) (simp_all add: np)
    then show ?thesis using False unfolding t by simp
  qed
  then have "to_write f ?k ?M ?n" using N(1) by (simp add: to_write_def np)
  moreover have "(\<Sum>u < Suc ?N. ?M u) = (\<Sum>u < ?N. (M(p := M1)) u) + M0" "(\<Sum>u < Suc ?N. ?n u) = (\<Sum>u < ?N. (n(p := n1)) u) + n0"
    by simp_all
  then have "image_mset f (mset (printed ?k)) + (\<Sum>u < next_pid ?k. ?M u) = T" "(\<Sum>u < next_pid ?k. ?n u) = m"
    using sums sum_fun_upd [OF N(4), of M M1] sum_fun_upd [OF N(4), of n n1] c(3,4) unfolding np out
    by (auto simp: ac_simps)
  ultimately show ?thesis by (rule writes_invI)
qed

text \<open>The table after a process has ended, when nobody handles signals.\<close>

lemma table_terminate:
  assumes "pp \<noteq> p" "\<And>q r. table k q = Some (Run r) \<Longrightarrow> handlers r = (\<lambda>_. Default)"
  shows "table (terminate p pp w k) q = (if q = p then (if running k pp then Some (Zombie pp w) else None)
      else case table k q of Some (Run r) \<Rightarrow> Some (Run (if parent r = p then r\<lparr>parent := init_pid\<rparr> else r))
        | Some (Zombie p' v) \<Rightarrow> if p' = p then None else Some (Zombie p' v) | None \<Rightarrow> None)"
  using assms by (auto simp: terminate_def reparent_def running_def post_to_def post_def set_entry_def Let_def split: option.splits entry.splits)

lemma terminate_simps [simp]: "next_pid (terminate p pp w k) = next_pid k" "printed (terminate p pp w k) = printed k"
  by (auto simp: terminate_def reparent_def post_to_def set_entry_def Let_def split: option.splits entry.splits)

lemma writes_inv_exit:
  assumes w: "to_write f k M n" "table k p = Some (Run r)" "code r = Exit e"
    and sums: "image_mset f (mset (printed k)) + (\<Sum>p < next_pid k. M p) = T" "(\<Sum>p < next_pid k. n p) = Suc m"
  shows "writes_inv f T m (act p q r (Exit e) k)"
proof (rule writes_invI)
  note r = to_write_run [OF w(1,2)]
  let ?L = "replicate (cleanups r) (''Cleaning up'', [])" and ?k = "act p q r (Exit e) k"
  let ?kp = "k\<lparr>printed := printed k @ ?L\<rparr>"
  have "writes f (cleanups r) (Exit e) (M p) (n p)" using r w(3) by simp
  then have mn: "M p = image_mset f (mset ?L)" "n p = 1" by (cases, simp)+
  have def: "handlers s = (\<lambda>_. Default)" if "table ?kp u = Some (Run s)" for u s using to_write_run [OF w(1)] that by simp
  have t: "table ?k u = (if u = p then (if running ?kp (parent r) then Some (Zombie (parent r) (Exited e)) else None)
      else case table k u of Some (Run s) \<Rightarrow> Some (Run (if parent s = p then s\<lparr>parent := init_pid\<rparr> else s))
        | Some (Zombie p' v) \<Rightarrow> if p' = p then None else Some (Zombie p' v) | None \<Rightarrow> None)" for u
    unfolding act.simps by (subst table_terminate) (use r def in auto)
  have run: "running ?k u = (u \<noteq> p \<and> running k u)" for u
    unfolding running_def t by (auto split: option.splits entry.splits)
  have np: "next_pid ?k = next_pid k" by (simp add: act.simps)
  have ini: "\<not> running k init_pid" using to_write_run [OF w(1), of init_pid] by (auto simp: running_def split: option.splits entry.splits)
  have "entry_ok f ?k u (table ?k u) ((M(p := {#})) u) ((n(p := 0)) u)" for u
  proof (cases "u = p")
    case True
    then show ?thesis using r run [of "parent r"] unfolding t by (auto simp: running_def np)
  next
    case False
    have ok: "entry_ok f k u (table k u) (M u) (n u)" using w(1) by (simp add: to_write_def)
    show ?thesis
    proof (cases "table k u" rule: entry_cases)
      case (Run s)
      then show ?thesis using False to_write_run [OF w(1), of u s] by (auto simp: t np)
    next
      case (Zombie pp v)
      then show ?thesis using False ok run [of pp] by (simp add: t np)
    qed (use False ok in \<open>simp add: t\<close>)
  qed
  then show "to_write f ?k (M(p := {#})) (n(p := 0))" using w(1) by (simp add: to_write_def act.simps)
  show "image_mset f (mset (printed ?k)) + (\<Sum>q < next_pid ?k. (M(p := {#})) q) = T"
    using sum_fun_upd [of p "next_pid k" M "{#}"] r mn(1) sums(1) by (auto simp: act.simps ac_simps)
  show "(\<Sum>q < next_pid ?k. (n(p := 0)) q) = m" using sum_fun_upd [of p "next_pid k" n 0] r mn(2) sums(2) by (simp add: act.simps)
qed

text \<open>Every action of a running process is one of the actions that are left.\<close>

lemma writes_step:
  assumes "writes_inv f T m k" "running k p"
  shows "0 < m \<and> writes_inv f T (m - 1) (kstep (p, q) k)"
proof -
  obtain M n where w: "to_write f k M n" and T: "image_mset f (mset (printed k)) + (\<Sum>p < next_pid k. M p) = T"
    and m: "(\<Sum>p < next_pid k. n p) = m" using assms(1) by (auto simp: writes_inv_def)
  obtain r where p: "table k p = Some (Run r)" using assms(2) by (auto simp: running_def split: option.splits entry.splits)
  note r = to_write_run [OF w p]
  then have wr: "writes f (cleanups r) (code r) (M p) (n p)" by simp
  have "0 < n p" using wr by cases auto
  moreover have "n p \<le> m" using r m by (metis finite_lessThan lessThan_iff member_le_sum zero_le)
  ultimately obtain m' where m': "m = Suc m'" by (cases m) auto
  have s: "kstep (p, q) k = act p q r (code r) k" using p r by (simp add: kstep_def deliverable_def)
  note go = writes_inv_continue [OF w p _ _ _ _ _ _ _ _ _ T m [unfolded m']]
  have "writes_inv f T m' (act p q r (code r) k)" using wr
  proof cases
    case (Exit e)
    then show ?thesis using writes_inv_exit [OF w p _ T m [unfolded m']] by simp
  next
    case (Print c M' n' s xs)
    then show ?thesis
      by (intro go [of "r\<lparr>code := c\<rparr>" M' n' _ "{#(s, xs)#}"]) (use r in \<open>simp_all add: act.simps continue_def set_entry_def say_def\<close>)
  next
    case (GetPid c n')
    then show ?thesis
      by (intro go [of "r\<lparr>code := c p\<rparr>" "M p" n' _ "{#}"]) (use r in \<open>simp_all add: act.simps continue_def set_entry_def\<close>)
  next
    case (Fork c M0 n0 M' n')
    then show ?thesis using writes_inv_fork [OF w p _ T m [unfolded m']] by simp
  next
    case (Sleep c n')
    then show ?thesis
      by (intro go [of "r\<lparr>code := c\<rparr>" "M p" n' _ "{#}"]) (use r in \<open>simp_all add: act.simps continue_def set_entry_def\<close>)
  next
    case (Atexit c n')
    then show ?thesis
      by (intro go [of "r\<lparr>cleanups := Suc (cleanups r), code := c\<rparr>" "M p" n' _ "{#}"]) (use r in \<open>simp_all add: act.simps continue_def set_entry_def\<close>)
  qed
  then show ?thesis using s m' by simp
qed

lemma kstep_idle: "\<not> running k p \<Longrightarrow> kstep (p, q) k = k"
  by (auto simp: kstep_def running_def split: option.splits entry.splits)

lemma krun_simps [simp]: "krun [] k = k" "krun (e # sched) k = krun sched (kstep e k)" "krun (xs @ ys) k = krun ys (krun xs k)"
  by (simp_all add: krun_def)

lemma writes_run: "writes_inv f T m k \<Longrightarrow> \<exists>m'. writes_inv f T m' (krun sched k)"
proof (induction sched arbitrary: k m)
  case (Cons e sched)
  obtain p q where e: "e = (p, q)" by (cases e)
  have "\<exists>m'. writes_inv f T m' (kstep e k)"
    using writes_step [OF Cons.prems, of p q] kstep_idle [of k p q] Cons.prems e by (cases "running k p") auto
  then show ?case using Cons.IH by auto
qed auto

lemma writes_ended:
  assumes "writes_inv f T m k" "\<And>p. \<not> running k p"
  shows "all_ended k \<and> image_mset f (mset (printed k)) = T"
proof -
  obtain M n where w: "to_write f k M n" and T: "image_mset f (mset (printed k)) + (\<Sum>p < next_pid k. M p) = T"
    using assms(1) by (auto simp: writes_inv_def)
  have "table k p = None \<and> M p = {#}" for p
  proof -
    have ok: "entry_ok f k p (table k p) (M p) (n p)" using w by (simp add: to_write_def)
    show ?thesis
    proof (cases "table k p")
      case (Some x)
      then show ?thesis using ok assms(2) [of p] assms(2) by (cases x) (auto simp: running_def)
    qed (use ok in simp)
  qed
  then show ?thesis using T by (simp add: all_ended_def list_all_iff)
qed

lemma ended_not_running: "writes_inv f T m k \<Longrightarrow> all_ended k \<Longrightarrow> \<not> running k p"
  using to_write_run by (fastforce simp: writes_inv_def all_ended_def list_all_iff running_def split: option.splits entry.splits)

lemma writes_finish: "writes_inv f T m k \<Longrightarrow> \<exists>rest. all_ended (krun rest k)"
proof (induction m arbitrary: k)
  case 0
  then have "\<not> running k p" for p using writes_step [OF 0, of p] by blast
  then show ?case using writes_ended [OF 0] by (intro exI [of _ "[]"]) simp
next
  case (Suc m)
  show ?case
  proof (cases "\<exists>p. running k p")
    case True
    then obtain p where "running k p" by blast
    then have "writes_inv f T m (kstep (p, 0) k)" using writes_step [OF Suc.prems, of p 0] by simp
    from Suc.IH [OF this] obtain rest where "all_ended (krun rest (kstep (p, 0) k))" by blast
    then show ?thesis by (intro exI [of _ "(p, 0) # rest"]) simp
  next
    case False
    then show ?thesis using writes_ended [OF Suc.prems] by (intro exI [of _ "[]"]) simp
  qed
qed

text \<open>
  A program of this kind, started by \<open>init\<close>: in every interleaving the lines printed so far are
  among those it writes, when all processes have ended exactly these have been printed, and
  they can always end.
\<close>

lemma writes_boot:
  assumes "writes f 0 c T m"
  shows "image_mset f (mset (printed (krun sched (boot c)))) \<subseteq># T
    \<and> (all_ended (krun sched (boot c)) \<longrightarrow> image_mset f (mset (printed (krun sched (boot c)))) = T)
    \<and> (\<exists>rest. all_ended (krun (sched @ rest) (boot c)))"
proof -
  have "to_write f (boot c) ((\<lambda>_. {#})(main_pid := T)) ((\<lambda>_. 0)(main_pid := m))"
    using assms by (auto simp: to_write_def boot_def main_pid_def init_pid_def)
  then have "writes_inv f T m (boot c)"
    by (rule writes_invI) (simp_all add: boot_def main_pid_def)
  from writes_run [OF this] obtain m' where w: "writes_inv f T m' (krun sched (boot c))" by blast
  then have "image_mset f (mset (printed (krun sched (boot c)))) \<subseteq># T" by (auto simp: writes_inv_def)
  then show ?thesis using writes_ended [OF w] ended_not_running [OF w] writes_finish [OF w] by auto
qed

end
