(* ===== verification/Forks.thy ===== *)
theory Forks
  imports Procs
begin

text \<open>
  The process-control examples of \<open>15-ecf-signals/forks.c\<close>.  Each function takes the code that follows
  its return.  The pids, the process group and the contents of uninitialised variables are
  whatever the system delivers.
\<close>

section \<open>The functions\<close>

definition fork0 :: "prog \<Rightarrow> prog" where
  "fork0 ret = Fork (\<lambda>pid. if pid = 0 then Print ''Hello from child'' [] ret else Print ''Hello from parent'' [] ret)"

definition fork1 :: "prog \<Rightarrow> prog" where
  "fork1 ret = (let x = 1; bye = (\<lambda>x. GetPid (\<lambda>p. Print ''Bye from process %d with x = %d'' [int p, x] ret)) in
     Fork (\<lambda>pid. if pid = 0 then let x = x + 1 in Print ''Child has x = %d'' [x] (bye x)
                 else let x = x - 1 in Print ''Parent has x = %d'' [x] (bye x)))"

definition fork2 :: "prog \<Rightarrow> prog" where
  "fork2 ret = Print ''L0'' [] (Fork (\<lambda>_. Print ''L1'' [] (Fork (\<lambda>_. Print ''Bye'' [] ret))))"

definition fork3 :: "prog \<Rightarrow> prog" where
  "fork3 ret = Print ''L0'' [] (Fork (\<lambda>_. Print ''L1'' [] (Fork (\<lambda>_. Print ''L2'' [] (Fork (\<lambda>_. Print ''Bye'' [] ret))))))"

definition fork4 :: "prog \<Rightarrow> prog" where
  "fork4 ret = (let bye = Print ''Bye'' [] ret in
     Print ''L0'' [] (Fork (\<lambda>pid. if pid \<noteq> 0 then Print ''L1'' [] (Fork (\<lambda>pid. if pid \<noteq> 0 then Print ''L2'' [] bye else bye)) else bye)))"

definition fork5 :: "prog \<Rightarrow> prog" where
  "fork5 ret = (let bye = Print ''Bye'' [] ret in
     Print ''L0'' [] (Fork (\<lambda>pid. if pid = 0 then Print ''L1'' [] (Fork (\<lambda>pid. if pid = 0 then Print ''L2'' [] bye else bye)) else bye)))"

text \<open>The function \<open>cleanup\<close> prints one line; \<open>exit\<close> calls it once for every registration.\<close>

definition fork6 :: "prog \<Rightarrow> prog" where
  "fork6 ret = Atexit (Fork (\<lambda>_. Exit 0))"

definition fork7 :: "prog \<Rightarrow> prog" where
  "fork7 ret = Fork (\<lambda>pid. if pid = 0 then GetPid (\<lambda>p. Print ''Terminating Child, PID = %d'' [int p] (Exit 0))
     else GetPid (\<lambda>p. Print ''Running Parent, PID = %d'' [int p] Spin))"

definition fork8 :: "prog \<Rightarrow> prog" where
  "fork8 ret = Fork (\<lambda>pid. if pid = 0 then GetPid (\<lambda>p. Print ''Running Child, PID = %d'' [int p] Spin)
     else GetPid (\<lambda>p. Print ''Terminating Parent, PID = %d'' [int p] (Exit 0)))"

definition fork9 :: "prog \<Rightarrow> prog" where
  "fork9 ret = Fork (\<lambda>pid. if pid = 0 then Print ''HC: hello from child'' [] (Exit 0)
     else Print ''HP: hello from parent'' [] (Wait (\<lambda>_. Print ''CT: child has terminated'' [] (Print ''Bye'' [] ret))))"

definition N :: nat where "N = 5"

text \<open>\<open>for (i = ...; i < N; i++) if ((pid[i] = fork()) == 0) child\<close>, for the remaining values of \<open>i\<close>.\<close>

fun fork_children :: "(nat \<Rightarrow> prog) \<Rightarrow> nat list \<Rightarrow> pid list \<Rightarrow> (pid list \<Rightarrow> prog) \<Rightarrow> prog" where
  "fork_children child [] pids c = c pids"
| "fork_children child (i # is) pids c = Fork (\<lambda>pid. if pid = 0 then child i else fork_children child is (pids @ [pid]) c)"

text \<open>The report on a child; \<open>wait\<close> returns \<open>-1\<close> and leaves \<open>child_status\<close> alone when there is none.\<close>

definition report :: "string \<Rightarrow> int \<Rightarrow> wstatus \<Rightarrow> prog \<Rightarrow> prog" where
  "report abnormal wpid child_status c = (case child_status of
       Exited n \<Rightarrow> Print ''Child %d terminated with exit status %d'' [wpid, n] c
     | Signaled _ \<Rightarrow> Print abnormal [wpid] c)"

fun wait_loop :: "string \<Rightarrow> nat \<Rightarrow> wstatus \<Rightarrow> prog \<Rightarrow> prog" where
  "wait_loop ab 0 st ret = ret"
| "wait_loop ab (Suc n) st ret = Wait (\<lambda>r. case r of
       Some (wpid, st1) \<Rightarrow> report ab (int wpid) st1 (wait_loop ab n st1 ret)
     | None \<Rightarrow> report ab (- 1) st (wait_loop ab n st ret))"

text \<open>\<open>for (i = N-1; i >= 0; i--)\<close> with the pids of the remaining children, the last first.\<close>

fun waitpid_loop :: "string \<Rightarrow> pid list \<Rightarrow> wstatus \<Rightarrow> prog \<Rightarrow> prog" where
  "waitpid_loop ab [] st ret = ret"
| "waitpid_loop ab (p # ps) st ret = Waitpid p (\<lambda>r. case r of
       Some (wpid, st1) \<Rightarrow> report ab (int wpid) st1 (waitpid_loop ab ps st1 ret)
     | None \<Rightarrow> report ab (- 1) st (waitpid_loop ab ps st ret))"

fun kill_loop :: "pid list \<Rightarrow> prog \<Rightarrow> prog" where
  "kill_loop [] c = c"
| "kill_loop (p # ps) c = Print ''Killing process %d'' [int p] (Kill p SIGINT (kill_loop ps c))"

definition fork10 :: "wstatus \<Rightarrow> prog \<Rightarrow> prog" where
  "fork10 u ret = fork_children (\<lambda>i. Exit (100 + int i)) [0..<N] [] (\<lambda>pids. wait_loop ''Child %d terminate abnormally'' N u ret)"

definition fork11 :: "wstatus \<Rightarrow> prog \<Rightarrow> prog" where
  "fork11 u ret = fork_children (\<lambda>i. Exit (100 + int i)) [0..<N] []
     (\<lambda>pids. waitpid_loop ''Child %d terminate abnormally'' (rev pids) u ret)"

definition fork12 :: "wstatus \<Rightarrow> prog \<Rightarrow> prog" where
  "fork12 u ret = fork_children (\<lambda>i. Spin) [0..<N] []
     (\<lambda>pids. kill_loop pids (wait_loop ''Child %d terminated abnormally'' N u ret))"

definition fork13 :: "wstatus \<Rightarrow> prog \<Rightarrow> prog" where
  "fork13 u ret = Install SIGINT IntHandler (fork_children (\<lambda>i. Spin) [0..<N] []
     (\<lambda>pids. kill_loop pids (wait_loop ''Child %d terminated abnormally'' N u ret)))"

definition fork14 :: "prog \<Rightarrow> prog" where
  "fork14 ret = SetC (int N) (Install SIGCHLD ChildHandler (fork_children (\<lambda>i. Sleep (Exit 0)) [0..<N] [] (\<lambda>pids. SpinC ret)))"

definition fork15 :: "prog \<Rightarrow> prog" where
  "fork15 ret = SetC (int N) (Install SIGCHLD ChildHandler2 (fork_children (\<lambda>i. Sleep (Exit 0)) [0..<N] [] (\<lambda>pids. SpinC ret)))"

definition fork16 :: "int \<Rightarrow> prog \<Rightarrow> prog" where
  "fork16 pgrp ret = Fork (\<lambda>pid. if pid = 0 then GetPid (\<lambda>p. Print ''Child1: pid=%d pgrp=%d'' [int p, pgrp]
       (Fork (\<lambda>pid. if pid = 0 then GetPid (\<lambda>p. Print ''Child2: pid=%d pgrp=%d'' [int p, pgrp] Spin) else Spin)))
     else ret)"

definition fork17 :: "int \<Rightarrow> prog \<Rightarrow> prog" where
  "fork17 pgrp ret = Fork (\<lambda>pid. if pid = 0 then GetPid (\<lambda>p. Print ''Child: pid=%d pgrp=%d'' [int p, pgrp] Spin)
     else GetPid (\<lambda>p. Print ''Parent: pid=%d pgrp=%d'' [int p, pgrp] Spin))"

text \<open>\<open>main\<close>, for the number that \<open>atoi\<close> delivers for the first argument, if there is one.\<close>

definition forks_main :: "wstatus \<Rightarrow> int \<Rightarrow> int option \<Rightarrow> prog" where
  "forks_main u pgrp arg = (let option = (case arg of None \<Rightarrow> 0 | Some n \<Rightarrow> n); ret = Exit 0 in
     if option = 0 then fork0 ret else if option = 1 then fork1 ret else if option = 2 then fork2 ret
     else if option = 3 then fork3 ret else if option = 4 then fork4 ret else if option = 5 then fork5 ret
     else if option = 6 then fork6 ret else if option = 7 then fork7 ret else if option = 8 then fork8 ret
     else if option = 9 then fork9 ret else if option = 10 then fork10 u ret else if option = 11 then fork11 u ret
     else if option = 12 then fork12 u ret else if option = 13 then fork13 u ret else if option = 14 then fork14 ret
     else if option = 15 then fork15 ret else if option = 16 then fork16 pgrp ret else if option = 17 then fork17 pgrp ret
     else Print ''Unknown option %d'' [option] ret)"

section \<open>What the functions without \<open>wait\<close> print\<close>

text \<open>A line without the process numbers: the format and the last argument.\<close>

definition what :: "string \<times> int list \<Rightarrow> string \<times> int option" where
  "what l = (case l of (s, xs) \<Rightarrow> (s, if xs = [] then None else Some (last xs)))"

definition prints_exactly :: "prog \<Rightarrow> (string \<times> int option) multiset \<Rightarrow> bool" where
  "prints_exactly c T \<longleftrightarrow> (\<forall>sched. let k = krun sched (boot c); out = image_mset what (mset (printed k)) in
     out \<subseteq># T \<and> (all_ended k \<longrightarrow> out = T) \<and> (\<exists>rest. all_ended (krun rest k)))"

lemma prints_exactlyI: "\<exists>T' m. writes what 0 c T' m \<and> T' = T \<Longrightarrow> prints_exactly c T"
  using writes_boot [of what c] by (auto simp: prints_exactly_def Let_def)

lemma writes_if:
  "writes f a A M n \<Longrightarrow> writes f a (if (0 :: pid) = 0 then A else B) M n"
  "writes f a B M n \<Longrightarrow> writes f a (if (0 :: pid) \<noteq> 0 then A else B) M n"
  "0 < (p :: pid) \<Longrightarrow> writes f a B M n \<Longrightarrow> writes f a (if p = 0 then A else B) M n"
  "0 < (p :: pid) \<Longrightarrow> writes f a A M n \<Longrightarrow> writes f a (if p \<noteq> 0 then A else B) M n"
  by simp_all

lemma writes_Print: "what (s, xs) = y \<Longrightarrow> writes what a c M n \<Longrightarrow> writes what a (Print s xs c) (add_mset y M) (Suc n)"
  using writes.Print [of what a c M n s xs] by simp

lemma what_line: "what (s, []) = (s, None)" "what (s, [x]) = (s, Some x)" "what (s, [y, x]) = (s, Some x)"
  by (simp_all add: what_def)

lemmas writes_rules = writes.Exit writes.GetPid writes.Fork writes.Atexit writes_if writes_Print what_line

lemma fork0_prints: "prints_exactly (fork0 (Exit 0)) {#(''Hello from child'', None), (''Hello from parent'', None)#}"
  unfolding fork0_def
  by (rule prints_exactlyI, intro exI, rule conjI, (rule writes_rules | assumption)+) simp

lemma fork1_prints: "prints_exactly (fork1 (Exit 0)) {#(''Child has x = %d'', Some 2), (''Parent has x = %d'', Some 0),
    (''Bye from process %d with x = %d'', Some 2), (''Bye from process %d with x = %d'', Some 0)#}"
  unfolding fork1_def Let_def
  by (rule prints_exactlyI, intro exI, rule conjI, (rule writes_rules | assumption)+) simp

lemma fork2_prints: "prints_exactly (fork2 (Exit 0)) {#(''L0'', None), (''L1'', None), (''L1'', None), (''Bye'', None), (''Bye'', None), (''Bye'', None), (''Bye'', None)#}"
  unfolding fork2_def
  by (rule prints_exactlyI, intro exI, rule conjI, (rule writes_rules | assumption)+) simp

lemma fork3_prints: "prints_exactly (fork3 (Exit 0)) {#(''L0'', None), (''L1'', None), (''L1'', None), (''L2'', None), (''L2'', None), (''L2'', None), (''L2'', None), (''Bye'', None), (''Bye'', None), (''Bye'', None), (''Bye'', None), (''Bye'', None), (''Bye'', None), (''Bye'', None), (''Bye'', None)#}"
  unfolding fork3_def
  by (rule prints_exactlyI, intro exI, rule conjI, (rule writes_rules | assumption)+) simp

lemma fork4_prints: "prints_exactly (fork4 (Exit 0)) {#(''L0'', None), (''L1'', None), (''L2'', None), (''Bye'', None), (''Bye'', None), (''Bye'', None)#}"
  unfolding fork4_def Let_def
  by (rule prints_exactlyI, intro exI, rule conjI, (rule writes_rules | assumption)+) simp

lemma fork5_prints: "prints_exactly (fork5 (Exit 0)) {#(''L0'', None), (''L1'', None), (''L2'', None), (''Bye'', None), (''Bye'', None), (''Bye'', None)#}"
  unfolding fork5_def Let_def
  by (rule prints_exactlyI, intro exI, rule conjI, (rule writes_rules | assumption)+) simp

lemma fork6_prints: "prints_exactly (fork6 (Exit 0)) {#(''Cleaning up'', None), (''Cleaning up'', None)#}"
  unfolding fork6_def
  by (rule prints_exactlyI, intro exI, rule conjI, (rule writes_rules | assumption)+) (simp add: what_line)

text \<open>
  C20 (functional). The options 0 to 6 of \<open>forks\<close>: for each of them the lines, up to the process numbers, that
  all processes together print.  In every interleaving the lines printed so far are among them, when all processes have ended each has
  been printed as often as stated, and the processes can always end.
\<close>

theorem forks_print:
  "prints_exactly (forks_main u pgrp (Some 0)) {#(''Hello from child'', None), (''Hello from parent'', None)#}
   \<and> prints_exactly (forks_main u pgrp (Some 1)) {#(''Child has x = %d'', Some 2), (''Parent has x = %d'', Some 0),
       (''Bye from process %d with x = %d'', Some 2), (''Bye from process %d with x = %d'', Some 0)#}
   \<and> prints_exactly (forks_main u pgrp (Some 2)) ({#(''L0'', None)#} + replicate_mset 2 (''L1'', None) + replicate_mset 4 (''Bye'', None))
   \<and> prints_exactly (forks_main u pgrp (Some 3))
       ({#(''L0'', None)#} + replicate_mset 2 (''L1'', None) + replicate_mset 4 (''L2'', None) + replicate_mset 8 (''Bye'', None))
   \<and> prints_exactly (forks_main u pgrp (Some 4)) ({#(''L0'', None), (''L1'', None), (''L2'', None)#} + replicate_mset 3 (''Bye'', None))
   \<and> prints_exactly (forks_main u pgrp (Some 5)) ({#(''L0'', None), (''L1'', None), (''L2'', None)#} + replicate_mset 3 (''Bye'', None))
   \<and> prints_exactly (forks_main u pgrp (Some 6)) (replicate_mset 2 (''Cleaning up'', None))"
proof -
  note lines = fork0_prints fork1_prints fork2_prints fork3_prints fork4_prints fork5_prints fork6_prints
  show ?thesis using lines by (simp add: forks_main_def numeral_eq_Suc add_mset_commute)
qed

section \<open>fork.c\<close>

text \<open>\<open>main\<close> of \<open>14-ecf-procs/fork.c\<close>: parent and child have variables \<open>x\<close> of their own.\<close>

definition fork_main :: prog where
  "fork_main = (let x = 1 in Fork (\<lambda>pid. if pid = 0 then let x = x + 1 in Print ''child : x=%d'' [x] (Exit 0)
     else let x = x - 1 in Print ''parent: x=%d'' [x] (Exit 0)))"

lemma fork_main_prints: "prints_exactly fork_main {#(''child : x=%d'', Some 2), (''parent: x=%d'', Some 0)#}"
  unfolding fork_main_def Let_def
  by (rule prints_exactlyI, intro exI, rule conjI, (rule writes_rules | assumption)+) simp

end
