(* ===== verification/Family.thy ===== *)
theory Family
  imports Forks "HOL-Library.Sublist"
begin

text \<open>
  A process with children that have no children themselves: the shape of the process table of
  \<open>fork10\<close> to \<open>fork15\<close>, what every action does to it, and what these functions print and
  whether they end.
\<close>

section \<open>The shape of the table\<close>

text \<open>The children are numbered from 0 in the order in which they are created.\<close>

definition child_pid :: "nat \<Rightarrow> pid" where
  "child_pid i = main_pid + 1 + i"

lemma child_pid_simps [simp]: "child_pid i = child_pid j \<longleftrightarrow> i = j" "child_pid i < child_pid j \<longleftrightarrow> i < j" "child_pid i \<le> child_pid j \<longleftrightarrow> i \<le> j"
  "child_pid i \<noteq> main_pid" "main_pid \<noteq> child_pid i" "\<not> child_pid i < main_pid" "main_pid < child_pid i" "\<not> child_pid i \<le> main_pid"
  "child_pid i \<noteq> 0" "init_pid \<noteq> child_pid i" "init_pid \<noteq> main_pid" "main_pid \<noteq> init_pid" "Suc (child_pid i) = child_pid (Suc i)"
  by (auto simp: child_pid_def main_pid_def init_pid_def)

fun kid_ok :: "entry option \<Rightarrow> bool" where
  "kid_ok None = True"
| "kid_ok (Some (Run s)) \<longleftrightarrow> parent s = main_pid"
| "kid_ok (Some (Zombie pp w)) \<longleftrightarrow> pp = main_pid"

definition family :: "process \<Rightarrow> (nat \<Rightarrow> entry option) \<Rightarrow> nat \<Rightarrow> kernel \<Rightarrow> bool" where
  "family r E c k \<longleftrightarrow> next_pid k = child_pid c \<and> table k main_pid = Some (Run r) \<and> parent r = init_pid
     \<and> (\<forall>i < c. table k (child_pid i) = E i \<and> kid_ok (E i))
     \<and> (\<forall>p. p < main_pid \<or> child_pid c \<le> p \<longrightarrow> table k p = None)"

lemma pid_cases [case_names main child other]:
  obtains "p = main_pid" | i where "p = child_pid i" "i < c" | "p < main_pid \<or> child_pid c \<le> p"
proof -
  consider "p = main_pid" | "p < main_pid" | "child_pid c \<le> p" | "main_pid < p" "p < child_pid c" by linarith
  then show ?thesis
  proof cases
    case 4
    then have "p = child_pid (p - main_pid - 1)" "p - main_pid - 1 < c" by (auto simp: child_pid_def)
    then show ?thesis using that(2) by blast
  qed (use that in auto)
qed

lemma family_none: "family r E c k \<Longrightarrow> p < main_pid \<or> child_pid c \<le> p \<Longrightarrow> table k p = None"
  unfolding family_def by blast

lemma family_kids: "family r E c k \<Longrightarrow> i < c \<Longrightarrow> table k (child_pid i) = E i \<and> kid_ok (E i)"
  by (simp add: family_def)

text \<open>The main process goes on with another record.\<close>

lemma family_main:
  assumes "family r E c k" "parent r' = init_pid" "table k' = (table k)(main_pid \<mapsto> Run r')" "next_pid k' = next_pid k"
  shows "family r' E c k'"
  using assms by (auto simp: family_def)

lemma family_continue:
  assumes "family r E c k" "parent r' = init_pid"
  shows "family (r'\<lparr>code := x\<rparr>) E c (continue main_pid r' x k)" "printed (continue main_pid r' x k) = printed k"
  using family_main [OF assms(1), of "r'\<lparr>code := x\<rparr>"] assms(2) by (simp_all add: continue_def set_entry_def)

text \<open>A child changes.\<close>

lemma family_child:
  assumes "family r E c k" "i < c" "kid_ok x" "table k' = (table k)(child_pid i := x)" "next_pid k' = next_pid k"
  shows "family r (E(i := x)) c k'"
  using assms by (auto simp: family_def)

lemma child_pid_Suc_le [dest]: "child_pid (Suc c) \<le> p \<Longrightarrow> child_pid c \<le> p"
  by (simp add: child_pid_def)

lemma family_fork:
  assumes f: "family r E c k" and "code r = Fork g" "deliverable r = []"
  shows "family (r\<lparr>code := g (child_pid c)\<rparr>) (E(c := Some (Run (r\<lparr>code := g 0, parent := main_pid, pending := []\<rparr>)))) (Suc c) (kstep (main_pid, q) k)"
    "printed (kstep (main_pid, q) k) = printed k"
  using assms by (auto simp: family_def kstep_def act.simps Let_def continue_def set_entry_def less_Suc_eq)

lemma family_spawn:
  assumes f: "family r E c k" and x: "code r = fork_children ch [c..<n] (map child_pid [0..<c]) g" "deliverable r = []" and c: "c < n"
  shows "family (r\<lparr>code := fork_children ch [Suc c..<n] (map child_pid [0..<Suc c]) g\<rparr>)
      (E(c := Some (Run (r\<lparr>code := ch c, parent := main_pid, pending := []\<rparr>)))) (Suc c) (kstep (main_pid, q) k)"
    "printed (kstep (main_pid, q) k) = printed k"
proof -
  have "code r = Fork (\<lambda>pid. if pid = 0 then ch c else fork_children ch [Suc c..<n] (map child_pid [0..<c] @ [pid]) g)"
    unfolding x(1) upt_conv_Cons [OF c] fork_children.simps by (rule refl)
  from family_fork [OF f this x(2), of q] show "family (r\<lparr>code := fork_children ch [Suc c..<n] (map child_pid [0..<Suc c]) g\<rparr>)
      (E(c := Some (Run (r\<lparr>code := ch c, parent := main_pid, pending := []\<rparr>)))) (Suc c) (kstep (main_pid, q) k)"
    "printed (kstep (main_pid, q) k) = printed k" by simp_all
qed

lemma family_is_child: "family r E c k \<Longrightarrow> is_child main_pid p k \<longleftrightarrow> (\<exists>i < c. p = child_pid i \<and> E i \<noteq> None)"
proof -
  assume f: "family r E c k"
  show ?thesis
  proof (cases rule: pid_cases [where p = p and c = c])
    case main
    then show ?thesis using f by (auto simp: is_child_def family_def)
  next
    case (child i)
    then have "kid_ok (E i)" "table k p = E i" using family_kids [OF f child(2)] by simp_all
    then show ?thesis using child by (cases "E i" rule: entry_cases) (auto simp: is_child_def)
  next
    case other
    then show ?thesis using family_none [OF f other] by (auto simp: is_child_def)
  qed
qed

lemma family_has_children:
  assumes "family r E c k"
  shows "has_children main_pid k \<longleftrightarrow> (\<exists>i < c. E i \<noteq> None)"
proof -
  have np: "next_pid k = child_pid c" using assms by (simp add: family_def)
  have "has_children main_pid k \<longleftrightarrow> (\<exists>p < next_pid k. is_child main_pid p k)"
    unfolding has_children_def list_ex_iff by auto
  also have "\<dots> \<longleftrightarrow> (\<exists>i < c. E i \<noteq> None)"
    unfolding np family_is_child [OF assms] by (metis child_pid_simps(2))
  finally show ?thesis .
qed

lemma family_reap:
  assumes "family r E c k" "i < c" "E i = Some (Zombie main_pid w)"
  shows "family (r\<lparr>code := g (Some (child_pid i, w))\<rparr>) (E(i := None)) c (reap main_pid r (child_pid i) g k)"
    "printed (reap main_pid r (child_pid i) g k) = printed k"
  using assms by (auto simp: family_def reap_def continue_def set_entry_def)

lemma family_no_reap:
  assumes "family r E c k" "\<And>i w. i < c \<Longrightarrow> q = child_pid i \<Longrightarrow> E i \<noteq> Some (Zombie main_pid w)"
  shows "reap main_pid r q g k = k"
proof (cases rule: pid_cases [where p = q and c = c])
  case main
  then show ?thesis using assms(1) by (simp add: reap_def family_def)
next
  case (child i)
  then have "kid_ok (E i)" "table k q = E i" using family_kids [OF assms(1) child(2)] by simp_all
  then show ?thesis using assms(2) [OF child(2,1)] by (cases "E i" rule: entry_cases) (auto simp: reap_def)
next
  case other
  then show ?thesis using family_none [OF assms(1) other] by (simp add: reap_def)
qed

text \<open>A child ends: the main process can reap it, and gets the signal if it has a handler for it.\<close>

lemma family_child_ends:
  assumes f: "family r E c k" and i: "i < c" and p: "printed k' = printed k" "table k' = table k" "next_pid k' = next_pid k"
  shows "family (post SIGCHLD r) (E(i := Some (Zombie main_pid w))) c (terminate (child_pid i) main_pid w k')"
    "printed (terminate (child_pid i) main_pid w k') = printed k"
proof -
  have "parent s \<noteq> child_pid i" if "table k p = Some (Run s)" for p s
  proof (cases rule: pid_cases [where p = p and c = c])
    case main
    then show ?thesis using f that by (auto simp: family_def)
  next
    case (child j)
    then show ?thesis using family_kids [OF f child(2)] that by (cases "E j" rule: entry_cases) auto
  next
    case other
    then show ?thesis using family_none [OF f other] that by simp
  qed
  moreover have "pp \<noteq> child_pid i" if "table k p = Some (Zombie pp v)" for p pp v
  proof (cases rule: pid_cases [where p = p and c = c])
    case main
    then show ?thesis using f that by (auto simp: family_def)
  next
    case (child j)
    then show ?thesis using family_kids [OF f child(2)] that by (cases "E j" rule: entry_cases) auto
  next
    case other
    then show ?thesis using family_none [OF f other] that by simp
  qed
  ultimately have "table (reparent (child_pid i) k') q = table k q" for q
    using p by (cases "table k q" rule: entry_cases) (auto simp: reparent_def)
  then have "reparent (child_pid i) k' = k'" using p(2) by (cases k') (auto simp: reparent_def)
  moreover have "table k main_pid = Some (Run r)" using f by (simp add: family_def)
  ultimately have t: "table (terminate (child_pid i) main_pid w k') = (table k)(child_pid i \<mapsto> Zombie main_pid w, main_pid \<mapsto> Run (post SIGCHLD r))"
    using p by (simp add: terminate_def post_to_def set_entry_def Let_def)
  have "parent (post SIGCHLD r) = init_pid" using f by (simp add: post_def family_def)
  then show "family (post SIGCHLD r) (E(i := Some (Zombie main_pid w))) c (terminate (child_pid i) main_pid w k')"
    using f i unfolding family_def t by (auto simp: p)
  show "printed (terminate (child_pid i) main_pid w k') = printed k" using p by simp
qed

lemma family_child_exit:
  assumes "family r E c k" "i < c" "E i = Some (Run s)" "code s = Exit n" "deliverable s = []" "cleanups s = 0"
  shows "family (post SIGCHLD r) (E(i := Some (Zombie main_pid (Exited n)))) c (kstep (child_pid i, q) k)"
    "printed (kstep (child_pid i, q) k) = printed k"
proof -
  have s: "table k (child_pid i) = Some (Run s)" "parent s = main_pid" using family_kids [OF assms(1,2)] assms(3) by simp_all
  have "kstep (child_pid i, q) k = terminate (child_pid i) main_pid (Exited n) (k\<lparr>printed := printed k\<rparr>)"
    using s assms(4-) by (simp add: kstep_def act.simps)
  then show "family (post SIGCHLD r) (E(i := Some (Zombie main_pid (Exited n)))) c (kstep (child_pid i, q) k)"
    "printed (kstep (child_pid i, q) k) = printed k"
    using family_child_ends [OF assms(1,2), of "k\<lparr>printed := printed k\<rparr>" "Exited n"] by simp_all
qed

text \<open>The main process ends when all children have been reaped.\<close>

lemma family_exit:
  assumes f: "family r E c k" and "code r = Exit n" "deliverable r = []" "cleanups r = 0" "\<forall>i < c. E i = None"
  shows "table (kstep (main_pid, q) k) = Map.empty" "printed (kstep (main_pid, q) k) = printed k"
proof -
  have none: "table k p = None" if "p \<noteq> main_pid" for p
    using that family_none [OF f] family_kids [OF f] assms(5) by (cases rule: pid_cases [where p = p and c = c]) auto
  have k: "kstep (main_pid, q) k = terminate main_pid init_pid (Exited n) (k\<lparr>printed := printed k\<rparr>)"
    using f assms(2-4) by (simp add: kstep_def act.simps family_def)
  have "table (terminate main_pid init_pid (Exited n) k) p = None" for p
    using none by (auto simp: terminate_def reparent_def Let_def  split: option.splits entry.splits)
  then show "table (kstep (main_pid, q) k) = Map.empty" unfolding k by (simp add: fun_eq_iff)
  show "printed (kstep (main_pid, q) k) = printed k" unfolding k by simp
qed

lemma family_idle: "family r E c k \<Longrightarrow> (p < main_pid \<or> child_pid c \<le> p) \<Longrightarrow> kstep (p, q) k = k"
  using family_none by (simp add: kstep_def)

lemma family_child_idle: "family r E c k \<Longrightarrow> i < c \<Longrightarrow> (\<And>s. E i \<noteq> Some (Run s)) \<Longrightarrow> kstep (child_pid i, q) k = k"
  using family_kids [of r E c k i] by (cases "E i" rule: entry_cases) (auto simp: kstep_def)

lemma empty_kstep: "table k = Map.empty \<Longrightarrow> kstep e k = k"
  by (cases e) (simp add: kstep_def)

lemma family_boot [simp]: "family \<lparr>code = x, parent = init_pid, handlers = (\<lambda>_. Default), pending = [], saved = [], blocked = [], ccount = 0, cleanups = 0\<rparr> E 0 (boot x)"
  by (auto simp: family_def boot_def child_pid_def)

text \<open>The actions of the main process that concern nobody else.\<close>

lemma family_act:
  assumes "family r E c k" "deliverable r = []"
  shows "kstep (main_pid, q) k = act main_pid q r (code r) k"
  using assms by (simp add: kstep_def family_def)

section \<open>Reaping children that exit\<close>

definition plain :: "prog \<Rightarrow> process" where
  "plain x = \<lparr>code = x, parent = init_pid, handlers = (\<lambda>_. Default), pending = [], saved = [], blocked = [], ccount = 0, cleanups = 0\<rparr>"

lemma plain_simps [simp]: "code (plain x) = x" "parent (plain x) = init_pid" "deliverable (plain x) = []" "cleanups (plain x) = 0"
  "post SIGCHLD (plain x) = plain x" "(plain x)\<lparr>code := y\<rparr> = plain y"
  by (simp_all add: plain_def deliverable_def post_def)

text \<open>The children \<open>R\<close> are about to exit, \<open>i\<close> with status \<open>100 + i\<close>; \<open>Z\<close> have done so and not been reaped.\<close>

definition exits :: "nat \<Rightarrow> prog" where "exits i = Exit (100 + int i)"

definition exiting :: "nat \<Rightarrow> entry" where
  "exiting i = Run ((plain (exits i))\<lparr>parent := main_pid, pending := []\<rparr>)"

definition exited :: "nat \<Rightarrow> entry" where
  "exited i = Zombie main_pid (Exited (100 + int i))"

definition kids :: "nat set \<Rightarrow> nat set \<Rightarrow> (nat \<Rightarrow> entry option) \<Rightarrow> nat \<Rightarrow> bool" where
  "kids R Z E c \<longleftrightarrow> R \<union> Z \<subseteq> {..<c} \<and> R \<inter> Z = {}
     \<and> (\<forall>i < c. E i = (if i \<in> R then Some (exiting i) else if i \<in> Z then Some (exited i) else None))"

lemma kids_finite: "kids R Z E c \<Longrightarrow> finite R \<and> finite Z"
  unfolding kids_def by (meson finite_Un finite_lessThan rev_finite_subset)

lemma kids_less: "kids R Z E c \<Longrightarrow> i \<in> R \<union> Z \<Longrightarrow> i < c"
  by (auto simp: kids_def)

lemma kids_run: "kids R Z E c \<Longrightarrow> i \<in> R \<Longrightarrow> E i = Some (exiting i)"
  by (auto simp: kids_def)

lemma kids_zombie: "kids R Z E c \<Longrightarrow> i \<in> Z \<Longrightarrow> E i = Some (exited i)"
  using kids_less [of R Z E c i] by (auto simp: kids_def disjoint_iff)

lemma kids_no_zombie: "kids R Z E c \<Longrightarrow> i < c \<Longrightarrow> i \<notin> Z \<Longrightarrow> E i \<noteq> Some (Zombie pp w)"
  by (auto simp: kids_def exiting_def split: if_splits)

lemma kids_some:
  assumes S: "kids R Z E c"
  shows "(\<exists>i < c. E i \<noteq> None) \<longleftrightarrow> R \<union> Z \<noteq> {}"
proof -
  have "E i \<noteq> None \<longleftrightarrow> i \<in> R \<union> Z" if "i < c" for i using S that by (simp add: kids_def)
  then show ?thesis using kids_less [OF S] by blast
qed

lemma kids_exit: "kids R Z E c \<Longrightarrow> i \<in> R \<Longrightarrow> kids (R - {i}) (insert i Z) (E(i := Some (exited i))) c"
  by (auto simp: kids_def)

lemma kids_reap: "kids R Z E c \<Longrightarrow> i \<in> Z \<Longrightarrow> kids R (Z - {i}) (E(i := None)) c"
  by (auto simp: kids_def)

lemma kids_fork: "kids R Z E c \<Longrightarrow> kids (insert c R) Z (E(c := Some (exiting c))) (Suc c)"
  by (auto simp: kids_def less_Suc_eq)

text \<open>The actions of the children.\<close>

lemma kids_step_exit:
  assumes f: "family (plain x) E c k" and S: "kids R Z E c" and i: "i \<in> R"
  shows "family (plain x) (E(i := Some (exited i))) c (kstep (child_pid i, q) k)" "printed (kstep (child_pid i, q) k) = printed k"
proof -
  let ?s = "(plain (exits i))\<lparr>parent := main_pid, pending := []\<rparr>"
  have "E i = Some (Run ?s)" "i < c" using kids_run [OF S i] kids_less [OF S] i by (auto simp: exiting_def)
  moreover have "deliverable ?s = []" "cleanups ?s = 0" "code ?s = Exit (100 + int i)" by (simp_all add: exits_def plain_def deliverable_def)
  ultimately show "family (plain x) (E(i := Some (exited i))) c (kstep (child_pid i, q) k)" "printed (kstep (child_pid i, q) k) = printed k"
    using family_child_exit [OF f, of i ?s] by (simp_all add: exited_def)
qed

lemma kids_step_idle:
  assumes f: "family (plain x) E c k" and S: "kids R Z E c" and p: "p \<noteq> main_pid" "p \<notin> child_pid ` R"
  shows "kstep (p, q) k = k"
proof (cases rule: pid_cases [where p = p and c = c])
  case (child i)
  then have "E i \<noteq> Some (Run s)" for s using S p(2) by (auto simp: kids_def exited_def)
  then show ?thesis using family_child_idle [OF f child(2)] child(1) by blast
qed (use p family_idle [OF f] in auto)

text \<open>The main process waits, for any child or for a certain one.\<close>

lemma kids_wait_acts:
  assumes f: "family (plain x) E c k" and S: "kids R Z E c" "R \<union> Z \<noteq> {}"
  shows "x = Wait g \<Longrightarrow> kstep (main_pid, q) k = reap main_pid (plain x) q g k"
    "x = Waitpid (child_pid i) g \<Longrightarrow> i \<in> R \<union> Z \<Longrightarrow> kstep (main_pid, q) k = reap main_pid (plain x) (child_pid i) g k"
proof -
  show "kstep (main_pid, q) k = reap main_pid (plain x) q g k" if "x = Wait g"
    using family_act [OF f] family_has_children [OF f] kids_some [OF S(1)] S(2) that by (simp add: act.simps)
  show "kstep (main_pid, q) k = reap main_pid (plain x) (child_pid i) g k" if x: "x = Waitpid (child_pid i) g" and i: "i \<in> R \<union> Z"
  proof -
    have "E i \<noteq> None" using S(1) i by (auto simp: kids_def)
    then have "is_child main_pid (child_pid i) k" using family_is_child [OF f] kids_less [OF S(1) i] by blast
    then show ?thesis using family_act [OF f] x by (simp add: act.simps)
  qed
qed

lemma kids_reaps:
  assumes f: "family (plain x) E c k" and S: "kids R Z E c" and i: "i \<in> Z"
  shows "family (plain (g (Some (child_pid i, Exited (100 + int i))))) (E(i := None)) c (reap main_pid (plain x) (child_pid i) g k)"
    "printed (reap main_pid (plain x) (child_pid i) g k) = printed k"
  using family_reap [OF f, of i "Exited (100 + int i)" g] kids_zombie [OF S i] kids_less [OF S] i by (simp_all add: exited_def)

lemma kids_reaps_none:
  assumes f: "family (plain x) E c k" and S: "kids R Z E c" and q: "q \<notin> child_pid ` Z"
  shows "reap main_pid (plain x) q g k = k"
  using kids_no_zombie [OF S] q by (intro family_no_reap [OF f]) auto

text \<open>The line on child \<open>i\<close>.\<close>

definition exit_line :: "nat \<Rightarrow> string \<times> int list" where
  "exit_line i = (''Child %d terminated with exit status %d'', [int (child_pid i), 100 + int i])"

definition print_exit :: "nat \<Rightarrow> prog \<Rightarrow> prog" where
  "print_exit i c = Print (fst (exit_line i)) (snd (exit_line i)) c"

lemma report_exit: "report ab (int (child_pid i)) (Exited (100 + int i)) c = print_exit i c"
  by (simp add: report_def exit_line_def print_exit_def)

lemma family_print:
  assumes "family (plain (print_exit i y)) E c k"
  shows "family (plain y) E c (kstep (main_pid, q) k)" "printed (kstep (main_pid, q) k) = printed k @ [exit_line i]"
  using assms by (auto simp: print_exit_def family_def kstep_def act.simps continue_def set_entry_def say_def)

section \<open>Programs that create \<open>N\<close> children and reap them\<close>

text \<open>
  \<open>loop S D x\<close>: the code \<open>x\<close> reports on the children \<open>S\<close>, those on \<open>D\<close> having been reported in this order.
  It waits for any child, or for a certain one of them.
\<close>

locale reaper =
  fixes loop :: "nat set \<Rightarrow> nat list \<Rightarrow> prog \<Rightarrow> bool" and start :: "pid list \<Rightarrow> prog"
  assumes start: "loop {..<N} [] (start (map child_pid [0..<N]))"
    and finished: "loop {} D x \<Longrightarrow> x = Exit 0"
    and waits: "loop S D x \<Longrightarrow> S \<noteq> {} \<Longrightarrow> finite S \<Longrightarrow> \<exists>W g. W \<noteq> {}
      \<and> (\<forall>i \<in> W. \<exists>y. g (Some (child_pid i, Exited (100 + int i))) = print_exit i y \<and> loop (S - {i}) (D @ [i]) y)
      \<and> (x = Wait g \<and> W = S \<or> (\<exists>i \<in> S. x = Waitpid (child_pid i) g \<and> W = {i}))"
begin

text \<open>The code of the main process, and a bound on the actions left to it alone.\<close>

inductive phase :: "prog \<Rightarrow> nat \<Rightarrow> nat set \<Rightarrow> nat list \<Rightarrow> nat \<Rightarrow> bool" where
  create: "c < N \<Longrightarrow> phase (fork_children exits [c..<N] (map child_pid [0..<c]) start) c {..<c} [] (4 * (N - c))"
| wait: "loop S D x \<Longrightarrow> phase x N S D 0"
| report: "loop S (D @ [j]) y \<Longrightarrow> phase (print_exit j y) N S D 1"

definition live :: "nat \<Rightarrow> kernel \<Rightarrow> bool" where
  "live m k \<longleftrightarrow> (\<exists>x E c R Z D a. family (plain x) E c k \<and> kids R Z E c \<and> printed k = map exit_line D
     \<and> phase x c (R \<union> Z) D a \<and> m = Suc (a + 2 * card (R \<union> Z) + card R))"

definition over :: "kernel \<Rightarrow> bool" where
  "over k \<longleftrightarrow> table k = Map.empty \<and> (\<exists>D x. printed k = map exit_line D \<and> loop {} D x)"

lemma liveI:
  "family (plain x) E c k \<Longrightarrow> kids R Z E c \<Longrightarrow> printed k = map exit_line D \<Longrightarrow> phase x c (R \<union> Z) D a
   \<Longrightarrow> m = Suc (a + 2 * card (R \<union> Z) + card R) \<Longrightarrow> live m k"
  unfolding live_def by blast

lemma exit_step:
  assumes f: "family (plain x) E c k" "kids R Z E c" "printed k = map exit_line D" "phase x c (R \<union> Z) D a" and i: "i \<in> R"
  shows "live (a + 2 * card (R \<union> Z) + card R) (kstep (child_pid i, q) k)"
proof (rule liveI)
  have fin: "finite R" "finite Z" using kids_finite [OF f(2)] by simp_all
  have u: "R - {i} \<union> insert i Z = R \<union> Z" using i by auto
  show "family (plain x) (E(i := Some (exited i))) c (kstep (child_pid i, q) k)" by (rule kids_step_exit [OF f(1,2) i])
  show "kids (R - {i}) (insert i Z) (E(i := Some (exited i))) c" by (rule kids_exit [OF f(2) i])
  show "printed (kstep (child_pid i, q) k) = map exit_line D" using kids_step_exit(2) [OF f(1,2) i] f(3) by simp
  show "phase x c (R - {i} \<union> insert i Z) D a" unfolding u by (rule f(4))
  show "a + 2 * card (R \<union> Z) + card R = Suc (a + 2 * card (R - {i} \<union> insert i Z) + card (R - {i}))"
    unfolding u using card_Suc_Diff1 [OF fin(1) i] by simp
qed

lemma create_step:
  assumes f: "family (plain x) E c k" "kids R Z E c" "printed k = []" and c: "R \<union> Z = {..<c}" "c < N"
    and x: "x = fork_children exits [c..<N] (map child_pid [0..<c]) start"
  shows "live (4 * (N - c) + 2 * card (R \<union> Z) + card R) (kstep (main_pid, q) k)"
proof (rule liveI)
  let ?x = "fork_children exits [Suc c..<N] (map child_pid [0..<Suc c]) start"
  note sp = family_spawn [OF f(1), where ch = exits and n = N and q = q, unfolded plain_simps, OF x refl c(2)]
  have fin: "finite R" "finite Z" "c \<notin> R" using kids_finite [OF f(2)] kids_less [OF f(2), of c] by auto
  have u: "insert c R \<union> Z = {..<Suc c}" unfolding Un_insert_left c(1) lessThan_Suc by (rule refl)
  show "family (plain ?x) (E(c := Some (exiting c))) (Suc c) (kstep (main_pid, q) k)" using sp(1) by (simp add: exiting_def)
  show "kids (insert c R) Z (E(c := Some (exiting c))) (Suc c)" by (rule kids_fork [OF f(2)])
  show "printed (kstep (main_pid, q) k) = map exit_line []" using sp(2) f(3) by simp
  show "phase ?x (Suc c) (insert c R \<union> Z) [] (4 * (N - Suc c))"
    unfolding u using phase.create [of "Suc c"] phase.wait [OF start] c(2) by (cases "Suc c = N") auto
  show "4 * (N - c) + 2 * card (R \<union> Z) + card R = Suc (4 * (N - Suc c) + 2 * card (insert c R \<union> Z) + card (insert c R))"
    unfolding u c(1) using fin c(2) by simp
qed

lemma report_step:
  assumes f: "family (plain (print_exit j y)) E N k" "kids R Z E N" "printed k = map exit_line D" "loop (R \<union> Z) (D @ [j]) y"
  shows "live (1 + 2 * card (R \<union> Z) + card R) (kstep (main_pid, q) k)"
  by (rule liveI [OF family_print(1) [OF f(1)] f(2) _ phase.wait [OF f(4)]]) (use family_print(2) [OF f(1)] f(3) in simp_all)

lemma over_step:
  assumes f: "family (plain x) E N k" "kids {} {} E N" "printed k = map exit_line D" "loop {} D x"
  shows "over (kstep (main_pid, q) k)"
proof -
  have "x = Exit 0" "\<forall>i < N. E i = None" using finished [OF f(4)] f(2) by (simp_all add: kids_def)
  then show ?thesis using family_exit [OF f(1), of 0 q] f(3,4) by (auto simp: over_def)
qed

lemma reap_step:
  assumes f: "family (plain x) E N k" "kids R Z E N" "printed k = map exit_line D" and i: "i \<in> Z"
    and g: "g (Some (child_pid i, Exited (100 + int i))) = print_exit i y" "loop (R \<union> Z - {i}) (D @ [i]) y"
  shows "live (2 * card (R \<union> Z) + card R) (reap main_pid (plain x) (child_pid i) g k)"
proof (rule liveI)
  note r = kids_reaps [OF f(1,2) i, of g]
  have u: "R \<union> (Z - {i}) = R \<union> Z - {i}" using f(2) i by (auto simp: kids_def)
  have fin: "finite (R \<union> Z)" "i \<in> R \<union> Z" using kids_finite [OF f(2)] i by simp_all
  show "family (plain (print_exit i y)) (E(i := None)) N (reap main_pid (plain x) (child_pid i) g k)" using r(1) unfolding g(1) .
  show "kids R (Z - {i}) (E(i := None)) N" by (rule kids_reap [OF f(2) i])
  show "printed (reap main_pid (plain x) (child_pid i) g k) = map exit_line D" using r(2) f(3) by simp
  show "phase (print_exit i y) N (R \<union> (Z - {i})) D 1" unfolding u by (rule phase.report [OF g(2)])
  show "2 * card (R \<union> Z) + card R = Suc (1 + 2 * card (R \<union> (Z - {i})) + card R)"
    unfolding u using card_Suc_Diff1 [OF fin] by simp
qed

text \<open>Waiting: the state stays or the measure decreases, and the latter is possible once a child that is waited for has ended.\<close>

lemma wait_step:
  assumes f: "family (plain x) E N k" "kids R Z E N" "printed k = map exit_line D" "loop (R \<union> Z) D x" and S: "R \<union> Z \<noteq> {}"
  shows "kstep (main_pid, q) k = k \<or> live (2 * card (R \<union> Z) + card R) (kstep (main_pid, q) k)"
    "R = {} \<Longrightarrow> \<exists>q. live (2 * card (R \<union> Z) + card R) (kstep (main_pid, q) k)"
proof -
  obtain W g where W: "W \<noteq> {}" "\<forall>i \<in> W. \<exists>y. g (Some (child_pid i, Exited (100 + int i))) = print_exit i y \<and> loop (R \<union> Z - {i}) (D @ [i]) y"
    and x: "x = Wait g \<and> W = R \<union> Z \<or> (\<exists>i \<in> R \<union> Z. x = Waitpid (child_pid i) g \<and> W = {i})"
    using waits [OF f(4) S] kids_finite [OF f(2)] by blast
  have reap: "live (2 * card (R \<union> Z) + card R) (reap main_pid (plain x) (child_pid i) g k)" if "i \<in> W" "i \<in> Z" for i
  proof -
    obtain y where "g (Some (child_pid i, Exited (100 + int i))) = print_exit i y" "loop (R \<union> Z - {i}) (D @ [i]) y" using W(2) \<open>i \<in> W\<close> by blast
    then show ?thesis by (rule reap_step [OF f(1-3) \<open>i \<in> Z\<close>])
  qed
  have go: "\<exists>q'. kstep (main_pid, q) k = reap main_pid (plain x) q' g k \<and> (q' \<in> child_pid ` Z \<longrightarrow> q' \<in> child_pid ` (W \<inter> Z))" for q
    using x
  proof (elim disjE conjE bexE)
    assume "x = Wait g" "W = R \<union> Z"
    then show ?thesis using kids_wait_acts(1) [OF f(1,2) S, of g q] by (intro exI [of _ q]) auto
  next
    fix i
    assume "i \<in> R \<union> Z" "x = Waitpid (child_pid i) g" "W = {i}"
    then show ?thesis using kids_wait_acts(2) [OF f(1,2) S, of i g q] by (intro exI [of _ "child_pid i"]) auto
  qed
  then obtain q' where q': "kstep (main_pid, q) k = reap main_pid (plain x) q' g k" "q' \<in> child_pid ` Z \<longrightarrow> q' \<in> child_pid ` (W \<inter> Z)" by blast
  show "kstep (main_pid, q) k = k \<or> live (2 * card (R \<union> Z) + card R) (kstep (main_pid, q) k)"
    using q' reap kids_reaps_none [OF f(1,2), of q' g] by (cases "q' \<in> child_pid ` Z") auto
  show "\<exists>q. live (2 * card (R \<union> Z) + card R) (kstep (main_pid, q) k)" if R: "R = {}"
  proof -
    obtain i where i: "i \<in> W" using W(1) by blast
    then have "i \<in> Z" "i \<in> R \<union> Z" using x R by auto
    then have "kstep (main_pid, child_pid i) k = reap main_pid (plain x) (child_pid i) g k"
      using x i kids_wait_acts(1) [OF f(1,2) S, of g "child_pid i"] kids_wait_acts(2) [OF f(1,2) S, of i g "child_pid i"] by blast
    then show ?thesis using reap [OF i \<open>i \<in> Z\<close>] by metis
  qed
qed

lemma live_step:
  assumes "live (Suc m) k"
  shows "kstep (p, q) k = k \<or> live m (kstep (p, q) k) \<or> over (kstep (p, q) k)"
proof -
  obtain x E c R Z D a where f: "family (plain x) E c k" "kids R Z E c" "printed k = map exit_line D"
    and ph: "phase x c (R \<union> Z) D a" and m: "m = a + 2 * card (R \<union> Z) + card R" using assms by (auto simp: live_def)
  show ?thesis
  proof (cases "p = main_pid")
    case False
    then show ?thesis using kids_step_idle [OF f(1,2)] exit_step [OF f ph] m by auto
  next
    case True
    from ph show ?thesis
    proof cases
      case create
      then show ?thesis using create_step [OF f(1,2)] f(3) True m by simp
    next
      case wait
      then show ?thesis using wait_step(1) [OF f(1,2) [unfolded wait] f(3), of q] over_step [of x E k D q] f True m
        by (cases "R \<union> Z = {}") auto
    next
      case (report j y)
      then show ?thesis using report_step [of j y E k R Z D q] f True m by simp
    qed
  qed
qed

lemma live_moves:
  assumes "live (Suc m) k"
  shows "\<exists>e. live m (kstep e k) \<or> over (kstep e k)"
proof -
  obtain x E c R Z D a where f: "family (plain x) E c k" "kids R Z E c" "printed k = map exit_line D"
    and ph: "phase x c (R \<union> Z) D a" and m: "m = a + 2 * card (R \<union> Z) + card R" using assms by (auto simp: live_def)
  show ?thesis
  proof (cases "R = {}")
    case False
    then show ?thesis using exit_step [OF f ph] m by blast
  next
    case True
    from ph show ?thesis
    proof cases
      case create
      then show ?thesis using create_step [OF f(1,2)] f(3) m by auto
    next
      case wait
      then show ?thesis using wait_step(2) [OF f(1,2) [unfolded wait] f(3)] over_step [of x E k D] f True m
        by (cases "Z = {}") auto
    next
      case (report j y)
      then show ?thesis using report_step [of j y E k R Z D] f m by auto
    qed
  qed
qed

lemma live_boot: "\<exists>m. live m (boot (fork_children exits [0..<N] [] start))"
proof -
  have "family (plain (fork_children exits [0..<N] [] start)) (\<lambda>_. None) 0 (boot (fork_children exits [0..<N] [] start))"
    unfolding plain_def by (rule family_boot)
  moreover have "kids {} {} (\<lambda>_. None) 0" by (simp add: kids_def)
  moreover have "printed (boot (fork_children exits [0..<N] [] start)) = map exit_line []" by (simp add: boot_def)
  moreover have "phase (fork_children exits [0..<N] [] start) 0 ({} \<union> {}) [] (4 * (N - 0))"
    using phase.create [of 0] by (simp add: N_def)
  ultimately show ?thesis using liveI by blast
qed

text \<open>In every interleaving, \<open>N\<close> children are created and reported on, and all processes can end.\<close>

lemma reaper_run:
  assumes "(\<exists>m. live m k) \<or> over k"
  shows "(\<exists>m. live m (krun sched k)) \<or> over (krun sched k)"
  using assms
proof (induction sched arbitrary: k)
  case (Cons e sched)
  have "(\<exists>m. live m (kstep e k)) \<or> over (kstep e k)"
  proof (cases "over k")
    case True
    then show ?thesis by (simp add: over_def empty_kstep)
  next
    case False
    then obtain m where m: "live m k" using Cons.prems by blast
    then obtain m' where m': "m = Suc m'" unfolding live_def by blast
    show ?thesis using live_step [OF m [unfolded m'], of "fst e" "snd e"] m by auto
  qed
  then show ?case using Cons.IH by simp
qed simp

lemma over_ended: "over k \<Longrightarrow> all_ended k"
  by (simp add: over_def all_ended_def list_all_iff)

lemma live_not_ended: "live m k \<Longrightarrow> \<not> all_ended k"
  by (fastforce simp: live_def family_def all_ended_def list_all_iff child_pid_def)

lemma live_finish: "live m k \<Longrightarrow> \<exists>rest. all_ended (krun rest k)"
proof (induction m arbitrary: k)
  case 0
  then show ?case by (simp add: live_def)
next
  case (Suc m)
  from live_moves [OF Suc.prems] obtain e where "live m (kstep e k) \<or> over (kstep e k)" by blast
  then obtain rest where "all_ended (krun rest (kstep e k))" using Suc.IH over_ended by (metis krun_simps(1))
  then show ?case by (intro exI [of _ "e # rest"]) simp
qed

lemma live_printed: "live m k \<Longrightarrow> \<exists>S D x. loop S D x \<and> prefix (printed k) (map exit_line D)"
proof -
  assume "live m k"
  then obtain x c S D a where p: "printed k = map exit_line D" and "phase x c S D a" unfolding live_def by blast
  from this(2) have "\<exists>S D' y. loop S D' y \<and> prefix D D'"
  proof cases
    case create
    show ?thesis unfolding create by (rule exI, rule exI, rule exI, rule conjI [OF start]) simp
  next
    case wait
    show ?thesis by (rule exI, rule exI, rule exI, rule conjI [OF wait(3)]) simp
  next
    case (report j y)
    show ?thesis by (rule exI, rule exI, rule exI, rule conjI [OF report(4)]) simp
  qed
  then show ?thesis unfolding p by (metis map_mono_prefix)
qed

lemma reaper_reports:
  fixes sched
  defines "k \<equiv> krun sched (boot (fork_children exits [0..<N] [] start))"
  shows "\<exists>S D x. loop S D x \<and> prefix (printed k) (map exit_line D)"
    and "all_ended k \<Longrightarrow> \<exists>D x. loop {} D x \<and> printed k = map exit_line D"
    and "\<exists>rest. all_ended (krun rest k)"
proof -
  consider m where "live m k" | "over k" using reaper_run live_boot unfolding k_def by blast
  then have "(\<exists>S D x. loop S D x \<and> prefix (printed k) (map exit_line D)) \<and> (all_ended k \<longrightarrow> (\<exists>D x. loop {} D x \<and> printed k = map exit_line D))
    \<and> (\<exists>rest. all_ended (krun rest k))"
  proof cases
    case 1
    then show ?thesis using live_printed live_not_ended live_finish by blast
  next
    case 2
    then show ?thesis using over_ended [OF 2] krun_simps(1) unfolding over_def by (metis prefix_order.refl)
  qed
  then show "\<exists>S D x. loop S D x \<and> prefix (printed k) (map exit_line D)"
    and "all_ended k \<Longrightarrow> \<exists>D x. loop {} D x \<and> printed k = map exit_line D"
    and "\<exists>rest. all_ended (krun rest k)" by blast+
qed

end

section \<open>\<open>fork10\<close> and \<open>fork11\<close>\<close>

definition loop10 :: "nat set \<Rightarrow> nat list \<Rightarrow> prog \<Rightarrow> bool" where
  "loop10 S D x \<longleftrightarrow> distinct D \<and> set D = {..<N} - S \<and> S \<subseteq> {..<N}
     \<and> (\<exists>st. x = wait_loop ''Child %d terminate abnormally'' (card S) st (Exit 0))"

definition loop11 :: "nat set \<Rightarrow> nat list \<Rightarrow> prog \<Rightarrow> bool" where
  "loop11 S D x \<longleftrightarrow> (\<exists>n \<le> N. S = {..<n} \<and> D = rev [n..<N]
     \<and> (\<exists>st. x = waitpid_loop ''Child %d terminate abnormally'' (rev (map child_pid [0..<n])) st (Exit 0)))"

lemma loop10_waits:
  assumes "loop10 S D x" "S \<noteq> {}" "finite S"
  shows "\<exists>g. x = Wait g \<and> (\<forall>i \<in> S. \<exists>y. g (Some (child_pid i, Exited (100 + int i))) = print_exit i y \<and> loop10 (S - {i}) (D @ [i]) y)"
proof -
  obtain n where n: "card S = Suc n" using assms(2,3) by (cases "card S") auto
  then obtain st where "x = wait_loop ''Child %d terminate abnormally'' (Suc n) st (Exit 0)" using assms(1) by (auto simp: loop10_def)
  moreover have "card (S - {i}) = n" if "i \<in> S" for i using n that assms(3) by simp
  moreover have "loop10 (S - {i}) (D @ [i]) (wait_loop ''Child %d terminate abnormally'' n st (Exit 0))" if "i \<in> S" for i st
    using assms(1) that calculation(2) [OF that] unfolding loop10_def by (simp, blast)
  ultimately show ?thesis by (auto simp: report_exit)
qed

lemma loop11_empty: "loop11 {} D x \<Longrightarrow> x = Exit 0 \<and> D = rev [0..<N]"
proof -
  assume "loop11 {} D x"
  then obtain n st where n: "{..<n} = {}" "D = rev [n..<N]" "x = waitpid_loop ''Child %d terminate abnormally'' (rev (map child_pid [0..<n])) st (Exit 0)"
    unfolding loop11_def by metis
  then show ?thesis by (cases n) auto
qed

lemma loop11_waits:
  assumes "loop11 S D x" "S \<noteq> {}"
  shows "\<exists>i \<in> S. \<exists>g. x = Waitpid (child_pid i) g \<and> (\<exists>y. g (Some (child_pid i, Exited (100 + int i))) = print_exit i y \<and> loop11 (S - {i}) (D @ [i]) y)"
proof -
  obtain n st where n: "n \<le> N" "S = {..<n}" "D = rev [n..<N]"
    "x = waitpid_loop ''Child %d terminate abnormally'' (rev (map child_pid [0..<n])) st (Exit 0)" using assms(1) by (auto simp: loop11_def)
  obtain m where m: "n = Suc m" using assms(2) n(2) by (cases n) auto
  have "loop11 (S - {m}) (D @ [m]) (waitpid_loop ''Child %d terminate abnormally'' (rev (map child_pid [0..<m])) st (Exit 0))" for st
    using n(1-3) m by (auto simp: loop11_def lessThan_Suc upt_conv_Cons [of m N])
  then show ?thesis using n(2,4) m by (intro bexI [of _ m]) (auto simp: report_exit)
qed

interpretation fork10: reaper loop10 "\<lambda>pids. wait_loop ''Child %d terminate abnormally'' N u (Exit 0)"
proof unfold_locales
  show "loop10 {..<N} [] (wait_loop ''Child %d terminate abnormally'' N u (Exit 0))" by (auto simp: loop10_def)
  show "x = Exit 0" if "loop10 {} D x" for D x using that by (auto simp: loop10_def)
  fix S D x
  assume S: "S \<noteq> {}" "finite S" and "loop10 S D x"
  from loop10_waits [OF this(3) S] S show "\<exists>W g. W \<noteq> {} \<and> (\<forall>i \<in> W. \<exists>y. g (Some (child_pid i, Exited (100 + int i))) = print_exit i y \<and> loop10 (S - {i}) (D @ [i]) y)
      \<and> (x = Wait g \<and> W = S \<or> (\<exists>i \<in> S. x = Waitpid (child_pid i) g \<and> W = {i}))" by blast
qed

interpretation fork11: reaper loop11 "\<lambda>pids. waitpid_loop ''Child %d terminate abnormally'' (rev pids) u (Exit 0)"
proof unfold_locales
  show "loop11 {..<N} [] (waitpid_loop ''Child %d terminate abnormally'' (rev (map child_pid [0..<N])) u (Exit 0))" by (auto simp: loop11_def)
  show "x = Exit 0" if "loop11 {} D x" for D x using loop11_empty [OF that] by simp
  fix S D x
  assume S: "S \<noteq> {}" "finite S" and "loop11 S D x"
  from loop11_waits [OF this(3) S(1)] obtain i g y where i: "i \<in> S" "x = Waitpid (child_pid i) g"
    "g (Some (child_pid i, Exited (100 + int i))) = print_exit i y" "loop11 (S - {i}) (D @ [i]) y" by blast
  then show "\<exists>W g. W \<noteq> {} \<and> (\<forall>i \<in> W. \<exists>y. g (Some (child_pid i, Exited (100 + int i))) = print_exit i y \<and> loop11 (S - {i}) (D @ [i]) y)
      \<and> (x = Wait g \<and> W = S \<or> (\<exists>i \<in> S. x = Waitpid (child_pid i) g \<and> W = {i}))"
    by (intro exI [of _ "{i}"] exI [of _ g]) auto
qed

lemma forks_main_10: "forks_main u pgrp (Some 10) = fork_children exits [0..<N] [] (\<lambda>pids. wait_loop ''Child %d terminate abnormally'' N u (Exit 0))"
  by (simp add: forks_main_def fork10_def exits_def [abs_def])

lemma forks_main_11: "forks_main u pgrp (Some 11) = fork_children exits [0..<N] [] (\<lambda>pids. waitpid_loop ''Child %d terminate abnormally'' (rev pids) u (Exit 0))"
  by (simp add: forks_main_def fork11_def exits_def [abs_def])

text \<open>
  Liveness. \<open>forks 10\<close> reports on every child exactly once, with the status that this child
  has given to \<open>exit\<close>, in some order: in every interleaving of the six processes no line is printed twice, no other
  line is printed, all five have been printed when all processes have ended, and
  whatever has happened all processes can still end.
\<close>

theorem fork10_reports:
  "let k = krun sched (boot (forks_main u pgrp (Some 10))) in
     (\<exists>D. distinct D \<and> set D \<subseteq> {..<N} \<and> printed k = map exit_line D \<and> (all_ended k \<longrightarrow> set D = {..<N})) \<and> (\<exists>rest. all_ended (krun rest k))"
proof -
  define k where "k = krun sched (boot (forks_main u pgrp (Some 10)))"
  note r = fork10.reaper_reports [where sched = sched and u = u, folded forks_main_10 [of u pgrp], folded k_def]
  obtain S D x where D: "loop10 S D x" "prefix (printed k) (map exit_line D)" using r(1) by blast
  then obtain E where E: "printed k = map exit_line E" "prefix E D" by (metis prefix_def map_eq_append_conv)
  have "distinct E" "set E \<subseteq> {..<N}" using D(1) E(2) by (auto simp: loop10_def prefix_def)
  moreover have "\<exists>D. distinct D \<and> set D = {..<N} \<and> printed k = map exit_line D" if "all_ended k" using r(2) [OF that] by (auto simp: loop10_def)
  ultimately show ?thesis using r(3) E(1) unfolding k_def [symmetric] Let_def by blast
qed

text \<open>
  Liveness. \<open>forks 11\<close> reports on the children in the reverse order of their creation, whatever the order in
  which they end: in every interleaving what has been printed is a beginning of this list of lines,
  it is the whole list when all processes have ended, and they can still end.
\<close>

theorem fork11_reports:
  "let k = krun sched (boot (forks_main u pgrp (Some 11))) in
     prefix (printed k) (map exit_line (rev [0..<N])) \<and> (all_ended k \<longrightarrow> printed k = map exit_line (rev [0..<N])) \<and> (\<exists>rest. all_ended (krun rest k))"
proof -
  define k where "k = krun sched (boot (forks_main u pgrp (Some 11)))"
  note r = fork11.reaper_reports [where sched = sched and u = u, folded forks_main_11 [of u pgrp], folded k_def]
  obtain S D x where D: "loop11 S D x" "prefix (printed k) (map exit_line D)" using r(1) by blast
  then have "prefix D (rev [0..<N])" by (auto simp: loop11_def prefix_def) (metis rev_append upt_add_eq_append le0 le_add_diff_inverse)
  then have "prefix (printed k) (map exit_line (rev [0..<N]))" using D(2) by (meson map_mono_prefix prefix_order.trans)
  moreover have "printed k = map exit_line (rev [0..<N])" if e: "all_ended k"
  proof -
    obtain D x where "loop11 {} D x" "printed k = map exit_line D" using r(2) [OF e] by blast
    then show ?thesis using loop11_empty by blast
  qed
  ultimately show ?thesis using r(3) unfolding k_def [symmetric] Let_def by blast
qed

theorem fork10_reports_witness:
  "\<exists>sched D. all_ended (krun sched (boot (forks_main (Exited 0) 7 (Some 10)))) \<and> distinct D \<and> set D = {..<N}
     \<and> printed (krun sched (boot (forks_main (Exited 0) 7 (Some 10)))) = map exit_line D"
proof -
  obtain sched where "all_ended (krun sched (boot (forks_main (Exited 0) 7 (Some 10))))"
    using fork10_reports [of "[]" "Exited 0" 7] unfolding Let_def krun_simps(1) by blast
  then show ?thesis using fork10_reports [of sched "Exited 0" 7] unfolding Let_def by blast
qed

theorem fork11_reports_witness:
  "\<exists>sched. all_ended (krun sched (boot (forks_main (Exited 0) 7 (Some 11))))
     \<and> printed (krun sched (boot (forks_main (Exited 0) 7 (Some 11)))) = map exit_line (rev [0..<N])"
proof -
  obtain sched where "all_ended (krun sched (boot (forks_main (Exited 0) 7 (Some 11))))"
    using fork11_reports [of "[]" "Exited 0" 7] unfolding Let_def krun_simps(1) by blast
  then show ?thesis using fork11_reports [of sched "Exited 0" 7] unfolding Let_def by blast
qed

end
