(* ===== verification/Reaping.thy ===== *)
theory Reaping
  imports Family
begin

text \<open>
  \<open>fork14\<close> and \<open>fork15\<close>: children are reaped by a handler of \<open>SIGCHLD\<close>.  Pending signals are not queued, so
  a handler that reaps one child can leave others behind for ever; one that reaps as long as
  there are children cannot.
\<close>

section \<open>The processes\<close>

text \<open>The main process, with handler \<open>h\<close> and counter \<open>n\<close>.\<close>

definition sproc :: "handler \<Rightarrow> int \<Rightarrow> signal list \<Rightarrow> (signal \<times> prog) list \<Rightarrow> prog \<Rightarrow> process" where
  "sproc h n pend sv x = \<lparr>code = x, parent = init_pid, handlers = (\<lambda>_. Default)(SIGCHLD := h), pending = pend, saved = sv,
     blocked = [], ccount = n, cleanups = 0\<rparr>"

definition sleeps :: "nat \<Rightarrow> prog" where "sleeps i = Sleep (Exit 0)"

text \<open>A child before \<open>Sleep\<close> or before \<open>exit\<close>.\<close>

definition sleeper :: "process \<Rightarrow> bool" where
  "sleeper s \<longleftrightarrow> deliverable s = [] \<and> cleanups s = 0 \<and> (code s = Sleep (Exit 0) \<or> code s = Exit 0)"

lemma sproc_simps [simp]: "code (sproc h n pend sv x) = x" "parent (sproc h n pend sv x) = init_pid" "ccount (sproc h n pend sv x) = n"
  "saved (sproc h n pend sv x) = sv" "pending (sproc h n pend sv x) = pend" "cleanups (sproc h n pend sv x) = 0"
  "handlers (sproc h n pend sv x) SIGCHLD = h"
  "(sproc h n pend sv x)\<lparr>code := y\<rparr> = sproc h n pend sv y" "(sproc h n pend sv x)\<lparr>saved := sv'\<rparr> = sproc h n pend sv' x"
  "(sproc h n pend sv x)\<lparr>pending := pend'\<rparr> = sproc h n pend' sv x" "(sproc h n pend sv x)\<lparr>ccount := m\<rparr> = sproc h m pend sv x"
  by (simp_all add: sproc_def)

lemma sproc_update [simp]:
  "(sproc h n pend sv x)\<lparr>saved := sv', code := y\<rparr> = sproc h n pend sv' y"
  "(sproc h n pend sv x)\<lparr>pending := pend', saved := sv', code := y\<rparr> = sproc h n pend' sv' y"
  "(sproc h n pend sv x)\<lparr>ccount := m, code := y\<rparr> = sproc h m pend sv y"
  by (simp_all add: sproc_def)

lemma sproc_post: "h \<noteq> Default \<Longrightarrow> pend \<in> {[], [SIGCHLD]} \<Longrightarrow> post SIGCHLD (sproc h n pend sv x) = sproc h n [SIGCHLD] sv x"
  by (auto simp: post_def)

lemma sproc_deliverable:
  "deliverable (sproc h n [] sv x) = []" "deliverable (sproc h n [SIGCHLD] [] x) = [SIGCHLD]"
  "pend \<in> {[], [SIGCHLD]} \<Longrightarrow> deliverable (sproc h n pend [(SIGCHLD, y)] x) = []"
  by (auto simp: deliverable_def sproc_def)

lemma sleeper_fork: "sleeper ((sproc h n pend [] x)\<lparr>code := sleeps i, parent := main_pid, pending := []\<rparr>)"
  by (simp add: sleeper_def sleeps_def deliverable_def)

text \<open>The children \<open>R\<close> are running, \<open>Z\<close> have ended and have not been reaped.\<close>

definition sleeping :: "nat set \<Rightarrow> nat set \<Rightarrow> (nat \<Rightarrow> entry option) \<Rightarrow> nat \<Rightarrow> bool" where
  "sleeping R Z E c \<longleftrightarrow> R \<subseteq> {..<c} \<and> Z \<subseteq> {..<c} \<and> R \<inter> Z = {} \<and> (\<forall>i \<in> R. \<exists>s. E i = Some (Run s) \<and> sleeper s)
     \<and> (\<forall>i \<in> Z. E i = Some (Zombie main_pid (Exited 0))) \<and> (\<forall>i < c. i \<notin> R \<union> Z \<longrightarrow> E i = None)"

lemma sleeping_finite: "sleeping R Z E c \<Longrightarrow> finite R \<and> finite Z"
  unfolding sleeping_def by (meson finite_lessThan rev_finite_subset)

lemma sleeping_some:
  assumes S: "sleeping R Z E c"
  shows "(\<exists>i < c. E i \<noteq> None) \<longleftrightarrow> R \<union> Z \<noteq> {}"
proof -
  have "E i \<noteq> None \<longleftrightarrow> i \<in> R \<union> Z" if "i < c" for i using S that unfolding sleeping_def by force
  moreover have "i < c" if "i \<in> R \<union> Z" for i using S that unfolding sleeping_def by blast
  ultimately show ?thesis by blast
qed

lemma sleeping_fork: "sleeping R Z E c \<Longrightarrow> sleeper s \<Longrightarrow> sleeping (insert c R) Z (E(c := Some (Run s))) (Suc c)"
  unfolding sleeping_def by (auto simp: less_Suc_eq)

lemma sleeping_exit: "sleeping R Z E c \<Longrightarrow> i \<in> R \<Longrightarrow> sleeping (R - {i}) (insert i Z) (E(i := Some (Zombie main_pid (Exited 0)))) c"
  unfolding sleeping_def by auto

lemma sleeping_wake: "sleeping R Z E c \<Longrightarrow> i \<in> R \<Longrightarrow> sleeper s \<Longrightarrow> sleeping R Z (E(i := Some (Run s))) c"
  unfolding sleeping_def by auto

lemma sleeping_reap: "sleeping R Z E c \<Longrightarrow> i \<in> Z \<Longrightarrow> sleeping R (Z - {i}) (E(i := None)) c"
  unfolding sleeping_def by auto

text \<open>The actions of the children.\<close>

lemma family_child_sleep:
  assumes f: "family r E c k" and i: "i < c" "E i = Some (Run s)" "deliverable s = []" "code s = Sleep x"
  shows "family r (E(i := Some (Run (s\<lparr>code := x\<rparr>)))) c (kstep (child_pid i, q) k)" "printed (kstep (child_pid i, q) k) = printed k"
proof -
  have s: "table k (child_pid i) = Some (Run s)" "parent s = main_pid" using family_kids [OF f i(1)] i(2) by simp_all
  then have k: "kstep (child_pid i, q) k = continue (child_pid i) s x k" using i by (simp add: kstep_def act.simps)
  show "family r (E(i := Some (Run (s\<lparr>code := x\<rparr>)))) c (kstep (child_pid i, q) k)" unfolding k
    by (rule family_child [OF f i(1)]) (simp_all add: s continue_def set_entry_def)
  show "printed (kstep (child_pid i, q) k) = printed k" unfolding k by (simp add: continue_def set_entry_def)
qed

text \<open>A child does one action: it wakes up, or it ends.\<close>

lemma sleeping_child:
  assumes f: "family (sproc h n pend sv x) E c k" and S: "sleeping R Z E c" and h: "h \<noteq> Default" "pend \<in> {[], [SIGCHLD]}" and i: "i \<in> R"
  shows "(\<exists>s. E i = Some (Run s) \<and> code s = Sleep (Exit 0)) \<and> (\<exists>s. code s = Exit 0 \<and> sleeping R Z (E(i := Some (Run s))) c \<and> family (sproc h n pend sv x) (E(i := Some (Run s))) c (kstep (child_pid i, q) k))
      \<and> printed (kstep (child_pid i, q) k) = printed k
    \<or> family (sproc h n [SIGCHLD] sv x) (E(i := Some (Zombie main_pid (Exited 0)))) c (kstep (child_pid i, q) k)
      \<and> printed (kstep (child_pid i, q) k) = printed k"
proof -
  obtain s where s: "E i = Some (Run s)" "sleeper s" and c: "i < c" using S i unfolding sleeping_def by blast
  from s(2) consider "deliverable s = []" "cleanups s = 0" "code s = Sleep (Exit 0)" | "deliverable s = []" "cleanups s = 0" "code s = Exit 0"
    unfolding sleeper_def by auto
  then show ?thesis
  proof cases
    case 1
    have "sleeper (s\<lparr>code := Exit 0\<rparr>)" using s(2) by (simp add: sleeper_def deliverable_def)
    note w = sleeping_wake [OF S i this] family_child_sleep [OF f c s(1) 1(1,3), of q]
    have "code (s\<lparr>code := Exit 0\<rparr>) = Exit 0" by simp
    then show ?thesis using w s(1) 1(3) by blast
  next
    case 2
    show ?thesis using family_child_exit [OF f c s(1) 2(3,1,2), of q] sproc_post [OF h, of n sv x] by simp
  qed
qed

lemma sleeping_idle:
  assumes f: "family r E c k" and S: "sleeping R Z E c" and p: "p \<noteq> main_pid" "p \<notin> child_pid ` R"
  shows "kstep (p, q) k = k"
proof (cases rule: pid_cases [where p = p and c = c])
  case (child i)
  then have "i \<notin> R" using p(2) by blast
  then have "E i \<noteq> Some (Run s)" for s using S child(2) unfolding sleeping_def by (cases "i \<in> Z") auto
  then show ?thesis using family_child_idle [OF f child(2)] child(1) by blast
qed (use p family_idle [OF f] in auto)

text \<open>The first two actions of both functions.\<close>

definition create :: "nat \<Rightarrow> prog" where
  "create c = fork_children sleeps [c..<N] (map child_pid [0..<c]) (\<lambda>pids. SpinC (Exit 0))"

lemma create_N: "create N = SpinC (Exit 0)"
  by (simp add: create_def)

lemma forks_main_14: "forks_main u pgrp (Some 14) = SetC (int N) (Install SIGCHLD ChildHandler (create 0))"
  by (simp add: forks_main_def fork14_def create_def sleeps_def [abs_def])

lemma forks_main_15: "forks_main u pgrp (Some 15) = SetC (int N) (Install SIGCHLD ChildHandler2 (create 0))"
  by (simp add: forks_main_def fork15_def create_def sleeps_def [abs_def])

definition set_state :: "handler \<Rightarrow> kernel" where
  "set_state h = (boot (Install SIGCHLD h (create 0)))\<lparr>table := [main_pid \<mapsto> Run ((plain (Install SIGCHLD h (create 0)))\<lparr>ccount := int N\<rparr>)]\<rparr>"

definition installed :: "handler \<Rightarrow> kernel" where
  "installed h = (boot (create 0))\<lparr>table := [main_pid \<mapsto> Run (sproc h (int N) [] [] (create 0))]\<rparr>"

lemma kstep_SetC: "kstep (p, q) (boot (SetC (int N) (Install SIGCHLD h (create 0))))
    = (if p = main_pid then set_state h else boot (SetC (int N) (Install SIGCHLD h (create 0))))"
  by (simp add: kstep_def boot_def deliverable_def act.simps continue_def set_entry_def set_state_def plain_def)

lemma kstep_Install: "kstep (p, q) (set_state h) = (if p = main_pid then installed h else set_state h)"
  by (simp add: kstep_def boot_def deliverable_def act.simps continue_def set_entry_def set_state_def plain_def installed_def sproc_def)

lemma installed_family: "family (sproc h (int N) [] [] (create 0)) E 0 (installed h)"
  by (auto simp: installed_def family_def boot_def child_pid_def)

lemma family_create:
  assumes f: "family (sproc h n [] [] (create c)) E c k" and c: "c < N"
  shows "\<exists>s. sleeper s \<and> code s = Sleep (Exit 0) \<and> family (sproc h n [] [] (create (Suc c))) (E(c := Some (Run s))) (Suc c) (kstep (main_pid, q) k)
    \<and> printed (kstep (main_pid, q) k) = printed k"
proof -
  note sp = family_spawn [OF f _ _ c, where ch = sleeps and q = q, unfolded sproc_simps create_def sproc_deliverable, OF refl refl]
  let ?s = "(sproc h n [] [] (create c))\<lparr>code := sleeps c, parent := main_pid, pending := []\<rparr>"
  have "sleeper ?s" "code ?s = Sleep (Exit 0)" using sleeper_fork by (simp_all add: sleeps_def)
  then show ?thesis using sp [folded create_def] by auto
qed

section \<open>\<open>fork14\<close>\<close>

text \<open>The line that the handlers print.\<close>

definition reap_line :: "nat \<Rightarrow> string \<times> int list" where
  "reap_line i = (''Handler reaped child '', [int (child_pid i)])"

text \<open>The main process creates the children, all of them end, the handler is called once.\<close>

lemma fork14_created:
  "c \<le> N \<Longrightarrow> \<exists>k E. (\<exists>sched. krun sched (installed h) = k) \<and> family (sproc h (int N) [] [] (create c)) E c k \<and> sleeping {..<c} {} E c \<and> printed k = []"
proof (induction c)
  case 0
  have "sleeping {} {} (\<lambda>_. None) 0" by (simp add: sleeping_def)
  moreover have "krun [] (installed h) = installed h" "printed (installed h) = []" by (simp_all add: installed_def boot_def)
  ultimately show ?case using installed_family unfolding lessThan_0 by blast
next
  case (Suc c)
  then obtain sched k E where k: "krun sched (installed h) = k" "family (sproc h (int N) [] [] (create c)) E c k" "sleeping {..<c} {} E c" "printed k = []" by auto
  obtain s where s: "sleeper s" "family (sproc h (int N) [] [] (create (Suc c))) (E(c := Some (Run s))) (Suc c) (kstep (main_pid, 0) k)"
    "printed (kstep (main_pid, 0) k) = []" using family_create [OF k(2), of 0] Suc.prems k(4) by auto
  have "krun (sched @ [(main_pid, 0)]) (installed h) = kstep (main_pid, 0) k" using k(1) by simp
  moreover have "sleeping {..<Suc c} {} (E(c := Some (Run s))) (Suc c)" using sleeping_fork [OF k(3) s(1)] by (simp add: lessThan_Suc)
  ultimately show ?case using s(2,3) by blast
qed

lemma child_ends:
  assumes f: "family (sproc h n pend sv x) E c k" and S: "sleeping R Z E c" and h: "h \<noteq> Default" "pend \<in> {[], [SIGCHLD]}" and i: "i \<in> R"
  shows "\<exists>sched E'. family (sproc h n [SIGCHLD] sv x) E' c (krun sched k) \<and> sleeping (R - {i}) (insert i Z) E' c \<and> printed (krun sched k) = printed k"
proof -
  let ?z = "Some (Zombie main_pid (Exited 0))"
  note e = sleeping_exit [OF S i]
  from sleeping_child [OF f S h i, of 0] show ?thesis
  proof (elim disjE conjE exE)
    fix s s'
    assume "code s' = Exit 0" and S': "sleeping R Z (E(i := Some (Run s'))) c"
      and f': "family (sproc h n pend sv x) (E(i := Some (Run s'))) c (kstep (child_pid i, 0) k)" and p: "printed (kstep (child_pid i, 0) k) = printed k"
    then have "family (sproc h n [SIGCHLD] sv x) (E(i := ?z)) c (krun [(child_pid i, 0), (child_pid i, 0)] k)
        \<and> printed (krun [(child_pid i, 0), (child_pid i, 0)] k) = printed k"
      using sleeping_child [OF f' S' h i, of 0] by auto
    then show ?thesis using e by blast
  next
    assume "family (sproc h n [SIGCHLD] sv x) (E(i := ?z)) c (kstep (child_pid i, 0) k)" "printed (kstep (child_pid i, 0) k) = printed k"
    then have "family (sproc h n [SIGCHLD] sv x) (E(i := ?z)) c (krun [(child_pid i, 0)] k) \<and> printed (krun [(child_pid i, 0)] k) = printed k" by simp
    then show ?thesis using e by blast
  qed
qed

lemma children_end:
  assumes "finite R" "family (sproc h n pend sv x) E c k" "sleeping R Z E c" "h \<noteq> Default" "pend \<in> {[], [SIGCHLD]}"
  shows "\<exists>sched E'. family (sproc h n (if R = {} then pend else [SIGCHLD]) sv x) E' c (krun sched k) \<and> sleeping {} (R \<union> Z) E' c
    \<and> printed (krun sched k) = printed k"
  using assms
proof (induction R arbitrary: Z E k pend rule: finite_induct)
  case empty
  have "krun [] k = k" by simp
  then show ?case using empty by (metis Un_empty_left)
next
  case (insert i R)
  obtain sched E' where s: "family (sproc h n [SIGCHLD] sv x) E' c (krun sched k)" "sleeping R (insert i Z) E' c" "printed (krun sched k) = printed k"
    using child_ends [OF insert.prems, of i] insert.hyps by auto
  obtain sched' E'' where s': "family (sproc h n [SIGCHLD] sv x) E'' c (krun sched' (krun sched k))" "sleeping {} (R \<union> insert i Z) E'' c"
    "printed (krun sched' (krun sched k)) = printed k" using insert.IH [OF s(1,2)] insert.prems(3) s(3) by auto
  then have "family (sproc h n [SIGCHLD] sv x) E'' c (krun (sched @ sched') k)" "printed (krun (sched @ sched') k) = printed k" by simp_all
  then show ?case using s'(2) by (intro exI [of _ "sched @ sched'"] exI [of _ E'']) simp
qed

text \<open>The actions of the main process that concern nobody else.\<close>

lemma main_deliver:
  assumes f: "family (sproc h n [SIGCHLD] [] x) E c k" and h: "h \<noteq> Default"
  shows "family (sproc h n [] [(SIGCHLD, x)] (handler_code h)) E c (kstep (main_pid, q) k)" "printed (kstep (main_pid, q) k) = printed k"
proof -
  have "kstep (main_pid, q) k = continue main_pid (sproc h n [] [(SIGCHLD, x)] x) (handler_code h) k"
    using f h by (simp add: kstep_def family_def sproc_deliverable deliver_def)
  then show "family (sproc h n [] [(SIGCHLD, x)] (handler_code h)) E c (kstep (main_pid, q) k)" "printed (kstep (main_pid, q) k) = printed k"
    using family_continue [OF f, of "sproc h n [] [(SIGCHLD, x)] x" "handler_code h"] by simp_all
qed

lemma main_say:
  assumes "family r E c k" "parent r' = init_pid"
  shows "family (r'\<lparr>code := x\<rparr>) E c (continue main_pid r' x (say s xs k))" "printed (continue main_pid r' x (say s xs k)) = printed k @ [(s, xs)]"
  using family_main [OF assms(1), of "r'\<lparr>code := x\<rparr>"] assms(2) by (simp_all add: continue_def set_entry_def say_def)

lemma handler_acts:
  assumes f: "family (sproc h n pend [(SIGCHLD, y)] x) E c k" and p: "pend \<in> {[], [SIGCHLD]}"
  shows "x = DecC z \<Longrightarrow> family (sproc h (n - 1) pend [(SIGCHLD, y)] z) E c (kstep (main_pid, q) k) \<and> printed (kstep (main_pid, q) k) = printed k"
    "x = Print s xs z \<Longrightarrow> family (sproc h n pend [(SIGCHLD, y)] z) E c (kstep (main_pid, q) k) \<and> printed (kstep (main_pid, q) k) = printed k @ [(s, xs)]"
    "x = Sleep z \<Longrightarrow> family (sproc h n pend [(SIGCHLD, y)] z) E c (kstep (main_pid, q) k) \<and> printed (kstep (main_pid, q) k) = printed k"
    "x = Return \<Longrightarrow> family (sproc h n pend [] y) E c (kstep (main_pid, q) k) \<and> printed (kstep (main_pid, q) k) = printed k"
    "x = Again \<Longrightarrow> family (sproc h n pend [(SIGCHLD, y)] (handler_code h)) E c (kstep (main_pid, q) k) \<and> printed (kstep (main_pid, q) k) = printed k"
    "x = Wait g \<Longrightarrow> \<not> (\<exists>i < c. E i \<noteq> None) \<Longrightarrow> family (sproc h n pend [(SIGCHLD, y)] (g None)) E c (kstep (main_pid, q) k) \<and> printed (kstep (main_pid, q) k) = printed k"
    "x = Wait g \<Longrightarrow> \<exists>i < c. E i \<noteq> None \<Longrightarrow> kstep (main_pid, q) k = reap main_pid (sproc h n pend [(SIGCHLD, y)] x) q g k"
  using family_act [OF f, of q] sproc_deliverable(3) [OF p] family_has_children [OF f]
    family_continue [OF f, of "sproc h (n - 1) pend [(SIGCHLD, y)] x" z] family_continue [OF f, of "sproc h n pend [(SIGCHLD, y)] x"]
    family_continue [OF f, of "sproc h n pend [] x" y] main_say [OF f, of "sproc h n pend [(SIGCHLD, y)] x" z s xs]
  by (simp_all add: act.simps) auto

lemma handler_reaps:
  assumes f: "family (sproc h n pend [(SIGCHLD, y)] (Wait g)) E c k" and p: "pend \<in> {[], [SIGCHLD]}" and S: "sleeping R Z E c"
  shows "i \<in> Z \<Longrightarrow> q = child_pid i \<Longrightarrow> family (sproc h n pend [(SIGCHLD, y)] (g (Some (child_pid i, Exited 0)))) (E(i := None)) c (kstep (main_pid, q) k)
      \<and> printed (kstep (main_pid, q) k) = printed k"
    "q \<notin> child_pid ` Z \<Longrightarrow> R \<union> Z \<noteq> {} \<Longrightarrow> kstep (main_pid, q) k = k"
proof -
  have k: "kstep (main_pid, q) k = reap main_pid (sproc h n pend [(SIGCHLD, y)] (Wait g)) q g k" if "R \<union> Z \<noteq> {}"
    using handler_acts(7) [OF f p refl] sleeping_some [OF S] that by blast
  show "family (sproc h n pend [(SIGCHLD, y)] (g (Some (child_pid i, Exited 0)))) (E(i := None)) c (kstep (main_pid, q) k)
      \<and> printed (kstep (main_pid, q) k) = printed k" if i: "i \<in> Z" "q = child_pid i"
  proof -
    have "E i = Some (Zombie main_pid (Exited 0))" "i < c" "R \<union> Z \<noteq> {}" using S i(1) by (auto simp: sleeping_def)
    then show ?thesis using family_reap [OF f, of i "Exited 0" g] k i(2) by simp
  qed
  show "kstep (main_pid, q) k = k" if q: "q \<notin> child_pid ` Z" and ne: "R \<union> Z \<noteq> {}"
  proof -
    have "E i \<noteq> Some (Zombie main_pid w)" if "i < c" "q = child_pid i" for i w
    proof -
      have "i \<notin> Z" using q that(2) by blast
      then show ?thesis using S that(1) unfolding sleeping_def by (cases "i \<in> R") auto
    qed
    then show ?thesis using family_no_reap [OF f] k [OF ne] by simp
  qed
qed

text \<open>Nobody can do anything: the main process spins and no child runs.\<close>

lemma stuck:
  assumes f: "family (sproc h n [] [] (SpinC x)) E c k" and "0 < n" "sleeping {} Z E c"
  shows "krun rest k = k" "\<not> all_ended k"
proof -
  have "kstep (p, q) k = k" for p q
    using sleeping_idle [OF f assms(3), of p q] family_act [OF f, of q] assms(2) sproc_deliverable(1)
    by (cases "p = main_pid") (auto simp: act.simps)
  then have "kstep e k = k" for e by (cases e) simp
  then show "krun rest k = k" by (induction rest) simp_all
  show "\<not> all_ended k" using f by (auto simp: family_def all_ended_def list_all_iff intro!: bexI [of _ main_pid])
qed

text \<open>
  Liveness. \<open>forks 14\<close> can hang: when all children end before the first \<open>SIGCHLD\<close> is delivered, the handler
  is called once and reaps one child, and then the parent spins for ever, as no action of any process
  changes the state any more.
\<close>

theorem fork14_hangs:
  "\<exists>sched. let k = krun sched (boot (forks_main u pgrp (Some 14))) in
     \<not> all_ended k \<and> (\<exists>i. printed k = [reap_line i]) \<and> (\<forall>rest. krun rest k = k)"
proof -
  obtain k1 E1 s1 where k1: "krun s1 (installed ChildHandler) = k1" "family (sproc ChildHandler (int N) [] [] (create N)) E1 N k1"
    "sleeping {..<N} {} E1 N" "printed k1 = []" using fork14_created [of N ChildHandler] by blast
  obtain s2 E2 where k2: "family (sproc ChildHandler (int N) [SIGCHLD] [] (create N)) E2 N (krun s2 k1)" "sleeping {} {..<N} E2 N" "printed (krun s2 k1) = []"
    using children_end [OF _ k1(2,3)] k1(4) by (auto simp: N_def lessThan_empty_iff)
  let ?k2 = "krun s2 k1" and ?m = "(main_pid, child_pid 0)"
  let ?k3 = "kstep ?m ?k2" and ?sv = "[(SIGCHLD, create N)]" and ?E = "E2(0 := None)"
  have k3: "family (sproc ChildHandler (int N) [] ?sv child_handler) E2 N ?k3" "printed ?k3 = []"
    using main_deliver [OF k2(1)] k2(3) by simp_all
  have "0 \<in> {..<N}" by (simp add: N_def)
  from handler_reaps(1) [OF k3(1) [unfolded child_handler_def] _ k2(2) this refl]
  have k4: "family (sproc ChildHandler (int N) [] ?sv (DecC (Print ''Handler reaped child '' [int (child_pid 0)] (Sleep Return)))) ?E N (kstep ?m ?k3)"
    "printed (kstep ?m ?k3) = []" using k3(2) by simp_all
  let ?k5 = "kstep ?m (kstep ?m ?k3)"
  have k5: "family (sproc ChildHandler (int N - 1) [] ?sv (Print ''Handler reaped child '' [int (child_pid 0)] (Sleep Return))) ?E N ?k5" "printed ?k5 = []"
    using handler_acts(1) [OF k4(1) _ refl] k4(2) by simp_all
  let ?k6 = "kstep ?m ?k5"
  have k6: "family (sproc ChildHandler (int N - 1) [] ?sv (Sleep Return)) ?E N ?k6" "printed ?k6 = [reap_line 0]"
    using handler_acts(2) [OF k5(1) _ refl] k5(2) by (simp_all add: reap_line_def)
  let ?k7 = "kstep ?m ?k6"
  have k7: "family (sproc ChildHandler (int N - 1) [] ?sv Return) ?E N ?k7" "printed ?k7 = [reap_line 0]"
    using handler_acts(3) [OF k6(1) _ refl] k6(2) by simp_all
  let ?k8 = "kstep ?m ?k7"
  have k8: "family (sproc ChildHandler (int N - 1) [] [] (SpinC (Exit 0))) ?E N ?k8" "printed ?k8 = [reap_line 0]"
    using handler_acts(4) [OF k7(1) _ refl] k7(2) by (simp_all add: create_N)
  have "sleeping {} ({..<N} - {0}) ?E N" using sleeping_reap [OF k2(2) \<open>0 \<in> {..<N}\<close>] .
  note st = stuck [OF k8(1) _ this]
  have "krun ([?m, ?m] @ s1 @ s2 @ replicate 6 ?m) (boot (forks_main u pgrp (Some 14))) = ?k8"
    by (simp add: forks_main_14 kstep_SetC kstep_Install k1(1) numeral_eq_Suc)
  then show ?thesis using st k8(2) unfolding Let_def by (metis N_def of_nat_numeral diff_gt_0_iff_gt one_less_numeral_iff semiring_norm(77))
qed

section \<open>\<open>fork15\<close>\<close>

text \<open>
  The code \<open>x\<close> of the main process outside the handler, when \<open>c\<close> children have been created and \<open>S\<close> have
  not been reaped; and what the process is doing: it runs this code, or the handler, with the child \<open>J\<close>
  reaped and not yet reported on and the counter off by \<open>d\<close>.  The last argument bounds the actions left.
\<close>

inductive base15 :: "nat \<Rightarrow> nat set \<Rightarrow> prog \<Rightarrow> nat \<Rightarrow> bool" where
  create: "c \<le> N \<Longrightarrow> base15 c S (create c) 1"
| exit: "base15 N {} (Exit 0) 0"

inductive mode15 :: "prog \<Rightarrow> nat set \<Rightarrow> nat set \<Rightarrow> signal list \<Rightarrow> nat set \<Rightarrow> int \<Rightarrow> (signal \<times> prog) list \<Rightarrow> prog \<Rightarrow> nat \<Rightarrow> bool" where
  main: "Z \<noteq> {} \<longrightarrow> pend \<noteq> [] \<Longrightarrow> mode15 y R Z pend {} 0 [] y 0"
| wait: "mode15 y R Z pend {} 0 [(SIGCHLD, y)] child_handler2 3"
| dec: "mode15 y R Z pend {j} 0 [(SIGCHLD, y)] (DecC (Print (fst (reap_line j)) (snd (reap_line j)) Again)) 6"
| report: "mode15 y R Z pend {j} (- 1) [(SIGCHLD, y)] (Print (fst (reap_line j)) (snd (reap_line j)) Again) 5"
| again: "mode15 y R Z pend {} 0 [(SIGCHLD, y)] Again 4"
| return: "R \<union> Z = {} \<Longrightarrow> mode15 y R Z pend {} 0 [(SIGCHLD, y)] Return 2"

definition reaped15 :: "nat list \<Rightarrow> nat \<Rightarrow> nat set \<Rightarrow> nat set \<Rightarrow> bool" where
  "reaped15 D c S J \<longleftrightarrow> distinct D \<and> J \<subseteq> {..<c} - S \<and> set D = {..<c} - S - J"

definition live15 :: "nat \<Rightarrow> kernel \<Rightarrow> bool" where
  "live15 m k \<longleftrightarrow> (\<exists>x y sv pend J d a b c R Z E D. family (sproc ChildHandler2 (int N - int (length D) + d) pend sv x) E c k
     \<and> sleeping R Z E c \<and> pend \<in> {[], [SIGCHLD]} \<and> base15 c (R \<union> Z) y b \<and> mode15 y R Z pend J d sv x a
     \<and> reaped15 D c (R \<union> Z) J \<and> printed k = map reap_line D
     \<and> 20 * (N - c) + 9 * card R + 4 * card Z + 4 * length pend + a + b < m)"

definition over15 :: "kernel \<Rightarrow> bool" where
  "over15 k \<longleftrightarrow> table k = Map.empty \<and> (\<exists>D. distinct D \<and> set D = {..<N} \<and> printed k = map reap_line D)"

lemma live15I:
  "family (sproc ChildHandler2 n pend sv x) E c k \<Longrightarrow> sleeping R Z E c \<Longrightarrow> pend \<in> {[], [SIGCHLD]} \<Longrightarrow> base15 c (R \<union> Z) y b
   \<Longrightarrow> mode15 y R Z pend J d sv x a \<Longrightarrow> reaped15 D c (R \<union> Z) J \<Longrightarrow> printed k = map reap_line D
   \<Longrightarrow> n = int N - int (length D) + d \<Longrightarrow> 20 * (N - c) + 9 * card R + 4 * card Z + 4 * length pend + a + b < m \<Longrightarrow> live15 m k"
  unfolding live15_def by blast

text \<open>A signal may arrive in every mode; a child may end in every mode.\<close>

lemma mode15_signal: "mode15 y R Z pend J d sv x a \<Longrightarrow> i \<in> R \<Longrightarrow> mode15 y (R - {i}) (insert i Z) [SIGCHLD] J d sv x a"
  by (erule mode15.cases) (auto intro: mode15.intros)

lemma child_step15:
  assumes f: "family (sproc ChildHandler2 n pend sv x) E c k" "sleeping R Z E c" "pend \<in> {[], [SIGCHLD]}" "base15 c (R \<union> Z) y b"
    "mode15 y R Z pend J d sv x a" "reaped15 D c (R \<union> Z) J" "printed k = map reap_line D" "n = int N - int (length D) + d"
    and m: "20 * (N - c) + 9 * card R + 4 * card Z + 4 * length pend + a + b \<le> m" and i: "i \<in> R"
  shows "live15 (Suc m) (kstep (child_pid i, q) k)" "\<exists>sched. live15 m (krun sched k)"
proof -
  have fin: "finite R" "finite Z" "i \<notin> Z" using sleeping_finite [OF f(2)] f(2) i by (auto simp: sleeping_def)
  have u: "R - {i} \<union> insert i Z = R \<union> Z" using i by auto
  have card: "9 * card (R - {i}) + 4 * card (insert i Z) + 5 = 9 * card R + 4 * card Z" using fin card_Suc_Diff1 [OF fin(1) i] by simp
  have h: "ChildHandler2 \<noteq> Default" by simp
  have ended: "live15 m k'" if "family (sproc ChildHandler2 n [SIGCHLD] sv x) E' c k'" "sleeping (R - {i}) (insert i Z) E' c" "printed k' = printed k" for k' E'
    by (rule live15I [OF that(1,2) _ _ mode15_signal [OF f(5) i] _ _ f(8)]) (use f(4,6,7) that(3) m card u in \<open>auto simp: u\<close>)
  show "\<exists>sched. live15 m (krun sched k)" using child_ends [OF f(1,2) h f(3) i] ended by blast
  from sleeping_child [OF f(1,2) h f(3) i, of q] show "live15 (Suc m) (kstep (child_pid i, q) k)"
  proof (elim disjE conjE exE)
    fix s
    assume "sleeping R Z (E(i := Some (Run s))) c" "family (sproc ChildHandler2 n pend sv x) (E(i := Some (Run s))) c (kstep (child_pid i, q) k)"
      "printed (kstep (child_pid i, q) k) = printed k"
    then show ?thesis using f(7) m by (intro live15I [OF _ _ f(3,4,5,6) _ f(8)]) auto
  next
    assume "family (sproc ChildHandler2 n [SIGCHLD] sv x) (E(i := Some (Zombie main_pid (Exited 0)))) c (kstep (child_pid i, q) k)"
      "printed (kstep (child_pid i, q) k) = printed k"
    then have "live15 m (kstep (child_pid i, q) k)" by (rule ended [OF _ sleeping_exit [OF f(2) i]])
    then show ?thesis unfolding live15_def by (meson less_Suc_eq)
  qed
qed

lemma reaped15_length:
  assumes "reaped15 D c S {}" "S \<subseteq> {..<c}"
  shows "length D + card S = c"
proof -
  have "length D = card ({..<c} - S)" using assms(1) unfolding reaped15_def by (metis Diff_empty distinct_card)
  then show ?thesis using assms(2) card_Diff_subset [OF finite_subset [OF assms(2)] assms(2)] card_mono [OF _ assms(2)] by simp
qed

lemma main_create15:
  assumes f: "family (sproc ChildHandler2 n [] [] (create c)) E c k" "sleeping R {} E c" and c: "c \<le> N"
    and D: "reaped15 D c R {}" "printed k = map reap_line D" "n = int N - int (length D)"
    and m: "20 * (N - c) + 9 * card R + 1 \<le> m"
  shows "kstep (main_pid, q) k = k \<and> R \<noteq> {} \<or> live15 m (kstep (main_pid, q) k)"
proof (cases "c = N")
  case False
  then have c: "c < N" using \<open>c \<le> N\<close> by simp
  obtain s where s: "sleeper s" "family (sproc ChildHandler2 n [] [] (create (Suc c))) (E(c := Some (Run s))) (Suc c) (kstep (main_pid, q) k)"
    "printed (kstep (main_pid, q) k) = printed k" using family_create [OF f(1) c, of q] by blast
  have R: "finite R" "c \<notin> R" using sleeping_finite [OF f(2)] f(2) by (auto simp: sleeping_def)
  have D': "reaped15 D (Suc c) (insert c R \<union> {}) {}" 
    using D(1) R(2) unfolding reaped15_def lessThan_Suc by (simp add: insert_Diff_if)
  have "live15 m (kstep (main_pid, q) k)"
    by (rule live15I [OF s(2) sleeping_fork [OF f(2) s(1)] _ base15.create mode15.main D']) (use s(3) D(2,3) c m R in auto)
  then show ?thesis ..
next
  case True
  have k: "kstep (main_pid, q) k = (if 0 < n then k else continue main_pid (sproc ChildHandler2 n [] [] (SpinC (Exit 0))) (Exit 0) k)"
    using family_act [OF f(1), of q] sproc_deliverable(1) True by (simp add: create_N act.simps)
  have l: "length D + card R = N" "finite R" using reaped15_length [OF D(1)] sleeping_finite [OF f(2)] f(2) True by (simp_all add: sleeping_def)
  show ?thesis
  proof (cases "R = {}")
    case False
    then have "length D < N" using l card_gt_0_iff [of R] by linarith
    then show ?thesis using k D(3) False by simp
  next
    case R: True
    then have n: "n = 0" using D(3) l by simp
    note g = family_continue [OF f(1), of "sproc ChildHandler2 n [] [] (SpinC (Exit 0))" "Exit 0"]
    have ks: "kstep (main_pid, q) k = continue main_pid (sproc ChildHandler2 n [] [] (SpinC (Exit 0))) (Exit 0) k" using k n by simp
    have g: "family (sproc ChildHandler2 n [] [] (Exit 0)) E c (kstep (main_pid, q) k)" "printed (kstep (main_pid, q) k) = map reap_line D"
      unfolding ks using g D(2) by simp_all
    have b: "base15 c (R \<union> {}) (Exit 0) 0" using base15.exit True R by simp
    have "live15 m (kstep (main_pid, q) k)"
      by (rule live15I [OF g(1) f(2) _ b mode15.main _ g(2)]) (use D m in auto)
    then show ?thesis ..
  qed
qed

lemma main_mode15:
  assumes f: "family (sproc ChildHandler2 n pend [] y) E c k" "sleeping R Z E c" "pend \<in> {[], [SIGCHLD]}" "base15 c (R \<union> Z) y b"
    "Z \<noteq> {} \<longrightarrow> pend \<noteq> []" "reaped15 D c (R \<union> Z) {}" "printed k = map reap_line D" "n = int N - int (length D)"
    and m: "20 * (N - c) + 9 * card R + 4 * card Z + 4 * length pend + b \<le> m"
  shows "kstep (main_pid, q) k = k \<and> R \<noteq> {} \<or> live15 m (kstep (main_pid, q) k) \<or> over15 (kstep (main_pid, q) k)"
proof (cases "pend = []")
  case False
  then have p: "pend = [SIGCHLD]" using f(3) by simp
  note d = main_deliver [OF f(1) [unfolded p], of q]
  have "live15 m (kstep (main_pid, q) k)"
    by (rule live15I [OF _ f(2) _ f(4) mode15.wait f(6)]) (use d f(7,8) m p in auto)
  then show ?thesis by blast
next
  case True
  then have Z: "Z = {}" using f(5) by blast
  from f(4) show ?thesis
  proof cases
    case create
    then show ?thesis using main_create15 [of n c E k R D m q] f m True Z by auto
  next
    case exit
    then have R: "R = {}" "\<forall>i < c. E i = None" using f(2) Z by (auto simp: sleeping_def)
    have "over15 (kstep (main_pid, q) k)"
      using family_exit [OF f(1), of 0 q] f(6,7) R exit True Z by (auto simp: over15_def reaped15_def sproc_deliverable)
    then show ?thesis by blast
  qed
qed

lemma child_handler2_wait: "\<exists>g. child_handler2 = Wait g \<and> g None = Return
    \<and> (\<forall>i. g (Some (child_pid i, Exited 0)) = DecC (Print (fst (reap_line i)) (snd (reap_line i)) Again))"
  by (simp add: child_handler2_def reap_line_def)

lemma wait_mode15:
  assumes f: "family (sproc ChildHandler2 n pend [(SIGCHLD, y)] child_handler2) E c k" "sleeping R Z E c" "pend \<in> {[], [SIGCHLD]}" "base15 c (R \<union> Z) y b"
    "reaped15 D c (R \<union> Z) {}" "printed k = map reap_line D" "n = int N - int (length D)"
    and m: "20 * (N - c) + 9 * card R + 4 * card Z + 4 * length pend + 3 + b \<le> m"
  shows "R \<union> Z = {} \<Longrightarrow> live15 m (kstep (main_pid, q) k)"
    "i \<in> Z \<Longrightarrow> q = child_pid i \<Longrightarrow> live15 m (kstep (main_pid, q) k)"
    "q \<notin> child_pid ` Z \<Longrightarrow> R \<union> Z \<noteq> {} \<Longrightarrow> kstep (main_pid, q) k = k"
proof -
  obtain g where g: "child_handler2 = Wait g" "g None = Return"
    "\<And>i. g (Some (child_pid i, Exited 0)) = DecC (Print (fst (reap_line i)) (snd (reap_line i)) Again)" using child_handler2_wait by blast
  note f1 = f(1) [unfolded g(1)]
  have fin: "finite Z" "R \<inter> Z = {}" using sleeping_finite [OF f(2)] f(2) by (auto simp: sleeping_def)
  show "kstep (main_pid, q) k = k" if "q \<notin> child_pid ` Z" "R \<union> Z \<noteq> {}" by (rule handler_reaps(2) [OF f1 f(3,2) that])
  show "live15 m (kstep (main_pid, q) k)" if e: "R \<union> Z = {}"
  proof -
    have "\<not> (\<exists>i < c. E i \<noteq> None)" using sleeping_some [OF f(2)] e by blast
    note h = handler_acts(6) [OF f1 f(3) refl this, of q, unfolded g(2)]
    show ?thesis
      by (rule live15I [OF conjunct1 [OF h] f(2,3,4) mode15.return [OF e] f(5)]) (use h f(6,7) m in auto)
  qed
  show "live15 m (kstep (main_pid, q) k)" if i: "i \<in> Z" "q = child_pid i"
  proof -
    note h = handler_reaps(1) [OF f1 f(3,2) i, unfolded g(3)]
    have u: "R \<union> (Z - {i}) = R \<union> Z - {i}" "i < c" using fin(2) i(1) f(2) by (auto simp: sleeping_def)
    have b: "base15 c (R \<union> (Z - {i})) y b" using f(4) i(1) by (auto elim: base15.cases intro: base15.intros)
    have D: "reaped15 D c (R \<union> (Z - {i})) {i}" using f(5) i(1) u(2) unfolding reaped15_def u(1) by auto
    show ?thesis
      by (rule live15I [OF conjunct1 [OF h] sleeping_reap [OF f(2) i(1)] f(3) b mode15.dec D])
        (use h f(6,7) m card_Suc_Diff1 [OF fin(1) i(1)] in auto)
  qed
qed

lemma main_step15:
  assumes f: "family (sproc ChildHandler2 n pend sv x) E c k" "sleeping R Z E c" "pend \<in> {[], [SIGCHLD]}" "base15 c (R \<union> Z) y b"
    "mode15 y R Z pend J d sv x a" "reaped15 D c (R \<union> Z) J" "printed k = map reap_line D" "n = int N - int (length D) + d"
    and m: "20 * (N - c) + 9 * card R + 4 * card Z + 4 * length pend + a + b \<le> m"
  shows "kstep (main_pid, q) k = k \<and> (R \<noteq> {} \<or> q \<notin> child_pid ` Z \<and> Z \<noteq> {}) \<or> live15 m (kstep (main_pid, q) k) \<or> over15 (kstep (main_pid, q) k)"
  using f(5)
proof cases
  case main
  then show ?thesis using main_mode15 [of n pend y E c k R Z b D m q] f m by auto
next
  case wait
  note w = wait_mode15 [OF f(1) [unfolded wait] f(2,3,4) f(6) [unfolded wait] f(7) _ m [unfolded wait]]
  show ?thesis using w(1) [of q] w(2) [of _ q] w(3) [of q] f(8) wait by (cases "q \<in> child_pid ` Z") auto
next
  case (dec j)
  note h = handler_acts(1) [OF f(1) [unfolded dec] f(3) refl, of q]
  have "live15 m (kstep (main_pid, q) k)"
    by (rule live15I [OF conjunct1 [OF h] f(2,3,4) mode15.report f(6) [unfolded dec]]) (use h f(7,8) m dec in auto)
  then show ?thesis by blast
next
  case (report j)
  note h = handler_acts(2) [OF f(1) [unfolded report] f(3) refl, of q]
  have j: "j < c" "j \<notin> R \<union> Z" "j \<notin> set D" "reaped15 D c (R \<union> Z) {j}" using f(6) report by (auto simp: reaped15_def)
  then have D: "reaped15 (D @ [j]) c (R \<union> Z) {}" unfolding reaped15_def by auto
  have "live15 m (kstep (main_pid, q) k)"
    by (rule live15I [OF conjunct1 [OF h] f(2,3,4) mode15.again D]) (use h f(7,8) m report in auto)
  then show ?thesis by blast
next
  case again
  note h = handler_acts(5) [OF f(1) [unfolded again] f(3) refl, of q, unfolded handler_code.simps]
  have "live15 m (kstep (main_pid, q) k)"
    by (rule live15I [OF conjunct1 [OF h] f(2,3,4) mode15.wait f(6) [unfolded again]]) (use h f(7,8) m again in auto)
  then show ?thesis by blast
next
  case return
  note h = handler_acts(4) [OF f(1) [unfolded return] f(3) refl, of q]
  have D: "reaped15 D c (R \<union> Z) {}" using f(6) return by simp
  have "live15 m (kstep (main_pid, q) k)"
    by (rule live15I [OF conjunct1 [OF h] f(2,3,4) mode15.main D]) (use h f(7,8) m return in auto)
  then show ?thesis by blast
qed

lemma live15_mono: "live15 m k \<Longrightarrow> m \<le> m' \<Longrightarrow> live15 m' k"
  unfolding live15_def by (meson order_less_le_trans)

lemma live15_step:
  assumes "live15 m k"
  shows "live15 m (kstep (p, q) k) \<or> over15 (kstep (p, q) k)"
proof -
  obtain x y sv pend J d a b c R Z E D where f: "family (sproc ChildHandler2 (int N - int (length D) + d) pend sv x) E c k" "sleeping R Z E c" "pend \<in> {[], [SIGCHLD]}"
    "base15 c (R \<union> Z) y b" "mode15 y R Z pend J d sv x a" "reaped15 D c (R \<union> Z) J" "printed k = map reap_line D"
    and m: "20 * (N - c) + 9 * card R + 4 * card Z + 4 * length pend + a + b < m" using assms unfolding live15_def by blast
  let ?m = "20 * (N - c) + 9 * card R + 4 * card Z + 4 * length pend + a + b"
  show ?thesis
  proof (cases "p = main_pid")
    case True
    then show ?thesis using main_step15 [OF f refl order.refl, of q] live15_mono [OF _ less_imp_le [OF m]] assms by auto
  next
    case False
    then show ?thesis using sleeping_idle [OF f(1,2) False, of q] child_step15(1) [OF f refl order.refl, of _ q] live15_mono [OF _ Suc_leI [OF m]] assms
      by (cases "p \<in> child_pid ` R") auto
  qed
qed

lemma live15_moves:
  assumes "live15 (Suc m) k"
  shows "\<exists>sched. live15 m (krun sched k) \<or> over15 (krun sched k)"
proof -
  obtain x y sv pend J d a b c R Z E D where f: "family (sproc ChildHandler2 (int N - int (length D) + d) pend sv x) E c k" "sleeping R Z E c" "pend \<in> {[], [SIGCHLD]}"
    "base15 c (R \<union> Z) y b" "mode15 y R Z pend J d sv x a" "reaped15 D c (R \<union> Z) J" "printed k = map reap_line D"
    and m: "20 * (N - c) + 9 * card R + 4 * card Z + 4 * length pend + a + b < Suc m" using assms unfolding live15_def by blast
  have m: "20 * (N - c) + 9 * card R + 4 * card Z + 4 * length pend + a + b \<le> m" using m by simp
  show ?thesis
  proof (cases "R = {}")
    case False
    then show ?thesis using child_step15(2) [OF f refl m] by blast
  next
    case True
    obtain q where "q \<in> child_pid ` Z \<or> Z = {}" by blast
    then have "live15 m (krun [(main_pid, q)] k) \<or> over15 (krun [(main_pid, q)] k)" using main_step15 [OF f refl m, of q] True by auto
    then show ?thesis by blast
  qed
qed

lemma over15_ended: "over15 k \<Longrightarrow> all_ended k"
  by (simp add: over15_def all_ended_def list_all_iff)

lemma live15_not_ended: "live15 m k \<Longrightarrow> \<not> all_ended k"
  unfolding live15_def family_def all_ended_def list_all_iff by (fastforce intro: bexI [of _ main_pid])

lemma live15_finish: "live15 m k \<Longrightarrow> \<exists>rest. all_ended (krun rest k)"
proof (induction m arbitrary: k)
  case 0
  then show ?case by (simp add: live15_def)
next
  case (Suc m)
  obtain sched where "live15 m (krun sched k) \<or> over15 (krun sched k)" using live15_moves [OF Suc.prems] by blast
  then obtain rest where "all_ended (krun rest (krun sched k))" using Suc.IH over15_ended by (metis krun_simps(1))
  then show ?case by (intro exI [of _ "sched @ rest"]) simp
qed

lemma live15_printed: "live15 m k \<Longrightarrow> \<exists>D. distinct D \<and> set D \<subseteq> {..<N} \<and> printed k = map reap_line D"
proof -
  assume "live15 m k"
  then obtain y b c S J D where "base15 c S y b" "reaped15 D c S J" "printed k = map reap_line D" unfolding live15_def by blast
  moreover from this(1) have "c \<le> N" by cases auto
  ultimately show ?thesis unfolding reaped15_def by (intro exI [of _ D]) auto
qed

text \<open>The two states before the first child is created lead to the others.\<close>

definition inv15 :: "kernel \<Rightarrow> bool" where
  "inv15 k \<longleftrightarrow> k = boot (SetC (int N) (Install SIGCHLD ChildHandler2 (create 0))) \<or> k = set_state ChildHandler2 \<or> (\<exists>m. live15 m k) \<or> over15 k"

lemma installed_live15: "\<exists>m. live15 m (installed ChildHandler2)"
proof -
  have "sleeping {} {} (\<lambda>_. None) 0" "reaped15 [] 0 ({} \<union> {}) {}" "printed (installed ChildHandler2) = map reap_line []"
    by (simp_all add: sleeping_def reaped15_def installed_def boot_def)
  then show ?thesis
    using live15I [OF installed_family, of "{}" "{}" "\<lambda>_. None" "create 0" 1 "{}" 0 0 "[]"] mode15.main [of "{}" "[]" "create 0" "{}"] base15.create [of 0 "{}"] by simp blast
qed

lemma inv15_run: "inv15 k \<Longrightarrow> inv15 (krun sched k)"
proof (induction sched arbitrary: k)
  case (Cons e sched)
  obtain p q where e: "e = (p, q)" by (cases e)
  have "inv15 (kstep (p, q) k)" using Cons.prems unfolding inv15_def
  proof (elim disjE exE)
    assume "k = set_state ChildHandler2"
    then show "kstep (p, q) k = boot (SetC (int N) (Install SIGCHLD ChildHandler2 (create 0))) \<or> kstep (p, q) k = set_state ChildHandler2
        \<or> (\<exists>m. live15 m (kstep (p, q) k)) \<or> over15 (kstep (p, q) k)"
      using installed_live15 by (simp add: kstep_Install)
  qed (use live15_step [of _ k p q] empty_kstep [of k e] e in \<open>auto simp: kstep_SetC over15_def\<close>)
  then show ?case using Cons.IH e by simp
qed simp

lemma inv15_finish: "inv15 k \<Longrightarrow> \<exists>rest. all_ended (krun rest k)"
proof -
  obtain rest where r: "all_ended (krun rest (installed ChildHandler2))" using installed_live15 live15_finish by blast
  have "all_ended (krun ((main_pid, 0) # rest) (set_state ChildHandler2))"
    "all_ended (krun ((main_pid, 0) # (main_pid, 0) # rest) (boot (SetC (int N) (Install SIGCHLD ChildHandler2 (create 0)))))"
    using r by (simp_all add: kstep_SetC kstep_Install)
  moreover have "over15 k \<Longrightarrow> all_ended (krun [] k)" using over15_ended by simp
  moreover assume "inv15 k"
  ultimately show ?thesis using live15_finish unfolding inv15_def by blast
qed

lemma inv15_printed:
  assumes "inv15 k"
  shows "\<exists>D. distinct D \<and> set D \<subseteq> {..<N} \<and> printed k = map reap_line D \<and> (all_ended k \<longrightarrow> set D = {..<N})"
  using assms unfolding inv15_def
proof (elim disjE exE)
  assume "over15 k"
  then show ?thesis unfolding over15_def by blast
next
  fix m assume "live15 m k"
  then show ?thesis using live15_printed live15_not_ended by blast
qed (auto simp: boot_def set_state_def all_ended_def intro!: exI [of _ "[]"])

text \<open>
  C18 (liveness). \<open>forks 15\<close> reaps every child, exactly once: in every interleaving of the six processes, the delivery of
  signals included, no line is printed twice, no other line is printed, all five have been printed
  when all processes have ended, and whatever has happened all processes can still end: no child is left behind.
\<close>

theorem fork15_reaps:
  "let k = krun sched (boot (forks_main u pgrp (Some 15))) in
     (\<exists>D. distinct D \<and> set D \<subseteq> {..<N} \<and> printed k = map reap_line D \<and> (all_ended k \<longrightarrow> set D = {..<N})) \<and> (\<exists>rest. all_ended (krun rest k))"
proof -
  have "inv15 (krun sched (boot (forks_main u pgrp (Some 15))))" by (rule inv15_run) (simp add: inv15_def forks_main_15)
  then show ?thesis unfolding Let_def by (intro conjI inv15_printed inv15_finish)
qed

theorem fork15_reaps_witness:
  "\<exists>sched D. all_ended (krun sched (boot (forks_main (Exited 0) 7 (Some 15)))) \<and> distinct D \<and> set D = {..<N}
     \<and> printed (krun sched (boot (forks_main (Exited 0) 7 (Some 15)))) = map reap_line D"
proof -
  obtain sched where "all_ended (krun sched (boot (forks_main (Exited 0) 7 (Some 15))))"
    using fork15_reaps [of "[]" "Exited 0" 7] unfolding Let_def krun_simps(1) by blast
  then show ?thesis using fork15_reaps [of sched "Exited 0" 7] unfolding Let_def by blast
qed

end
