(* ===== verification/Procmask.thy ===== *)
theory Procmask
  imports Family
begin

text \<open>
  \<open>15-ecf-signals/procmask1.c\<close> and \<open>procmask2.c\<close>: a parent adds its children to a job list and a handler of \<open>SIGCHLD\<close> deletes them.
  The functions of the job list are empty in the source; their calls are visible as lines.  The first \<open>n\<close> rounds of
  the endless loop are modelled, for every \<open>n\<close>; the child becomes another program, which ends.
\<close>

section \<open>The programs\<close>

definition mask_all :: "signal list" where "mask_all = [SIGINT, SIGCHLD]"

fun procmask1_rounds :: "nat \<Rightarrow> prog" where
  "procmask1_rounds 0 = Spin"
| "procmask1_rounds (Suc n) = Fork (\<lambda>pid. if pid = 0 then Exit 0
     else Sigmask (\<lambda>_. mask_all) (\<lambda>prev_all. Print ''addjob'' [int pid] (Sigmask (\<lambda>_. prev_all) (\<lambda>_. procmask1_rounds n))))"

definition procmask1_main :: "nat \<Rightarrow> prog" where
  "procmask1_main n = Install SIGCHLD JobHandler (procmask1_rounds n)"

fun procmask2_rounds :: "nat \<Rightarrow> prog" where
  "procmask2_rounds 0 = Spin"
| "procmask2_rounds (Suc n) = Sigmask (\<lambda>old. SIGCHLD # old) (\<lambda>prev_one. Fork (\<lambda>pid. if pid = 0 then Sigmask (\<lambda>_. prev_one) (\<lambda>_. Exit 0)
     else Sigmask (\<lambda>_. mask_all) (\<lambda>_. Print ''addjob'' [int pid] (Sigmask (\<lambda>_. prev_one) (\<lambda>_. procmask2_rounds n)))))"

definition procmask2_main :: "nat \<Rightarrow> prog" where
  "procmask2_main n = Install SIGCHLD JobHandler (procmask2_rounds n)"

text \<open>Every job that is deleted has been added before.\<close>

definition job_order :: "(string \<times> int list) list \<Rightarrow> bool" where
  "job_order out \<longleftrightarrow> list_all (\<lambda>j. fst (out ! j) = ''deletejob'' \<longrightarrow> (''addjob'', snd (out ! j)) \<in> set (take j out)) [0..<length out]"

lemma job_order_snoc: "job_order (out @ [(s, xs)]) \<longleftrightarrow> job_order out \<and> (s = ''deletejob'' \<longrightarrow> (''addjob'', xs) \<in> set out)"
  by (auto simp: job_order_def list_all_iff nth_append less_Suc_eq)

lemma job_order_Nil: "job_order []"
  by (simp add: job_order_def)

section \<open>The processes of \<open>procmask2\<close>\<close>

definition jproc :: "signal list \<Rightarrow> (signal \<times> prog) list \<Rightarrow> signal list \<Rightarrow> prog \<Rightarrow> process" where
  "jproc pend sv bl x = \<lparr>code = x, parent = init_pid, handlers = (\<lambda>_. Default)(SIGCHLD := JobHandler), pending = pend, saved = sv,
     blocked = bl, ccount = 0, cleanups = 0\<rparr>"

lemma jproc_simps [simp]: "code (jproc pend sv bl x) = x" "parent (jproc pend sv bl x) = init_pid" "saved (jproc pend sv bl x) = sv"
  "blocked (jproc pend sv bl x) = bl" "handlers (jproc pend sv bl x) SIGCHLD = JobHandler" "pending (jproc pend sv bl x) = pend"
  "(jproc pend sv bl x)\<lparr>code := y\<rparr> = jproc pend sv bl y" "(jproc pend sv bl x)\<lparr>blocked := bl', code := y\<rparr> = jproc pend sv bl' y"
  "(jproc pend sv bl x)\<lparr>saved := sv', code := y\<rparr> = jproc pend sv' bl y" "(jproc pend sv bl x)\<lparr>saved := sv'\<rparr> = jproc pend sv' bl x"
  "(jproc pend sv bl x)\<lparr>pending := pend', saved := sv', code := y\<rparr> = jproc pend' sv' bl y" "(jproc pend sv bl x)\<lparr>blocked := bl'\<rparr> = jproc pend sv bl' x"
  "(jproc pend sv bl x)\<lparr>pending := pend', saved := sv'\<rparr> = jproc pend' sv' bl x"
  by (simp_all add: jproc_def)

lemma jproc_post: "pend \<in> {[], [SIGCHLD]} \<Longrightarrow> post SIGCHLD (jproc pend sv bl x) = jproc [SIGCHLD] sv bl x"
  by (auto simp: post_def jproc_def)

definition masked :: "(signal \<times> prog) list \<Rightarrow> signal list \<Rightarrow> bool" where
  "masked sv bl \<longleftrightarrow> sv \<noteq> [] \<or> SIGCHLD \<in> set bl"

text \<open>A child: it restores its mask, runs the other program, and ends.\<close>

definition job_child :: "process \<Rightarrow> bool" where
  "job_child s \<longleftrightarrow> pending s = [] \<and> cleanups s = 0 \<and> (code s = Exit 0 \<or> (\<exists>f. code s = Sigmask f (\<lambda>_. Exit 0)))"

definition jobs :: "(nat \<Rightarrow> entry option) \<Rightarrow> nat \<Rightarrow> bool" where
  "jobs E c \<longleftrightarrow> (\<forall>i < c. E i = None \<or> (\<exists>s. E i = Some (Run s) \<and> job_child s) \<or> E i = Some (Zombie main_pid (Exited 0)))"

lemma jobs_upd: "jobs E c \<Longrightarrow> x = None \<or> (\<exists>s. x = Some (Run s) \<and> job_child s) \<or> x = Some (Zombie main_pid (Exited 0)) \<Longrightarrow> jobs (E(i := x)) c"
  by (auto simp: jobs_def)

lemma jobs_new: "jobs E c \<Longrightarrow> job_child s \<Longrightarrow> jobs (E(c := Some (Run s))) (Suc c)"
  by (auto simp: jobs_def less_Suc_eq)

text \<open>An action of a child does not concern the main process, except for the signal.\<close>

lemma jobs_child_step:
  assumes f: "family (jproc pend sv bl x) E c k" and j: "jobs E c" and p: "pend \<in> {[], [SIGCHLD]}" "p \<noteq> main_pid"
  shows "\<exists>E' pend'. family (jproc pend' sv bl x) E' c (kstep (p, q) k) \<and> jobs E' c \<and> pend' \<in> {[], [SIGCHLD]}" "printed (kstep (p, q) k) = printed k"
proof -
  have "(\<exists>E' pend'. family (jproc pend' sv bl x) E' c (kstep (p, q) k) \<and> jobs E' c \<and> pend' \<in> {[], [SIGCHLD]}) \<and> printed (kstep (p, q) k) = printed k"
  proof (cases rule: pid_cases [where p = p and c = c])
    case (child i)
    show ?thesis
    proof (cases "\<exists>s. E i = Some (Run s)")
      case False
      then have "kstep (p, q) k = k" using family_child_idle [OF f child(2)] child(1) by blast
      then show ?thesis using f j p by auto
    next
      case True
      then obtain s where s: "E i = Some (Run s)" by blast
      then have c: "job_child s" using j child(2) by (auto simp: jobs_def)
      then have d: "deliverable s = []" "cleanups s = 0" by (simp_all add: job_child_def deliverable_def)
      show ?thesis
      proof (cases "code s = Exit 0")
        case True
        show ?thesis using family_child_exit [OF f child(2) s True d, of q] jproc_post [OF p(1), of sv bl x] child(1)
            jobs_upd [OF j, of "Some (Zombie main_pid (Exited 0))" i] by auto
      next
        case False
        then obtain g where g: "code s = Sigmask g (\<lambda>_. Exit 0)" using c by (auto simp: job_child_def)
        let ?s = "s\<lparr>blocked := g (blocked s), code := Exit 0\<rparr>"
        have t: "table k (child_pid i) = Some (Run s)" "parent s = main_pid" using family_kids [OF f child(2)] s by simp_all
        have ks: "kstep (p, q) k = set_entry (child_pid i) (Run ?s) k" using t d g child(1) by (simp add: kstep_def act.simps continue_def)
        have "family (jproc pend sv bl x) (E(i := Some (Run ?s))) c (kstep (p, q) k)"
          unfolding ks by (rule family_child [OF f child(2)]) (simp_all add: t set_entry_def)
        moreover have "job_child ?s" using c by (simp add: job_child_def)
        then have "jobs (E(i := Some (Run ?s))) c" using jobs_upd [OF j] by blast
        ultimately show ?thesis using p(1) by (auto simp: ks set_entry_def)
      qed
    qed
  next
    case other
    then show ?thesis using family_idle [OF f] f j p by auto
  qed (use p in simp)
  then show "\<exists>E' pend'. family (jproc pend' sv bl x) E' c (kstep (p, q) k) \<and> jobs E' c \<and> pend' \<in> {[], [SIGCHLD]}" "printed (kstep (p, q) k) = printed k" by simp_all
qed

text \<open>The actions of the main process.\<close>

lemma job_deliver:
  assumes f: "family (jproc [SIGCHLD] [] [] x) E c k"
  shows "family (jproc [] [(SIGCHLD, x)] [] job_handler) E c (kstep (main_pid, q) k) \<and> printed (kstep (main_pid, q) k) = printed k"
proof -
  have "deliverable (jproc [SIGCHLD] [] [] x) = [SIGCHLD]" by (simp add: deliverable_def)
  then have "kstep (main_pid, q) k = continue main_pid (jproc [] [(SIGCHLD, x)] [] x) job_handler k"
    using f by (simp add: kstep_def family_def deliver_def)
  then show ?thesis using family_continue [OF f, of "jproc [] [(SIGCHLD, x)] [] x" job_handler] by simp
qed

lemma job_acts:
  assumes f: "family (jproc pend sv bl x) E c k" and p: "pend = [] \<or> pend = [SIGCHLD] \<and> masked sv bl" and sv: "sv = [] \<or> sv = [(SIGCHLD, y)]"
  shows "x = Sigmask g d \<Longrightarrow> family (jproc pend sv (g bl) (d bl)) E c (kstep (main_pid, q) k) \<and> printed (kstep (main_pid, q) k) = printed k"
    "x = Print s xs z \<Longrightarrow> family (jproc pend sv bl z) E c (kstep (main_pid, q) k) \<and> printed (kstep (main_pid, q) k) = printed k @ [(s, xs)]"
    "x = Return \<Longrightarrow> sv = [(SIGCHLD, y)] \<Longrightarrow> family (jproc pend [] bl y) E c (kstep (main_pid, q) k) \<and> printed (kstep (main_pid, q) k) = printed k"
    "x = Again \<Longrightarrow> sv = [(SIGCHLD, y)] \<Longrightarrow> family (jproc pend sv bl job_handler) E c (kstep (main_pid, q) k) \<and> printed (kstep (main_pid, q) k) = printed k"
    "x = Spin \<Longrightarrow> kstep (main_pid, q) k = k"
    "deliverable (jproc pend sv bl x) = []"
proof -
  show d: "deliverable (jproc pend sv bl x) = []" using p sv by (auto simp: deliverable_def masked_def)
  have k: "kstep (main_pid, q) k = act main_pid q (jproc pend sv bl x) x k" using family_act [OF f d] by simp
  show "family (jproc pend sv (g bl) (d bl)) E c (kstep (main_pid, q) k) \<and> printed (kstep (main_pid, q) k) = printed k" if "x = Sigmask g d"
    using family_continue [OF f, of "jproc pend sv (g bl) x" "d bl"] that k by (simp add: act.simps)
  have "family (jproc pend sv bl z) E c (continue main_pid (jproc pend sv bl x) z (say s xs k))"
    using family_main [OF f, of "jproc pend sv bl z"] by (simp add: continue_def set_entry_def say_def)
  then show "family (jproc pend sv bl z) E c (kstep (main_pid, q) k) \<and> printed (kstep (main_pid, q) k) = printed k @ [(s, xs)]" if "x = Print s xs z"
    using that k by (simp add: act.simps continue_def set_entry_def say_def)
  show "family (jproc pend [] bl y) E c (kstep (main_pid, q) k) \<and> printed (kstep (main_pid, q) k) = printed k" if "x = Return" "sv = [(SIGCHLD, y)]"
    using family_continue [OF f, of "jproc pend [] bl x" y] that k by (simp add: act.simps)
  show "family (jproc pend sv bl job_handler) E c (kstep (main_pid, q) k) \<and> printed (kstep (main_pid, q) k) = printed k" if "x = Again" "sv = [(SIGCHLD, y)]"
    using family_continue [OF f, of "jproc pend sv bl x" job_handler] that k by (simp add: act.simps)
  show "kstep (main_pid, q) k = k" if "x = Spin" using that k by (simp add: act.simps)
qed

section \<open>The invariant\<close>

definition adds :: "nat \<Rightarrow> string \<times> int list" where "adds i = (''addjob'', [int (child_pid i)])"

definition deletes :: "nat \<Rightarrow> string \<times> int list" where "deletes i = (''deletejob'', [int (child_pid i)])"

text \<open>The code of the parent after the fork of child \<open>i\<close>, and of the handler after it has reaped \<open>i\<close>.\<close>

definition add_code :: "nat \<Rightarrow> nat \<Rightarrow> prog" where
  "add_code i n = Print (fst (adds i)) (snd (adds i)) (Sigmask (\<lambda>_. []) (\<lambda>_. procmask2_rounds n))"

definition delete_code :: "nat \<Rightarrow> signal list \<Rightarrow> prog" where
  "delete_code i prev = Print (fst (deletes i)) (snd (deletes i)) (Sigmask (\<lambda>_. prev) (\<lambda>_. Again))"

definition fork_code :: "nat \<Rightarrow> pid \<Rightarrow> prog" where
  "fork_code n = (\<lambda>pid. if pid = 0 then Sigmask (\<lambda>_. []) (\<lambda>_. Exit 0)
     else Sigmask (\<lambda>_. mask_all) (\<lambda>_. Print ''addjob'' [int pid] (Sigmask (\<lambda>_. []) (\<lambda>_. procmask2_rounds n))))"

text \<open>\<open>jmode c a sv bl x\<close>: \<open>c\<close> children have been created and the first \<open>a\<close> of them added.\<close>

inductive jmode :: "nat \<Rightarrow> nat \<Rightarrow> (signal \<times> prog) list \<Rightarrow> signal list \<Rightarrow> prog \<Rightarrow> bool" where
  idle: "jmode c c [] [] (procmask2_rounds n)"
| forks: "jmode c c [] [SIGCHLD] (Fork (fork_code n))"
| forked: "jmode (Suc c) c [] [SIGCHLD] (Sigmask (\<lambda>_. mask_all) (\<lambda>_. add_code c n))"
| adding: "jmode (Suc c) c [] mask_all (add_code c n)"
| added: "jmode c c [] mask_all (Sigmask (\<lambda>_. []) (\<lambda>_. procmask2_rounds n))"
| waits: "jmode c c [(SIGCHLD, procmask2_rounds n)] [] job_handler"
| reaped: "i < c \<Longrightarrow> jmode c c [(SIGCHLD, procmask2_rounds n)] [] (Sigmask (\<lambda>_. mask_all) (delete_code i))"
| deleting: "i < c \<Longrightarrow> jmode c c [(SIGCHLD, procmask2_rounds n)] mask_all (delete_code i [])"
| deleted: "jmode c c [(SIGCHLD, procmask2_rounds n)] mask_all (Sigmask (\<lambda>_. []) (\<lambda>_. Again))"
| again: "jmode c c [(SIGCHLD, procmask2_rounds n)] [] Again"
| return: "jmode c c [(SIGCHLD, procmask2_rounds n)] [] Return"

definition jlog :: "nat \<Rightarrow> (string \<times> int list) list \<Rightarrow> bool" where
  "jlog a out \<longleftrightarrow> job_order out \<and> (\<forall>i < a. adds i \<in> set out)"

definition live2 :: "kernel \<Rightarrow> bool" where
  "live2 k \<longleftrightarrow> (\<exists>pend sv bl x E c a. family (jproc pend sv bl x) E c k \<and> jobs E c \<and> pend \<in> {[], [SIGCHLD]} \<and> jmode c a sv bl x \<and> jlog a (printed k))"

lemma live2I: "family (jproc pend sv bl x) E c k \<and> printed k = out \<Longrightarrow> jobs E c \<Longrightarrow> pend \<in> {[], [SIGCHLD]} \<Longrightarrow> jmode c a sv bl x \<Longrightarrow> jlog a out \<Longrightarrow> live2 k"
  unfolding live2_def by blast

lemma jlog_add: "jlog c out \<Longrightarrow> jlog (Suc c) (out @ [adds c])"
  by (auto simp: jlog_def adds_def job_order_snoc less_Suc_eq)

lemma jlog_delete: "jlog c out \<Longrightarrow> i < c \<Longrightarrow> jlog c (out @ [deletes i])"
  by (auto simp: jlog_def adds_def deletes_def job_order_snoc)

lemma job_handler_wait: "\<exists>g. job_handler = Wait g \<and> g None = Return
    \<and> (\<forall>i. g (Some (child_pid i, Exited 0)) = Sigmask (\<lambda>_. mask_all) (delete_code i))"
  by (simp add: job_handler_def delete_code_def [abs_def] deletes_def mask_all_def)

lemma wait_step2:
  assumes f: "family (jproc pend [(SIGCHLD, procmask2_rounds n)] [] job_handler) E c k" and j: "jobs E c" and p: "pend \<in> {[], [SIGCHLD]}" and l: "jlog c (printed k)"
  shows "live2 (kstep (main_pid, q) k)"
proof -
  obtain g where g: "job_handler = Wait g" "g None = Return" "\<And>i. g (Some (child_pid i, Exited 0)) = Sigmask (\<lambda>_. mask_all) (delete_code i)"
    using job_handler_wait by blast
  let ?sv = "[(SIGCHLD, procmask2_rounds n)]"
  let ?r = "jproc pend ?sv [] (Wait g)"
  note f1 = f [unfolded g(1)]
  have d: "deliverable ?r = []" using p by (auto simp: deliverable_def)
  have k: "kstep (main_pid, q) k = (if has_children main_pid k then reap main_pid ?r q g k else continue main_pid ?r Return k)"
    using family_act [OF f1 d] g(2) by (simp add: act.simps)
  show ?thesis
  proof (cases "has_children main_pid k")
    case False
    have "family (jproc pend ?sv [] Return) E c (kstep (main_pid, q) k) \<and> printed (kstep (main_pid, q) k) = printed k"
      using family_continue [OF f1, of ?r Return] k False by simp
    then show ?thesis using j p jmode.return l by (rule live2I)
  next
    case True
    show ?thesis
    proof (cases "\<exists>i < c. q = child_pid i \<and> E i = Some (Zombie main_pid (Exited 0))")
      case z: True
      then obtain i where i: "i < c" "q = child_pid i" "E i = Some (Zombie main_pid (Exited 0))" by blast
      have "family (jproc pend ?sv [] (Sigmask (\<lambda>_. mask_all) (delete_code i))) (E(i := None)) c (kstep (main_pid, q) k) \<and> printed (kstep (main_pid, q) k) = printed k"
        using family_reap [OF f1 i(1,3), of g] k True g(3) i(2) by simp
      moreover have "jobs (E(i := None)) c" using jobs_upd [OF j] by blast
      ultimately show ?thesis using p jmode.reaped [OF i(1)] l by (rule live2I)
    next
      case z: False
      have "E i \<noteq> Some (Zombie main_pid w)" if "i < c" "q = child_pid i" for i w using j z that unfolding jobs_def by fastforce
      then have "kstep (main_pid, q) k = k" using family_no_reap [OF f1] k True by simp
      then show ?thesis using live2I [OF _ j p jmode.waits l, of n] f by simp
    qed
  qed
qed

lemma fork_step2:
  assumes f: "family (jproc pend [] [SIGCHLD] (Fork (fork_code n))) E c k" and j: "jobs E c" and p: "pend \<in> {[], [SIGCHLD]}" and l: "jlog c (printed k)"
  shows "live2 (kstep (main_pid, q) k)"
proof -
  let ?r = "jproc pend [] [SIGCHLD] (Fork (fork_code n))"
  let ?s = "?r\<lparr>code := fork_code n 0, parent := main_pid, pending := []\<rparr>"
  have d: "deliverable ?r = []" using p by (auto simp: deliverable_def)
  note sp = family_fork [OF f jproc_simps(1) d, of q]
  have "job_child ?s" by (simp add: job_child_def fork_code_def jproc_def)
  then have "jobs (E(c := Some (Run ?s))) (Suc c)" by (rule jobs_new [OF j])
  moreover have "fork_code n (child_pid c) = Sigmask (\<lambda>_. mask_all) (\<lambda>_. add_code c n)" by (simp add: fork_code_def add_code_def adds_def)
  then have "family (jproc pend [] [SIGCHLD] (Sigmask (\<lambda>_. mask_all) (\<lambda>_. add_code c n))) (E(c := Some (Run ?s))) (Suc c) (kstep (main_pid, q) k)
      \<and> printed (kstep (main_pid, q) k) = printed k" using sp by simp
  ultimately show ?thesis using live2I p jmode.forked l by blast
qed

lemma main_step2:
  assumes f: "family (jproc pend sv bl x) E c k" and j: "jobs E c" and p: "pend \<in> {[], [SIGCHLD]}" and m: "jmode c a sv bl x" and l: "jlog a (printed k)"
  shows "live2 (kstep (main_pid, q) k)"
  using m
proof cases
  case (idle n)
  show ?thesis
  proof (cases "pend = []")
    case False
    then have "pend = [SIGCHLD]" using p by simp
    from job_deliver [OF f [unfolded this idle], of q] show ?thesis using j l idle by (intro live2I [OF _ j _ jmode.waits]) auto
  next
    case True
    note act = job_acts(1,5) [OF f [unfolded idle], where y = Spin and q = q]
    show ?thesis
    proof (cases n)
      case 0
      then have "kstep (main_pid, q) k = k" using act(2) True by simp
      then show ?thesis using live2I [OF _ j p m l] f by simp
    next
      case (Suc n')
      then have "procmask2_rounds n = Sigmask (\<lambda>old. SIGCHLD # old) (\<lambda>prev_one. Fork (\<lambda>pid. if pid = 0 then Sigmask (\<lambda>_. prev_one) (\<lambda>_. Exit 0)
          else Sigmask (\<lambda>_. mask_all) (\<lambda>_. Print ''addjob'' [int pid] (Sigmask (\<lambda>_. prev_one) (\<lambda>_. procmask2_rounds n')))))" by simp
      from act(1) [OF _ _ this] True have "family (jproc pend [] [SIGCHLD] (Fork (fork_code n'))) E c (kstep (main_pid, q) k) \<and> printed (kstep (main_pid, q) k) = printed k"
        by (simp add: fork_code_def)
      then show ?thesis using j p jmode.forks l [unfolded idle] idle(1) by (intro live2I) auto
    qed
  qed
next
  case (forks n)
  then show ?thesis using fork_step2 [of pend n E c k q] f j p l by simp
next
  case (forked n)
  from job_acts(1) [OF f [unfolded forked] _ _ refl, where y = Spin and q = q] p have "family (jproc pend [] mask_all (add_code a n)) E c (kstep (main_pid, q) k) \<and> printed (kstep (main_pid, q) k) = printed k"
    using forked by (auto simp: masked_def)
  then show ?thesis using j p jmode.adding l forked by (intro live2I) auto
next
  case (adding n)
  from job_acts(2) [OF f [unfolded adding] _ _ add_code_def, where y = Spin and q = q] p
  have "family (jproc pend [] mask_all (Sigmask (\<lambda>_. []) (\<lambda>_. procmask2_rounds n))) E c (kstep (main_pid, q) k) \<and> printed (kstep (main_pid, q) k) = printed k @ [adds a]"
    using adding by (auto simp: masked_def mask_all_def)
  then show ?thesis by (rule live2I [OF _ j p jmode.added]) (use jlog_add [OF l] adding in simp)
next
  case (added n)
  from job_acts(1) [OF f [unfolded added] _ _ refl, where y = Spin and q = q] p have "family (jproc pend [] [] (procmask2_rounds n)) E c (kstep (main_pid, q) k) \<and> printed (kstep (main_pid, q) k) = printed k"
    by (auto simp: masked_def mask_all_def)
  then show ?thesis using j p jmode.idle l added by (intro live2I) auto
next
  case (waits n)
  then show ?thesis using wait_step2 [of pend n E c k q] f j p l by simp
next
  case (reaped i n)
  from job_acts(1) [OF f [unfolded reaped] _ _ refl, where y = "procmask2_rounds n" and q = q] p
  have "family (jproc pend [(SIGCHLD, procmask2_rounds n)] mask_all (delete_code i [])) E c (kstep (main_pid, q) k) \<and> printed (kstep (main_pid, q) k) = printed k"
    by (auto simp: masked_def)
  then show ?thesis using j p jmode.deleting [OF reaped(5)] l reaped(1) by (intro live2I) auto
next
  case (deleting i n)
  from job_acts(2) [OF f [unfolded deleting] _ _ delete_code_def, where y = "procmask2_rounds n" and q = q] p
  have "family (jproc pend [(SIGCHLD, procmask2_rounds n)] mask_all (Sigmask (\<lambda>_. []) (\<lambda>_. Again))) E c (kstep (main_pid, q) k) \<and> printed (kstep (main_pid, q) k) = printed k @ [deletes i]"
    by (auto simp: masked_def)
  then show ?thesis by (rule live2I [OF _ j p jmode.deleted]) (use jlog_delete [OF _ deleting(5)] l deleting(1) in simp)
next
  case (deleted n)
  from job_acts(1) [OF f [unfolded deleted] _ _ refl, where y = "procmask2_rounds n" and q = q] p
  have "family (jproc pend [(SIGCHLD, procmask2_rounds n)] [] Again) E c (kstep (main_pid, q) k) \<and> printed (kstep (main_pid, q) k) = printed k"
    by (auto simp: masked_def)
  then show ?thesis using j p jmode.again l deleted(1) by (intro live2I) auto
next
  case (again n)
  from job_acts(4) [OF f [unfolded again] _ _ refl refl, where q = q] p
  have "family (jproc pend [(SIGCHLD, procmask2_rounds n)] [] job_handler) E c (kstep (main_pid, q) k) \<and> printed (kstep (main_pid, q) k) = printed k"
    by (auto simp: masked_def)
  then show ?thesis using j p jmode.waits l again(1) by (intro live2I) auto
next
  case (return n)
  from job_acts(3) [OF f [unfolded return] _ _ refl refl, where q = q] p
  have "family (jproc pend [] [] (procmask2_rounds n)) E c (kstep (main_pid, q) k) \<and> printed (kstep (main_pid, q) k) = printed k"
    by (auto simp: masked_def)
  then show ?thesis using j p jmode.idle l return(1) by (intro live2I) auto
qed

lemma live2_step: "live2 k \<Longrightarrow> live2 (kstep (p, q) k)"
proof -
  assume "live2 k"
  then obtain pend sv bl x E c a where f: "family (jproc pend sv bl x) E c k" and j: "jobs E c" and p: "pend \<in> {[], [SIGCHLD]}"
    and m: "jmode c a sv bl x" and l: "jlog a (printed k)" unfolding live2_def by blast
  show ?thesis
  proof (cases "p = main_pid")
    case True
    then show ?thesis using main_step2 [OF f j p m l] by simp
  next
    case False
    obtain E' pend' where "family (jproc pend' sv bl x) E' c (kstep (p, q) k)" "jobs E' c" "pend' \<in> {[], [SIGCHLD]}"
      using jobs_child_step(1) [OF f j p False, of q] by blast
    then show ?thesis using jobs_child_step(2) [OF f j p False, of q] m l by (intro live2I) auto
  qed
qed

definition inv2 :: "nat \<Rightarrow> kernel \<Rightarrow> bool" where
  "inv2 n k \<longleftrightarrow> k = boot (procmask2_main n) \<or> live2 k"

lemma inv2_step: "inv2 n k \<Longrightarrow> inv2 n (kstep (p, q) k)"
proof (cases "k = boot (procmask2_main n) \<and> p = main_pid")
  case True
  let ?k = "(boot (procmask2_rounds n))\<lparr>table := [main_pid \<mapsto> Run (jproc [] [] [] (procmask2_rounds n))]\<rparr>"
  have "kstep (p, q) k = ?k"
    using True by (simp add: kstep_def boot_def deliverable_def act.simps continue_def set_entry_def procmask2_main_def jproc_def)
  moreover have "live2 ?k"
  proof (rule live2I [where E = "\<lambda>_. None" and c = 0 and a = 0 and out = "[]" and pend = "[]"])
    show "family (jproc [] [] [] (procmask2_rounds n)) (\<lambda>_. None) 0 ?k \<and> printed ?k = []" by (auto simp: family_def boot_def child_pid_def)
  qed (simp_all add: jobs_def jlog_def job_order_Nil jmode.idle)
  ultimately show ?thesis by (simp add: inv2_def)
next
  case False
  assume "inv2 n k"
  moreover have "kstep (p, q) (boot (procmask2_main n)) = boot (procmask2_main n)" if "p \<noteq> main_pid" using that by (simp add: kstep_def boot_def)
  ultimately show ?thesis using False live2_step by (auto simp: inv2_def)
qed

text \<open>
  C22 (safety). In \<open>procmask2.c\<close> a job is never deleted before it has been added: in every interleaving of the parent, its
  children and the delivery of signals, every call of \<open>deletejob\<close> comes after the call of \<open>addjob\<close> for the same child.
\<close>

theorem procmask2_ordered: "job_order (printed (krun sched (boot (procmask2_main n))))"
proof -
  have "inv2 n (krun sched k)" if "inv2 n k" for k using that inv2_step by (induction sched arbitrary: k) auto
  then have "inv2 n (krun sched (boot (procmask2_main n)))" by (simp add: inv2_def)
  then show ?thesis unfolding inv2_def live2_def jlog_def by (auto simp: boot_def job_order_Nil)
qed

text \<open>
  Safety. In \<open>procmask1.c\<close>, which does not block \<open>SIGCHLD\<close> around the fork, the first child can be deleted from the
  job list before it is added.
\<close>

theorem procmask1_unordered: "\<exists>sched. \<not> job_order (printed (krun sched (boot (procmask1_main 1))))"
proof -
  let ?sched = "[(2, 0), (2, 0), (3, 0), (2, 0), (2, 3), (2, 0), (2, 0)]"
  have "printed (krun ?sched (boot (procmask1_main 1))) = [(''deletejob'', [3])]" by code_simp
  then have "\<not> job_order (printed (krun ?sched (boot (procmask1_main 1))))" by (simp add: job_order_def)
  then show ?thesis by blast
qed

end
