(* ===== verification/Openfiles.thy ===== *)
theory Openfiles
  imports Csapp Interleaving
begin

text \<open>
  Shared files: the programs \<open>ffiles1.c\<close>, \<open>ffiles2.c\<close> and \<open>ffiles3.c\<close> of \<open>16-io\<close>, which open a file several times,
  duplicate descriptors and fork.  The kernel has three tables: a descriptor table per
  process, the open file table with file positions and reference counts, and the files.  The
  system calls do what they are documented to do for regular files; the programs use the wrappers of \<open>csapp.c\<close>.
\<close>

section \<open>The tables\<close>

datatype oflag = O_RDONLY | O_WRONLY | O_RDWR | O_CREAT | O_TRUNC | O_APPEND

record open_file =
  inode :: string
  pos :: nat
  refcnt :: nat
  modes :: "oflag list"

text \<open>Entry \<open>fd\<close> of the descriptor table of a process is a number of an entry of the open file table.\<close>

record files =
  fdtabs :: "nat option list list"
  ftab :: "open_file option list"
  disk :: "string \<rightharpoonup> byte list"

definition ENOENT :: int where "ENOENT = 2"
definition EBADF :: int where "EBADF = 9"
definition EFAULT :: int where "EFAULT = 14"

text \<open>The lowest free entry of a table, and an update that extends the table.\<close>

fun lowest :: "'a option list \<Rightarrow> nat" where
  "lowest [] = 0"
| "lowest (None # xs) = 0"
| "lowest (Some x # xs) = Suc (lowest xs)"

definition entry :: "'a option list \<Rightarrow> nat \<Rightarrow> 'a option" where
  "entry xs i = (if i < length xs then xs ! i else None)"

definition put :: "nat \<Rightarrow> 'a option \<Rightarrow> 'a option list \<Rightarrow> 'a option list" where
  "put i v xs = (if i < length xs then xs[i := v] else xs @ replicate (i - length xs) None @ [v])"

definition open_of :: "nat \<Rightarrow> int \<Rightarrow> files \<Rightarrow> nat option" where
  "open_of p fd s = (if fd < 0 \<or> length (fdtabs s) \<le> p then None else entry (fdtabs s ! p) (nat fd))"

definition set_fd :: "nat \<Rightarrow> nat \<Rightarrow> nat option \<Rightarrow> files \<Rightarrow> files" where
  "set_fd p i v s = s\<lparr>fdtabs := (fdtabs s)[p := put i v (fdtabs s ! p)]\<rparr>"

definition free_fd :: "nat \<Rightarrow> files \<Rightarrow> nat" where
  "free_fd p s = lowest (fdtabs s ! p)"

text \<open>One reference more or less; an entry without references is released.\<close>

definition retain :: "nat \<Rightarrow> open_file option list \<Rightarrow> open_file option list" where
  "retain j t = (case entry t j of None \<Rightarrow> t | Some f \<Rightarrow> t[j := Some (f\<lparr>refcnt := refcnt f + 1\<rparr>)])"

definition release :: "nat \<Rightarrow> open_file option list \<Rightarrow> open_file option list" where
  "release j t = (case entry t j of None \<Rightarrow> t
     | Some f \<Rightarrow> t[j := (if refcnt f \<le> 1 then None else Some (f\<lparr>refcnt := refcnt f - 1\<rparr>))])"

section \<open>System calls\<close>

definition sys_open :: "nat \<Rightarrow> string option \<Rightarrow> oflag list \<Rightarrow> files \<Rightarrow> sysret \<times> files" where
  "sys_open p name flags s = (case name of None \<Rightarrow> ((- 1, EFAULT), s) | Some n \<Rightarrow>
     if disk s n = None \<and> O_CREAT \<notin> set flags then ((- 1, ENOENT), s)
     else let c = (case disk s n of None \<Rightarrow> [] | Some c \<Rightarrow> if O_TRUNC \<in> set flags then [] else c);
              j = lowest (ftab s); fd = free_fd p s in
       ((int fd, 0), set_fd p fd (Some j) (s\<lparr>disk := (disk s)(n \<mapsto> c),
          ftab := put j (Some \<lparr>inode = n, pos = 0, refcnt = 1, modes = flags\<rparr>) (ftab s)\<rparr>)))"

definition sys_close :: "nat \<Rightarrow> int \<Rightarrow> files \<Rightarrow> sysret \<times> files" where
  "sys_close p fd s = (case open_of p fd s of None \<Rightarrow> ((- 1, EBADF), s)
     | Some j \<Rightarrow> ((0, 0), set_fd p (nat fd) None (s\<lparr>ftab := release j (ftab s)\<rparr>)))"

definition sys_dup :: "nat \<Rightarrow> int \<Rightarrow> files \<Rightarrow> sysret \<times> files" where
  "sys_dup p fd s = (case open_of p fd s of None \<Rightarrow> ((- 1, EBADF), s)
     | Some j \<Rightarrow> ((int (free_fd p s), 0), set_fd p (free_fd p s) (Some j) (s\<lparr>ftab := retain j (ftab s)\<rparr>)))"

definition sys_dup2 :: "nat \<Rightarrow> int \<Rightarrow> int \<Rightarrow> files \<Rightarrow> sysret \<times> files" where
  "sys_dup2 p oldfd newfd s = (case open_of p oldfd s of None \<Rightarrow> ((- 1, EBADF), s)
     | Some j \<Rightarrow> if newfd < 0 then ((- 1, EBADF), s) else if oldfd = newfd then ((newfd, 0), s)
       else let s1 = snd (sys_close p newfd s) in
         ((newfd, 0), set_fd p (nat newfd) (Some j) (s1\<lparr>ftab := retain j (ftab s1)\<rparr>)))"

definition move_pos :: "nat \<Rightarrow> nat \<Rightarrow> files \<Rightarrow> files" where
  "move_pos j q s = (case entry (ftab s) j of None \<Rightarrow> s | Some f \<Rightarrow> s\<lparr>ftab := (ftab s)[j := Some (f\<lparr>pos := q\<rparr>)]\<rparr>)"

definition contents :: "string \<Rightarrow> files \<Rightarrow> byte list" where
  "contents n s = (case disk s n of None \<Rightarrow> [] | Some c \<Rightarrow> c)"

definition sys_fread :: "nat \<Rightarrow> int \<Rightarrow> nat \<Rightarrow> files \<Rightarrow> sysret \<times> byte list \<times> files" where
  "sys_fread p fd n s = (case open_of p fd s of None \<Rightarrow> ((- 1, EBADF), [], s)
     | Some j \<Rightarrow> (case entry (ftab s) j of None \<Rightarrow> ((- 1, EBADF), [], s)
       | Some f \<Rightarrow> if O_WRONLY \<in> set (modes f) then ((- 1, EBADF), [], s)
           else let bs = take n (drop (pos f) (contents (inode f) s)) in
             ((int (length bs), 0), bs, move_pos j (pos f + length bs) s)))"

text \<open>Bytes written beyond the end of a file leave a gap of zeros.\<close>

definition write_at :: "nat \<Rightarrow> byte list \<Rightarrow> byte list \<Rightarrow> byte list" where
  "write_at q bs c = take q c @ replicate (q - length c) 0 @ bs @ drop (q + length bs) c"

definition sys_fwrite :: "nat \<Rightarrow> int \<Rightarrow> byte list \<Rightarrow> files \<Rightarrow> sysret \<times> files" where
  "sys_fwrite p fd bs s = (case open_of p fd s of None \<Rightarrow> ((- 1, EBADF), s)
     | Some j \<Rightarrow> (case entry (ftab s) j of None \<Rightarrow> ((- 1, EBADF), s)
       | Some f \<Rightarrow> if O_RDONLY \<in> set (modes f) then ((- 1, EBADF), s)
           else let c = contents (inode f) s; q = (if O_APPEND \<in> set (modes f) then length c else pos f) in
             ((int (length bs), 0), move_pos j (q + length bs) (s\<lparr>disk := (disk s)(inode f \<mapsto> write_at q bs c)\<rparr>))))"

text \<open>A child has the descriptors of its parent; the end of a process closes all its descriptors.\<close>

definition fork_files :: "nat \<Rightarrow> files \<Rightarrow> files" where
  "fork_files p s = s\<lparr>fdtabs := fdtabs s @ [fdtabs s ! p],
     ftab := fold (\<lambda>e t. case e of None \<Rightarrow> t | Some j \<Rightarrow> retain j t) (fdtabs s ! p) (ftab s)\<rparr>"

definition exit_files :: "nat \<Rightarrow> files \<Rightarrow> files" where
  "exit_files p s = fold (\<lambda>fd s. snd (sys_close p (int fd) s)) [0..<length (fdtabs s ! p)] s"

section \<open>Programs\<close>

type_synonym 'a io = "files \<Rightarrow> ('a \<times> files) outcome"

definition andthen :: "'a io \<Rightarrow> ('a \<Rightarrow> 'b io) \<Rightarrow> 'b io" where
  "andthen m f = (\<lambda>s. then_do (m s) (\<lambda>(x, s1). f x s1))"

definition Open_io :: "nat \<Rightarrow> string option \<Rightarrow> oflag list \<Rightarrow> int io" where
  "Open_io p name flags s = (case sys_open p name flags s of (r, s1) \<Rightarrow> then_do (Open r) (\<lambda>fd. Ret (fd, s1)))"

definition Close_io :: "nat \<Rightarrow> int \<Rightarrow> unit io" where
  "Close_io p fd s = (case sys_close p fd s of (r, s1) \<Rightarrow> then_do (Close r) (\<lambda>_. Ret ((), s1)))"

definition Write_io :: "nat \<Rightarrow> int \<Rightarrow> byte list \<Rightarrow> unit io" where
  "Write_io p fd bs s = (case sys_fwrite p fd bs s of (r, s1) \<Rightarrow> then_do (Write r) (\<lambda>_. Ret ((), s1)))"

text \<open>\<open>Read(fd, &c, 1)\<close>: at the end of the file the variable keeps its indeterminate value, \<open>None\<close>.\<close>

definition Read_char :: "nat \<Rightarrow> int \<Rightarrow> byte option io" where
  "Read_char p fd s = (case sys_fread p fd 1 s of (r, bs, s1) \<Rightarrow>
     then_do (Read r) (\<lambda>n. Ret (if n = 1 then Some (hd bs) else None, s1)))"

definition ffiles1 :: "string option \<Rightarrow> (byte option \<times> byte option \<times> byte option) io" where
  "ffiles1 fname =
     andthen (Open_io 0 fname [O_RDONLY]) (\<lambda>fd1.
     andthen (Open_io 0 fname [O_RDONLY]) (\<lambda>fd2.
     andthen (Open_io 0 fname [O_RDONLY]) (\<lambda>fd3.
     andthen (\<lambda>s. Ret ((), snd (sys_dup2 0 fd2 fd3 s))) (\<lambda>_.
     andthen (Read_char 0 fd1) (\<lambda>c1.
     andthen (Read_char 0 fd2) (\<lambda>c2.
     andthen (Read_char 0 fd3) (\<lambda>c3.
     andthen (Close_io 0 fd1) (\<lambda>_.
     andthen (Close_io 0 fd2) (\<lambda>_.
     andthen (Close_io 0 fd3) (\<lambda>_ s. Ret ((c1, c2, c3), s)))))))))))"

definition text_bytes :: "string \<Rightarrow> byte list" where
  "text_bytes = map (\<lambda>c. of_nat (of_char c))"

text \<open>\<open>dup\<close> is called without its wrapper.\<close>

definition ffiles3 :: "string option \<Rightarrow> unit io" where
  "ffiles3 fname =
     andthen (Open_io 0 fname [O_CREAT, O_TRUNC, O_RDWR]) (\<lambda>fd1.
     andthen (Write_io 0 fd1 (text_bytes ''pqrs'')) (\<lambda>_.
     andthen (Open_io 0 fname [O_APPEND, O_WRONLY]) (\<lambda>fd3.
     andthen (Write_io 0 fd3 (text_bytes ''jklmn'')) (\<lambda>_.
     andthen (\<lambda>s. case sys_dup 0 fd1 s of (r, s1) \<Rightarrow> Ret (fst r, s1)) (\<lambda>fd2.
     andthen (Write_io 0 fd2 (text_bytes ''wxyz'')) (\<lambda>_.
     andthen (Write_io 0 fd3 (text_bytes ''ef'')) (\<lambda>_.
     andthen (Close_io 0 fd1) (\<lambda>_.
     andthen (Close_io 0 fd2) (\<lambda>_.
     Close_io 0 fd3)))))))))"

text \<open>
  \<open>ffiles2\<close>: the parent is process 0 and the child is process 1.  After the fork each of them reads and
  prints; the sleeping times do not fix an order.  If \<open>fork\<close> fails, its result \<open>-1\<close> selects the branch of the parent.
\<close>

datatype ff2_pc = Reads | Prints "byte option" | Returned | Failed

record ff2 =
  os :: files
  prints :: "(string \<times> byte option \<times> byte option) list"

definition ff2_act :: "int \<Rightarrow> byte option \<Rightarrow> nat \<Rightarrow> ff2_pc \<Rightarrow> ff2 \<Rightarrow> (ff2_pc \<times> ff2) option" where
  "ff2_act fd1 c1 t l g = (case l of
     Reads \<Rightarrow> (case Read_char t fd1 (os g) of Ret (c2, s1) \<Rightarrow> Some (Prints c2, g\<lparr>os := s1\<rparr>) | _ \<Rightarrow> Some (Failed, g))
   | Prints c2 \<Rightarrow> Some (Returned, g\<lparr>os := exit_files t (os g),
       prints := prints g @ [(if t = 0 then ''Parent'' else ''Child'', c1, c2)]\<rparr>)
   | _ \<Rightarrow> None)"

definition ffiles2 :: "string option \<Rightarrow> bool \<Rightarrow> nat list \<Rightarrow> files \<Rightarrow> (ff2, ff2_pc) threads outcome" where
  "ffiles2 fname fork_ok sched s =
     then_do (andthen (Open_io 0 fname [O_RDONLY]) (\<lambda>fd1. andthen (Read_char 0 fd1) (\<lambda>c1 s. Ret ((fd1, c1), s))) s)
       (\<lambda>((fd1, c1), s1). Ret (run_threads (ff2_act fd1 c1) sched
          (if fork_ok then (\<lparr>os = fork_files 0 s1, prints = []\<rparr>, [Reads, Reads]) else (\<lparr>os = s1, prints = []\<rparr>, [Reads]))))"

text \<open>A process with the three standard descriptors, all on the terminal.\<close>

definition one_process :: "(string \<rightharpoonup> byte list) \<Rightarrow> files" where
  "one_process d = \<lparr>fdtabs = [[Some 0, Some 0, Some 0]],
     ftab = [Some \<lparr>inode = ''/dev/tty'', pos = 0, refcnt = 3, modes = [O_RDWR]\<rparr>], disk = d\<rparr>"

section \<open>Reference counts\<close>

text \<open>The number of descriptors, of all processes, that refer to an open file.\<close>

definition refs :: "nat \<Rightarrow> files \<Rightarrow> nat" where
  "refs j s = count_list (concat (fdtabs s)) (Some j)"

definition files_ok :: "files \<Rightarrow> bool" where
  "files_ok s \<longleftrightarrow> (\<forall>j. case entry (ftab s) j of None \<Rightarrow> refs j s = 0 | Some f \<Rightarrow> refcnt f = refs j s \<and> 0 < refs j s)"

text \<open>A system call of a process; a process that does not exist makes no calls.\<close>

datatype call = Opens "string option" "oflag list" | Closes int | Dups int | Dup2s int int | Reads_n int nat
  | Writes_bs int "byte list" | Forks | Exits

fun syscall :: "nat \<times> call \<Rightarrow> files \<Rightarrow> files" where
  "syscall (p, c) s = (if length (fdtabs s) \<le> p then s else case c of
     Opens n fl \<Rightarrow> snd (sys_open p n fl s)
   | Closes fd \<Rightarrow> snd (sys_close p fd s)
   | Dups fd \<Rightarrow> snd (sys_dup p fd s)
   | Dup2s old new \<Rightarrow> snd (sys_dup2 p old new s)
   | Reads_n fd n \<Rightarrow> snd (snd (sys_fread p fd n s))
   | Writes_bs fd bs \<Rightarrow> snd (sys_fwrite p fd bs s)
   | Forks \<Rightarrow> fork_files p s
   | Exits \<Rightarrow> exit_files p s)"

named_theorems table_simps \<open>entries of tables after updates\<close>

lemma entry_put [table_simps]: "entry (put i v xs) k = (if k = i then v else entry xs k)"
  by (auto simp: entry_def put_def nth_append nth_Cons split: nat.splits)

lemma entry_lowest [table_simps]: "entry xs (lowest xs) = None"
  by (induction xs rule: lowest.induct) (auto simp: entry_def)

lemma entry_update [table_simps]: "entry t i = Some f \<Longrightarrow> entry (t[i := v]) k = (if k = i then v else entry t k)"
  by (auto simp: entry_def split: if_splits)

lemma entry_retain [table_simps]:
  "entry (retain j t) k = (if k = j then map_option (\<lambda>f. f\<lparr>refcnt := refcnt f + 1\<rparr>) (entry t j) else entry t k)"
  by (auto simp: retain_def table_simps split: option.splits)

lemma entry_release [table_simps]:
  "entry (release j t) k = (if k = j then (case entry t j of None \<Rightarrow> None
     | Some f \<Rightarrow> if refcnt f \<le> 1 then None else Some (f\<lparr>refcnt := refcnt f - 1\<rparr>)) else entry t k)"
  by (auto simp: release_def table_simps split: option.splits)

lemma count_list_update_add: "i < length xs \<Longrightarrow> count_list (xs[i := v]) x + (if xs ! i = x then 1 else 0) = count_list xs x + (if v = x then 1 else 0)"
proof (induction xs arbitrary: i)
  case (Cons a xs)
  show ?case
  proof (cases i)
    case (Suc k)
    then show ?thesis using Cons.IH [of k] Cons.prems by (simp split: if_splits)
  qed auto
qed simp

lemma count_put: "count_list (put i v xs) (Some j) + (if entry xs i = Some j then 1 else 0) = count_list xs (Some j) + (if v = Some j then 1 else 0)"
proof (cases "i < length xs")
  case False
  have "count_list (replicate n None) (Some j) = 0" for n by (induction n) auto
  then show ?thesis using False by (simp add: put_def entry_def)
qed (use count_list_update_add [of i xs v "Some j"] in \<open>simp add: put_def entry_def\<close>)

lemma count_concat_update: "p < length xss \<Longrightarrow> count_list (concat (xss[p := ys])) x + count_list (xss ! p) x = count_list (concat xss) x + count_list ys x"
proof (induction xss arbitrary: p)
  case (Cons a xss)
  then show ?case by (cases p) (auto simp: add.assoc)
qed simp

lemma refs_set_fd:
  assumes "p < length (fdtabs s)"
  shows "refs j (set_fd p i v s) + (if entry (fdtabs s ! p) i = Some j then 1 else 0) = refs j s + (if v = Some j then 1 else 0)"
  using count_concat_update [OF assms, of "put i v (fdtabs s ! p)" "Some j"] count_put [of i v "fdtabs s ! p" j]
  by (simp add: refs_def set_fd_def split: if_splits)

lemma fields_set_fd [simp]: "ftab (set_fd p i v s) = ftab s" "disk (set_fd p i v s) = disk s"
    "length (fdtabs (set_fd p i v s)) = length (fdtabs s)"
  by (simp_all add: set_fd_def)

lemma refs_ftab [simp]: "refs j (s\<lparr>ftab := t\<rparr>) = refs j s" "refs j (s\<lparr>disk := d\<rparr>) = refs j s"
  by (simp_all add: refs_def)

lemma open_ofD: "open_of p fd s = Some j \<Longrightarrow> p < length (fdtabs s) \<and> 0 \<le> fd \<and> entry (fdtabs s ! p) (nat fd) = Some j"
  by (auto simp: open_of_def split: if_splits)

text \<open>A change of one descriptor with the change of the counts that belongs to it.\<close>

lemma files_ok_retain:
  assumes "files_ok s" "p < length (fdtabs s)" "entry (fdtabs s ! p) i = None" "entry (ftab s) j \<noteq> None"
  shows "files_ok (set_fd p i (Some j) (s\<lparr>ftab := retain j (ftab s)\<rparr>))"
  unfolding files_ok_def
proof
  fix k
  have "refs k (set_fd p i (Some j) (s\<lparr>ftab := retain j (ftab s)\<rparr>)) = refs k s + (if k = j then 1 else 0)"
    using refs_set_fd [of p "s\<lparr>ftab := retain j (ftab s)\<rparr>" k i "Some j"] assms(2,3) by auto
  then show "case entry (ftab (set_fd p i (Some j) (s\<lparr>ftab := retain j (ftab s)\<rparr>))) k of
      None \<Rightarrow> refs k (set_fd p i (Some j) (s\<lparr>ftab := retain j (ftab s)\<rparr>)) = 0
    | Some f \<Rightarrow> refcnt f = refs k (set_fd p i (Some j) (s\<lparr>ftab := retain j (ftab s)\<rparr>)) \<and> 0 < refs k (set_fd p i (Some j) (s\<lparr>ftab := retain j (ftab s)\<rparr>))"
    using assms(1,4) by (auto simp: files_ok_def table_simps split: option.splits dest!: spec [of _ k])
qed

lemma files_ok_release:
  assumes "files_ok s" "p < length (fdtabs s)" "entry (fdtabs s ! p) i = Some j"
  shows "files_ok (set_fd p i None (s\<lparr>ftab := release j (ftab s)\<rparr>))"
  unfolding files_ok_def
proof
  fix k
  let ?s = "set_fd p i None (s\<lparr>ftab := release j (ftab s)\<rparr>)"
  have "refs k ?s + (if k = j then 1 else 0) = refs k s"
    using refs_set_fd [of p "s\<lparr>ftab := release j (ftab s)\<rparr>" k i None] assms(2,3) by auto
  then show "case entry (ftab ?s) k of None \<Rightarrow> refs k ?s = 0 | Some f \<Rightarrow> refcnt f = refs k ?s \<and> 0 < refs k ?s"
    using assms(1) by (auto simp: files_ok_def table_simps split: option.splits dest!: spec [of _ k])
qed

lemma files_ok_live: "files_ok s \<Longrightarrow> open_of p fd s = Some j \<Longrightarrow> entry (ftab s) j \<noteq> None"
proof
  assume a: "files_ok s" "open_of p fd s = Some j" "entry (ftab s) j = None"
  from a(1,3) have "refs j s = 0" by (auto simp: files_ok_def dest!: spec [of _ j])
  moreover have "Some j \<in> set (concat (fdtabs s))"
    using open_ofD [OF a(2)] by (auto simp: entry_def split: if_splits intro!: bexI [of _ "fdtabs s ! p"] intro: nth_mem) (metis nth_mem)
  ultimately show False by (simp add: refs_def count_list_0_iff)
qed

section \<open>The tables agree after every call\<close>

lemma sys_close_keeps: "files_ok s \<Longrightarrow> files_ok (snd (sys_close p fd s))"
  by (auto simp: sys_close_def files_ok_release dest: open_ofD split: option.splits)

lemma sys_close_length [simp]: "length (fdtabs (snd (sys_close p fd s))) = length (fdtabs s)"
  by (auto simp: sys_close_def split: option.splits)

lemma open_of_close: "open_of q fd' (snd (sys_close p fd s)) = (if q = p \<and> fd' = fd then None else open_of q fd' s)"
  by (auto simp: sys_close_def open_of_def set_fd_def table_simps nth_list_update split: option.splits if_splits)

lemma sys_dup_keeps: "files_ok s \<Longrightarrow> files_ok (snd (sys_dup p fd s))"
  by (auto simp: sys_dup_def free_fd_def table_simps intro!: files_ok_retain dest: open_ofD files_ok_live split: option.splits)

lemma sys_dup2_keeps:
  assumes "files_ok s"
  shows "files_ok (snd (sys_dup2 p old new s))"
proof -
  have "files_ok (set_fd p (nat new) (Some j) (s1\<lparr>ftab := retain j (ftab s1)\<rparr>))"
    if "open_of p old s = Some j" "old \<noteq> new" "0 \<le> new" "s1 = snd (sys_close p new s)" for j s1
  proof -
    have s1: "files_ok s1" using assms that(4) by (simp add: sys_close_keeps)
    have o: "open_of p old s1 = Some j" "open_of p new s1 = None" using that by (simp_all add: open_of_close)
    have "p < length (fdtabs s1)" using open_ofD [OF o(1)] by simp
    moreover then have "entry (fdtabs s1 ! p) (nat new) = None" using o(2) that(3) by (simp add: open_of_def)
    ultimately show ?thesis using s1 files_ok_live [OF s1 o(1)] by (intro files_ok_retain)
  qed
  then show ?thesis using assms by (auto simp: sys_dup2_def Let_def split: option.splits)
qed

lemma refcnt_move_pos: "entry (ftab (move_pos j q s)) k = map_option (\<lambda>f. if k = j then f\<lparr>pos := q\<rparr> else f) (entry (ftab s) k)"
  by (cases "entry (ftab s) k") (auto simp: move_pos_def table_simps split: option.splits)

lemma fdtabs_move_pos [simp]: "fdtabs (move_pos j q s) = fdtabs s" "disk (move_pos j q s) = disk s"
  by (auto simp: move_pos_def split: option.splits)

lemma open_of_move_pos [simp]: "open_of p fd (move_pos j q s) = open_of p fd s"
  by (simp add: open_of_def)

lemma files_ok_move_pos: "files_ok (move_pos j q s) = files_ok s"
proof -
  have "(case entry (ftab (move_pos j q s)) k of None \<Rightarrow> refs k (move_pos j q s) = 0
      | Some f \<Rightarrow> refcnt f = refs k (move_pos j q s) \<and> 0 < refs k (move_pos j q s))
    = (case entry (ftab s) k of None \<Rightarrow> refs k s = 0 | Some f \<Rightarrow> refcnt f = refs k s \<and> 0 < refs k s)" for k
    by (auto simp: refcnt_move_pos refs_def split: option.splits)
  then show ?thesis by (simp add: files_ok_def)
qed

lemma files_ok_disk: "files_ok (s\<lparr>disk := d\<rparr>) = files_ok s"
  by (simp add: files_ok_def cong: option.case_cong)

lemma sys_fread_keeps: "files_ok s \<Longrightarrow> files_ok (snd (snd (sys_fread p fd n s)))"
  by (auto simp: sys_fread_def Let_def files_ok_move_pos split: option.splits)

lemma sys_fwrite_keeps: "files_ok s \<Longrightarrow> files_ok (snd (sys_fwrite p fd bs s))"
  by (auto simp: sys_fwrite_def Let_def files_ok_move_pos files_ok_disk split: option.splits)

lemma files_ok_new:
  assumes "files_ok s" "p < length (fdtabs s)" "entry (fdtabs s ! p) i = None" "entry (ftab s) j = None" "refcnt f = 1"
  shows "files_ok (set_fd p i (Some j) (s\<lparr>ftab := put j (Some f) (ftab s)\<rparr>))"
  unfolding files_ok_def
proof
  fix k
  let ?s = "set_fd p i (Some j) (s\<lparr>ftab := put j (Some f) (ftab s)\<rparr>)"
  have "refs k ?s = refs k s + (if k = j then 1 else 0)"
    using refs_set_fd [of p "s\<lparr>ftab := put j (Some f) (ftab s)\<rparr>" k i "Some j"] assms(2,3) by auto
  then show "case entry (ftab ?s) k of None \<Rightarrow> refs k ?s = 0 | Some f \<Rightarrow> refcnt f = refs k ?s \<and> 0 < refs k ?s"
    using assms(1,4,5) by (auto simp: files_ok_def table_simps split: option.splits dest!: spec [of _ k])
qed

lemma sys_open_keeps:
  assumes "files_ok s" "p < length (fdtabs s)"
  shows "files_ok (snd (sys_open p n fl s))"
proof -
  have "files_ok (set_fd p (free_fd p s) (Some (lowest (ftab s))) (s\<lparr>disk := d,
      ftab := put (lowest (ftab s)) (Some \<lparr>inode = m, pos = 0, refcnt = 1, modes = fl\<rparr>) (ftab s)\<rparr>))" for d m
    using files_ok_new [of "s\<lparr>disk := d\<rparr>" p "free_fd p s" "lowest (ftab s)" "\<lparr>inode = m, pos = 0, refcnt = 1, modes = fl\<rparr>"] assms
    by (simp add: files_ok_disk free_fd_def table_simps)
  then show ?thesis using assms(1) by (auto simp: sys_open_def Let_def split: option.splits)
qed

lemma entry_retain_all:
  "entry (fold (\<lambda>e t. case e of None \<Rightarrow> t | Some j \<Rightarrow> retain j t) es t) k
     = map_option (\<lambda>f. f\<lparr>refcnt := refcnt f + count_list es (Some k)\<rparr>) (entry t k)"
proof (induction es arbitrary: t)
  case (Cons e es)
  then show ?case by (cases e; cases "entry t k") (auto simp: table_simps)
qed (simp add: option.map_ident_strong)

lemma fork_files_keeps:
  assumes "files_ok s" "p < length (fdtabs s)"
  shows "files_ok (fork_files p s)"
  unfolding files_ok_def
proof
  fix k
  let ?c = "count_list (fdtabs s ! p) (Some k)"
  have r: "refs k (fork_files p s) = refs k s + ?c" by (simp add: refs_def fork_files_def)
  have "?c \<le> refs k s"
    using count_concat_update [OF assms(2), of "[]" "Some k"] by (simp add: refs_def)
  then show "case entry (ftab (fork_files p s)) k of None \<Rightarrow> refs k (fork_files p s) = 0
      | Some f \<Rightarrow> refcnt f = refs k (fork_files p s) \<and> 0 < refs k (fork_files p s)"
    using assms(1) unfolding r by (auto simp: files_ok_def fork_files_def entry_retain_all split: option.splits dest!: spec [of _ k])
qed

lemma exit_files_keeps: "files_ok s \<Longrightarrow> files_ok (exit_files p s)"
proof -
  have "files_ok (fold (\<lambda>fd s. snd (sys_close p (int fd) s)) fds s)" if "files_ok s" for fds s
    using that by (induction fds arbitrary: s) (auto simp: sys_close_keeps)
  then show "files_ok s \<Longrightarrow> files_ok (exit_files p s)" by (simp add: exit_files_def)
qed

lemmas calls_keep = sys_open_keeps sys_close_keeps sys_dup_keeps sys_dup2_keeps sys_fread_keeps sys_fwrite_keeps
  fork_files_keeps exit_files_keeps

lemma syscall_keeps: "files_ok s \<Longrightarrow> files_ok (syscall c s)"
  by (cases c; cases "snd c") (auto simp: calls_keep)

lemma one_process_ok: "files_ok (one_process d)"
  unfolding files_ok_def by (auto simp: one_process_def refs_def entry_def split: option.splits)

text \<open>
  The descriptor tables and the open file table agree. After any sequence of system calls of any processes, a
  descriptor refers to an entry of the open file table that exists, the reference count of every
  entry is the number of descriptors that refer to it, and no entry without references is left.
\<close>

theorem file_tables_agree:
  "files_ok (fold syscall cs (one_process d))"
proof -
  have "files_ok s \<Longrightarrow> files_ok (fold syscall cs s)" for s
    by (induction cs arbitrary: s) (auto simp: syscall_keeps)
  then show ?thesis using one_process_ok by blast
qed

section \<open>What the programs do\<close>

definition byte_at :: "byte list \<Rightarrow> nat \<Rightarrow> byte option" where
  "byte_at c i = (if i < length c then Some (c ! i) else None)"

text \<open>The tables when all descriptors but the standard ones are closed again.\<close>

definition all_closed :: "nat \<Rightarrow> nat \<Rightarrow> (string \<rightharpoonup> byte list) \<Rightarrow> files" where
  "all_closed m n d = (one_process d)\<lparr>fdtabs := [[Some 0, Some 0, Some 0] @ replicate m None],
     ftab := ftab (one_process d) @ replicate n None\<rparr>"

lemmas io_defs = andthen_def Open_io_def Close_io_def Write_io_def Read_char_def Open_def Close_def Write_def Read_def
  sys_open_def sys_close_def sys_dup_def sys_dup2_def sys_fread_def sys_fwrite_def set_fd_def free_fd_def open_of_def
  entry_def put_def retain_def release_def move_pos_def contents_def error_defs

lemma take_one_byte: "take (Suc 0) c = (case byte_at c 0 of None \<Rightarrow> [] | Some b \<Rightarrow> [b])"
  by (cases c) (simp_all add: byte_at_def)

lemma byte_at_drop: "byte_at (drop k c) i = byte_at c (k + i)"
  by (auto simp: byte_at_def)

lemma byte_at_next: "byte_at c 0 = None \<Longrightarrow> byte_at c k = None"
  by (simp add: byte_at_def split: if_splits)

text \<open>
  \<open>ffiles1\<close>. For a file with contents \<open>c\<close> the program prints the first byte of the file twice and then the second
  byte, because \<open>dup2\<close> makes the third descriptor share the position of the second one, and the
  first descriptor has a position of its own; all descriptors are closed and their entries
  released, and the file is unchanged.  A file that does not exist ends the program with an error.
\<close>

theorem ffiles1_prints:
  "ffiles1 (Some n) (one_process d) = (case d n of None \<Rightarrow> UnixError ''Open error'' ENOENT
     | Some c \<Rightarrow> Ret ((byte_at c 0, byte_at c 0, byte_at c 1), all_closed 3 3 d))"
proof (cases "d n")
  case (Some c)
  have d: "d(n \<mapsto> c) = d" using Some by auto
  show ?thesis
    by (cases "byte_at c 0"; cases "byte_at c 1")
      (simp_all add: Some d ffiles1_def io_defs one_process_def all_closed_def take_one_byte byte_at_drop byte_at_next numeral_eq_Suc)
qed (simp add: ffiles1_def io_defs one_process_def)

text \<open>
  \<open>ffiles3\<close>. Whatever the file contained before, it contains \<open>pqrswxyznef\<close> afterwards: the duplicated descriptor
  continues at the position of the first one and overwrites what was appended, and the
  appending descriptor writes at the end in spite of its position.
\<close>

theorem ffiles3_writes:
  "ffiles3 (Some n) (one_process d) = Ret ((), all_closed 3 2 (d(n \<mapsto> text_bytes ''pqrswxyznef'')))"
  by (cases "d n") (simp_all add: ffiles3_def io_defs one_process_def all_closed_def text_bytes_def write_at_def numeral_eq_Suc)

section \<open>Two processes with one file position\<close>

lemma Read_char_at:
  assumes "open_of p fd s = Some j" "entry (ftab s) j = Some f" "O_WRONLY \<notin> set (modes f)"
  shows "Read_char p fd s = Ret (byte_at (contents (inode f) s) (pos f),
    move_pos j (if pos f < length (contents (inode f) s) then Suc (pos f) else pos f) s)"
  using assms by (auto simp: Read_char_def sys_fread_def Read_def take_one_byte byte_at_drop Let_def byte_at_def)

lemma sys_close_disk [simp]: "disk (snd (sys_close p fd s)) = disk s"
  by (auto simp: sys_close_def split: option.splits)

text \<open>A process that closes its descriptors changes neither those of others nor positions.\<close>

lemma sys_close_entry: "entry (ftab (snd (sys_close p fd s))) k = Some f \<Longrightarrow>
    \<exists>f0. entry (ftab s) k = Some f0 \<and> inode f = inode f0 \<and> pos f = pos f0 \<and> modes f = modes f0"
  by (auto simp: sys_close_def table_simps split: option.splits if_splits)

lemma exit_files_frame:
  "length (fdtabs (exit_files p s)) = length (fdtabs s)" "disk (exit_files p s) = disk s"
  "q \<noteq> p \<Longrightarrow> open_of q fd (exit_files p s) = open_of q fd s"
  "entry (ftab (exit_files p s)) k = Some f \<Longrightarrow>
    \<exists>f0. entry (ftab s) k = Some f0 \<and> inode f = inode f0 \<and> pos f = pos f0 \<and> modes f = modes f0"
proof -
  define cl where "cl = (\<lambda>fds (s :: files). fold (\<lambda>fd s. snd (sys_close p (int fd) s)) fds s)"
  have *: "length (fdtabs (cl fds s)) = length (fdtabs s) \<and> disk (cl fds s) = disk s \<and> (q \<noteq> p \<longrightarrow> open_of q fd (cl fds s) = open_of q fd s)" for fds s q fd
    by (induction fds arbitrary: s) (auto simp: cl_def open_of_close)
  have **: "entry (ftab (cl fds s)) k = Some f \<Longrightarrow>
    \<exists>f0. entry (ftab s) k = Some f0 \<and> inode f = inode f0 \<and> pos f = pos f0 \<and> modes f = modes f0" for fds s k f
  proof (induction fds arbitrary: s)
    case (Cons a fds)
    then show ?case using sys_close_entry [of p "int a" s k] by (fastforce simp: cl_def)
  qed (simp add: cl_def)
  have e: "exit_files p s = cl [0..<length (fdtabs s ! p)] s" by (simp add: exit_files_def cl_def)
  show "length (fdtabs (exit_files p s)) = length (fdtabs s)" "disk (exit_files p s) = disk s"
    "q \<noteq> p \<Longrightarrow> open_of q fd (exit_files p s) = open_of q fd s"
    "entry (ftab (exit_files p s)) k = Some f \<Longrightarrow>
      \<exists>f0. entry (ftab s) k = Some f0 \<and> inode f = inode f0 \<and> pos f = pos f0 \<and> modes f = modes f0"
    using * ** unfolding e by blast+
qed

fun has_read :: "ff2_pc \<Rightarrow> bool" where
  "has_read (Prints _) = True" | "has_read Returned = True" | "has_read _ = False"

fun has_open :: "ff2_pc \<Rightarrow> bool" where
  "has_open (Prints _) = True" | "has_open Reads = True" | "has_open _ = False"

definition ff2_line :: "byte option \<Rightarrow> nat \<times> byte option \<Rightarrow> string \<times> byte option \<times> byte option" where
  "ff2_line c1 x = (if fst x = 0 then ''Parent'' else ''Child'', c1, snd x)"

text \<open>\<open>rs\<close> has the processes that have read, with their bytes, in the order of the reads.\<close>

definition ff2_reads :: "byte list \<Rightarrow> (nat \<times> byte option) list \<Rightarrow> ff2 \<Rightarrow> ff2_pc list \<Rightarrow> bool" where
  "ff2_reads c rs g ls \<longleftrightarrow> distinct (map fst rs) \<and> map snd rs = map (byte_at c) [1..<Suc (length rs)]
     \<and> fst ` set rs = {t. t < length ls \<and> has_read (ls ! t)} \<and> (\<forall>t < length ls. \<forall>v. ls ! t = Prints v \<longrightarrow> (t, v) \<in> set rs)
     \<and> mset (prints g) = image_mset (ff2_line (byte_at c 0)) {# x \<in># mset rs. ls ! fst x = Returned #}"

definition ff2_inv :: "string \<Rightarrow> byte list \<Rightarrow> ff2 \<Rightarrow> ff2_pc list \<Rightarrow> bool" where
  "ff2_inv n c g ls \<longleftrightarrow> files_ok (os g) \<and> disk (os g) n = Some c \<and> Failed \<notin> set ls
     \<and> (\<forall>t < length ls. has_open (ls ! t) \<longrightarrow> open_of t 3 (os g) = Some 1)
     \<and> (\<exists>rs. ff2_reads c rs g ls \<and> (\<forall>f. entry (ftab (os g)) 1 = Some f \<longrightarrow> inode f = n \<and> modes f = [O_RDONLY]
          \<and> pos f = min (length c) (Suc (length rs))))"

lemma ff2_reads_read:
  assumes "ff2_reads c rs g ls" "t < length ls" "ls ! t = Reads"
  shows "ff2_reads c (rs @ [(t, byte_at c (Suc (length rs)))]) (g\<lparr>os := s1\<rparr>) (ls[t := Prints (byte_at c (Suc (length rs)))])"
proof -
  have nt: "t \<notin> fst ` set rs" using assms by (auto simp: ff2_reads_def)
  then have eq: "{# x \<in># mset rs. ls[t := Prints v] ! fst x = Returned #} = {# x \<in># mset rs. ls ! fst x = Returned #}" for v
    by (intro filter_mset_cong refl) (auto simp: nth_list_update image_iff)
  have "mset (prints g) = image_mset (ff2_line (byte_at c 0)) {# x \<in># mset (rs @ [(t, v)]). ls[t := Prints v] ! fst x = Returned #}" for v
    using assms by (simp add: eq ff2_reads_def)
  then show ?thesis using assms nt unfolding ff2_reads_def by (intro conjI) (auto simp: nth_list_update)
qed

lemma ff2_reads_print:
  assumes "ff2_reads c rs g ls" "t < length ls" "ls ! t = Prints v"
  shows "ff2_reads c rs (g\<lparr>os := s1, prints := prints g @ [ff2_line (byte_at c 0) (t, v)]\<rparr>) (ls[t := Returned])"
proof -
  have m: "(t, v) \<in> set rs" "distinct (map fst rs)" using assms by (auto simp: ff2_reads_def)
  then obtain us ws where rs: "rs = us @ (t, v) # ws" by (meson split_list)
  then have "t \<notin> fst ` set us \<union> fst ` set ws" using m(2) by auto
  then have "{# x \<in># mset xs. ls[t := Returned] ! fst x = Returned #} = {# x \<in># mset xs. ls ! fst x = Returned #}" if "xs \<in> {us, ws}" for xs
    using that by (intro filter_mset_cong refl) (auto simp: nth_list_update image_iff)
  then have "{# x \<in># mset rs. ls[t := Returned] ! fst x = Returned #} = add_mset (t, v) {# x \<in># mset rs. ls ! fst x = Returned #}"
    using assms(2,3) unfolding rs by simp
  then show ?thesis using assms by (auto simp: ff2_reads_def nth_list_update)
qed

interpretation ff2: kept "ff2_act 3 (byte_at c 0)" "ff2_inv n c" for n c
proof
  fix g ls t l g1
  assume i: "ff2_inv n c g ls" and t: "t < length ls" and a: "ff2_act 3 (byte_at c 0) t (ls ! t) g = Some (l, g1)"
  obtain rs where rs: "ff2_reads c rs g ls" "\<And>f. entry (ftab (os g)) 1 = Some f \<Longrightarrow> inode f = n \<and> modes f = [O_RDONLY]
      \<and> pos f = min (length c) (Suc (length rs))" using i by (auto simp: ff2_inv_def)
  have ok: "files_ok (os g)" "disk (os g) n = Some c" "Failed \<notin> set ls"
    "\<And>u. u < length ls \<Longrightarrow> has_open (ls ! u) \<Longrightarrow> open_of u 3 (os g) = Some 1" using i by (auto simp: ff2_inv_def)
  show "ff2_inv n c g1 (ls[t := l])"
  proof (cases "ls ! t")
    case Reads
    then have o: "open_of t 3 (os g) = Some 1" using ok(4) t by simp
    obtain f where f: "entry (ftab (os g)) 1 = Some f" using files_ok_live [OF ok(1) o] by auto
    let ?b = "byte_at c (Suc (length rs))" and ?q = "if pos f < length c then Suc (pos f) else pos f"
    have c: "contents (inode f) (os g) = c" using rs(2) [OF f] ok(2) by (simp add: contents_def)
    have "byte_at c (pos f) = ?b" using rs(2) [OF f] by (auto simp: byte_at_def min_def)
    then have "l = Prints ?b" "g1 = g\<lparr>os := move_pos 1 ?q (os g)\<rparr>"
      using a Reads Read_char_at [OF o f] rs(2) [OF f] by (auto simp: ff2_act_def c)
    then show ?thesis unfolding ff2_inv_def
      using ff2_reads_read [OF rs(1) t Reads] rs(2) [OF f] ok t Reads f
      by (auto simp: files_ok_move_pos refcnt_move_pos nth_list_update min_def
          dest: set_update_subset_insert [THEN subsetD] intro!: exI [of _ "rs @ [(t, ?b)]"])
  next
    case (Prints v)
    then have "l = Returned" "g1 = g\<lparr>os := exit_files t (os g), prints := prints g @ [ff2_line (byte_at c 0) (t, v)]\<rparr>"
      using a by (auto simp: ff2_act_def ff2_line_def)
    moreover have "ff2_reads c rs g1 (ls[t := l])" using ff2_reads_print [OF rs(1) t Prints] calculation by simp
    moreover have "inode f = n \<and> modes f = [O_RDONLY] \<and> pos f = min (length c) (Suc (length rs))"
      if "entry (ftab (os g1)) 1 = Some f" for f
      using exit_files_frame(4) [of t "os g" 1 f] that rs(2) calculation(2) by auto
    moreover have "open_of u 3 (os g1) = Some 1" if "u < length ls" "has_open (ls[t := l] ! u)" for u
      using that t ok(4) [of u] calculation(1,2) by (cases "u = t") (auto simp: exit_files_frame(3))
    ultimately show ?thesis using ok by (auto simp: ff2_inv_def exit_files_keeps exit_files_frame dest: set_update_subset_insert [THEN subsetD])
  qed (use a in \<open>auto simp: ff2_act_def\<close>)
qed

definition ff2_work :: "nat \<Rightarrow> ff2_pc \<Rightarrow> nat" where
  "ff2_work t l = (case l of Reads \<Rightarrow> 2 | Prints _ \<Rightarrow> 1 | _ \<Rightarrow> 0)"

interpretation ff2p: progressing "ff2_act 3 (byte_at c 0)" "ff2_inv n c" ff2_work "\<lambda>l. l = Returned" for n c
proof
  fix g ls
  assume "ff2_inv n c g ls" "\<not> list_all (\<lambda>l. l = Returned) ls"
  then obtain t where "t < length ls" "ls ! t \<noteq> Returned" "ls ! t \<noteq> Failed"
    by (auto simp: list_all_length ff2_inv_def in_set_conv_nth)
  moreover then have "ff2_act 3 (byte_at c 0) t (ls ! t) g \<noteq> None"
    by (cases "ls ! t"; cases "Read_char t 3 (os g)") (auto simp: ff2_act_def)
  ultimately show "\<exists>t < length ls. ff2_act 3 (byte_at c 0) t (ls ! t) g \<noteq> None" by blast
qed (auto simp: ff2_act_def ff2_work_def split: ff2_pc.splits outcome.splits)

lemma fork_files_frame:
  "disk (fork_files p s) = disk s"
  "p < length (fdtabs s) \<Longrightarrow> open_of q fd (fork_files p s) = open_of (if q = length (fdtabs s) then p else q) fd s"
  "entry (ftab (fork_files p s)) k = map_option (\<lambda>f. f\<lparr>refcnt := refcnt f + count_list (fdtabs s ! p) (Some k)\<rparr>) (entry (ftab s) k)"
  by (auto simp: fork_files_def open_of_def nth_append entry_retain_all)

lemma ffiles2_start:
  assumes "d n = Some c"
  obtains s1 where "\<And>sched. ffiles2 (Some n) True sched (one_process d)
      = Ret (run_threads (ff2_act 3 (byte_at c 0)) sched (\<lparr>os = fork_files 0 s1, prints = []\<rparr>, [Reads, Reads]))"
    "ff2_inv n c \<lparr>os = fork_files 0 s1, prints = []\<rparr> [Reads, Reads]"
proof -
  define s0 where "s0 = snd (sys_open 0 (Some n) [O_RDONLY] (one_process d))"
  define q where "q = (if c = [] then 0 else 1 :: nat)"
  have d: "d(n \<mapsto> c) = d" using assms by auto
  have s0: "s0 = \<lparr>fdtabs = [[Some 0, Some 0, Some 0, Some 1]], ftab = ftab (one_process d) @
      [Some \<lparr>inode = n, pos = 0, refcnt = 1, modes = [O_RDONLY]\<rparr>], disk = d\<rparr>"
    by (simp add: s0_def sys_open_def one_process_def assms d io_defs numeral_eq_Suc)
  have "files_ok s0" unfolding s0_def by (rule sys_open_keeps [OF one_process_ok]) (simp add: one_process_def)
  then have ok: "files_ok (fork_files 0 (move_pos 1 q s0))" by (intro fork_files_keeps) (simp_all add: files_ok_move_pos s0)
  have 1: "Open_io 0 (Some n) [O_RDONLY] (one_process d) = Ret (3, s0)"
    by (simp add: s0_def io_defs one_process_def assms numeral_eq_Suc)
  have 2: "Read_char 0 3 s0 = Ret (byte_at c 0, move_pos 1 q s0)"
    by (subst Read_char_at [of 0 3 s0 1 "\<lparr>inode = n, pos = 0, refcnt = 1, modes = [O_RDONLY]\<rparr>"])
      (simp_all add: s0 open_of_def entry_def one_process_def contents_def assms q_def)
  have o: "open_of 0 3 s0 = Some 1" by (simp add: s0 open_of_def entry_def numeral_3_eq_3)
  have e: "entry (ftab s0) 1 = Some \<lparr>inode = n, pos = 0, refcnt = 1, modes = [O_RDONLY]\<rparr>" by (simp add: s0 entry_def one_process_def)
  have "ff2_inv n c \<lparr>os = fork_files 0 (move_pos 1 q s0), prints = []\<rparr> [Reads, Reads]"
    unfolding ff2_inv_def
  proof (intro conjI exI [of _ "[]"])
    show "\<forall>t < length [Reads, Reads]. has_open ([Reads, Reads] ! t) \<longrightarrow> open_of t 3 (os \<lparr>os = fork_files 0 (move_pos 1 q s0), prints = []\<rparr>) = Some 1"
      using o by (auto simp: fork_files_frame(2) less_Suc_eq s0)
    show "\<forall>f. entry (ftab (os \<lparr>os = fork_files 0 (move_pos 1 q s0), prints = []\<rparr>)) 1 = Some f \<longrightarrow>
        inode f = n \<and> modes f = [O_RDONLY] \<and> pos f = min (length c) (Suc (length []))"
      using e by (cases c) (auto simp: fork_files_frame(3) refcnt_move_pos q_def)
  qed (use ok in \<open>auto simp: ff2_reads_def fork_files_frame s0 assms less_Suc_eq nth_Cons split: nat.splits\<close>)
  moreover have "ffiles2 (Some n) True sched (one_process d)
      = Ret (run_threads (ff2_act 3 (byte_at c 0)) sched (\<lparr>os = fork_files 0 (move_pos 1 q s0), prints = []\<rparr>, [Reads, Reads]))" for sched
    by (simp add: ffiles2_def andthen_def 1 2)
  ultimately show ?thesis using that by blast
qed

lemma ff2_reads_both:
  assumes "ff2_reads c rs g [Returned, Returned]"
  shows "\<exists>first second. {first, second} = {''Parent'', ''Child''}
    \<and> mset (prints g) = {#(first, byte_at c 0, byte_at c 1), (second, byte_at c 0, byte_at c 2)#}"
proof -
  have "{t. t < (2 :: nat) \<and> has_read ([Returned, Returned] ! t)} = {0, 1}" by (auto simp: less_2_cases_iff)
  then have f: "fst ` set rs = {0, 1}" using assms by (simp add: ff2_reads_def numeral_2_eq_2)
  have d: "distinct (map fst rs)" using assms by (simp add: ff2_reads_def)
  have "length rs = 2" using distinct_card [OF d] f by simp
  then obtain x y where "rs = [x, y]" by (auto simp: length_Suc_conv numeral_2_eq_2)
  then obtain t u v w where e: "rs = [(t, v), (u, w)]" by (cases x; cases y) blast
  have tu: "t = 0 \<and> u = 1 \<or> t = 1 \<and> u = 0" using f unfolding e by (simp add: doubleton_eq_iff)
  have "v = byte_at c 1" "w = byte_at c 2" using assms unfolding e by (simp_all add: ff2_reads_def upt_conv_Cons numeral_2_eq_2)
  moreover have "mset (prints g) = image_mset (ff2_line (byte_at c 0)) {# x \<in># mset rs. [Returned, Returned] ! fst x = Returned #}"
    using assms by (simp add: ff2_reads_def)
  then have "mset (prints g) = {#ff2_line (byte_at c 0) (t, v), ff2_line (byte_at c 0) (u, w)#}"
    using tu unfolding e by (elim disjE) simp_all
  ultimately show ?thesis using tu
    by (intro exI [of _ "if t = 0 then ''Parent'' else ''Child''"] exI [of _ "if u = 0 then ''Parent'' else ''Child''"])
      (auto simp: ff2_line_def insert_commute)
qed

text \<open>
  C13 (\<open>ffiles2\<close>).  Parent and child share the position of the descriptor that they inherit.  In whatever order they run, both end, both
  print the first byte of the file as \<open>c1\<close>, and one of them gets the second byte and the other one
  the third; neither byte is read twice.
\<close>

theorem ffiles2_prints:
  assumes "d n = Some c"
  shows "\<exists>g. ffiles2 (Some n) True (sched @ rounds 2 4) (one_process d) = Ret (g, [Returned, Returned])
    \<and> (\<exists>first second. {first, second} = {''Parent'', ''Child''}
        \<and> mset (prints g) = {#(first, byte_at c 0, byte_at c 1), (second, byte_at c 0, byte_at c 2)#})"
proof -
  obtain s1 where s1: "\<And>sched. ffiles2 (Some n) True sched (one_process d)
      = Ret (run_threads (ff2_act 3 (byte_at c 0)) sched (\<lparr>os = fork_files 0 s1, prints = []\<rparr>, [Reads, Reads]))"
    and i: "ff2_inv n c \<lparr>os = fork_files 0 s1, prints = []\<rparr> [Reads, Reads]" by (rule ffiles2_start [of d n c]) (use assms in auto)
  let ?b = "(\<lparr>os = fork_files 0 s1, prints = []\<rparr>, [Reads, Reads])"
  let ?s = "run_threads (ff2_act 3 (byte_at c 0)) sched ?b"
  let ?t = "run_threads (ff2_act 3 (byte_at c 0)) (rounds 2 4) ?s"
  have k: "ff2_inv n c (fst ?s) (snd ?s)" "length (snd ?s) = 2" using ff2.run_keeps [where s = ?b and sched = sched] i by simp_all
  have "ff2p.total_work (snd ?s) \<le> ff2p.total_work (snd ?b)" by (rule ff2p.run_work_le) (use i in simp)
  also have "\<dots> = 4" by (simp add: ff2p.total_work_def ff2_work_def numeral_2_eq_2)
  finally have "list_all (\<lambda>l. l = Returned) (snd ?t)" using ff2p.rounds_finish [OF k(1), of 4] unfolding k(2) by blast
  moreover have l: "length (snd ?t) = 2" using k(2) by simp
  ultimately have r: "snd ?t = [Returned, Returned]" by (cases "snd ?t" rule: list.exhaust; cases "tl (snd ?t)") auto
  have "ff2_inv n c (fst ?t) (snd ?t)" using k(1) by (rule ff2.run_keeps)
  then obtain rs where "ff2_reads c rs (fst ?t) [Returned, Returned]" unfolding r by (auto simp: ff2_inv_def)
  from ff2_reads_both [OF this] show ?thesis using r unfolding s1 run_threads_append
    by (intro exI [of _ "fst ?t"] conjI) (simp_all add: prod_eq_iff)
qed

theorem ffiles2_prints_witness:
  "\<exists>g. ffiles2 (Some ''f'') True ([1, 0, 0, 1] @ rounds 2 4) (one_process [''f'' \<mapsto> [65, 66, 67]]) = Ret (g, [Returned, Returned])
    \<and> (\<exists>first second. {first, second} = {''Parent'', ''Child''}
        \<and> mset (prints g) = {#(first, Some 65, Some 66), (second, Some 65, Some 67)#})"
  using ffiles2_prints [of "[''f'' \<mapsto> [65, 66, 67]]" "''f''" "[65, 66, 67]" "[1, 0, 0, 1]"] by (simp add: byte_at_def)

section \<open>statcheck.c and hello.c\<close>

text \<open>The file type is in the upper four bits of the mode, the permission of the owner to read in bit 8.\<close>

definition S_ISREG :: "32 word \<Rightarrow> bool" where "S_ISREG m = (m AND 0xF000 = 0x8000)"
definition S_ISDIR :: "32 word \<Rightarrow> bool" where "S_ISDIR m = (m AND 0xF000 = 0x4000)"
definition S_IRUSR :: "32 word" where "S_IRUSR = 0x100"

definition statcheck_type :: "32 word \<Rightarrow> string" where
  "statcheck_type m = (if S_ISREG m then ''regular'' else if S_ISDIR m then ''directory'' else ''other'')"

definition statcheck_readok :: "32 word \<Rightarrow> string" where
  "statcheck_readok m = (if m AND S_IRUSR \<noteq> 0 then ''yes'' else ''no'')"

text \<open>\<open>None\<close> is the usage message.\<close>

definition statcheck :: "int \<Rightarrow> sysret \<Rightarrow> 32 word \<Rightarrow> (string \<times> string) option outcome" where
  "statcheck argc r st_mode = (if argc \<noteq> 2 then Ret None
     else then_do (Stat r) (\<lambda>_. Ret (Some (statcheck_type st_mode, statcheck_readok st_mode))))"

text \<open>The type does not depend on the permissions, and the permission does not depend on the type.\<close>

lemma statcheck_independent:
  assumes "t AND 0x0FFF = 0" "p AND 0xF000 = 0"
  shows "statcheck_type (t OR p) = statcheck_type t" "statcheck_readok (t OR p) = statcheck_readok p"
proof -
  have "(t OR p) AND 0xF000 = t AND 0xF000" using assms(2) by (simp add: bit.conj_disj_distrib2)
  then show "statcheck_type (t OR p) = statcheck_type t" by (simp add: statcheck_type_def S_ISREG_def S_ISDIR_def)
  have "t AND 0x100 = t AND (0x0FFF AND 0x100)" by simp
  also have "\<dots> = 0" using assms(1) unfolding and.assoc [symmetric] by simp
  finally show "statcheck_readok (t OR p) = statcheck_readok p"
    by (simp add: statcheck_readok_def S_IRUSR_def bit.conj_disj_distrib2)
qed

text \<open>
  A stream of the C library: its characters are collected and handed to \<open>write\<close> when the buffer is full, when it
  is flushed, and at the end of a line if the stream is line buffered.
\<close>

record stream_t =
  chars :: string
  line_buffered :: bool
  capacity :: nat
  write_calls :: "string list"

definition fflush :: "stream_t \<Rightarrow> stream_t" where
  "fflush f = (if chars f = [] then f else f\<lparr>chars := [], write_calls := write_calls f @ [chars f]\<rparr>)"

definition putc :: "char \<Rightarrow> stream_t \<Rightarrow> stream_t" where
  "putc c f = (let g = f\<lparr>chars := chars f @ [c]\<rparr> in
     if length (chars g) = capacity g \<or> line_buffered g \<and> c = CHR 0x0A then fflush g else g)"

definition printf_str :: "string \<Rightarrow> stream_t \<Rightarrow> stream_t" where
  "printf_str s f = fold putc s f"

definition hello :: "stream_t \<Rightarrow> stream_t" where
  "hello stdout = (let f1 = printf_str ''h'' stdout; f2 = printf_str ''e'' f1; f3 = printf_str ''l'' f2;
     f4 = printf_str ''l'' f3; f5 = printf_str ''o'' f4; f6 = printf_str [CHR 0x0A] f5 in fflush f6)"

text \<open>The six calls of \<open>printf\<close> become one call of \<open>write\<close>, on a terminal as well as on a file.\<close>

lemma hello_one_write:
  "6 < n \<Longrightarrow> write_calls (hello \<lparr>chars = [], line_buffered = b, capacity = n, write_calls = []\<rparr>) = [''hello'' @ [CHR 0x0A]]"
  by (auto simp: hello_def printf_str_def putc_def fflush_def Let_def)

end
