(* ===== verification/Histogram.thy ===== *)
theory Histogram
  imports Prelude
begin

text \<open>
  \<open>23-concprog/race.c\<close>: one hundred threads read the loop variable of \<open>main\<close> through a pointer and deposit what they
  read in a random bucket; after a pause \<open>main\<close> counts how often every value was seen.  The
  threads and the creating loop interleave arbitrarily, and a bucket is whatever the cycle
  counter selects.  The counting is a function of the table; an index outside an array is \<open>None\<close>.
\<close>

definition CNT :: nat where "CNT = 100"
definition POP :: nat where "POP = 50000"

section \<open>The threads\<close>

definition sample_index :: "32 word \<Rightarrow> int" where
  "sample_index lo = uint lo mod int POP"

definition save_value :: "32 word \<Rightarrow> int \<Rightarrow> int list \<Rightarrow> int list option" where
  "save_value lo i ivals = wr ivals (sample_index lo) i"

text \<open>The value that a thread has read; \<open>Stored\<close> remembers it.\<close>

datatype depositor = Started | Fetched int | Stored int

datatype creator = Creating | Incrementing | Sleeping

record race_state =
  var_i :: int
  ivals :: "int list"
  mainpc :: creator
  workers :: "depositor list"

definition race_start :: race_state where
  "race_start = \<lparr>var_i = 0, ivals = - 1 # replicate (POP - 1) 0, mainpc = Creating, workers = []\<rparr>"

inductive race_step :: "race_state \<Rightarrow> race_state \<Rightarrow> bool" where
  create: "mainpc s = Creating \<Longrightarrow> var_i s < int CNT \<Longrightarrow>
    race_step s (s\<lparr>mainpc := Incrementing, workers := workers s @ [Started]\<rparr>)"
| increment: "mainpc s = Incrementing \<Longrightarrow> race_step s (s\<lparr>mainpc := Creating, var_i := var_i s + 1\<rparr>)"
| created: "mainpc s = Creating \<Longrightarrow> \<not> var_i s < int CNT \<Longrightarrow> race_step s (s\<lparr>mainpc := Sleeping\<rparr>)"
| fetch: "t < length (workers s) \<Longrightarrow> workers s ! t = Started \<Longrightarrow>
    race_step s (s\<lparr>workers := (workers s)[t := Fetched (var_i s)]\<rparr>)"
| store: "t < length (workers s) \<Longrightarrow> workers s ! t = Fetched v \<Longrightarrow> save_value lo v (ivals s) = Some iv \<Longrightarrow>
    race_step s (s\<lparr>ivals := iv, workers := (workers s)[t := Stored v]\<rparr>)"

inductive race_reach :: "race_state \<Rightarrow> bool" where
  start: "race_reach race_start"
| step: "race_reach s \<Longrightarrow> race_step s s' \<Longrightarrow> race_reach s'"

section \<open>The counting\<close>

fun count_samples :: "int list \<Rightarrow> nat \<times> int list \<Rightarrow> (nat \<times> int list) option" where
  "count_samples [] (scount, ihist) = Some (scount, ihist)"
| "count_samples (v # vs) (scount, ihist) = (if 0 < v
     then do { n \<leftarrow> rd ihist v; h \<leftarrow> wr ihist v (n + 1); count_samples vs (scount + 1, h) }
     else count_samples vs (scount, ihist))"

fun count_reps :: "nat list \<Rightarrow> int list \<Rightarrow> int list \<times> int \<Rightarrow> (int list \<times> int) option" where
  "count_reps [] ihist (ireps, maxr) = Some (ireps, maxr)"
| "count_reps (i # is) ihist (ireps, maxr) = do {
     r \<leftarrow> rd ihist (int i); n \<leftarrow> rd ireps r; h \<leftarrow> wr ireps r (n + 1);
     count_reps is ihist (h, if maxr < r then r else maxr) }"

text \<open>The report: the lines with values and counts, the number of samples, the lines with repetitions.\<close>

definition race_report :: "int list \<Rightarrow> ((nat \<times> int) list \<times> nat \<times> (int \<times> int) list) option" where
  "race_report table = do {
     (scount, ihist) \<leftarrow> count_samples table (0, replicate CNT 0);
     (ireps, maxr) \<leftarrow> count_reps [0..<CNT] ihist (replicate CNT 0, - 1);
     reps \<leftarrow> those (map (\<lambda>r. map_option (Pair r) (rd ireps r)) (map int [0..<nat (maxr + 1)]));
     Some (map (\<lambda>i. (i, ihist ! i)) [0..<CNT], scount, reps) }"

section \<open>What the threads read\<close>

definition thread_ok :: "nat \<Rightarrow> int \<Rightarrow> depositor \<Rightarrow> bool" where
  "thread_ok t i l = (case l of Started \<Rightarrow> int t \<le> i | Fetched v \<Rightarrow> int t \<le> v \<and> v \<le> i | Stored v \<Rightarrow> int t \<le> v \<and> v \<le> i)"

fun has_stored :: "depositor \<Rightarrow> bool" where
  "has_stored (Stored v) = True" | "has_stored _ = False"

definition positive :: "int list \<Rightarrow> nat" where
  "positive xs = length (filter (\<lambda>v. 0 < v) xs)"

text \<open>The number of threads is the value of the loop variable, and one more just after a creation.\<close>

definition race_inv :: "race_state \<Rightarrow> bool" where
  "race_inv s \<longleftrightarrow> length (ivals s) = POP \<and> (\<forall>v \<in> set (ivals s). - 1 \<le> v \<and> v \<le> var_i s) \<and> 0 \<le> var_i s \<and> var_i s \<le> int CNT
     \<and> int (length (workers s)) = var_i s + (if mainpc s = Incrementing then 1 else 0)
     \<and> (mainpc s = Incrementing \<longrightarrow> var_i s < int CNT)
     \<and> (\<forall>t < length (workers s). thread_ok t (var_i s) (workers s ! t))
     \<and> positive (ivals s) \<le> length (filter has_stored (workers s))"

lemma sample_index_in: "0 \<le> sample_index lo" "sample_index lo < int POP"
  by (simp_all add: sample_index_def POP_def)

lemma positive_update: "i < length xs \<Longrightarrow> positive (xs[i := v]) \<le> Suc (positive xs)"
proof (induction xs arbitrary: i)
  case (Cons a xs)
  then show ?case by (cases i) (auto simp: positive_def)
qed simp

lemma filter_stored_update:
  "t < length ws \<Longrightarrow> \<not> has_stored (ws ! t) \<Longrightarrow> length (filter has_stored (ws[t := l])) = length (filter has_stored ws) + (if has_stored l then 1 else 0)"
proof (induction ws arbitrary: t)
  case (Cons a ws)
  then show ?case by (cases t) auto
qed simp

lemma thread_ok_mono: "thread_ok t i l \<Longrightarrow> i \<le> j \<Longrightarrow> thread_ok t j l"
  by (auto simp: thread_ok_def split: depositor.splits)

lemma race_step_inv:
  assumes "race_step s s'" "race_inv s"
  shows "race_inv s'"
  using assms
proof (induction rule: race_step.induct)
  case (create s)
  then show ?case by (auto simp: race_inv_def thread_ok_def nth_append less_Suc_eq)
next
  case (increment s)
  then show ?case using thread_ok_mono [of _ "var_i s" _ "var_i s + 1"] by (fastforce simp: race_inv_def)
next
  case (created s)
  then show ?case by (auto simp: race_inv_def)
next
  case (fetch t s)
  then show ?case by (auto simp: race_inv_def thread_ok_def nth_list_update filter_stored_update)
next
  case (store t s v lo iv)
  have iv: "iv = (ivals s)[nat (sample_index lo) := v]" "nat (sample_index lo) < length (ivals s)"
    using store(3) by (auto simp: save_value_def dest!: wr_SomeD)
  have v: "int t \<le> v" "v \<le> var_i s" using store(1,2,4) by (auto simp: race_inv_def thread_ok_def dest!: spec [of _ t])
  have "positive iv \<le> length (filter has_stored ((workers s)[t := Stored v]))"
    using positive_update [OF iv(2), of v] filter_stored_update [OF store(1), of "Stored v"] store(2,4) by (simp add: iv race_inv_def)
  then show ?case using store v
    by (auto simp: race_inv_def iv thread_ok_def nth_list_update dest!: set_update_subset_insert [THEN subsetD])
qed

lemma race_start_inv: "race_inv race_start"
  by (auto simp: race_inv_def race_start_def positive_def POP_def)

lemma race_reach_inv: "race_reach s \<Longrightarrow> race_inv s"
  by (induction rule: race_reach.induct) (auto simp: race_start_inv race_step_inv)

section \<open>What is counted\<close>

text \<open>How often a value was seen; the test \<open>ivals[s] > 0\<close> leaves out the value 0.\<close>

definition hist :: "int list \<Rightarrow> nat \<Rightarrow> nat" where
  "hist table i = (if i = 0 then 0 else count_list table (int i))"

lemma hist_Cons: "hist (v # vs) i = hist vs i + (if 0 < v \<and> v = int i then 1 else 0)"
  by (auto simp: hist_def)

lemma count_samples_spec:
  assumes "0 < length h"
  shows "count_samples vs (n, h) = (if \<forall>v \<in> set vs. v < int (length h)
     then Some (n + positive vs, map (\<lambda>i. h ! i + int (hist vs i)) [0..<length h]) else None)"
  using assms
proof (induction vs arbitrary: n h)
  case Nil
  have "hist [] = (\<lambda>i. 0)" by (auto simp: hist_def)
  then show ?case by (simp add: positive_def map_nth)
next
  case (Cons v vs)
  show ?case
  proof (cases "0 < v \<and> v < int (length h)")
    case True
    define h1 where "h1 = h[nat v := h ! nat v + 1]"
    have "count_samples (v # vs) (n, h) = count_samples vs (n + 1, h1)" using True by (simp add: mem_simps h1_def)
    moreover have "map (\<lambda>i. h1 ! i + int (hist vs i)) [0..<length h1] = map (\<lambda>i. h ! i + int (hist (v # vs) i)) [0..<length h]"
      using True by (auto simp: h1_def nth_list_update hist_Cons)
    moreover have "length h1 = length h" by (simp add: h1_def)
    ultimately show ?thesis using Cons.IH [of h1 "n + 1"] Cons.prems True by (simp add: positive_def)
  next
    case False
    have *: "map (\<lambda>i. h ! i + int (hist vs i)) [0..<length h] = map (\<lambda>i. h ! i + int (hist (v # vs) i)) [0..<length h]" if "\<not> 0 < v"
      using that by (simp add: hist_Cons)
    show ?thesis
    proof (cases "0 < v")
      case False
      then have "v < int (length h)" using Cons.prems by linarith
      then have "(\<forall>x \<in> set (v # vs). x < int (length h)) = (\<forall>x \<in> set vs. x < int (length h))" by simp
      moreover have "positive (v # vs) = positive vs" "count_samples (v # vs) (n, h) = count_samples vs (n, h)"
        using False by (simp_all add: positive_def)
      ultimately show ?thesis using Cons.IH [OF Cons.prems, of n] * [OF False] by (simp only:)
    qed (use False in \<open>simp add: rd_def\<close>)
  qed
qed

lemma count_reps_spec:
  assumes "\<And>i. i \<in> set is \<Longrightarrow> i < length h \<and> 0 \<le> h ! i"
  shows "count_reps is h (p, m) = (if \<forall>i \<in> set is. h ! i < int (length p)
     then Some (map (\<lambda>r. p ! r + int (length (filter (\<lambda>i. h ! i = int r) is))) [0..<length p], fold (\<lambda>i m. max m (h ! i)) is m) else None)"
  using assms
proof (induction "is" arbitrary: p m)
  case Nil
  then show ?case by (simp add: map_nth)
next
  case (Cons i "is")
  have i: "i < length h" "0 \<le> h ! i" using Cons.prems by auto
  show ?case
  proof (cases "h ! i < int (length p)")
    case True
    define q where "q = p[nat (h ! i) := p ! nat (h ! i) + 1]"
    have "count_reps (i # is) h (p, m) = count_reps is h (q, max m (h ! i))"
      using i True by (auto simp: mem_simps q_def max_def)
    moreover have "map (\<lambda>r. q ! r + int (length (filter (\<lambda>i. h ! i = int r) is))) [0..<length q]
        = map (\<lambda>r. p ! r + int (length (filter (\<lambda>i. h ! i = int r) (i # is)))) [0..<length p]"
      using i True by (auto simp: q_def nth_list_update)
    moreover have "length q = length p" by (simp add: q_def)
    ultimately show ?thesis using Cons.IH [of q "max m (h ! i)"] Cons.prems True by auto
  qed (use i in \<open>auto simp: rd_def\<close>)
qed

lemma fold_max: "fold (\<lambda>i m. max m (int (f i))) [0..<Suc n] (- 1) = int (Max (f ` {..<Suc n}))"
proof (induction n)
  case (Suc n)
  have "{..<Suc (Suc n)} = insert (Suc n) {..<Suc n}" by auto
  then have "f ` {..<Suc (Suc n)} = insert (f (Suc n)) (f ` {..<Suc n})" by (simp only: image_insert)
  moreover have "Max (insert (f (Suc n)) (f ` {..<Suc n})) = max (f (Suc n)) (Max (f ` {..<Suc n}))" by (rule Max_insert) auto
  ultimately have "Max (f ` {..<Suc (Suc n)}) = max (f (Suc n)) (Max (f ` {..<Suc n}))" by simp
  then show ?case using Suc by (simp add: max.commute)
qed (simp add: lessThan_Suc)

lemma length_filter_upt: "length (filter p [0..<n]) = card {i. i < n \<and> p i}"
  by (auto simp: length_filter_conv_card intro!: arg_cong [where f = card])

lemma those_map_Some: "(\<And>x. x \<in> set xs \<Longrightarrow> f x = Some (g x)) \<Longrightarrow> those (map f xs) = Some (map g xs)"
  by (induction xs) auto

lemma race_report_eq:
  "race_report table = (if (\<forall>v \<in> set table. v < int CNT) \<and> (\<forall>i < CNT. hist table i < CNT)
     then Some (map (\<lambda>i. (i, int (hist table i))) [0..<CNT], positive table,
       map (\<lambda>r. (int r, int (card {i. i < CNT \<and> hist table i = r}))) [0..<Suc (Max (hist table ` {..<CNT}))])
     else None)"
proof (cases "\<forall>v \<in> set table. v < int CNT")
  case True
  define h where "h = map (\<lambda>i. int (hist table i)) [0..<CNT]"
  have "map (\<lambda>i. replicate CNT 0 ! i + int (hist table i)) [0..<CNT] = h" by (simp add: h_def)
  then have 1: "count_samples table (0, replicate CNT 0) = Some (positive table, h)"
    using True count_samples_spec [of "replicate CNT 0" table 0] by (simp add: CNT_def)
  have len: "length h = CNT" and h: "\<And>i. i < CNT \<Longrightarrow> h ! i = int (hist table i)" by (simp_all add: h_def)
  define M where "M = Max (hist table ` {..<CNT})"
  have "fold (\<lambda>i m. max m (h ! i)) [0..<CNT] (- 1) = fold (\<lambda>i m. max m (int (hist table i))) [0..<CNT] (- 1)"
    by (rule fold_cong) (simp_all add: h)
  also have "\<dots> = int M" using fold_max [of "hist table" "CNT - 1"] by (simp add: M_def CNT_def)
  finally have mx: "fold (\<lambda>i m. max m (h ! i)) [0..<CNT] (- 1) = int M" .
  show ?thesis
  proof (cases "\<forall>i < CNT. hist table i < CNT")
    case b: True
    define p where "p = map (\<lambda>r. int (card {i. i < CNT \<and> hist table i = r})) [0..<CNT]"
    have "M \<in> hist table ` {..<CNT}" unfolding M_def by (rule Max_in) (auto simp: CNT_def lessThan_empty_iff)
    then have M: "M < CNT" using b by auto
    have "{i. i < CNT \<and> h ! i = int r} = {i. i < CNT \<and> hist table i = r}" for r by (auto simp: h)
    then have "map (\<lambda>r. replicate CNT 0 ! r + int (length (filter (\<lambda>i. h ! i = int r) [0..<CNT]))) [0..<CNT] = p"
      by (auto simp: p_def length_filter_upt)
    then have 2: "count_reps [0..<CNT] h (replicate CNT 0, - 1) = Some (p, int M)"
      using b count_reps_spec [of "[0..<CNT]" h "replicate CNT 0" "- 1"] by (simp add: h len mx)
    have "those (map (\<lambda>r. map_option (Pair r) (rd p r)) (map int [0..<nat (int M + 1)]))
        = Some (map (\<lambda>r. (int r, int (card {i. i < CNT \<and> hist table i = r}))) [0..<Suc M])"
      using M unfolding map_map by (subst those_map_Some [where g = "\<lambda>r. (int r, p ! r)"]) (auto simp: p_def mem_simps nat_add_distrib simp del: upt_Suc)
    moreover have "map (\<lambda>i. (i, h ! i)) [0..<CNT] = map (\<lambda>i. (i, int (hist table i))) [0..<CNT]" by (simp add: h)
    ultimately show ?thesis using True b 1 2 by (simp add: race_report_def M_def)
  next
    case False
    then have "count_reps [0..<CNT] h (replicate CNT 0, - 1) = None"
      using count_reps_spec [of "[0..<CNT]" h "replicate CNT 0" "- 1"] by (auto simp: h len)
    then show ?thesis using False 1 by (simp add: race_report_def)
  qed
next
  case False
  then have "count_samples table (0, replicate CNT 0) = None"
    using count_samples_spec [of "replicate CNT 0" table 0] by (simp add: CNT_def)
  then show ?thesis using False by (auto simp: race_report_def)
qed

text \<open>
  C21 (the report of \<open>race.c\<close>).  The counting stays inside its arrays exactly if every value in the table is less than \<open>CNT\<close>
  and none occurs \<open>CNT\<close> times.  Then the report has, for every value but 0, the number of
  its occurrences, the number of positive entries, and how many values have each number of
  occurrences up to the largest one.
\<close>

theorem race_report_spec:
  "race_report table = (if (\<forall>v \<in> set table. v < int CNT) \<and> (\<forall>i < CNT. hist table i < CNT)
     then Some (map (\<lambda>i. (i, int (hist table i))) [0..<CNT], positive table,
       map (\<lambda>r. (int r, int (card {i. i < CNT \<and> hist table i = r}))) [0..<Suc (Max (hist table ` {..<CNT}))])
     else None)"
  by (rule race_report_eq)

theorem race_report_spec_witness:
  "race_report [int CNT] = None
   \<and> race_report [0] = Some (map (\<lambda>i. (i, int (hist [0] i))) [0..<CNT], positive [0],
       map (\<lambda>r. (int r, int (card {i. i < CNT \<and> hist [0] i = r}))) [0..<Suc (Max (hist [0] ` {..<CNT}))])"
proof -
  have "0 < int CNT \<and> (\<forall>i < CNT. hist [0] i < CNT)" by (simp add: hist_def CNT_def)
  then show ?thesis using race_report_spec [of "[int CNT]"] race_report_spec [of "[0]"] by simp
qed

section \<open>The threads can overflow the histogram\<close>

text \<open>Every thread reads the number of its creation or a later value, up to \<open>CNT\<close>.\<close>

lemma race_reads: "race_reach s \<Longrightarrow> t < length (workers s) \<Longrightarrow> workers s ! t = Stored v \<Longrightarrow> int t \<le> v \<and> v \<le> int CNT"
  by (drule race_reach_inv) (fastforce simp: race_inv_def thread_ok_def)

lemma race_creates: "k \<le> CNT \<Longrightarrow> race_reach (race_start\<lparr>var_i := int k, workers := replicate k Started\<rparr>)"
proof (induction k)
  case 0
  have "race_start\<lparr>var_i := int 0, workers := replicate 0 Started\<rparr> = race_start" by (simp add: race_start_def)
  then show ?case using race_reach.start by simp
next
  case (Suc k)
  let ?s = "race_start\<lparr>var_i := int k, workers := replicate k Started\<rparr>"
  have "race_step ?s (?s\<lparr>mainpc := Incrementing, workers := workers ?s @ [Started]\<rparr>)"
    using Suc.prems by (intro race_step.create) (auto simp: race_start_def)
  moreover have "race_step (?s\<lparr>mainpc := Incrementing, workers := workers ?s @ [Started]\<rparr>)
      (race_start\<lparr>var_i := int (Suc k), workers := replicate (Suc k) Started\<rparr>)"
    using race_step.increment [of "?s\<lparr>mainpc := Incrementing, workers := workers ?s @ [Started]\<rparr>"]
    by (simp add: race_start_def replicate_append_same add.commute)
  ultimately show ?case using Suc race_reach.step by simp blast
qed

lemma race_late_thread:
  assumes "race_reach s" "mainpc s = Sleeping" "var_i s = int CNT" "workers s = replicate j (Stored (int CNT)) @ Started # ws"
  shows "\<exists>s'. race_reach s' \<and> mainpc s' = Sleeping \<and> var_i s' = int CNT \<and> workers s' = replicate (Suc j) (Stored (int CNT)) @ ws
    \<and> int CNT \<in> set (ivals s')"
proof -
  have j: "j < length (workers s)" "workers s ! j = Started" using assms(4) by (simp_all add: nth_append)
  let ?s = "s\<lparr>workers := (workers s)[j := Fetched (int CNT)]\<rparr>"
  have 1: "race_reach ?s" using race_reach.step [OF assms(1) race_step.fetch [OF j]] assms(3) by simp
  have len: "length (ivals s) = POP" using race_reach_inv [OF assms(1)] by (simp add: race_inv_def)
  then have sv: "save_value 0 (int CNT) (ivals ?s) = Some ((ivals s)[0 := int CNT])"
    by (simp add: save_value_def sample_index_def mem_simps POP_def)
  have "race_step ?s (?s\<lparr>ivals := (ivals s)[0 := int CNT], workers := (workers ?s)[j := Stored (int CNT)]\<rparr>)"
    by (rule race_step.store [OF _ _ sv]) (use j in simp_all)
  moreover have "(workers s)[j := Stored (int CNT)] = replicate (Suc j) (Stored (int CNT)) @ ws"
    using assms(4) by (simp add: list_update_append replicate_append_same)
  moreover have "int CNT \<in> set ((ivals s)[0 := int CNT])" using len by (intro set_update_memI) (simp add: POP_def)
  ultimately show ?thesis using race_reach.step [OF 1] assms(2,3)
    by (intro exI [of _ "?s\<lparr>ivals := (ivals s)[0 := int CNT], workers := (workers ?s)[j := Stored (int CNT)]\<rparr>"]) simp
qed

text \<open>If no thread runs before all have been created, all of them read \<open>CNT\<close>, and the report leaves its array.\<close>

theorem race_overflows:
  "\<exists>s. race_reach s \<and> mainpc s = Sleeping \<and> workers s = replicate CNT (Stored (int CNT)) \<and> race_report (ivals s) = None"
proof -
  have "\<exists>s. race_reach s \<and> mainpc s = Sleeping \<and> var_i s = int CNT
      \<and> workers s = replicate j (Stored (int CNT)) @ replicate (CNT - j) Started \<and> (0 < j \<longrightarrow> int CNT \<in> set (ivals s))" if "j \<le> CNT" for j
    using that
  proof (induction j)
    case 0
    let ?s = "race_start\<lparr>var_i := int CNT, workers := replicate CNT Started\<rparr>"
    have "race_reach (?s\<lparr>mainpc := Sleeping\<rparr>)"
      using race_reach.step [OF race_creates [of CNT]] race_step.created [of ?s] by (simp add: race_start_def)
    then show ?case by (intro exI [of _ "?s\<lparr>mainpc := Sleeping\<rparr>"]) simp
  next
    case (Suc j)
    then obtain s where s: "race_reach s" "mainpc s = Sleeping" "var_i s = int CNT"
      "workers s = replicate j (Stored (int CNT)) @ replicate (CNT - j) Started" by auto
    have "replicate (CNT - j) Started = Started # replicate (CNT - Suc j) Started"
      using Suc.prems by (simp flip: replicate_Suc add: Suc_diff_Suc)
    then show ?case using race_late_thread [OF s(1-3), of j "replicate (CNT - Suc j) Started"] s(4) by auto
  qed
  from this [of CNT] show ?thesis by (auto simp: CNT_def race_report_eq)
qed

end
