(* ===== verification/Sigwait.thy ===== *)
theory Sigwait
  imports Prelude
begin

text \<open>
  Waiting for a signal: \<open>15-ecf-signals/sigsuspend.c\<close> and \<open>waitforsignal.c\<close>.  Both programs block \<open>SIGCHLD\<close>, fork, and
  wait until the handler has stored the number of the reaped child in \<open>pid\<close>.  The kernel part is
  what the two programs use: one blocked signal, a pending bit, children that run or have
  ended, and \<open>sigsuspend\<close>, which waits with the old mask and returns when a handler has returned.  A pending
  signal that is not blocked is delivered before the next statement of the program; children
  end and \<open>SIGINT\<close> arrives at any time.
\<close>

section \<open>State\<close>

datatype wait_pc = ToBlock | ToFork | ToZero | ToTest | Suspended | ToUnblock | ToPrint | Died

text \<open>
  \<open>pid\<close> is the global variable; \<open>in_handler\<close> tells that \<open>sigchld_handler\<close> is running, with \<open>SIGCHLD\<close> blocked;
  \<open>reaped\<close> counts the children that have been waited for.
\<close>

record wait_state =
  pid :: int
  chld_blocked :: bool
  chld_pending :: bool
  in_handler :: bool
  alive :: "int list"
  zombies :: "int list"
  next_pid :: int
  wpc :: wait_pc
  dots :: nat
  reaped :: nat

definition wait_start :: wait_state where
  "wait_start = \<lparr>pid = 0, chld_blocked = False, chld_pending = False, in_handler = False, alive = [], zombies = [],
     next_pid = 100, wpc = ToBlock, dots = 0, reaped = 0\<rparr>"

section \<open>The programs\<close>

text \<open>The next statement of the loop of \<open>main\<close>; the child only exits.\<close>

definition do_block :: "wait_state \<Rightarrow> wait_state" where
  "do_block s = s\<lparr>chld_blocked := True, wpc := ToFork\<rparr>"

definition do_fork :: "wait_state \<Rightarrow> wait_state" where
  "do_fork s = s\<lparr>alive := next_pid s # alive s, next_pid := next_pid s + 1, wpc := ToZero\<rparr>"

definition do_print :: "wait_state \<Rightarrow> wait_state" where
  "do_print s = s\<lparr>dots := dots s + 1, wpc := ToBlock\<rparr>"

definition sigsuspend_main :: "wait_state \<Rightarrow> wait_state" where
  "sigsuspend_main s = (case wpc s of
     ToBlock \<Rightarrow> do_block s
   | ToFork \<Rightarrow> do_fork s
   | ToZero \<Rightarrow> s\<lparr>pid := 0, wpc := ToTest\<rparr>
   | ToTest \<Rightarrow> s\<lparr>wpc := (if pid s = 0 then Suspended else ToUnblock)\<rparr>
   | Suspended \<Rightarrow> s
   | ToUnblock \<Rightarrow> s\<lparr>chld_blocked := False, wpc := ToPrint\<rparr>
   | ToPrint \<Rightarrow> do_print s
   | Died \<Rightarrow> s)"

definition waitforsignal_main :: "wait_state \<Rightarrow> wait_state" where
  "waitforsignal_main s = (case wpc s of
     ToBlock \<Rightarrow> do_block s
   | ToFork \<Rightarrow> do_fork s
   | ToZero \<Rightarrow> s\<lparr>pid := 0, wpc := ToUnblock\<rparr>
   | ToUnblock \<Rightarrow> s\<lparr>chld_blocked := False, wpc := ToTest\<rparr>
   | ToTest \<Rightarrow> s\<lparr>wpc := (if pid s = 0 then ToTest else ToPrint)\<rparr>
   | ToPrint \<Rightarrow> do_print s
   | _ \<Rightarrow> s)"

text \<open>The handler: \<open>Waitpid\<close> reaps a child that has ended, or ends the program if there is no child.\<close>

definition resume :: "wait_state \<Rightarrow> wait_state" where
  "resume s = s\<lparr>wpc := (if wpc s = Suspended then ToTest else wpc s)\<rparr>"

definition sigchld_handler :: "int \<Rightarrow> wait_state \<Rightarrow> wait_state" where
  "sigchld_handler c s = (if alive s = [] \<and> zombies s = [] then s\<lparr>wpc := Died\<rparr>
     else if c \<in> set (zombies s) then resume (s\<lparr>pid := c, zombies := remove1 c (zombies s), in_handler := False, reaped := reaped s + 1\<rparr>)
     else s)"

definition sigint_handler :: "wait_state \<Rightarrow> wait_state" where
  "sigint_handler s = (if in_handler s then s else resume s)"

definition child_exit :: "int \<Rightarrow> wait_state \<Rightarrow> wait_state" where
  "child_exit c s = s\<lparr>alive := remove1 c (alive s), zombies := c # zombies s, chld_pending := True\<rparr>"

definition deliverable :: "wait_state \<Rightarrow> bool" where
  "deliverable s \<longleftrightarrow> chld_pending s \<and> \<not> in_handler s \<and> (\<not> chld_blocked s \<or> wpc s = Suspended)"

inductive wait_step :: "(wait_state \<Rightarrow> wait_state) \<Rightarrow> wait_state \<Rightarrow> wait_state \<Rightarrow> bool" for main where
  main: "wpc s \<noteq> Died \<Longrightarrow> \<not> in_handler s \<Longrightarrow> \<not> deliverable s \<Longrightarrow> wait_step main s (main s)"
| exits: "c \<in> set (alive s) \<Longrightarrow> wait_step main s (child_exit c s)"
| deliver: "wpc s \<noteq> Died \<Longrightarrow> deliverable s \<Longrightarrow> wait_step main s (s\<lparr>chld_pending := False, in_handler := True\<rparr>)"
| handler: "wpc s \<noteq> Died \<Longrightarrow> in_handler s \<Longrightarrow> wait_step main s (sigchld_handler c s)"

text \<open>A run, in which \<open>SIGINT\<close> may also arrive.\<close>

inductive wait_reach :: "(wait_state \<Rightarrow> wait_state) \<Rightarrow> wait_state \<Rightarrow> bool" for main where
  start: "wait_reach main wait_start"
| step: "wait_reach main s \<Longrightarrow> wait_step main s s' \<Longrightarrow> wait_reach main s'"
| sigint: "wait_reach main s \<Longrightarrow> wpc s \<noteq> Died \<Longrightarrow> wait_reach main (sigint_handler s)"

section \<open>Programs that wait correctly\<close>

text \<open>
  The contract: an invariant under which the handler finds a child, and a rank that some step lowers until the
  next dot is printed.
\<close>

locale waiting_program =
  fixes main :: "wait_state \<Rightarrow> wait_state"
    and inv :: "wait_state \<Rightarrow> bool"
    and rank :: "wait_state \<Rightarrow> nat"
  assumes start_inv: "inv wait_start"
    and main_inv: "inv s \<Longrightarrow> \<not> in_handler s \<Longrightarrow> \<not> deliverable s \<Longrightarrow> inv (main s)"
    and exit_inv: "inv s \<Longrightarrow> c \<in> set (alive s) \<Longrightarrow> inv (child_exit c s)"
    and deliver_inv: "inv s \<Longrightarrow> deliverable s \<Longrightarrow> inv (s\<lparr>chld_pending := False, in_handler := True\<rparr>)"
    and handler_inv: "inv s \<Longrightarrow> in_handler s \<Longrightarrow> inv (sigchld_handler c s)"
    and int_inv: "inv s \<Longrightarrow> inv (sigint_handler s)"
    and inv_lives: "inv s \<Longrightarrow> wpc s \<noteq> Died"
    and advances: "inv s \<Longrightarrow> \<exists>s'. wait_step main s s' \<and> (dots s' = Suc (dots s) \<or> dots s' = dots s \<and> rank s' < rank s)"
begin

lemma step_inv: "wait_step main s s' \<Longrightarrow> inv s \<Longrightarrow> inv s'"
  by (induction rule: wait_step.induct) (auto intro: main_inv exit_inv deliver_inv handler_inv)

lemma reach_inv: "wait_reach main s \<Longrightarrow> inv s"
  by (induction rule: wait_reach.induct) (auto intro: start_inv step_inv int_inv)

lemma next_dot: "inv s \<Longrightarrow> \<exists>s'. (wait_step main)\<^sup>*\<^sup>* s s' \<and> dots s' = Suc (dots s)"
proof (induction "rank s" arbitrary: s rule: less_induct)
  case less
  from advances [OF less.prems] obtain s1 where s1: "wait_step main s s1"
    "dots s1 = Suc (dots s) \<or> dots s1 = dots s \<and> rank s1 < rank s" by blast
  from s1(2) show ?case
  proof
    assume "dots s1 = dots s \<and> rank s1 < rank s"
    then obtain s' where "(wait_step main)\<^sup>*\<^sup>* s1 s'" "dots s' = Suc (dots s1)"
      using less.hyps [of s1] step_inv [OF s1(1) less.prems] by blast
    then show ?thesis using s1(1) \<open>dots s1 = dots s \<and> rank s1 < rank s\<close> by (metis converse_rtranclp_into_rtranclp)
  qed (use s1(1) in blast)
qed

end

section \<open>The two programs\<close>

definition outstanding :: "wait_state \<Rightarrow> nat" where
  "outstanding s = length (alive s) + length (zombies s)"

text \<open>One child is waited for: it runs, or its end is pending, or the handler is about to reap it.\<close>

definition one_child :: "wait_state \<Rightarrow> bool" where
  "one_child s \<longleftrightarrow> outstanding s = 1 \<and> (zombies s \<noteq> [] \<longleftrightarrow> chld_pending s \<or> in_handler s) \<and> \<not> (chld_pending s \<and> in_handler s) \<and> reaped s = dots s"

definition no_child :: "wait_state \<Rightarrow> bool" where
  "no_child s \<longleftrightarrow> outstanding s = 0 \<and> \<not> chld_pending s \<and> \<not> in_handler s"

definition pids_ok :: "wait_state \<Rightarrow> bool" where
  "pids_ok s \<longleftrightarrow> (\<forall>c \<in> set (alive s) \<union> set (zombies s). 0 < c) \<and> 0 < next_pid s"

definition sigsuspend_inv :: "wait_state \<Rightarrow> bool" where
  "sigsuspend_inv s \<longleftrightarrow> pids_ok s \<and> (case wpc s of
     ToBlock \<Rightarrow> no_child s \<and> \<not> chld_blocked s \<and> reaped s = dots s
   | ToFork \<Rightarrow> no_child s \<and> chld_blocked s \<and> reaped s = dots s
   | ToZero \<Rightarrow> one_child s \<and> chld_blocked s \<and> \<not> in_handler s
   | ToTest \<Rightarrow> chld_blocked s \<and> \<not> in_handler s \<and> (if pid s = 0 then one_child s else no_child s \<and> reaped s = Suc (dots s))
   | Suspended \<Rightarrow> chld_blocked s \<and> pid s = 0 \<and> one_child s
   | ToUnblock \<Rightarrow> no_child s \<and> chld_blocked s \<and> reaped s = Suc (dots s)
   | ToPrint \<Rightarrow> no_child s \<and> \<not> chld_blocked s \<and> reaped s = Suc (dots s)
   | Died \<Rightarrow> False)"

definition waitforsignal_inv :: "wait_state \<Rightarrow> bool" where
  "waitforsignal_inv s \<longleftrightarrow> pids_ok s \<and> (case wpc s of
     ToBlock \<Rightarrow> no_child s \<and> \<not> chld_blocked s \<and> reaped s = dots s
   | ToFork \<Rightarrow> no_child s \<and> chld_blocked s \<and> reaped s = dots s
   | ToZero \<Rightarrow> one_child s \<and> chld_blocked s \<and> \<not> in_handler s
   | ToUnblock \<Rightarrow> one_child s \<and> chld_blocked s \<and> pid s = 0 \<and> \<not> in_handler s
   | ToTest \<Rightarrow> \<not> chld_blocked s \<and> (if pid s = 0 then one_child s else no_child s \<and> reaped s = Suc (dots s))
   | ToPrint \<Rightarrow> no_child s \<and> \<not> chld_blocked s \<and> reaped s = Suc (dots s)
   | _ \<Rightarrow> False)"

lemmas wait_defs = no_child_def one_child_def outstanding_def pids_ok_def deliverable_def do_block_def do_fork_def do_print_def
  child_exit_def sigchld_handler_def sigint_handler_def resume_def

text \<open>What is left until the next dot; the end of the child, the delivery and the handler count three steps.\<close>

definition to_reap :: "wait_state \<Rightarrow> nat" where
  "to_reap s = 3 * length (alive s) + 2 * (if chld_pending s then 1 else 0) + (if in_handler s then 1 else 0)"

definition sigsuspend_rank :: "wait_state \<Rightarrow> nat" where
  "sigsuspend_rank s = to_reap s + (case wpc s of ToBlock \<Rightarrow> 70 | ToFork \<Rightarrow> 60 | ToZero \<Rightarrow> 50
     | ToTest \<Rightarrow> if pid s = 0 then 40 else 20 | Suspended \<Rightarrow> 30 | ToUnblock \<Rightarrow> 10 | _ \<Rightarrow> 0)"

definition waitforsignal_rank :: "wait_state \<Rightarrow> nat" where
  "waitforsignal_rank s = to_reap s + (case wpc s of ToBlock \<Rightarrow> 70 | ToFork \<Rightarrow> 60 | ToZero \<Rightarrow> 50 | ToUnblock \<Rightarrow> 40
     | ToTest \<Rightarrow> if pid s = 0 then 30 else 20 | _ \<Rightarrow> 0)"

lemma one_childE:
  assumes "one_child s"
  obtains (running) c where "alive s = [c]" "zombies s = []" "\<not> chld_pending s" "\<not> in_handler s" "reaped s = dots s"
  | (pending) c where "alive s = []" "zombies s = [c]" "chld_pending s" "\<not> in_handler s" "reaped s = dots s"
  | (handled) c where "alive s = []" "zombies s = [c]" "\<not> chld_pending s" "in_handler s" "reaped s = dots s"
  using assms by (auto simp: one_child_def outstanding_def add_is_1 length_Suc_conv)

text \<open>The step that the child, the kernel or the handler takes next, and that it brings the end of the wait nearer.\<close>

lemma one_child_advances:
  assumes "one_child s" "pids_ok s" "wpc s \<noteq> Died" "chld_pending s \<Longrightarrow> deliverable s"
  obtains s' where "wait_step main s s'" "dots s' = dots s" "to_reap s' < to_reap s"
    "wpc s' = wpc s \<and> pid s' = pid s \<or> wpc s' = (if wpc s = Suspended then ToTest else wpc s) \<and> 0 < pid s'"
  using assms(1)
proof (cases rule: one_childE)
  case (running c)
  then show ?thesis using wait_step.exits [of c s main] that by (simp add: child_exit_def to_reap_def)
next
  case (pending c)
  then show ?thesis using wait_step.deliver [of s main] assms(3,4) that by (simp add: to_reap_def)
next
  case (handled c)
  then show ?thesis using wait_step.handler [of s main c] assms(2,3) that
    by (simp add: sigchld_handler_def resume_def to_reap_def pids_ok_def)
qed

lemma main_advances:
  assumes "wpc s \<noteq> Died" "no_child s \<or> \<not> in_handler s \<and> chld_blocked s \<and> wpc s \<noteq> Suspended"
  shows "wait_step main s (main s)"
  using assms by (intro wait_step.main) (auto simp: no_child_def deliverable_def)

interpretation sus: waiting_program sigsuspend_main sigsuspend_inv sigsuspend_rank
proof
  fix s
  assume i: "sigsuspend_inv s"
  show "\<exists>s'. wait_step sigsuspend_main s s' \<and> (dots s' = Suc (dots s) \<or> dots s' = dots s \<and> sigsuspend_rank s' < sigsuspend_rank s)"
  proof (cases "wpc s = Suspended")
    case True
    then have "one_child s" "pids_ok s" "chld_pending s \<Longrightarrow> deliverable s"
      using i by (auto simp: sigsuspend_inv_def deliverable_def one_child_def)
    from one_child_advances [OF this(1,2) _ this(3), of sigsuspend_main] True obtain s' where
      "wait_step sigsuspend_main s s'" "dots s' = dots s" "to_reap s' < to_reap s"
      "wpc s' = wpc s \<and> pid s' = pid s \<or> wpc s' = ToTest \<and> 0 < pid s'" by auto
    then show ?thesis using True by (auto simp: sigsuspend_rank_def)
  next
    case False
    then have "wait_step sigsuspend_main s (sigsuspend_main s)"
      using i by (intro main_advances) (auto simp: sigsuspend_inv_def one_child_def split: wait_pc.splits if_splits)
    then show ?thesis using i False
      by (intro exI [of _ "sigsuspend_main s"]) (auto simp: sigsuspend_inv_def sigsuspend_main_def sigsuspend_rank_def to_reap_def
          do_block_def do_fork_def do_print_def split: wait_pc.splits if_splits)
  qed
next
  fix s c
  assume "sigsuspend_inv s" "c \<in> set (alive s)"
  then show "sigsuspend_inv (child_exit c s)"
    by (auto simp: sigsuspend_inv_def child_exit_def no_child_def outstanding_def pids_ok_def one_child_def add_is_1 length_Suc_conv
        split: wait_pc.splits if_splits)
next
  fix s c
  assume "sigsuspend_inv s" "in_handler s"
  then show "sigsuspend_inv (sigchld_handler c s)"
    by (auto simp: sigsuspend_inv_def sigchld_handler_def resume_def no_child_def outstanding_def pids_ok_def one_child_def add_is_1 length_Suc_conv
        split: wait_pc.splits if_splits)
next
  fix s
  assume "sigsuspend_inv s" "\<not> in_handler s" "\<not> deliverable s"
  then show "sigsuspend_inv (sigsuspend_main s)"
    by (auto simp: sigsuspend_inv_def sigsuspend_main_def do_block_def do_fork_def do_print_def no_child_def one_child_def
        outstanding_def pids_ok_def split: wait_pc.splits if_splits)
qed (auto simp: sigsuspend_inv_def wait_start_def wait_defs split: wait_pc.splits if_splits)

interpretation wfs: waiting_program waitforsignal_main waitforsignal_inv waitforsignal_rank
proof
  fix s
  assume i: "waitforsignal_inv s"
  show "\<exists>s'. wait_step waitforsignal_main s s' \<and> (dots s' = Suc (dots s) \<or> dots s' = dots s \<and> waitforsignal_rank s' < waitforsignal_rank s)"
  proof (cases "wpc s = ToTest \<and> pid s = 0")
    case True
    then have "one_child s" "pids_ok s" "chld_pending s \<Longrightarrow> deliverable s"
      using i by (auto simp: waitforsignal_inv_def deliverable_def one_child_def)
    from one_child_advances [OF this(1,2) _ this(3), of waitforsignal_main] True obtain s' where
      "wait_step waitforsignal_main s s'" "dots s' = dots s" "to_reap s' < to_reap s" "wpc s' = ToTest" by auto
    then show ?thesis using True by (auto simp: waitforsignal_rank_def)
  next
    case False
    then have "wait_step waitforsignal_main s (waitforsignal_main s)"
      using i by (intro main_advances) (auto simp: waitforsignal_inv_def one_child_def split: wait_pc.splits if_splits)
    then show ?thesis using i False
      by (intro exI [of _ "waitforsignal_main s"]) (auto simp: waitforsignal_inv_def waitforsignal_main_def waitforsignal_rank_def to_reap_def
          do_block_def do_fork_def do_print_def split: wait_pc.splits if_splits)
  qed
next
  fix s c
  assume "waitforsignal_inv s" "c \<in> set (alive s)"
  then show "waitforsignal_inv (child_exit c s)"
    by (auto simp: waitforsignal_inv_def child_exit_def no_child_def outstanding_def pids_ok_def one_child_def add_is_1 length_Suc_conv
        split: wait_pc.splits if_splits)
next
  fix s c
  assume "waitforsignal_inv s" "in_handler s"
  then show "waitforsignal_inv (sigchld_handler c s)"
    by (auto simp: waitforsignal_inv_def sigchld_handler_def resume_def no_child_def outstanding_def pids_ok_def one_child_def add_is_1 length_Suc_conv
        split: wait_pc.splits if_splits)
next
  fix s
  assume "waitforsignal_inv s" "\<not> in_handler s" "\<not> deliverable s"
  then show "waitforsignal_inv (waitforsignal_main s)"
    by (auto simp: waitforsignal_inv_def waitforsignal_main_def do_block_def do_fork_def do_print_def no_child_def one_child_def
        outstanding_def pids_ok_def split: wait_pc.splits if_splits)
qed (auto simp: waitforsignal_inv_def wait_start_def wait_defs split: wait_pc.splits if_splits)

section \<open>No signal is lost\<close>

lemma sigsuspend_inv_facts:
  assumes "sigsuspend_inv s"
  shows "outstanding s \<le> 1" "reaped s = dots s \<or> reaped s = Suc (dots s)" "wpc s = ToBlock \<Longrightarrow> outstanding s = 0 \<and> reaped s = dots s"
    "wpc s = Suspended \<Longrightarrow> alive s = [] \<Longrightarrow> deliverable s \<or> in_handler s"
  using assms by (auto simp: sigsuspend_inv_def no_child_def one_child_def outstanding_def deliverable_def split: wait_pc.splits if_splits)

lemma waitforsignal_inv_facts:
  assumes "waitforsignal_inv s"
  shows "outstanding s \<le> 1" "reaped s = dots s \<or> reaped s = Suc (dots s)" "wpc s = ToBlock \<Longrightarrow> outstanding s = 0 \<and> reaped s = dots s"
    "wpc s \<noteq> Suspended"
  using assms by (auto simp: waitforsignal_inv_def no_child_def one_child_def outstanding_def split: wait_pc.splits if_splits)



end
