(* ===== verification/Echothreads.thy ===== *)
theory Echothreads
  imports Prethreaded Mains
begin

text \<open>
  The concurrent echo server with threads, \<open>23-concprog/echoservert.c\<close>, which serves every connection in a thread of its
  own.  The descriptor reaches the thread in a heap block that \<open>main\<close> allocates and the thread
  frees.  The state has one entry per round of the loop of \<open>main\<close>, which tells how far its connection has come;
  the rounds of the echo loops, the accesses to the heap and the loop of \<open>main\<close> interleave
  arbitrarily.  The lines that the server prints are left out.
\<close>

section \<open>Definitions\<close>

text \<open>
  \<open>Allocated\<close>: \<open>main\<close> waits in \<open>Accept\<close>; \<open>Accepted\<close>: the descriptor is in the block; \<open>Created\<close>: the thread exists;
  \<open>Loaded\<close>: it has read the block; \<open>Serves\<close>: it has freed the block and echoes; \<open>Served\<close>: it has closed the connection after sending these bytes.
  The descriptor in \<open>Accepted\<close> and \<open>Created\<close> is the contents of the block.
\<close>

datatype conv = Allocated nat | Accepted nat int | Created nat int | Loaded nat int | Serves int rio_t | Served "byte list"

record tserver =
  heap :: "nat \<rightharpoonup> int option"
  conns :: "int \<rightharpoonup> descr"
  convs :: "conv list"
  clients :: "descr list"

fun created :: "conv \<Rightarrow> bool" where
  "created (Allocated a) = False" | "created (Accepted a c) = False" | "created _ = True"

text \<open>One round of the loop of \<open>echo\<close>; the flag tells that the client has closed.\<close>

definition echo_round :: "int \<Rightarrow> rio_t \<Rightarrow> (rio_t \<times> bool) outcome" where
  "echo_round e rp = then_do (Rio_readlineb e MAXLINE rp) (\<lambda>(n, bs, rp1).
     if n = 0 then Ret (rp1, True)
     else then_do (Rio_writen e (take (nat n) (line_buf bs)) (rio_fd rp1)) (\<lambda>f. Ret (rp1\<lparr>rio_fd := f\<rparr>, False)))"

definition set_conv :: "nat \<Rightarrow> conv \<Rightarrow> tserver \<Rightarrow> tserver" where
  "set_conv k x s = s\<lparr>convs := (convs s)[k := x]\<rparr>"

inductive echo_step :: "int \<Rightarrow> tserver \<Rightarrow> tserver \<Rightarrow> bool" for e where
  malloc: "list_all created (convs s) \<Longrightarrow> heap s a = None \<Longrightarrow>
    echo_step e s (s\<lparr>heap := (heap s)(a \<mapsto> None), convs := convs s @ [Allocated a]\<rparr>)"
| accept: "k < length (convs s) \<Longrightarrow> convs s ! k = Allocated a \<Longrightarrow> conns s connfd = None \<Longrightarrow> clean d \<Longrightarrow> outgoing d = [] \<Longrightarrow>
    echo_step e s (set_conv k (Accepted a connfd) (s\<lparr>heap := (heap s)(a \<mapsto> Some connfd), conns := (conns s)(connfd \<mapsto> d), clients := clients s @ [d]\<rparr>))"
| create: "k < length (convs s) \<Longrightarrow> convs s ! k = Accepted a c \<Longrightarrow> echo_step e s (set_conv k (Created a c) s)"
| load: "k < length (convs s) \<Longrightarrow> convs s ! k = Created a c \<Longrightarrow> heap s a = Some (Some connfd) \<Longrightarrow>
    echo_step e s (set_conv k (Loaded a connfd) s)"
| free: "k < length (convs s) \<Longrightarrow> convs s ! k = Loaded a connfd \<Longrightarrow> heap s a \<noteq> None \<Longrightarrow> conns s connfd = Some d \<Longrightarrow>
    echo_step e s (set_conv k (Serves connfd (rio_fresh d)) (s\<lparr>heap := (heap s)(a := None)\<rparr>))"
| echo: "k < length (convs s) \<Longrightarrow> convs s ! k = Serves c rp \<Longrightarrow> echo_round e rp = Ret (rp1, False) \<Longrightarrow>
    echo_step e s (set_conv k (Serves c rp1) s)"
| close: "k < length (convs s) \<Longrightarrow> convs s ! k = Serves c rp \<Longrightarrow> echo_round e rp = Ret (rp1, True) \<Longrightarrow> conns s c = Some d \<Longrightarrow>
    echo_step e s (set_conv k (Served (outgoing (rio_fd rp1))) (s\<lparr>conns := (conns s)(c := None)\<rparr>))"

definition echo_start :: tserver where
  "echo_start = \<lparr>heap = Map.empty, conns = Map.empty, convs = [], clients = []\<rparr>"

inductive echo_reach :: "int \<Rightarrow> tserver \<Rightarrow> bool" for e where
  start: "echo_reach e echo_start"
| step: "echo_reach e s \<Longrightarrow> echo_step e s s' \<Longrightarrow> echo_reach e s'"

text \<open>\<open>main\<close> before its loop.\<close>

definition echoservert_main :: "int \<Rightarrow> 'a netenv \<Rightarrow> 'a list \<Rightarrow> tserver run outcome" where
  "echoservert_main argc env listp = (if argc \<noteq> 2 then Ret (Usage 0)
     else then_do (Open_listenfd env listp [2, 1, 0]) (\<lambda>_. Ret (Serving echo_start)))"

text \<open>\<open>main\<close> of the prethreaded server \<open>25-sync-advanced/echoservert_pre.c\<close> before its loop; \<open>rcs\<close> has the results of \<open>pthread_create\<close>.\<close>

fun create_workers :: "int list \<Rightarrow> unit outcome" where
  "create_workers [] = Ret ()"
| "create_workers (rc # rcs) = then_do (Pthread_create rc) (\<lambda>_. create_workers rcs)"

definition echoservert_pre_main :: "int \<Rightarrow> 'a netenv \<Rightarrow> 'a list \<Rightarrow> (nat \<Rightarrow> int) \<Rightarrow> server run outcome" where
  "echoservert_pre_main argc env listp rcs = (if argc \<noteq> 2 then Ret (Usage 0)
     else then_do (Open_listenfd env listp [2, 1, 0]) (\<lambda>_. then_do (create_workers (map rcs [0..<NTHREADS])) (\<lambda>_. Ret (Serving pre_start))))"

lemma echoservert_pre_main_starts:
  assumes "echoservert_pre_main 2 env listp rcs = Ret r"
  shows "r = Serving pre_start" "\<forall>i < NTHREADS. rcs i = 0"
proof -
  obtain l where l: "Open_listenfd env listp [2, 1, 0] = Ret l"
    using assms by (cases "Open_listenfd env listp [2, 1, 0]") (simp_all add: echoservert_pre_main_def)
  then show "r = Serving pre_start"
    using assms by (cases "create_workers (map rcs [0..<NTHREADS])") (simp_all add: echoservert_pre_main_def)
  have c: "create_workers xs = Ret u \<Longrightarrow> \<forall>x \<in> set xs. x = 0" for xs u
  proof (induction xs)
    case (Cons x xs)
    then show ?case by (cases "x = 0") (simp_all add: Pthread_create_def posix_error_def)
  qed simp
  have "\<exists>u. create_workers (map rcs [0..<NTHREADS]) = Ret u"
    using assms l by (cases "create_workers (map rcs [0..<NTHREADS])") (simp_all add: echoservert_pre_main_def)
  then show "\<forall>i < NTHREADS. rcs i = 0" using c by fastforce
qed

section \<open>Rounds\<close>

lemma echo_round_cnt: "echo_round e rp = then_do (echo_cnt_round e rp 0) (\<lambda>(rp1, _, b). Ret (rp1, b))"
proof (cases "Rio_readlineb e MAXLINE rp")
  case (Ret x)
  obtain n bs rp1 where x: "x = (n, bs, rp1)" by (cases x)
  show ?thesis
    by (cases "Rio_writen e (take (nat n) (line_buf bs)) (rio_fd rp1)") (simp_all add: echo_round_def echo_cnt_round_def Ret x Let_def)
qed (simp_all add: echo_round_def echo_cnt_round_def)

lemma echo_round_cases:
  assumes "echo_ok d rp"
  obtains (eof) rp1 where "echo_round e rp = Ret (rp1, True)" "outgoing (rio_fd rp1) = incoming d"
  | (line) rp1 where "echo_round e rp = Ret (rp1, False)" "echo_ok d rp1" "length (outgoing (rio_fd rp)) < length (outgoing (rio_fd rp1))"
  by (rule echo_cnt_round_spec [OF assms, of e 0]) (auto simp: echo_round_cnt intro: that)

lemma echo_round_line: "echo_ok d rp \<Longrightarrow> echo_round e rp = Ret (rp1, False) \<Longrightarrow> echo_ok d rp1"
  by (erule echo_round_cases [where e = e]) simp_all

lemma echo_round_eof: "echo_ok d rp \<Longrightarrow> echo_round e rp = Ret (rp1, True) \<Longrightarrow> outgoing (rio_fd rp1) = incoming d"
  by (erule echo_round_cases [where e = e]) simp_all

section \<open>Ownership\<close>

text \<open>
  \<open>owned own xs D\<close>: the elements of \<open>xs\<close> own disjoint sets that make up \<open>D\<close>.
\<close>

definition owned :: "('a \<Rightarrow> 'b set) \<Rightarrow> 'a list \<Rightarrow> 'b set \<Rightarrow> bool" where
  "owned own xs D \<longleftrightarrow> D = (\<Union>x \<in> set xs. own x) \<and> (\<forall>k < length xs. \<forall>l < length xs. k \<noteq> l \<longrightarrow> own (xs ! k) \<inter> own (xs ! l) = {})"

lemma owned_append:
  assumes "owned own xs D" "own y \<inter> D = {}" "D' = D \<union> own y"
  shows "owned own (xs @ [y]) D'"
proof -
  have "own (xs ! k) \<subseteq> D" if "k < length xs" for k using assms(1) that by (auto simp: owned_def)
  then show ?thesis using assms by (fastforce simp: owned_def nth_append less_Suc_eq)
qed

lemma owned_update:
  assumes "owned own xs D" "k < length xs" "own y \<inter> (D - own (xs ! k)) = {}" "D' = D - own (xs ! k) \<union> own y"
  shows "owned own (xs[k := y]) D'"
proof -
  have D: "D = (\<Union>l \<in> {..<length xs}. own (xs ! l))"
    using assms(1) by (auto simp: owned_def in_set_conv_nth intro: bexI [OF _ nth_mem])
  have sub: "own (xs ! l) \<subseteq> D - own (xs ! k)" if "l < length xs" "l \<noteq> k" for l using assms(1,2) that by (fastforce simp: owned_def)
  have "(\<Union>x \<in> set (xs[k := y]). own x) = D'"
  proof
    show "(\<Union>x \<in> set (xs[k := y]). own x) \<subseteq> D'"
      using sub assms(2,4) by (fastforce simp: in_set_conv_nth nth_list_update split: if_splits)
    show "D' \<subseteq> (\<Union>x \<in> set (xs[k := y]). own x)"
    proof
      fix b assume "b \<in> D'"
      then consider "b \<in> own y" | l where "l < length xs" "l \<noteq> k" "b \<in> own (xs ! l)"
        using D assms(4) by blast
      then show "b \<in> (\<Union>x \<in> set (xs[k := y]). own x)"
        using assms(2) by cases (metis UN_I set_update_memI, metis UN_I length_list_update nth_list_update_neq nth_mem)
    qed
  qed
  moreover have "own (xs[k := y] ! i) \<inter> own (xs[k := y] ! j) = {}" if "i < length xs" "j < length xs" "i \<noteq> j" for i j
    using that sub [of i] sub [of j] assms(1,2,3) by (cases "i = k"; cases "j = k") (auto simp: owned_def)
  ultimately show ?thesis by (auto simp: owned_def)
qed

lemma owned_keep: "owned own xs D \<Longrightarrow> k < length xs \<Longrightarrow> own y = own (xs ! k) \<Longrightarrow> owned own (xs[k := y]) D"
  by (rule owned_update) (auto simp: owned_def)

lemma owned_in: "owned own xs D \<Longrightarrow> k < length xs \<Longrightarrow> b \<in> own (xs ! k) \<Longrightarrow> b \<in> D"
  by (auto simp: owned_def)

lemma owned_other: "owned own xs D \<Longrightarrow> k < length xs \<Longrightarrow> l < length xs \<Longrightarrow> k \<noteq> l \<Longrightarrow> b \<in> own (xs ! k) \<Longrightarrow> b \<notin> own (xs ! l)"
  by (auto simp: owned_def)

fun blocks_of :: "conv \<Rightarrow> nat set" where
  "blocks_of (Allocated a) = {a}" | "blocks_of (Accepted a c) = {a}" | "blocks_of (Created a c) = {a}" | "blocks_of (Loaded a c) = {a}"
| "blocks_of (Serves c rp) = {}" | "blocks_of (Served out) = {}"

fun descrs_of :: "conv \<Rightarrow> int set" where
  "descrs_of (Allocated a) = {}" | "descrs_of (Accepted a c) = {c}" | "descrs_of (Created a c) = {c}" | "descrs_of (Loaded a c) = {c}"
| "descrs_of (Serves c rp) = {c}" | "descrs_of (Served out) = {}"

section \<open>Invariant\<close>

text \<open>The state of the \<open>k\<close>-th connection, which is that of client \<open>k\<close>.\<close>

fun conv_ok :: "tserver \<Rightarrow> nat \<Rightarrow> conv \<Rightarrow> bool" where
  "conv_ok s k (Allocated a) \<longleftrightarrow> heap s a = Some None \<and> k = length (clients s)"
| "conv_ok s k (Accepted a c) \<longleftrightarrow> heap s a = Some (Some c) \<and> k < length (clients s) \<and> conns s c = Some (clients s ! k)"
| "conv_ok s k (Created a c) \<longleftrightarrow> heap s a = Some (Some c) \<and> k < length (clients s) \<and> conns s c = Some (clients s ! k)"
| "conv_ok s k (Loaded a c) \<longleftrightarrow> heap s a = Some (Some c) \<and> k < length (clients s) \<and> conns s c = Some (clients s ! k)"
| "conv_ok s k (Serves c rp) \<longleftrightarrow> k < length (clients s) \<and> conns s c = Some (clients s ! k) \<and> echo_ok (clients s ! k) rp"
| "conv_ok s k (Served out) \<longleftrightarrow> k < length (clients s) \<and> out = incoming (clients s ! k)"

fun is_allocated :: "conv \<Rightarrow> bool" where
  "is_allocated (Allocated a) = True" | "is_allocated _ = False"

definition echo_inv :: "tserver \<Rightarrow> bool" where
  "echo_inv s \<longleftrightarrow> owned blocks_of (convs s) (dom (heap s)) \<and> owned descrs_of (convs s) (dom (conns s))
     \<and> (\<forall>k < length (convs s). conv_ok s k (convs s ! k)) \<and> (\<forall>d \<in> set (clients s). clean d \<and> outgoing d = [])
     \<and> (length (clients s) = length (convs s) \<or> Suc (length (clients s)) = length (convs s) \<and> is_allocated (convs s ! length (clients s)))"

lemma conv_ok_frame:
  "conv_ok s k x \<Longrightarrow> (\<And>a. a \<in> blocks_of x \<Longrightarrow> heap s' a = heap s a) \<Longrightarrow> (\<And>c. c \<in> descrs_of x \<Longrightarrow> conns s' c = conns s c)
    \<Longrightarrow> clients s' = clients s @ ds \<Longrightarrow> (ds \<noteq> [] \<Longrightarrow> k < length (clients s)) \<Longrightarrow> conv_ok s' k x"
  by (cases x) (auto simp: nth_append)

text \<open>A step changes the entry of one connection, and nothing that another one owns.\<close>

lemma echo_invI:
  assumes i: "echo_inv s" and k: "k < length (convs s)" "convs s' = (convs s)[k := x]"
    and own: "owned blocks_of (convs s') (dom (heap s'))" "owned descrs_of (convs s') (dom (conns s'))"
    and ok: "conv_ok s' k x"
    and frame: "\<And>a. a \<in> dom (heap s) \<Longrightarrow> a \<notin> blocks_of (convs s ! k) \<Longrightarrow> heap s' a = heap s a"
      "\<And>c. c \<in> dom (conns s) \<Longrightarrow> c \<notin> descrs_of (convs s ! k) \<Longrightarrow> conns s' c = conns s c"
    and cl: "clients s' = clients s @ ds" "if is_allocated (convs s ! k) then length ds = 1 else ds = []" "\<forall>d \<in> set ds. clean d \<and> outgoing d = []"
  shows "echo_inv s'"
proof -
  have kc: "conv_ok s k (convs s ! k)" using i k(1) by (simp add: echo_inv_def)
  have last: "k = length (clients s) \<and> Suc k = length (convs s)" if "is_allocated (convs s ! k)"
    using that kc i k(1) by (cases "convs s ! k") (auto simp: echo_inv_def)
  have "conv_ok s' l (convs s' ! l)" if "l < length (convs s')" for l
  proof (cases "l = k")
    case False
    then have l: "l < length (convs s)" "convs s' ! l = convs s ! l" using that k(2) by simp_all
    have "l < length (clients s)" if "ds \<noteq> []" using cl(2) last that l False by (auto split: if_splits)
    moreover have "heap s' a = heap s a" if "a \<in> blocks_of (convs s ! l)" for a
      using that i l False k(1) owned_in [of blocks_of "convs s" "dom (heap s)" l a] owned_other [of blocks_of "convs s" "dom (heap s)" l k a]
      by (intro frame(1)) (simp_all add: echo_inv_def)
    moreover have "conns s' c = conns s c" if "c \<in> descrs_of (convs s ! l)" for c
      using that i l False k(1) owned_in [of descrs_of "convs s" "dom (conns s)" l c] owned_other [of descrs_of "convs s" "dom (conns s)" l k c]
      by (intro frame(2)) (simp_all add: echo_inv_def)
    ultimately show ?thesis using conv_ok_frame [OF _ _ _ cl(1), of l "convs s ! l"] i l by (simp add: echo_inv_def)
  qed (use k ok in simp)
  moreover have "length (clients s') = length (convs s') \<or> Suc (length (clients s')) = length (convs s') \<and> is_allocated (convs s' ! length (clients s'))"
  proof (cases "is_allocated (convs s ! k)")
    case True
    then show ?thesis using last cl(1,2) k(2) by simp
  next
    case False
    then have "k < length (clients s)" using kc by (cases "convs s ! k") auto
    then show ?thesis using i False cl(1,2) k(2) by (auto simp: echo_inv_def)
  qed
  ultimately show ?thesis using own i cl(1,3) by (auto simp: echo_inv_def)
qed

lemma dom_upd: "dom (m(a \<mapsto> v)) = insert a (dom m)" "dom (m(a := None)) = dom m - {a}"
  by auto

lemma conv_of: "echo_inv s \<Longrightarrow> k < length (convs s) \<Longrightarrow> convs s ! k = x \<Longrightarrow> conv_ok s k x"
  by (auto simp: echo_inv_def)

lemma client_ok: "echo_inv s \<Longrightarrow> k < length (clients s) \<Longrightarrow> clean (clients s ! k) \<and> outgoing (clients s ! k) = []"
  by (simp add: echo_inv_def)

lemma echo_step_inv:
  assumes "echo_step e s s'" "echo_inv s"
  shows "echo_inv s'"
  using assms(1)
proof (cases rule: echo_step.cases)
  case (malloc a)
  have l: "length (clients s) = length (convs s)"
    using assms(2) malloc(2) by (auto simp: echo_inv_def list_all_length dest!: spec [of _ "length (clients s)"])
      (cases "convs s ! length (clients s)", auto)
  have "conv_ok s' k (convs s ! k)" if "k < length (convs s)" for k
    using conv_of [OF assms(2) that refl] malloc owned_in [of blocks_of "convs s" "dom (heap s)" k a] assms(2) that
    by (intro conv_ok_frame [of s k "convs s ! k" s' "[]"]) (auto simp: echo_inv_def)
  moreover have "owned blocks_of (convs s') (dom (heap s'))" "owned descrs_of (convs s') (dom (conns s'))"
    using assms(2) malloc by (auto simp: echo_inv_def intro!: owned_append)
  ultimately show ?thesis using assms(2) l malloc(1) by (auto simp: echo_inv_def nth_append less_Suc_eq)
next
  case (accept k a connfd d)
  note c = conv_of [OF assms(2) accept(2,3)]
  show ?thesis
  proof (rule echo_invI [OF assms(2) accept(2), of s' "Accepted a connfd" "[d]"])
    show "owned blocks_of (convs s') (dom (heap s'))"
      using assms(2) accept c by (auto simp: echo_inv_def set_conv_def insert_absorb domI intro!: owned_keep)
    show "owned descrs_of (convs s') (dom (conns s'))"
      using assms(2) accept by (auto simp: echo_inv_def set_conv_def intro!: owned_update)
  qed (use accept c in \<open>auto simp: set_conv_def\<close>)
next
  case (create k a c)
  note ok = conv_of [OF assms(2) create(2,3)]
  show ?thesis
    by (rule echo_invI [OF assms(2) create(2), of s' "Created a c" "[]"])
      (use assms(2) create ok in \<open>auto simp: echo_inv_def set_conv_def intro!: owned_keep\<close>)
next
  case (load k a c connfd)
  note ok = conv_of [OF assms(2) load(2,3)]
  show ?thesis
    by (rule echo_invI [OF assms(2) load(2), of s' "Loaded a connfd" "[]"])
      (use assms(2) load ok in \<open>auto simp: echo_inv_def set_conv_def intro!: owned_keep\<close>)
next
  case (free k a connfd d)
  note ok = conv_of [OF assms(2) free(2,3)]
  have "echo_ok d (rio_fresh d)" using client_ok [OF assms(2), of k] ok free(5) by (simp add: echo_ok_fresh)
  moreover have "owned blocks_of (convs s') (dom (heap s'))" "owned descrs_of (convs s') (dom (conns s'))"
    using assms(2) free unfolding echo_inv_def by (auto simp: set_conv_def dom_upd intro!: owned_update [of blocks_of] owned_keep [of descrs_of])
  ultimately show ?thesis
    by (intro echo_invI [OF assms(2) free(2), of s' "Serves connfd (rio_fresh d)" "[]"])
      (use free ok in \<open>auto simp: set_conv_def\<close>)
next
  case (echo k c rp rp1)
  note ok = conv_of [OF assms(2) echo(2,3)]
  have "echo_ok (clients s ! k) rp1" using ok echo(4) echo_round_line by auto
  then show ?thesis
    by (intro echo_invI [OF assms(2) echo(2), of s' "Serves c rp1" "[]"])
      (use assms(2) echo ok in \<open>auto simp: echo_inv_def set_conv_def intro!: owned_keep\<close>)
next
  case (close k c rp rp1 d)
  note ok = conv_of [OF assms(2) close(2,3)]
  have "outgoing (rio_fd rp1) = incoming (clients s ! k)" using ok close(4) echo_round_eof by auto
  moreover have "owned blocks_of (convs s') (dom (heap s'))" "owned descrs_of (convs s') (dom (conns s'))"
    using assms(2) close unfolding echo_inv_def by (auto simp: set_conv_def dom_upd intro!: owned_keep [of blocks_of] owned_update [of descrs_of])
  ultimately show ?thesis
    by (intro echo_invI [OF assms(2) close(2), of s' "Served (outgoing (rio_fd rp1))" "[]"])
      (use close ok in \<open>auto simp: set_conv_def\<close>)
qed

lemma echo_reach_inv: "echo_reach e s \<Longrightarrow> echo_inv s"
proof (induction rule: echo_reach.induct)
  case start
  show ?case by (simp add: echo_inv_def echo_start_def owned_def)
next
  case (step s s')
  then show ?case using echo_step_inv by blast
qed

section \<open>Properties\<close>

fun in_progress :: "conv \<Rightarrow> bool" where
  "in_progress (Allocated a) = False" | "in_progress (Served out) = False" | "in_progress _ = True"

lemma echo_moves:
  assumes "echo_inv s" "k < length (convs s)" "in_progress (convs s ! k)"
  obtains x s1 where "echo_step e s (set_conv k x s1)" "convs s1 = convs s"
proof (cases "convs s ! k")
  case (Accepted a c)
  then show ?thesis using echo_step.create [OF assms(2)] that by blast
next
  case (Created a c)
  then show ?thesis using echo_step.load [OF assms(2) Created] conv_of [OF assms(1,2) Created] that by auto
next
  case (Loaded a c)
  note ok = conv_of [OF assms(1,2) Loaded]
  then show ?thesis using echo_step.free [OF assms(2) Loaded] that [of _ "s\<lparr>heap := (heap s)(a := None)\<rparr>"] by auto
next
  case (Serves c rp)
  note ok = conv_of [OF assms(1,2) Serves]
  then have "echo_ok (clients s ! k) rp" by simp
  then show ?thesis
  proof (cases rule: echo_round_cases [where e = e])
    case (eof rp1)
    then show ?thesis using echo_step.close [OF assms(2) Serves eof(1)] ok that [of _ "s\<lparr>conns := (conns s)(c := None)\<rparr>"] by simp
  next
    case (line rp1)
    then show ?thesis using echo_step.echo [OF assms(2) Serves] that by blast
  qed
qed (use assms(3) in auto)

text \<open>
  C10 (echo server with threads).  In every interleaving: a client whose connection has been closed has received exactly
  the bytes that it sent; a thread whose connection has been accepted can always make its next
  step, so that it never reads a block that has been freed or not been filled and never uses a
  closed descriptor; the blocks and descriptors that exist are exactly those of the
  connections that still need them, and when all connections are served nothing is left.
\<close>

theorem echoservert_serves:
  assumes "echo_reach e s"
  shows "(\<forall>k < length (convs s). \<forall>out. convs s ! k = Served out \<longrightarrow> k < length (clients s) \<and> out = incoming (clients s ! k))
    \<and> (\<forall>k < length (convs s). in_progress (convs s ! k) \<longrightarrow> (\<exists>x s1. echo_step e s (set_conv k x s1) \<and> convs s1 = convs s))
    \<and> dom (heap s) = (\<Union>x \<in> set (convs s). blocks_of x) \<and> dom (conns s) = (\<Union>x \<in> set (convs s). descrs_of x)
    \<and> ((\<forall>x \<in> set (convs s). \<exists>out. x = Served out) \<longrightarrow> heap s = Map.empty \<and> conns s = Map.empty)"
proof -
  have i: "echo_inv s" by (rule echo_reach_inv [OF assms])
  then have d: "dom (heap s) = (\<Union>x \<in> set (convs s). blocks_of x)" "dom (conns s) = (\<Union>x \<in> set (convs s). descrs_of x)"
    by (simp_all add: echo_inv_def owned_def)
  have "heap s = Map.empty \<and> conns s = Map.empty" if "\<forall>x \<in> set (convs s). \<exists>out. x = Served out"
  proof -
    have "dom (heap s) = {}" "dom (conns s) = {}" unfolding d using that by fastforce+
    then show ?thesis by simp
  qed
  moreover have "\<forall>k < length (convs s). \<forall>out. convs s ! k = Served out \<longrightarrow> k < length (clients s) \<and> out = incoming (clients s ! k)"
    using conv_of [OF i] by fastforce
  ultimately show ?thesis using d echo_moves [OF i] by metis
qed

theorem echoservert_serves_witness:
  "\<exists>s. echo_reach 0 s \<and> clients s = [\<lparr>incoming = [72, 10], outgoing = [], events = []\<rparr>] \<and> dom (heap s) = {1} \<and> dom (conns s) = {4}"
proof -
  let ?d = "\<lparr>incoming = [72, 10], outgoing = [], events = []\<rparr>"
  let ?s = "echo_start\<lparr>heap := [1 \<mapsto> None], convs := [Allocated 1]\<rparr>"
  have 1: "echo_step 0 echo_start ?s" using echo_step.malloc [of echo_start 1 0] by (simp add: echo_start_def)
  have 2: "echo_step 0 ?s (set_conv 0 (Accepted 1 4) (?s\<lparr>heap := (heap ?s)(1 \<mapsto> Some 4), conns := (conns ?s)(4 \<mapsto> ?d), clients := clients ?s @ [?d]\<rparr>))"
    by (rule echo_step.accept) (simp_all add: echo_start_def)
  let ?t = "set_conv 0 (Accepted 1 4) (?s\<lparr>heap := (heap ?s)(1 \<mapsto> Some 4), conns := (conns ?s)(4 \<mapsto> ?d), clients := clients ?s @ [?d]\<rparr>)"
  have r: "echo_reach 0 ?t" using echo_reach.step [OF echo_reach.step [OF echo_reach.start 1] 2] .
  have "dom (heap ?t) = {1}" "dom (conns ?t) = {4}" using echoservert_serves [OF r] by (simp_all add: set_conv_def echo_start_def)
  then show ?thesis using r by (intro exI [of _ ?t]) (simp add: set_conv_def echo_start_def)
qed

end
