(* ===== verification/Echoprocs.thy ===== *)
theory Echoprocs
  imports Echothreads
begin

text \<open>
  The concurrent echo server with processes, \<open>23-concprog/echoserverp.c\<close>.  Every process has a table of open
  descriptors, which \<open>Fork\<close> copies; child number \<open>k\<close> serves the \<open>k\<close>-th connection.  The loop of the parent, the
  children, the delivery of \<open>SIGCHLD\<close> and the steps of its handler interleave arbitrarily; the descriptors 0 to 2 are left out, and
  \<open>Fork\<close> succeeds.
\<close>

section \<open>Definitions\<close>

datatype open_file = Listening | Connection nat

type_synonym fd_table = "int \<rightharpoonup> open_file"

datatype parent_pc = AtAccept | AtFork int | AtClose int

text \<open>The child: before \<open>Close(listenfd)\<close>, in the loop of \<open>echo\<close>, before \<open>Close(connfd)\<close>, before \<open>exit\<close>, ended, waited for.\<close>

datatype child_pc = CStart int | CEcho int rio_t | CClose int "byte list" | CExit "byte list" | CZombie "byte list" | CReaped "byte list"

record process_server =
  parent_fds :: fd_table
  ppc :: parent_pc
  children :: "(fd_table \<times> child_pc) list"
  accepted :: "descr list"
  sigchld :: bool
  handling :: bool

definition listenfd :: int where "listenfd = 3"

text \<open>The next statement of a child; \<open>None\<close> if it uses a descriptor that is not open.\<close>

definition child_act :: "int \<Rightarrow> descr list \<Rightarrow> fd_table \<times> child_pc \<Rightarrow> (fd_table \<times> child_pc) option" where
  "child_act e ds ch = (case ch of
     (t, CStart c) \<Rightarrow> (case (t listenfd, t c) of
         (Some _, Some (Connection k)) \<Rightarrow> Some (t(listenfd := None), CEcho c (rio_fresh (ds ! k)))
       | _ \<Rightarrow> None)
   | (t, CEcho c rp) \<Rightarrow> (if t c = None then None else case echo_round e rp of
         Ret (rp1, b) \<Rightarrow> Some (t, if b then CClose c (outgoing (rio_fd rp1)) else CEcho c rp1)
       | _ \<Rightarrow> None)
   | (t, CClose c out) \<Rightarrow> if t c = None then None else Some (t(c := None), CExit out)
   | (t, CExit out) \<Rightarrow> Some (Map.empty, CZombie out)
   | _ \<Rightarrow> None)"

fun is_zombie :: "fd_table \<times> child_pc \<Rightarrow> bool" where
  "is_zombie (t, CZombie out) = True" | "is_zombie _ = False"

inductive procs_step :: "int \<Rightarrow> process_server \<Rightarrow> process_server \<Rightarrow> bool" for e where
  accept: "\<not> handling s \<Longrightarrow> ppc s = AtAccept \<Longrightarrow> parent_fds s listenfd = Some Listening \<Longrightarrow> parent_fds s c = None \<Longrightarrow> clean d \<Longrightarrow> outgoing d = [] \<Longrightarrow>
    procs_step e s (s\<lparr>parent_fds := (parent_fds s)(c \<mapsto> Connection (length (accepted s))), ppc := AtFork c, accepted := accepted s @ [d]\<rparr>)"
| fork: "\<not> handling s \<Longrightarrow> ppc s = AtFork c \<Longrightarrow>
    procs_step e s (s\<lparr>children := children s @ [(parent_fds s, CStart c)], ppc := AtClose c\<rparr>)"
| close: "\<not> handling s \<Longrightarrow> ppc s = AtClose c \<Longrightarrow> parent_fds s c \<noteq> None \<Longrightarrow>
    procs_step e s (s\<lparr>parent_fds := (parent_fds s)(c := None), ppc := AtAccept\<rparr>)"
| child: "k < length (children s) \<Longrightarrow> child_act e (accepted s) (children s ! k) = Some ch \<Longrightarrow>
    procs_step e s (s\<lparr>children := (children s)[k := ch], sigchld := sigchld s \<or> is_zombie ch\<rparr>)"
| deliver: "sigchld s \<Longrightarrow> \<not> handling s \<Longrightarrow> procs_step e s (s\<lparr>sigchld := False, handling := True\<rparr>)"
| reap: "handling s \<Longrightarrow> k < length (children s) \<Longrightarrow> children s ! k = (t, CZombie out) \<Longrightarrow>
    procs_step e s (s\<lparr>children := (children s)[k := (Map.empty, CReaped out)]\<rparr>)"
| handled: "handling s \<Longrightarrow> \<not> list_ex is_zombie (children s) \<Longrightarrow> procs_step e s (s\<lparr>handling := False\<rparr>)"

definition procs_start :: process_server where
  "procs_start = \<lparr>parent_fds = [listenfd \<mapsto> Listening], ppc = AtAccept, children = [], accepted = [], sigchld = False, handling = False\<rparr>"

inductive procs_reach :: "int \<Rightarrow> process_server \<Rightarrow> bool" for e where
  start: "procs_reach e procs_start"
| step: "procs_reach e s \<Longrightarrow> procs_step e s s' \<Longrightarrow> procs_reach e s'"

text \<open>\<open>main\<close> before its loop.\<close>

definition echoserverp_main :: "int \<Rightarrow> 'a netenv \<Rightarrow> 'a list \<Rightarrow> process_server run outcome" where
  "echoserverp_main argc env listp = (if argc \<noteq> 2 then Ret (Usage 0)
     else then_do (Open_listenfd env listp [2, 1, 0]) (\<lambda>_. Ret (Serving procs_start)))"

section \<open>Invariant\<close>

fun parent_ok :: "process_server \<Rightarrow> parent_pc \<Rightarrow> bool" where
  "parent_ok s AtAccept \<longleftrightarrow> parent_fds s = [listenfd \<mapsto> Listening] \<and> length (accepted s) = length (children s)"
| "parent_ok s (AtFork c) \<longleftrightarrow> c \<noteq> listenfd \<and> parent_fds s = [listenfd \<mapsto> Listening, c \<mapsto> Connection (length (children s))]
     \<and> length (accepted s) = Suc (length (children s))"
| "parent_ok s (AtClose c) \<longleftrightarrow> c \<noteq> listenfd \<and> children s \<noteq> [] \<and> parent_fds s = [listenfd \<mapsto> Listening, c \<mapsto> Connection (length (children s) - 1)]
     \<and> length (accepted s) = length (children s)"

fun child_ok :: "descr \<Rightarrow> nat \<Rightarrow> fd_table \<times> child_pc \<Rightarrow> bool" where
  "child_ok d k (t, CStart c) \<longleftrightarrow> c \<noteq> listenfd \<and> t = [listenfd \<mapsto> Listening, c \<mapsto> Connection k]"
| "child_ok d k (t, CEcho c rp) \<longleftrightarrow> t = [c \<mapsto> Connection k] \<and> echo_ok d rp"
| "child_ok d k (t, CClose c out) \<longleftrightarrow> t = [c \<mapsto> Connection k] \<and> out = incoming d"
| "child_ok d k (t, CExit out) \<longleftrightarrow> t = Map.empty \<and> out = incoming d"
| "child_ok d k (t, CZombie out) \<longleftrightarrow> t = Map.empty \<and> out = incoming d"
| "child_ok d k (t, CReaped out) \<longleftrightarrow> t = Map.empty \<and> out = incoming d"

definition procs_inv :: "process_server \<Rightarrow> bool" where
  "procs_inv s \<longleftrightarrow> parent_ok s (ppc s) \<and> (\<forall>k < length (children s). child_ok (accepted s ! k) k (children s ! k))
     \<and> (\<forall>d \<in> set (accepted s). clean d \<and> outgoing d = []) \<and> (list_ex is_zombie (children s) \<longrightarrow> sigchld s \<or> handling s)"

lemma accepted_ge: "procs_inv s \<Longrightarrow> length (children s) \<le> length (accepted s)"
  by (cases "ppc s") (auto simp: procs_inv_def)

text \<open>A child never uses a closed descriptor: it moves until it has ended, and keeps its invariant.\<close>

lemma child_act_ok:
  assumes "child_ok d k ch" "ds ! k = d" "clean d" "outgoing d = []" "snd ch \<notin> range CZombie \<union> range CReaped"
  shows "\<exists>ch'. child_act e ds ch = Some ch' \<and> child_ok d k ch'"
proof (cases "snd ch")
  case (CStart c)
  then show ?thesis using assms by (cases ch) (auto simp: child_act_def echo_ok_fresh fun_upd_twist)
next
  case (CEcho c rp)
  then have "echo_ok d rp" "fst ch = [c \<mapsto> Connection k]" using assms(1) by (cases ch; simp)+
  then show ?thesis using CEcho
    by (cases rule: echo_round_cases [of d rp e]) (cases ch; simp add: child_act_def)+
qed (use assms in \<open>cases ch; auto simp: child_act_def\<close>)+

lemma child_act_ended: "child_act e ds ch = Some ch' \<Longrightarrow> snd ch \<notin> range CZombie \<union> range CReaped"
  by (cases ch; cases "snd ch") (auto simp: child_act_def)

lemma children_update:
  assumes "\<forall>k < length xs. child_ok (ds ! k) k (xs ! k)" "child_ok (ds ! k) k ch" "i < length xs"
  shows "child_ok (ds ! i) i (xs[k := ch] ! i)"
  using assms by (cases "i = k") simp_all

lemma procs_step_inv:
  assumes "procs_step e s s'" "procs_inv s"
  shows "procs_inv s'"
  using assms(1)
proof (cases rule: procs_step.cases)
  case (accept c d)
  then have p: "parent_fds s = [listenfd \<mapsto> Listening]" "length (accepted s) = length (children s)"
    using assms(2) by (simp_all add: procs_inv_def)
  then have "c \<noteq> listenfd" using accept(5) by auto
  then show ?thesis using assms(2) accept p by (auto simp: procs_inv_def nth_append)
next
  case (fork c)
  then show ?thesis using assms(2) by (auto simp: procs_inv_def nth_append less_Suc_eq)
next
  case (close c)
  then show ?thesis using assms(2) by (auto simp: procs_inv_def fun_upd_twist)
next
  case (child k ch)
  have k: "k < length (accepted s)" using child(2) accepted_ge [OF assms(2)] by simp
  obtain ch' where "child_act e (accepted s) (children s ! k) = Some ch'" "child_ok (accepted s ! k) k ch'"
    using child_act_ok [where d = "accepted s ! k" and ds = "accepted s" and k = k and ch = "children s ! k" and e = e] child_act_ended [OF child(3)] assms(2) child(2) k
    by (auto simp: procs_inv_def)
  then have ok: "child_ok (accepted s ! k) k ch" using child(3) by simp
  have z: "list_ex is_zombie (children s)" if "list_ex is_zombie ((children s)[k := ch])" "\<not> is_zombie ch"
    using that by (auto simp: list_ex_iff dest!: set_update_subset_insert [THEN subsetD])
  have "parent_ok s' (ppc s)" using assms(2) child(1) by (cases "ppc s") (auto simp: procs_inv_def)
  then show ?thesis using assms(2) child(1) ok z by (auto simp: procs_inv_def intro!: children_update)
next
  case deliver
  then show ?thesis using assms(2) by (cases "ppc s") (auto simp: procs_inv_def)
next
  case (reap k t out)
  have "parent_ok s' (ppc s)" using assms(2) reap(1) by (cases "ppc s") (auto simp: procs_inv_def)
  moreover have "child_ok (accepted s ! k) k (Map.empty, CReaped out)"
    using assms(2) reap(3,4) by (auto simp: procs_inv_def dest!: spec [of _ k])
  ultimately show ?thesis using assms(2) reap(1,2) by (auto simp: procs_inv_def intro!: children_update)
next
  case handled
  then show ?thesis using assms(2) by (cases "ppc s") (auto simp: procs_inv_def)
qed

lemma procs_reach_inv: "procs_reach e s \<Longrightarrow> procs_inv s"
proof (induction rule: procs_reach.induct)
  case start
  show ?case by (simp add: procs_inv_def procs_start_def)
next
  case (step s s')
  then show ?case using procs_step_inv by blast
qed

section \<open>Children end and are reaped\<close>

definition child_rank :: "descr \<Rightarrow> fd_table \<times> child_pc \<Rightarrow> nat" where
  "child_rank d ch = (case snd ch of CStart c \<Rightarrow> 5 + length (incoming d) | CEcho c rp \<Rightarrow> 4 + length (incoming d) - length (outgoing (rio_fd rp))
     | CClose c out \<Rightarrow> 3 | CExit out \<Rightarrow> 2 | _ \<Rightarrow> 0)"

lemma echo_ok_sent: "echo_ok d rp \<Longrightarrow> length (outgoing (rio_fd rp)) \<le> length (incoming d)"
  unfolding echo_ok_def by (metis le_add1 length_append)

lemma child_act_rank:
  assumes "child_ok d k ch" "ds ! k = d" "clean d" "outgoing d = []" "snd ch \<notin> range CZombie \<union> range CReaped"
  shows "\<exists>ch'. child_act e ds ch = Some ch' \<and> child_rank d ch' < child_rank d ch"
proof (cases "snd ch")
  case (CStart c)
  then show ?thesis using assms by (cases ch) (auto simp: child_act_def child_rank_def rio_fresh_def)
next
  case (CEcho c rp)
  then have ok: "echo_ok d rp" "fst ch = [c \<mapsto> Connection k]" using assms(1) by (cases ch; simp)+
  from ok(1) show ?thesis
  proof (cases rule: echo_round_cases [where e = e])
    case (eof rp1)
    then show ?thesis using CEcho ok(2) echo_ok_sent [OF ok(1)] by (cases ch) (simp add: child_act_def child_rank_def)
  next
    case (line rp1)
    then show ?thesis using CEcho ok(2) echo_ok_sent [OF line(2)] by (cases ch) (simp add: child_act_def child_rank_def)
  qed
qed (use assms in \<open>cases ch; auto simp: child_act_def child_rank_def\<close>)+

lemma child_comes_to_end:
  assumes "procs_inv s" "k < length (children s)" "snd (children s ! k) \<notin> range CReaped"
  shows "\<exists>s' out. (procs_step e)\<^sup>*\<^sup>* s s' \<and> procs_inv s' \<and> accepted s' = accepted s \<and> k < length (children s') \<and> children s' ! k = (Map.empty, CZombie out)"
  using assms
proof (induction "child_rank (accepted s ! k) (children s ! k)" arbitrary: s rule: less_induct)
  case less
  have ok: "child_ok (accepted s ! k) k (children s ! k)" using less.prems by (simp add: procs_inv_def)
  show ?case
  proof (cases "snd (children s ! k) \<in> range CZombie")
    case True
    then obtain out where "children s ! k = (Map.empty, CZombie out)" using ok by (cases "children s ! k") auto
    then show ?thesis using less.prems by blast
  next
    case False
    have "accepted s ! k \<in> set (accepted s)" using less.prems(2) accepted_ge [OF less.prems(1)] by simp
    then have "clean (accepted s ! k)" "outgoing (accepted s ! k) = []" using less.prems(1) by (simp_all add: procs_inv_def)
    then obtain ch where ch: "child_act e (accepted s) (children s ! k) = Some ch" "child_rank (accepted s ! k) ch < child_rank (accepted s ! k) (children s ! k)"
      using child_act_rank [OF ok refl, of e] False less.prems(3) by auto
    let ?s = "s\<lparr>children := (children s)[k := ch], sigchld := sigchld s \<or> is_zombie ch\<rparr>"
    have st: "procs_step e s ?s" by (rule procs_step.child [OF less.prems(2) ch(1)])
    have "snd ch \<notin> range CReaped" using ch(1) by (cases "children s ! k"; cases "snd (children s ! k)") (auto simp: child_act_def split: option.splits open_file.splits if_splits outcome.splits)
    then show ?thesis using less.hyps [of ?s] procs_step_inv [OF st less.prems(1)] ch(2) less.prems(2) converse_rtranclp_into_rtranclp [of "procs_step e", OF st] by auto
  qed
qed

lemma zombie_reaped:
  assumes "procs_inv s" "k < length (children s)" "children s ! k = (t, CZombie out)"
  shows "\<exists>s'. (procs_step e)\<^sup>*\<^sup>* s s' \<and> accepted s' = accepted s \<and> k < length (children s') \<and> children s' ! k = (Map.empty, CReaped out)"
proof (cases "handling s")
  case True
  then have "(procs_step e)\<^sup>*\<^sup>* s (s\<lparr>children := (children s)[k := (Map.empty, CReaped out)]\<rparr>)" using procs_step.reap assms(2,3) by blast
  then show ?thesis using assms(2) by (intro exI [of _ "s\<lparr>children := (children s)[k := (Map.empty, CReaped out)]\<rparr>"]) simp
next
  case False
  have "list_ex is_zombie (children s)" using assms(2,3) unfolding list_ex_length by (metis is_zombie.simps(1))
  then have "sigchld s" using assms(1) False by (simp add: procs_inv_def)
  then have d: "procs_step e s (s\<lparr>sigchld := False, handling := True\<rparr>)" (is "procs_step e s ?s") using False by (rule procs_step.deliver)
  have "procs_step e ?s (?s\<lparr>children := (children ?s)[k := (Map.empty, CReaped out)]\<rparr>)" using assms(2,3) by (intro procs_step.reap) auto
  with d have "(procs_step e)\<^sup>*\<^sup>* s (?s\<lparr>children := (children ?s)[k := (Map.empty, CReaped out)]\<rparr>)" by (metis r_into_rtranclp rtranclp.rtrancl_into_rtrancl)
  then show ?thesis using assms(2) by (intro exI [of _ "?s\<lparr>children := (children ?s)[k := (Map.empty, CReaped out)]\<rparr>"]) simp
qed

lemma child_reaped:
  assumes "procs_inv s" "k < length (children s)"
  shows "\<exists>s'. (procs_step e)\<^sup>*\<^sup>* s s' \<and> k < length (children s') \<and> children s' ! k = (Map.empty, CReaped (incoming (accepted s ! k)))"
proof (cases "snd (children s ! k) \<in> range CReaped")
  case True
  then obtain t out where "children s ! k = (t, CReaped out)" by (cases "children s ! k") auto
  moreover have "child_ok (accepted s ! k) k (children s ! k)" using assms by (simp add: procs_inv_def)
  ultimately show ?thesis using assms(2) by (intro exI [of _ s]) simp
next
  case False
  from child_comes_to_end [OF assms False, of e] obtain s1 out where 1: "(procs_step e)\<^sup>*\<^sup>* s s1" "procs_inv s1" "accepted s1 = accepted s"
    "k < length (children s1)" "children s1 ! k = (Map.empty, CZombie out)" by blast
  from 1(2,4) have "child_ok (accepted s1 ! k) k (children s1 ! k)" by (simp add: procs_inv_def)
  then have "out = incoming (accepted s ! k)" using 1(3,5) by simp
  then show ?thesis using zombie_reaped [OF 1(2,4,5), of e] rtranclp_trans [OF 1(1)] by blast
qed

section \<open>The server\<close>

text \<open>Connection \<open>k\<close> is open while some process has a descriptor for it.\<close>

definition conn_open :: "process_server \<Rightarrow> nat \<Rightarrow> bool" where
  "conn_open s k \<longleftrightarrow> Connection k \<in> ran (parent_fds s) \<or> (\<exists>ch \<in> set (children s). Connection k \<in> ran (fst ch))"

lemma child_ran: "child_ok d k (t, pc) \<Longrightarrow> ran t \<subseteq> {Listening, Connection k}"
  by (cases pc) (auto simp: ran_def split: if_splits)

lemma ended_closed: "child_ok d k (t, pc) \<Longrightarrow> pc = CZombie out \<or> pc = CReaped out \<Longrightarrow> ran t = {} \<and> out = incoming d"
  by auto

lemma conn_closed:
  assumes "procs_inv s" "k < length (children s)" "snd (children s ! k) \<in> {CZombie out, CReaped out}" "ppc s = AtAccept \<or> Suc k < length (children s)"
  shows "\<not> conn_open s k"
proof -
  have ok: "child_ok (accepted s ! i) i (children s ! i)" if "i < length (children s)" for i using assms(1) that by (simp add: procs_inv_def)
  have "Connection k \<notin> ran (fst (children s ! i))" if "i < length (children s)" for i
  proof (cases "i = k")
    case True
    then show ?thesis using ok [OF assms(2)] assms(3) ended_closed [of "accepted s ! k" k "fst (children s ! k)" "snd (children s ! k)" out] by simp
  next
    case False
    then show ?thesis using child_ran [of "accepted s ! i" i "fst (children s ! i)" "snd (children s ! i)"] ok [OF that] by auto
  qed
  moreover have "Connection k \<notin> ran (parent_fds s)"
    using assms(1,2,4) by (cases "ppc s") (auto simp: procs_inv_def ran_def split: if_splits)
  ultimately show ?thesis unfolding conn_open_def by (metis in_set_conv_nth)
qed

text \<open>
  C11 (echo server with processes).  In every interleaving of the parent, the children, the delivery of \<open>SIGCHLD\<close> and
  its handler: a child that has ended has sent back exactly what its client sent, and its connection is closed in all
  processes as soon as the parent has closed its own descriptor; the parent waits in \<open>Accept\<close> with the
  listening descriptor as its only one; when no signal is pending and no handler runs there is no zombie; and every child can always
  make its way to its end, without an error from a closed descriptor, and be reaped.
\<close>

theorem echoserverp_serves:
  assumes "procs_reach e s"
  shows "(\<forall>k < length (children s). \<forall>out. snd (children s ! k) \<in> {CZombie out, CReaped out} \<longrightarrow> out = incoming (accepted s ! k)
      \<and> (ppc s = AtAccept \<or> Suc k < length (children s) \<longrightarrow> \<not> conn_open s k))
    \<and> (ppc s = AtAccept \<longrightarrow> parent_fds s = [listenfd \<mapsto> Listening]) \<and> card (dom (parent_fds s)) \<le> 2
    \<and> (\<not> sigchld s \<and> \<not> handling s \<longrightarrow> \<not> list_ex is_zombie (children s))
    \<and> (\<forall>k < length (children s). \<exists>s'. (procs_step e)\<^sup>*\<^sup>* s s' \<and> k < length (children s') \<and> children s' ! k = (Map.empty, CReaped (incoming (accepted s ! k))))"
proof -
  have i: "procs_inv s" by (rule procs_reach_inv [OF assms])
  have "out = incoming (accepted s ! k)" if "k < length (children s)" "snd (children s ! k) \<in> {CZombie out, CReaped out}" for k out
    using i that ended_closed [of "accepted s ! k" k "fst (children s ! k)" "snd (children s ! k)" out] by (simp add: procs_inv_def)
  moreover have "ppc s = AtAccept \<Longrightarrow> parent_fds s = [listenfd \<mapsto> Listening]" using i by (simp add: procs_inv_def)
  moreover have "card (dom (parent_fds s)) \<le> 2"
    using i by (cases "ppc s") (auto simp: procs_inv_def card_insert_if)
  moreover have "\<not> sigchld s \<and> \<not> handling s \<Longrightarrow> \<not> list_ex is_zombie (children s)" using i by (auto simp: procs_inv_def)
  ultimately show ?thesis using conn_closed [OF i] child_reaped [OF i] by blast
qed

theorem echoserverp_serves_witness:
  "\<exists>s s'. procs_reach 0 s \<and> accepted s = [\<lparr>incoming = [72, 10], outgoing = [], events = []\<rparr>]
     \<and> (procs_step 0)\<^sup>*\<^sup>* s s' \<and> children s' ! 0 = (Map.empty, CReaped [72, 10])"
proof -
  let ?d = "\<lparr>incoming = [72, 10], outgoing = [], events = []\<rparr>"
  let ?s1 = "procs_start\<lparr>parent_fds := (parent_fds procs_start)(4 \<mapsto> Connection 0), ppc := AtFork 4, accepted := [?d]\<rparr>"
  have 1: "procs_step 0 procs_start ?s1" using procs_step.accept [of procs_start 4 ?d 0] by (simp add: procs_start_def listenfd_def)
  have 2: "procs_step 0 ?s1 (?s1\<lparr>children := [(parent_fds ?s1, CStart 4)], ppc := AtClose 4\<rparr>)" (is "procs_step 0 _ ?s2")
    using procs_step.fork [of ?s1 4 0] by (simp add: procs_start_def)
  have r: "procs_reach 0 ?s2" using procs_reach.step [OF procs_reach.step [OF procs_reach.start 1] 2] .
  have "0 < length (children ?s2)" by simp
  then obtain s' where "(procs_step 0)\<^sup>*\<^sup>* ?s2 s'" "children s' ! 0 = (Map.empty, CReaped (incoming (accepted ?s2 ! 0)))"
    using echoserverp_serves [OF r] by blast
  then show ?thesis using r by (intro exI [of _ ?s2] exI [of _ s']) simp
qed

end
