(* ===== verification/Handlers.thy ===== *)
theory Handlers
  imports Sio Openfiles
begin

text \<open>
  Signal handlers and non-local jumps, the small programs of \<open>15-ecf-signals\<close>: \<open>internal.c\<close> (an alarm that rearms
  itself), \<open>restart.c\<close> (a handler that jumps back to the start), \<open>setjmp.c\<close> (a jump out of nested calls),
  \<open>sigint.c\<close>, \<open>sigintsafe.c\<close> and \<open>loop.c\<close> (handlers that print).  What happens outside the programs is a list of
  events; an event that finds the program ended has no effect.
\<close>

abbreviation line :: "string \<Rightarrow> string" where
  "line s \<equiv> s @ [CHR 0x0A]"

section \<open>internal.c\<close>

text \<open>
  \<open>alarmed\<close> says that a call of \<open>alarm(1)\<close> is running; a new call replaces an old one.  The count \<open>beeps\<close> stays below
  the bound of \<open>int\<close>, as the program ends at five.
\<close>

record beeper =
  beeps :: int
  alarmed :: bool
  term_out :: descr
  exit_status :: "int option"

definition beep_handler :: "beeper \<Rightarrow> beeper option" where
  "beep_handler s = do {
     (_, o1) \<leftarrow> sio_puts (c_string (line ''BEEP'')) (term_out s);
     let s1 = s\<lparr>term_out := o1, beeps := beeps s + 1\<rparr>;
     if beeps s1 < 5 then Some (s1\<lparr>alarmed := True\<rparr>)
     else do { (_, o2) \<leftarrow> sio_puts (c_string (line ''BOOM!'')) o1; Some (s1\<lparr>term_out := o2, exit_status := Some 0\<rparr>) } }"

text \<open>A second passes, or another process sends \<open>SIGALRM\<close>.\<close>

datatype alarm_event = Second | Sent

definition alarm_event :: "alarm_event \<Rightarrow> beeper \<Rightarrow> beeper option" where
  "alarm_event e s = (if exit_status s \<noteq> None then Some s
     else case e of Second \<Rightarrow> if alarmed s then beep_handler (s\<lparr>alarmed := False\<rparr>) else Some s
          | Sent \<Rightarrow> beep_handler s)"

text \<open>\<open>main\<close>: install the handler, set the alarm, and loop while the events occur.\<close>

definition internal_main :: "alarm_event list \<Rightarrow> descr \<Rightarrow> beeper option" where
  "internal_main evs out = foldM alarm_event evs \<lparr>beeps = 0, alarmed = True, term_out = out, exit_status = None\<rparr>"

section \<open>setjmp.c\<close>

text \<open>A call that returns, or that leaves its callers through \<open>longjmp\<close> with a value.\<close>

datatype 'a jumps = Returns 'a | Longjmp int

fun then_call :: "'a jumps \<Rightarrow> ('a \<Rightarrow> 'b jumps) \<Rightarrow> 'b jumps" where
  "then_call (Returns x) f = f x"
| "then_call (Longjmp v) f = Longjmp v"

definition bar :: "int \<Rightarrow> unit jumps" where
  "bar error2 = (if error2 \<noteq> 0 then Longjmp 2 else Returns ())"

definition foo :: "int \<Rightarrow> int \<Rightarrow> unit jumps" where
  "foo error1 error2 = then_call (if error1 \<noteq> 0 then Longjmp 1 else Returns ()) (\<lambda>_. bar error2)"

text \<open>
  The \<open>switch\<close> is entered with the value of \<open>setjmp\<close>: 0 at first, the value of a jump afterwards (a jump with 0
  delivers 1).  Only the first entry calls \<open>foo\<close>, so a second jump cannot happen.
\<close>

definition setjmp_switch :: "int \<Rightarrow> string list" where
  "setjmp_switch v = (if v = 1 then [line ''Detected an error1 condition in foo'']
     else if v = 2 then [line ''Detected an error2 condition in foo'']
     else [line ''Unknown error condition in foo''])"

definition setjmp_main :: "int \<Rightarrow> int \<Rightarrow> string list \<times> int" where
  "setjmp_main error1 error2 = (case foo error1 error2 of
       Returns _ \<Rightarrow> ([], 0)
     | Longjmp v \<Rightarrow> (setjmp_switch (if v = 0 then 1 else v), 0))"

section \<open>restart.c\<close>

text \<open>
  The next statement of \<open>main\<close>; \<open>Killed\<close> is the default action of \<open>SIGINT\<close>.  The buffer holds the signal mask if
  \<open>sigsetjmp\<close> was told to save it; \<open>masked\<close> says that \<open>SIGINT\<close> is blocked, as it is while its handler runs, and
  \<open>waiting\<close> that one is pending.
\<close>

datatype restart_pc = AtSetjmp | AtSignal | AtStarting | AtRestarting | AtSleep | AtProcessing | Killed

record restarter =
  rpc :: restart_pc
  jmp_buf :: "bool option option"
  installed :: bool
  masked :: bool
  waiting :: bool
  said_lines :: "string list"

definition restart_main :: "bool \<Rightarrow> restarter \<Rightarrow> restarter" where
  "restart_main savesigs s = (case rpc s of
     AtSetjmp \<Rightarrow> s\<lparr>jmp_buf := Some (if savesigs then Some (masked s) else None), rpc := AtSignal\<rparr>
   | AtSignal \<Rightarrow> s\<lparr>installed := True, rpc := AtStarting\<rparr>
   | AtStarting \<Rightarrow> s\<lparr>said_lines := said_lines s @ [line ''starting''], rpc := AtSleep\<rparr>
   | AtRestarting \<Rightarrow> s\<lparr>said_lines := said_lines s @ [line ''restarting''], rpc := AtSleep\<rparr>
   | AtSleep \<Rightarrow> s\<lparr>rpc := AtProcessing\<rparr>
   | AtProcessing \<Rightarrow> s\<lparr>said_lines := said_lines s @ [line ''processing...''], rpc := AtSleep\<rparr>
   | Killed \<Rightarrow> s)"

text \<open>\<open>siglongjmp(buf, 1)\<close>: control returns from \<open>sigsetjmp\<close> with 1 and the saved mask; the buffer must have been set.\<close>

definition restart_handler :: "restarter \<Rightarrow> restarter option" where
  "restart_handler s = do { b \<leftarrow> jmp_buf s;
     Some (s\<lparr>rpc := AtRestarting, masked := (case b of None \<Rightarrow> masked s | Some m \<Rightarrow> m)\<rparr>) }"

datatype restart_event = Proceed | Interrupt

definition take_interrupt :: "restarter \<Rightarrow> restarter option" where
  "take_interrupt s = (if \<not> installed s then Some (s\<lparr>rpc := Killed\<rparr>)
     else if masked s then Some (s\<lparr>waiting := True\<rparr>)
     else restart_handler (s\<lparr>masked := True\<rparr>))"

definition restart_event :: "bool \<Rightarrow> restart_event \<Rightarrow> restarter \<Rightarrow> restarter option" where
  "restart_event savesigs e s = (if rpc s = Killed then Some s
     else case e of Proceed \<Rightarrow> Some (restart_main savesigs s) | Interrupt \<Rightarrow> take_interrupt s)"

definition restart_run :: "bool \<Rightarrow> restart_event list \<Rightarrow> restarter option" where
  "restart_run savesigs evs = foldM (restart_event savesigs) evs
     \<lparr>rpc = AtSetjmp, jmp_buf = None, installed = False, masked = False, waiting = False, said_lines = []\<rparr>"

section \<open>sigint.c, sigintsafe.c and loop.c\<close>

text \<open>
  The text of the two versions of the handler: through the buffered stream of the C library, which \<open>exit\<close> flushes, and
  through \<open>Sio_puts\<close>, which ends the process when a write fails.
\<close>

definition sigint_handler_printf :: "stream_t \<Rightarrow> stream_t \<times> int" where
  "sigint_handler_printf stdout = (let
     f1 = printf_str (line ''So you think you can stop the bomb with ctrl-c, do you?'') stdout;
     f2 = fflush (printf_str ''Well...'' f1);
     f3 = printf_str (line ''OK. :-)'') f2
   in (fflush f3, 0))"

fun Sio_puts_all :: "string list \<Rightarrow> descr \<Rightarrow> (int \<times> descr) option" where
  "Sio_puts_all [] out = Some (0, out)"
| "Sio_puts_all (s # ss) out = do { (r, o1) \<leftarrow> Sio_puts (c_string s) out;
     case r of Inl status \<Rightarrow> Some (status, o1) | Inr _ \<Rightarrow> Sio_puts_all ss o1 }"

definition sigint_handler_safe :: "descr \<Rightarrow> (int \<times> descr) option" where
  "sigint_handler_safe out = Sio_puts_all [line ''So you think you can stop the bomb with ctrl-c, do you?'', ''Well...'', line ''OK. :-)''] out"

text \<open>\<open>main\<close> of the two programs when \<open>SIGINT\<close> arrives during \<open>pause\<close>, for the error number of \<open>signal\<close> if it fails.\<close>

definition sigint_main :: "int option \<Rightarrow> stream_t \<Rightarrow> (stream_t \<times> int) outcome" where
  "sigint_main err stdout = (case err of Some e \<Rightarrow> unix_error ''signal error'' e | None \<Rightarrow> Ret (sigint_handler_printf stdout))"

definition sigintsafe_main :: "int option \<Rightarrow> descr \<Rightarrow> (int \<times> descr) option outcome" where
  "sigintsafe_main err out = (case err of Some e \<Rightarrow> unix_error ''signal error'' e | None \<Rightarrow> Ret (sigint_handler_safe out))"

text \<open>\<open>loop.c\<close>: the handler, and \<open>main\<close> after a number of interrupts; the program never ends.\<close>

definition loop_handler :: "stream_t \<Rightarrow> stream_t" where
  "loop_handler stdout = printf_str (line ''Received SIGINT'') stdout"

definition loop_main :: "nat \<Rightarrow> stream_t \<Rightarrow> stream_t" where
  "loop_main interrupts stdout = (loop_handler ^^ interrupts) stdout"

section \<open>The alarm rings five times\<close>

abbreviation text_bytes :: "string \<Rightarrow> byte list" where
  "text_bytes s \<equiv> map (\<lambda>c. of_nat (of_char c)) s"

lemma sio_puts_text:
  "(0 :: byte) \<notin> set (text_bytes s) \<Longrightarrow> sio_puts (c_string s) out = Some (sys_write (text_bytes s) out)"
  by (simp add: sio_puts_def sio_strlen_def c_string_def scan_nul_append)

definition rung :: "nat \<Rightarrow> byte list" where
  "rung n = concat (replicate (min 5 n) (text_bytes (line ''BEEP''))) @ (if n < 5 then [] else text_bytes (line ''BOOM!''))"

definition beeper_after :: "descr \<Rightarrow> nat \<Rightarrow> beeper \<Rightarrow> bool" where
  "beeper_after out n s \<longleftrightarrow> beeps s = int (min 5 n) \<and> exit_status s = (if n < 5 then None else Some 0) \<and> (n < 5 \<longrightarrow> alarmed s)
     \<and> (events out = [] \<longrightarrow> events (term_out s) = [] \<and> outgoing (term_out s) = outgoing out @ rung n)"

lemma sys_write_plain: "events out = [] \<Longrightarrow> sys_write bs out = (Inr (length bs), out\<lparr>outgoing := outgoing out @ bs\<rparr>)"
  by (simp add: sys_write.simps)

lemma beep_handler_rings:
  assumes "beeper_after out n s" "n < 5"
  shows "\<exists>s'. beep_handler (s\<lparr>alarmed := a\<rparr>) = Some s' \<and> beeper_after out (Suc n) s'"
proof -
  obtain r1 o1 where w1: "sys_write (text_bytes (line ''BEEP'')) (term_out s) = (r1, o1)" by fastforce
  obtain r2 o2 where w2: "sys_write (text_bytes (line ''BOOM!'')) o1 = (r2, o2)" by fastforce
  have p: "sio_puts (c_string (line ''BEEP'')) (term_out s) = Some (r1, o1)" "sio_puts (c_string (line ''BOOM!'')) o1 = Some (r2, o2)"
    using w1 w2 by (simp_all add: sio_puts_text)
  have o: "events o1 = [] \<and> outgoing o1 = outgoing (term_out s) @ text_bytes (line ''BEEP'')" if "events (term_out s) = []"
    using w1 that sys_write_plain [OF that] by auto
  have o': "events o2 = [] \<and> outgoing o2 = outgoing o1 @ text_bytes (line ''BOOM!'')" if "events o1 = []"
    using w2 that sys_write_plain [OF that] by auto
  have r: "concat (replicate (Suc n) x) = concat (replicate n x) @ x" for x :: "byte list"
    by (induction n) simp_all
  show ?thesis
  proof (cases "n = 4")
    case True
    then show ?thesis using assms(1) o o' r [of "text_bytes (line ''BEEP'')"]
      by (simp add: beep_handler_def p [simplified] beeper_after_def rung_def del: replicate_Suc)
  next
    case False
    then have "Suc n < 5" using assms(2) by simp
    then show ?thesis using assms o r [of "text_bytes (line ''BEEP'')"]
      by (simp add: beep_handler_def p [simplified] beeper_after_def rung_def min_def del: replicate_Suc)
  qed
qed

lemma alarm_event_counts:
  assumes "beeper_after out n s"
  shows "\<exists>s'. alarm_event e s = Some s' \<and> beeper_after out (Suc n) s'"
proof (cases "n < 5")
  case True
  then have e: "exit_status s = None" "alarmed s" "s = s\<lparr>alarmed := True\<rparr>" using assms by (simp_all add: beeper_after_def)
  show ?thesis using beep_handler_rings [OF assms True, of False] beep_handler_rings [OF assms True, of True] e
    by (cases e) (simp_all add: alarm_event_def flip: e(3))
next
  case False
  then show ?thesis using assms by (simp add: alarm_event_def beeper_after_def rung_def)
qed

lemma alarm_events_count: "beeper_after out n s \<Longrightarrow> \<exists>s'. foldM alarm_event evs s = Some s' \<and> beeper_after out (n + length evs) s'"
proof (induction evs arbitrary: n s)
  case (Cons e evs)
  obtain s1 where "alarm_event e s = Some s1" "beeper_after out (Suc n) s1" using alarm_event_counts [OF Cons.prems] by blast
  then show ?case using Cons.IH [of "Suc n" s1] by simp
qed simp

text \<open>
  The alarm of \<open>internal.c\<close>.  Whatever the mixture of seconds and of signals from other processes: every event rings,
  until the fifth ends the program with status 0; the alarm is set as long as the program runs, so five
  seconds are enough; and a standard output that accepts all writes has received a line for every ring, and \<open>BOOM!\<close> at the end.
\<close>

theorem internal_main_rings: "\<exists>s. internal_main evs out = Some s \<and> beeper_after out (length evs) s"
  unfolding internal_main_def using alarm_events_count [of out 0 "\<lparr>beeps = 0, alarmed = True, term_out = out, exit_status = None\<rparr>" evs]
  by (simp add: beeper_after_def rung_def)

section \<open>Jumps out of calls and handlers\<close>

text \<open>The error that \<open>foo\<close> finds first is the one that is reported; with the initial values of the program it is the second.\<close>

lemma setjmp_main_reports:
  "setjmp_main e1 e2 = (if e1 \<noteq> 0 then [line ''Detected an error1 condition in foo'']
     else if e2 \<noteq> 0 then [line ''Detected an error2 condition in foo''] else [], 0)"
  "setjmp_main 0 1 = ([line ''Detected an error2 condition in foo''], 0)"
  by (simp_all add: setjmp_main_def setjmp_switch_def foo_def bar_def)

definition restart_inv :: "restarter \<Rightarrow> bool" where
  "restart_inv s \<longleftrightarrow> \<not> masked s \<and> \<not> waiting s \<and> (installed s \<longrightarrow> jmp_buf s = Some (Some False) \<and> rpc s \<notin> {AtSetjmp, AtSignal, Killed})
     \<and> (\<not> installed s \<longrightarrow> rpc s \<in> {AtSetjmp, AtSignal, Killed} \<and> said_lines s = []) \<and> (rpc s = AtSignal \<longrightarrow> jmp_buf s = Some (Some False))"

lemma restart_event_keeps: "restart_inv s \<Longrightarrow> \<exists>s'. restart_event True e s = Some s' \<and> restart_inv s'"
  by (cases e; cases "rpc s") (auto simp: restart_event_def restart_main_def take_interrupt_def restart_handler_def restart_inv_def)

lemma restart_run_inv: "\<exists>s. restart_run True evs = Some s \<and> restart_inv s"
proof -
  have "restart_inv s0 \<Longrightarrow> \<exists>s. foldM (restart_event True) evs s0 = Some s \<and> restart_inv s" for s0
  proof (induction evs arbitrary: s0)
    case (Cons e evs)
    then show ?case using restart_event_keeps [OF Cons.prems, of e] by auto
  qed simp
  then show ?thesis by (simp add: restart_run_def restart_inv_def)
qed

text \<open>
  The restarting program.  No jump goes through a buffer that has not been set; an interrupt before the handler is
  installed ends the program without output; every later interrupt, also the second and all that follow, makes \<open>restarting\<close> the
  next line.  This needs the saved mask: without it the second interrupt stays pending for ever.
\<close>

theorem restart_restarts:
  "\<exists>s. restart_run True evs = Some s \<and> (if installed s
     then \<exists>s1. restart_event True Interrupt s = Some s1 \<and> restart_event True Proceed s1 = Some (s1\<lparr>rpc := AtSleep, said_lines := said_lines s @ [line ''restarting'']\<rparr>)
     else said_lines s = [])"
proof -
  obtain s where s: "restart_run True evs = Some s" "restart_inv s" using restart_run_inv by blast
  then show ?thesis by (auto simp: restart_inv_def restart_event_def take_interrupt_def restart_handler_def restart_main_def)
qed

lemma restart_needs_mask:
  "\<exists>s. restart_run False [Proceed, Proceed, Proceed, Interrupt, Proceed, Interrupt, Proceed] = Some s \<and> waiting s \<and> masked s
     \<and> said_lines s = [line ''starting'', line ''restarting'']"
  by (simp add: restart_run_def restart_event_def take_interrupt_def restart_handler_def restart_main_def)

section \<open>Handlers that print\<close>

lemma putc_flow: "concat (write_calls (putc c f)) @ chars (putc c f) = concat (write_calls f) @ chars f @ [c]"
  by (simp add: putc_def fflush_def Let_def)

lemma printf_flow: "concat (write_calls (printf_str s f)) @ chars (printf_str s f) = concat (write_calls f) @ chars f @ s"
proof (induction s arbitrary: f)
  case (Cons c s)
  have "concat (write_calls (printf_str (c # s) f)) @ chars (printf_str (c # s) f) = (concat (write_calls (putc c f)) @ chars (putc c f)) @ s"
    using Cons.IH [of "putc c f"] by (simp add: printf_str_def)
  then show ?case by (simp only: putc_flow) simp
qed (simp add: printf_str_def)

lemma fflush_flow: "concat (write_calls (fflush f)) = concat (write_calls f) @ chars f" "chars (fflush f) = []"
  by (simp_all add: fflush_def)

definition bomb_text :: string where
  "bomb_text = line ''So you think you can stop the bomb with ctrl-c, do you?'' @ ''Well...'' @ line ''OK. :-)''"

text \<open>
  Both versions of the handler deliver the same text and the status 0: the one of \<open>sigint.c\<close> for every size of the buffer
  of \<open>stdout\<close>, the one of \<open>sigintsafe.c\<close> on an output that accepts all writes.
\<close>

theorem sigint_handlers_agree:
  "snd (sigint_handler_printf f) = 0 \<and> chars (fst (sigint_handler_printf f)) = []
     \<and> concat (write_calls (fst (sigint_handler_printf f))) = concat (write_calls f) @ chars f @ bomb_text"
  "events out = [] \<Longrightarrow> sigint_handler_safe out = Some (0, out\<lparr>outgoing := outgoing out @ text_bytes bomb_text\<rparr>)"
proof -
  show "snd (sigint_handler_printf f) = 0 \<and> chars (fst (sigint_handler_printf f)) = []
     \<and> concat (write_calls (fst (sigint_handler_printf f))) = concat (write_calls f) @ chars f @ bomb_text"
    by (simp add: sigint_handler_printf_def Let_def fflush_flow printf_flow bomb_text_def)
next
  have p: "Sio_puts (c_string s) o1 = Some (Inr (length s), o1\<lparr>outgoing := outgoing o1 @ text_bytes s\<rparr>)"
    if "(0 :: byte) \<notin> set (text_bytes s)" "events o1 = []" for s o1
    using that by (simp add: Sio_puts_def sio_puts_text sys_write_plain)
  show "events out = [] \<Longrightarrow> sigint_handler_safe out = Some (0, out\<lparr>outgoing := outgoing out @ text_bytes bomb_text\<rparr>)"
    by (simp add: sigint_handler_safe_def p bomb_text_def)
qed

text \<open>
  \<open>loop.c\<close> never flushes: on a terminal every interrupt prints its line, on a fully buffered output nothing appears as
  long as the lines fit into the buffer.
\<close>

lemma printf_line_buffered:
  assumes "line_buffered f" "chars f = []" "length s + 1 < capacity f" "CHR 0x0A \<notin> set s"
  shows "printf_str (line s) f = f\<lparr>write_calls := write_calls f @ [line s]\<rparr>"
proof -
  have "fold putc s f = f\<lparr>chars := chars f @ s\<rparr>" if "length (chars f) + length s < capacity f" "CHR 0x0A \<notin> set s" for f s
    using that by (induction s arbitrary: f) (auto simp: putc_def Let_def)
  from this [of f s] show ?thesis using assms by (simp add: printf_str_def putc_def fflush_def Let_def)
qed

lemma loop_main_terminal:
  "line_buffered f \<Longrightarrow> chars f = [] \<Longrightarrow> 20 < capacity f \<Longrightarrow>
     write_calls (loop_main n f) = write_calls f @ replicate n (line ''Received SIGINT'')"
proof -
  assume f: "line_buffered f" "chars f = []" "20 < capacity f"
  have "loop_main n f = f\<lparr>write_calls := write_calls f @ replicate n (line ''Received SIGINT'')\<rparr>"
  proof (induction n)
    case (Suc n)
    have "loop_handler (f\<lparr>write_calls := ws\<rparr>) = f\<lparr>write_calls := ws @ [line ''Received SIGINT'']\<rparr>" for ws
      using f printf_line_buffered [of "f\<lparr>write_calls := ws\<rparr>" "''Received SIGINT''"] by (simp add: loop_handler_def)
    then show ?case using Suc by (simp add: loop_main_def replicate_append_same)
  qed (simp add: loop_main_def)
  then show ?thesis by simp
qed

lemma loop_main_buffered:
  assumes "\<not> line_buffered f" "chars f = []" "16 * n < capacity f"
  shows "write_calls (loop_main n f) = write_calls f"
proof -
  have p: "fold putc s f = f\<lparr>chars := chars f @ s\<rparr>" if "length (chars f) + length s < capacity f" "\<not> line_buffered f" for f s
    using that by (induction s arbitrary: f) (auto simp: putc_def Let_def)
  have "16 * n < capacity f \<Longrightarrow> \<exists>cs. loop_main n f = f\<lparr>chars := cs\<rparr> \<and> length cs = 16 * n" using assms(1,2)
  proof (induction n)
    case (Suc n)
    then obtain cs where "loop_main n f = f\<lparr>chars := cs\<rparr>" "length cs = 16 * n" by auto
    then show ?case using Suc.prems p [of "f\<lparr>chars := cs\<rparr>" "line ''Received SIGINT''"]
      by (intro exI [of _ "cs @ line ''Received SIGINT''"]) (simp add: loop_main_def loop_handler_def printf_str_def)
  qed (use assms(2) in \<open>auto simp: loop_main_def\<close>)
  then show ?thesis using assms(3) by auto
qed

end
