(* ===== verification/Execs.thy ===== *)
theory Execs
  imports Family
begin

text \<open>
  A parent that waits for its child: \<open>15-ecf-signals/execs.c\<close>, where the child becomes another program, and the function
  \<open>fork9\<close> of \<open>forks.c\<close>.  What the new program prints and the status with which it exits are whatever the
  system delivers for the path and the arguments; a call of \<open>execl\<close> or \<open>execve\<close> that fails returns.
\<close>

section \<open>Definitions\<close>

type_synonym out_lines = "(string \<times> int list) list"

text \<open>A program that prints lines and goes on.\<close>

definition prints :: "out_lines \<Rightarrow> prog \<Rightarrow> prog" where
  "prints L c = foldr (\<lambda>(s, xs). Print s xs) L c"

definition exec_child :: "(out_lines \<times> int) option \<Rightarrow> prog" where
  "exec_child program = (case program of
     Some (L, status) \<Rightarrow> prints L (Exit status)
   | None \<Rightarrow> Print ''Child: Should never get here!'' [] (Exit 1))"

definition exec0 :: "(string \<Rightarrow> string list \<Rightarrow> (out_lines \<times> int) option) \<Rightarrow> prog \<Rightarrow> prog" where
  "exec0 execl ret = Fork (\<lambda>pid. if pid = 0 then exec_child (execl ''/bin/ls'' [''ls'', ''-F''])
     else Wait (\<lambda>_. Print ''Command completed'' [] ret))"

definition exec1 :: "(string \<Rightarrow> string list \<Rightarrow> string list \<Rightarrow> (out_lines \<times> int) option) \<Rightarrow> string list \<Rightarrow> prog \<Rightarrow> prog" where
  "exec1 execve environ ret = (let myargv = [''/bin/ls'', ''-F''] in
     Fork (\<lambda>pid. if pid = 0 then exec_child (execve (myargv ! 0) myargv environ)
       else Wait (\<lambda>_. Print ''Command completed'' [] ret)))"

text \<open>\<open>main\<close>, for the number that \<open>atoi\<close> delivers for the first argument, if there is one.\<close>

definition execs_main :: "(string \<Rightarrow> string list \<Rightarrow> (out_lines \<times> int) option) \<Rightarrow> (string \<Rightarrow> string list \<Rightarrow> string list \<Rightarrow> (out_lines \<times> int) option)
    \<Rightarrow> string list \<Rightarrow> int option \<Rightarrow> prog" where
  "execs_main execl execve environ arg = (let option = (case arg of None \<Rightarrow> 0 | Some n \<Rightarrow> n) in
     if option = 0 then exec0 execl (Exit 0) else if option = 1 then exec1 execve environ (Exit 0)
     else Print ''Unknown option %d'' [option] (Exit 0))"

section \<open>Waiting for one child\<close>

text \<open>The child prints \<open>L\<close>, the parent prints \<open>P\<close>, waits, and prints \<open>Q\<close>.\<close>

definition waits :: "out_lines \<Rightarrow> int \<Rightarrow> out_lines \<Rightarrow> out_lines \<Rightarrow> prog" where
  "waits L n P Q = Fork (\<lambda>pid. if pid = 0 then prints L (Exit n) else prints P (Wait (\<lambda>_. prints Q (Exit 0))))"

lemma prints_simps [simp]: "prints [] c = c" "prints ((s, xs) # L) c = Print s xs (prints L c)"
  by (simp_all add: prints_def)

lemma shuffles_snoc: "zs \<in> shuffles xs ys \<Longrightarrow> zs @ [a] \<in> shuffles (xs @ [a]) ys"
proof (induction xs ys arbitrary: zs rule: shuffles.induct)
  case (1 ys)
  have "ys @ [a] \<in> shuffles [a] ys" by (induction ys) auto
  then show ?case using 1 by simp
next
  case (2 x xs)
  then show ?case by simp
next
  case (3 x xs y ys)
  then show ?case by (auto simp: Cons_in_shuffles_iff)
qed

lemma shuffles_snoc2: "zs \<in> shuffles xs ys \<Longrightarrow> zs @ [a] \<in> shuffles xs (ys @ [a])"
  using shuffles_snoc [of zs ys xs a] by (simp add: shuffles_commutes)

definition kid :: "prog \<Rightarrow> process" where
  "kid x = (plain x)\<lparr>parent := main_pid\<rparr>"

text \<open>The states of a run, with a bound on the actions that are left.\<close>

inductive stage :: "out_lines \<Rightarrow> int \<Rightarrow> out_lines \<Rightarrow> out_lines \<Rightarrow> nat \<Rightarrow> kernel \<Rightarrow> bool" for L n P Q where
  start: "family (plain (waits L n P Q)) E 0 k \<Longrightarrow> printed k = [] \<Longrightarrow> stage L n P Q (length L + length P + length Q + 4) k"
| both: "family (plain (prints Pb (Wait (\<lambda>_. prints Q (Exit 0))))) E 1 k \<Longrightarrow> E 0 = Some (Run (kid (prints Lb (Exit n)))) \<Longrightarrow>
    L = La @ Lb \<Longrightarrow> P = Pa @ Pb \<Longrightarrow> printed k \<in> shuffles La Pa \<Longrightarrow> stage L n P Q (length Lb + length Pb + length Q + 3) k"
| zombie: "family (plain (prints Pb (Wait (\<lambda>_. prints Q (Exit 0))))) E 1 k \<Longrightarrow> E 0 = Some (Zombie main_pid (Exited n)) \<Longrightarrow>
    P = Pa @ Pb \<Longrightarrow> printed k \<in> shuffles L Pa \<Longrightarrow> stage L n P Q (length Pb + length Q + 2) k"
| reaped: "family (plain (prints Qb (Exit 0))) E 1 k \<Longrightarrow> E 0 = None \<Longrightarrow> Q = Qa @ Qb \<Longrightarrow>
    x \<in> shuffles L P \<Longrightarrow> printed k = x @ Qa \<Longrightarrow> stage L n P Q (length Qb + 1) k"
| over: "table k = Map.empty \<Longrightarrow> x \<in> shuffles L P \<Longrightarrow> printed k = x @ Q \<Longrightarrow> stage L n P Q 0 k"

lemma kid_fields [simp]: "code (kid x) = x" "parent (kid x) = main_pid" "deliverable (kid x) = []" "cleanups (kid x) = 0" "(kid x)\<lparr>code := y\<rparr> = kid y"
  by (simp_all add: kid_def plain_def deliverable_def)

lemma plain_upd [simp]: "(plain x)\<lparr>code := y\<rparr> = plain y" "(plain y)\<lparr>parent := main_pid, pending := []\<rparr> = kid y"
  by (simp_all add: plain_def kid_def)

lemma plain_post: "post SIGCHLD (plain x) = plain x"
  by (simp add: post_def plain_def)

lemma kid_prints:
  assumes "family r E c k" "i < c" "E i = Some (Run (kid (Print s xs y)))"
  shows "family r (E(i := Some (Run (kid y)))) c (kstep (child_pid i, q) k)" "printed (kstep (child_pid i, q) k) = printed k @ [(s, xs)]"
proof -
  have "table k (child_pid i) = Some (Run (kid (Print s xs y)))" using family_kids [OF assms(1,2)] assms(3) by simp
  then have k: "kstep (child_pid i, q) k = continue (child_pid i) (kid (Print s xs y)) y (say s xs k)" by (simp add: kstep_def act.simps)
  show "family r (E(i := Some (Run (kid y)))) c (kstep (child_pid i, q) k)"
    by (rule family_child [OF assms(1,2)]) (simp_all add: k continue_def set_entry_def say_def)
  show "printed (kstep (child_pid i, q) k) = printed k @ [(s, xs)]" by (simp add: k continue_def set_entry_def say_def)
qed

lemma main_prints:
  assumes "family (plain (Print s xs y)) E c k"
  shows "family (plain y) E c (kstep (main_pid, q) k)" "printed (kstep (main_pid, q) k) = printed k @ [(s, xs)]"
  using assms by (auto simp: family_def kstep_def act.simps continue_def set_entry_def say_def)

text \<open>An entry of a schedule is one action less, or none.\<close>

definition progress :: "out_lines \<Rightarrow> int \<Rightarrow> out_lines \<Rightarrow> out_lines \<Rightarrow> nat \<Rightarrow> kernel \<Rightarrow> pid \<times> pid \<Rightarrow> bool" where
  "progress L n P Q m k e \<longleftrightarrow> kstep e k = k \<or> (\<exists>m' < m. stage L n P Q m' (kstep e k))"

lemma start_main:
  assumes "family (plain (waits L n P Q)) E 0 k" "printed k = []"
  shows "stage L n P Q (length L + length P + length Q + 3) (kstep (main_pid, q) k)"
proof -
  have c: "code (plain (waits L n P Q)) = Fork (\<lambda>pid. if pid = 0 then prints L (Exit n) else prints P (Wait (\<lambda>_. prints Q (Exit 0))))"
    by (simp add: waits_def)
  note f = family_fork [OF assms(1) c, of q]
  show ?thesis using f assms(2) by (intro stage.both [where La = "[]" and Pa = "[]" and E = "E(0 \<mapsto> Run (kid (prints L (Exit n))))"]) simp_all
qed

lemma wait_reaps:
  assumes "family (plain (Wait g)) E 1 k" "E 0 = Some (Zombie main_pid w)" "q = child_pid 0"
  shows "family (plain (g (Some (q, w)))) (E(0 := None)) 1 (kstep (main_pid, q) k)" "printed (kstep (main_pid, q) k) = printed k"
proof -
  have "has_children main_pid k" using family_has_children [OF assms(1)] assms(2) by auto
  then have k: "kstep (main_pid, child_pid 0) k = reap main_pid (plain (Wait g)) (child_pid 0) g k"
    using family_act [OF assms(1), of "child_pid 0"] by (simp add: act.simps)
  show "family (plain (g (Some (q, w)))) (E(0 := None)) 1 (kstep (main_pid, q) k)" "printed (kstep (main_pid, q) k) = printed k"
    using family_reap [OF assms(1) _ assms(2), of g] assms(3) by (simp_all add: k)
qed

lemma wait_waits:
  assumes "family (plain (Wait g)) E 1 k" "E 0 \<noteq> None" "q = child_pid 0 \<Longrightarrow> \<nexists>w. E 0 = Some (Zombie main_pid w)"
  shows "kstep (main_pid, q) k = k"
proof -
  have "has_children main_pid k" using family_has_children [OF assms(1)] assms(2) by auto
  then show ?thesis using family_act [OF assms(1), of q] family_no_reap [OF assms(1), of q] assms(3) by (auto simp: act.simps)
qed

lemma stage_main: "stage L n P Q m k \<Longrightarrow> progress L n P Q m k (main_pid, q)"
proof (induction rule: stage.induct)
  case (start E k)
  then show ?case using start_main [of L n P Q E k q] by (auto simp: progress_def)
next
  case (both Pb E k Lb La Pa)
  show ?case
  proof (cases Pb)
    case Nil
    then show ?thesis using wait_waits [of _ E k q] both(1,2) by (simp add: progress_def)
  next
    case (Cons l Pc)
    obtain s xs where l: "l = (s, xs)" by fastforce
    note f = main_prints [of s xs "prints Pc (Wait (\<lambda>_. prints Q (Exit 0)))" E 1 k q]
    have "stage L n P Q (length Lb + length Pc + length Q + 3) (kstep (main_pid, q) k)"
      using f both Cons l by (intro stage.both [where Pa = "Pa @ [l]" and E = E]) (auto intro: shuffles_snoc2)
    then show ?thesis using Cons by (force simp: progress_def)
  qed
next
  case (zombie Pb E k Pa)
  show ?case
  proof (cases Pb)
    case Nil
    show ?thesis
    proof (cases "q = child_pid 0")
      case True
      note f = wait_reaps [of "\<lambda>_. prints Q (Exit 0)" E k, OF _ zombie(2) True]
      have "stage L n P Q (length Q + 1) (kstep (main_pid, q) k)"
        using f zombie Nil by (intro stage.reaped [where Qa = "[]" and x = "printed k" and E = "E(0 := None)"]) simp_all
      then show ?thesis using Nil by (auto simp: progress_def)
    next
      case False
      then show ?thesis using wait_waits [of _ E k q] zombie(1,2) Nil by (simp add: progress_def)
    qed
  next
    case (Cons l Pc)
    obtain s xs where l: "l = (s, xs)" by fastforce
    note f = main_prints [of s xs "prints Pc (Wait (\<lambda>_. prints Q (Exit 0)))" E 1 k q]
    have "stage L n P Q (length Pc + length Q + 2) (kstep (main_pid, q) k)"
      using f zombie Cons l by (intro stage.zombie [where Pa = "Pa @ [l]" and E = E]) (auto intro: shuffles_snoc2)
    then show ?thesis using Cons by (force simp: progress_def)
  qed
next
  case (reaped Qb E k Qa x)
  show ?case
  proof (cases Qb)
    case Nil
    then have "stage L n P Q 0 (kstep (main_pid, q) k)"
      using family_exit [of "plain (Exit 0)" E 1 k 0 q] reaped by (intro stage.over [where x = x]) simp_all
    then show ?thesis by (auto simp: progress_def)
  next
    case (Cons l Qc)
    obtain s xs where l: "l = (s, xs)" by fastforce
    note f = main_prints [of s xs "prints Qc (Exit 0)" E 1 k q]
    have "stage L n P Q (length Qc + 1) (kstep (main_pid, q) k)"
      using f reaped Cons l by (intro stage.reaped [where Qa = "Qa @ [l]" and E = E and x = x]) simp_all
    then show ?thesis using Cons by (force simp: progress_def)
  qed
qed (simp add: progress_def empty_kstep)

lemma stage_child: "stage L n P Q m k \<Longrightarrow> progress L n P Q m k (child_pid 0, q)"
proof (induction rule: stage.induct)
  case (start E k)
  then show ?case using family_idle [OF start(1)] by (simp add: progress_def)
next
  case (both Pb E k Lb La Pa)
  show ?case
  proof (cases Lb)
    case Nil
    note f = family_child_exit [OF both(1) _ both(2), of n q]
    have "stage L n P Q (length Pb + length Q + 2) (kstep (child_pid 0, q) k)"
      using f both Nil by (intro stage.zombie [where Pa = Pa and E = "E(0 := Some (Zombie main_pid (Exited n)))"]) (simp_all add: plain_post)
    then show ?thesis using Nil by (force simp: progress_def)
  next
    case (Cons l Lc)
    obtain s xs where l: "l = (s, xs)" by fastforce
    note f = kid_prints [OF both(1), of 0 s xs "prints Lc (Exit n)" q]
    have "stage L n P Q (length Lc + length Pb + length Q + 3) (kstep (child_pid 0, q) k)"
      using f both Cons l by (intro stage.both [where La = "La @ [l]" and Pa = Pa and E = "E(0 := Some (Run (kid (prints Lc (Exit n)))))"])
        (auto intro: shuffles_snoc)
    then show ?thesis using Cons by (force simp: progress_def)
  qed
next
  case (zombie Pb E k Pa)
  then show ?case using family_child_idle [OF zombie(1), of 0 q] by (simp add: progress_def)
next
  case (reaped Qb E k Qa x)
  then show ?case using family_child_idle [OF reaped(1), of 0 q] by (simp add: progress_def)
qed (simp add: progress_def empty_kstep)

lemma stage_family: "stage L n P Q m k \<Longrightarrow> (\<exists>r E c. family r E c k \<and> c \<le> 1) \<or> table k = Map.empty"
  by (induction rule: stage.induct) (auto intro: exI [of _ 0] exI [of _ 1])

lemma stage_step: "stage L n P Q m k \<Longrightarrow> progress L n P Q m k e"
proof -
  assume s: "stage L n P Q m k"
  obtain p q where e: "e = (p, q)" by fastforce
  show ?thesis
  proof (cases "p = main_pid \<or> p = child_pid 0")
    case True
    then show ?thesis using stage_main [OF s] stage_child [OF s] e by auto
  next
    case False
    have "p < main_pid \<or> child_pid c \<le> p" if "c \<le> 1" for c :: nat
      using that False by (auto simp: child_pid_def main_pid_def)
    then show ?thesis using stage_family [OF s] family_idle [of _ _ _ k p q] empty_kstep [of k e] e unfolding progress_def by metis
  qed
qed

lemma stage_run: "stage L n P Q m k \<Longrightarrow> \<exists>m'. stage L n P Q m' (krun sched k)"
proof (induction sched arbitrary: m k)
  case (Cons e sched)
  then show ?case using stage_step [OF Cons.prems, of e] by (auto simp: progress_def)
qed auto

lemma stage_moves: "stage L n P Q m k \<Longrightarrow> 0 < m \<Longrightarrow> \<exists>e. \<exists>m' < m. stage L n P Q m' (kstep e k)"
proof (induction rule: stage.induct)
  case (start E k)
  then show ?case using start_main [of L n P Q E k 0] by (intro exI [of _ "(main_pid, 0)"] exI [of _ "length L + length P + length Q + 3"]) simp
next
  case (both Pb E k Lb La Pa)
  have s: "stage L n P Q (length Lb + length Pb + length Q + 3) k" by (rule stage.both [OF both(1-5)])
  have t: "table k (child_pid 0) = E 0" using family_kids [OF both(1), of 0] by simp
  have "kstep (child_pid 0, 0) k \<noteq> k"
  proof (cases Lb)
    case Nil
    then have "kstep (child_pid 0, 0) k \<noteq> k"
      using family_child_exit [OF both(1) _ both(2), of n 0] family_kids [of _ "E(0 := Some (Zombie main_pid (Exited n)))" 1 k 0] t both(2) by fastforce
    then show ?thesis .
  next
    case (Cons l Lc)
    obtain s xs where l: "l = (s, xs)" by fastforce
    have "printed (kstep (child_pid 0, 0) k) \<noteq> printed k"
      using kid_prints(2) [OF both(1), of 0 s xs "prints Lc (Exit n)" 0] both(2) Cons l by simp
    then show ?thesis by metis
  qed
  then show ?case using stage_child [OF s, of 0] by (auto simp: progress_def)
next
  case (zombie Pb E k Pa)
  have s: "stage L n P Q (length Pb + length Q + 2) k" by (rule stage.zombie [OF zombie(1-4)])
  have t: "table k (child_pid 0) = E 0" using family_kids [OF zombie(1), of 0] by simp
  have "kstep (main_pid, child_pid 0) k \<noteq> k"
  proof (cases Pb)
    case Nil
    have "family (plain (prints Q (Exit 0))) (E(0 := None)) 1 (kstep (main_pid, child_pid 0) k)"
      using wait_reaps(1) [of "\<lambda>_. prints Q (Exit 0)" E k _ "child_pid 0", OF _ zombie(2) refl] zombie(1) Nil by simp
    then show ?thesis using family_kids [of _ "E(0 := None)" 1 _ 0] t zombie(2) by fastforce
  next
    case (Cons l Pc)
    obtain s xs where l: "l = (s, xs)" by fastforce
    have "printed (kstep (main_pid, child_pid 0) k) \<noteq> printed k"
      using main_prints(2) [of s xs "prints Pc (Wait (\<lambda>_. prints Q (Exit 0)))" E 1 k "child_pid 0"] zombie(1) Cons l by simp
    then show ?thesis by metis
  qed
  then show ?case using stage_main [OF s, of "child_pid 0"] unfolding progress_def by blast
next
  case (reaped Qb E k Qa x)
  have s: "stage L n P Q (length Qb + 1) k" by (rule stage.reaped [OF reaped(1-5)])
  have "kstep (main_pid, 0) k \<noteq> k"
  proof (cases Qb)
    case Nil
    then have "table (kstep (main_pid, 0) k) = Map.empty" using family_exit(1) [of "plain (Exit 0)" E 1 k 0 0] reaped(1,2) by simp
    moreover have "table k main_pid \<noteq> None" using reaped(1) by (simp add: family_def)
    ultimately show ?thesis by fastforce
  next
    case (Cons l Qc)
    obtain s xs where l: "l = (s, xs)" by fastforce
    have "printed (kstep (main_pid, 0) k) \<noteq> printed k"
      using main_prints(2) [of s xs "prints Qc (Exit 0)" E 1 k 0] reaped(1) Cons l by simp
    then show ?thesis by metis
  qed
  then show ?case using stage_main [OF s, of 0] unfolding progress_def by blast
qed simp

lemma stage_finish: "stage L n P Q m k \<Longrightarrow> \<exists>rest. stage L n P Q 0 (krun rest k)"
proof (induction m arbitrary: k rule: less_induct)
  case (less m)
  show ?case
  proof (cases "m = 0")
    case True
    then show ?thesis using less.prems by (intro exI [of _ "[]"]) simp
  next
    case False
    then obtain e m' where "m' < m" "stage L n P Q m' (kstep e k)" using stage_moves [OF less.prems] by blast
    then show ?thesis using less.IH by (metis krun_simps(2))
  qed
qed

text \<open>Lines that may have appeared: a part of both outputs, or all of them and a part of \<open>Q\<close>.\<close>

definition waits_output :: "out_lines \<Rightarrow> out_lines \<Rightarrow> out_lines \<Rightarrow> out_lines \<Rightarrow> bool" where
  "waits_output L P Q out \<longleftrightarrow> (\<exists>La Pa. prefix La L \<and> prefix Pa P \<and> out \<in> shuffles La Pa) \<or> (\<exists>x \<in> shuffles L P. \<exists>Qa. prefix Qa Q \<and> out = x @ Qa)"

lemma waits_output_part: "out \<in> shuffles La Pa \<Longrightarrow> waits_output (La @ Lb) (Pa @ Pb) Q out"
  unfolding waits_output_def by (metis prefixI)

lemma waits_output_all: "x \<in> shuffles L P \<Longrightarrow> waits_output L P (Qa @ Qb) (x @ Qa)"
  unfolding waits_output_def by (metis prefixI)

lemma stage_printed: "stage L n P Q m k \<Longrightarrow> waits_output L P Q (printed k)"
proof (induction rule: stage.induct)
  case (start E k)
  then show ?case using waits_output_part [of "[]" "[]" "[]" L P Q] by simp
next
  case (both Pb E k Lb La Pa)
  then show ?case using waits_output_part by simp
next
  case (zombie Pb E k Pa)
  then show ?case using waits_output_part [of "printed k" L Pa "[]"] by simp
next
  case (reaped Qb E k Qa x)
  then show ?case using waits_output_all by simp
next
  case (over k x)
  then show ?case using waits_output_all [of x L P Q "[]"] by simp
qed

lemma stage_ended: "stage L n P Q m k \<Longrightarrow> all_ended k \<longleftrightarrow> m = 0"
proof (induction rule: stage.induct)
  case (over k x)
  then show ?case by (simp add: all_ended_def list_all_iff)
qed (auto simp: all_ended_def list_all_iff family_def dest!: bspec [of _ _ main_pid])

lemma stage_over: "stage L n P Q 0 k \<Longrightarrow> \<exists>x \<in> shuffles L P. printed k = x @ Q"
  by (auto elim: stage.cases)

lemma waits_run:
  "let k = krun sched (boot (waits L n P Q)) in waits_output L P Q (printed k)
     \<and> (all_ended k \<longrightarrow> (\<exists>x \<in> shuffles L P. printed k = x @ Q)) \<and> (\<exists>rest. all_ended (krun rest k))"
proof -
  have "stage L n P Q (length L + length P + length Q + 4) (boot (waits L n P Q))"
    by (rule stage.start [where E = "\<lambda>_. None"]) (simp_all add: plain_def boot_def family_def child_pid_def)
  then obtain m where m: "stage L n P Q m (krun sched (boot (waits L n P Q)))" using stage_run by blast
  obtain rest where "stage L n P Q 0 (krun rest (krun sched (boot (waits L n P Q))))" using stage_finish [OF m] by blast
  then have "\<exists>rest. all_ended (krun rest (krun sched (boot (waits L n P Q))))" using stage_ended by blast
  moreover have "all_ended (krun sched (boot (waits L n P Q))) \<Longrightarrow> \<exists>x \<in> shuffles L P. printed (krun sched (boot (waits L n P Q))) = x @ Q"
    using m stage_ended [OF m] stage_over by blast
  ultimately show ?thesis using stage_printed [OF m] unfolding Let_def by blast
qed

section \<open>The programs\<close>

definition child_lines :: "(out_lines \<times> int) option \<Rightarrow> out_lines" where
  "child_lines program = (case program of Some (L, _) \<Rightarrow> L | None \<Rightarrow> [(''Child: Should never get here!'', [])])"

lemma exec_child_prints: "\<exists>n. exec_child program = prints (child_lines program) (Exit n)"
  by (cases program) (auto simp: exec_child_def child_lines_def)

lemma exec0_waits: "\<exists>n. exec0 execl (Exit 0) = waits (child_lines (execl ''/bin/ls'' [''ls'', ''-F''])) n [] [(''Command completed'', [])]"
  using exec_child_prints [of "execl ''/bin/ls'' [''ls'', ''-F'']"] by (auto simp: exec0_def waits_def cong: if_cong)

lemma exec1_waits: "\<exists>n. exec1 execve environ (Exit 0) = waits (child_lines (execve ''/bin/ls'' [''/bin/ls'', ''-F''] environ)) n [] [(''Command completed'', [])]"
  using exec_child_prints [of "execve ''/bin/ls'' [''/bin/ls'', ''-F''] environ"] by (auto simp: exec1_def waits_def Let_def cong: if_cong)

lemma fork9_waits: "fork9 (Exit 0) = waits [(''HC: hello from child'', [])] 0 [(''HP: hello from parent'', [])] [(''CT: child has terminated'', []), (''Bye'', [])]"
  by (simp add: fork9_def waits_def cong: if_cong)

text \<open>
  C19 (waiting for a child).  Both options of \<open>execs\<close>, in every interleaving of parent and child, whatever program runs in the
  child and whether or not \<open>execl\<close> and \<open>execve\<close> succeed: at any time the output is a part of what the child prints, or all of
  it and perhaps the line of the parent; at the end it is all of the output of the child and then the line of the parent; and the
  program can always end.
\<close>

theorem execs_wait:
  "let L = child_lines (if arg = Some 1 then execve ''/bin/ls'' [''/bin/ls'', ''-F''] environ else execl ''/bin/ls'' [''ls'', ''-F'']);
       k = krun sched (boot (execs_main execl execve environ arg)) in
   arg \<in> {None, Some 0, Some 1} \<longrightarrow>
     (prefix (printed k) L \<or> printed k = L @ [(''Command completed'', [])])
     \<and> (all_ended k \<longrightarrow> printed k = L @ [(''Command completed'', [])]) \<and> (\<exists>rest. all_ended (krun rest k))"
proof -
  have w: "(prefix (printed k) L \<or> printed k = L @ [l]) \<and> (all_ended k \<longrightarrow> printed k = L @ [l]) \<and> (\<exists>rest. all_ended (krun rest k))"
    if "k = krun sched (boot (waits L n [] [l]))" for k L n l
    using waits_run [of sched L n "[]" "[l]"] unfolding that [symmetric] Let_def waits_output_def by (auto simp: prefix_Cons)
  obtain n0 n1 where "exec0 execl (Exit 0) = waits (child_lines (execl ''/bin/ls'' [''ls'', ''-F''])) n0 [] [(''Command completed'', [])]"
    "exec1 execve environ (Exit 0) = waits (child_lines (execve ''/bin/ls'' [''/bin/ls'', ''-F''] environ)) n1 [] [(''Command completed'', [])]"
    using exec0_waits exec1_waits by metis
  then show ?thesis using w [OF refl] unfolding Let_def by (auto simp: execs_main_def)
qed

theorem execs_wait_witness:
  "\<exists>rest. all_ended (krun rest (boot (execs_main (\<lambda>_ _. Some ([(''src/'', [])], 0)) (\<lambda>_ _ _. None) [] None)))
     \<and> printed (krun rest (boot (execs_main (\<lambda>_ _. Some ([(''src/'', [])], 0)) (\<lambda>_ _ _. None) [] None))) = [(''src/'', []), (''Command completed'', [])]"
proof -
  let ?k = "boot (execs_main (\<lambda>_ _. Some ([(''src/'', [])], 0)) (\<lambda>_ _ _. None) [] None)"
  obtain rest where r: "all_ended (krun rest ?k)"
    using execs_wait [of None "\<lambda>_ _ _. None" "[]" "\<lambda>_ _. Some ([(''src/'', [])], 0)" "[]"] by (auto simp: Let_def)
  then show ?thesis
    using execs_wait [of None "\<lambda>_ _ _. None" "[]" "\<lambda>_ _. Some ([(''src/'', [])], 0)" rest] by (auto simp: Let_def child_lines_def)
qed

text \<open>\<open>fork9\<close>: the lines of parent and child come in either order, and the line \<open>CT\<close> after both.\<close>

lemma fork9_prints:
  "let k = krun sched (boot (fork9 (Exit 0))) in all_ended k \<longrightarrow>
     printed k \<in> {[(''HC: hello from child'', []), (''HP: hello from parent'', []), (''CT: child has terminated'', []), (''Bye'', [])],
       [(''HP: hello from parent'', []), (''HC: hello from child'', []), (''CT: child has terminated'', []), (''Bye'', [])]}"
  "\<exists>rest. all_ended (krun rest (krun sched (boot (fork9 (Exit 0)))))"
  using waits_run [of sched "[(''HC: hello from child'', [])]" 0 "[(''HP: hello from parent'', [])]" "[(''CT: child has terminated'', []), (''Bye'', [])]"]
  unfolding fork9_waits [symmetric] Let_def by auto

end
