(* ===== verification/Sharing.thy ===== *)
theory Sharing
  imports Interleaving
begin

text \<open>
  \<open>24-sync-basic/sharing.c\<close>: two threads print a message each and increment the static variable \<open>cnt\<close> without a lock.  Thread 0
  is the main thread, thread \<open>k + 1\<close> the one that is created with the argument \<open>k\<close>.  The load and the store
  of \<open>++cnt\<close> are separate actions.  \<open>Pthread_create\<close> succeeds, and the array \<open>msgs\<close>, which is in the stack frame of \<open>main\<close>, is
  still there when the threads read it.
\<close>

section \<open>Definitions\<close>

definition msgs :: "string list" where
  "msgs = [''Hello from foo'', ''Hello from bar'']"

record sharing_state =
  cnt :: int
  made :: nat
  outputs :: "(nat \<times> string \<times> int) list"

datatype sharing_pc = Making nat | Gone | Starts | HasRead int | HasStored int | Printed int

definition sharing_main :: "sharing_pc \<Rightarrow> sharing_state \<Rightarrow> (sharing_pc \<times> sharing_state) option" where
  "sharing_main c g = (case c of
     Making i \<Rightarrow> Some (if i < 2 then (Making (i + 1), g\<lparr>made := i + 1\<rparr>) else (Gone, g))
   | _ \<Rightarrow> None)"

definition sharing_thread :: "nat \<Rightarrow> sharing_pc \<Rightarrow> sharing_state \<Rightarrow> (sharing_pc \<times> sharing_state) option" where
  "sharing_thread myid c g = (case c of
     Starts \<Rightarrow> if myid < made g then Some (HasRead (cnt g), g) else None
   | HasRead v \<Rightarrow> Some (HasStored (v + 1), g\<lparr>cnt := v + 1\<rparr>)
   | HasStored v \<Rightarrow> Some (Printed v, g\<lparr>outputs := outputs g @ [(myid, msgs ! myid, v)]\<rparr>)
   | _ \<Rightarrow> None)"

definition sharing_act :: "nat \<Rightarrow> sharing_pc \<Rightarrow> sharing_state \<Rightarrow> (sharing_pc \<times> sharing_state) option" where
  "sharing_act t = (if t = 0 then sharing_main else sharing_thread (t - 1))"

definition sharing_start :: "(sharing_state, sharing_pc) threads" where
  "sharing_start = (\<lparr>cnt = 0, made = 0, outputs = []\<rparr>, [Making 0, Starts, Starts])"

section \<open>Invariant\<close>

fun before :: "sharing_pc \<Rightarrow> bool" where
  "before Starts = True" | "before (HasRead v) = (v = 0)" | "before _ = False"

fun stored :: "sharing_pc \<Rightarrow> int option" where
  "stored (HasStored v) = Some v" | "stored (Printed v) = Some v" | "stored _ = None"

fun can_read :: "int \<Rightarrow> sharing_pc \<Rightarrow> bool" where
  "can_read m Starts = True" | "can_read m (HasRead v) = (v \<in> {0, m})" | "can_read m _ = False"

definition counts_ok :: "int \<Rightarrow> sharing_pc \<Rightarrow> sharing_pc \<Rightarrow> bool" where
  "counts_ok n p q \<longleftrightarrow> (case (stored p, stored q) of
     (None, None) \<Rightarrow> n = 0 \<and> before p \<and> before q
   | (Some v, None) \<Rightarrow> n = 1 \<and> v = 1 \<and> can_read 1 q
   | (None, Some w) \<Rightarrow> n = 1 \<and> w = 1 \<and> can_read 1 p
   | (Some v, Some w) \<Rightarrow> (v, w) \<in> {(1, 1), (1, 2), (2, 1)})"

fun line_of_thread :: "nat \<Rightarrow> sharing_pc \<Rightarrow> (nat \<times> string \<times> int) list" where
  "line_of_thread k (Printed v) = [(k, msgs ! k, v)]" | "line_of_thread k _ = []"

fun sharing_inv :: "sharing_state \<Rightarrow> sharing_pc list \<Rightarrow> bool" where
  "sharing_inv g [m, p, q] \<longleftrightarrow> counts_ok (cnt g) p q \<and> mset (outputs g) = mset (line_of_thread 0 p @ line_of_thread 1 q)
     \<and> m \<in> {Making (made g), Gone} \<and> (m = Gone \<longrightarrow> made g = 2) \<and> made g \<le> 2"
| "sharing_inv g _ \<longleftrightarrow> False"

lemma sharing_invE:
  assumes "sharing_inv g ls"
  obtains m p q where "ls = [m, p, q]"
  using assms by (cases rule: sharing_inv.cases [of "(g, ls)"]) auto

interpretation sharing: kept sharing_act sharing_inv
proof
  fix g ls t l g1
  assume i: "sharing_inv g ls" and t: "t < length ls" and a: "sharing_act t (ls ! t) g = Some (l, g1)"
  obtain m p q where ls: "ls = [m, p, q]" by (rule sharing_invE [OF i])
  with t consider "t = 0" | "t = 1" | "t = 2" by (auto simp: less_Suc_eq)
  then show "sharing_inv g1 (ls[t := l])"
  proof cases
    case 1
    then show ?thesis using i a ls by (cases m) (auto simp: sharing_act_def sharing_main_def split: if_splits)
  next
    case 2
    then have "sharing_thread 0 p g = Some (l, g1)" using a ls by (simp add: sharing_act_def)
    then show ?thesis using i 2 ls by (cases p; cases q) (auto simp: sharing_thread_def counts_ok_def split: if_splits)
  next
    case 3
    then have "sharing_thread 1 q g = Some (l, g1)" using a ls by (simp add: sharing_act_def)
    then show ?thesis using i 3 ls by (cases p; cases q) (auto simp: sharing_thread_def counts_ok_def numeral_2_eq_2 split: if_splits)
  qed
qed

definition all_gone :: "sharing_pc list \<Rightarrow> bool" where
  "all_gone ls \<longleftrightarrow> (\<forall>l \<in> set ls. l = Gone \<or> (\<exists>v. l = Printed v))"

lemma sharing_moves:
  assumes "sharing_inv g ls" "\<not> all_gone ls"
  shows "\<exists>t < 3. sharing_act t (ls ! t) g \<noteq> None"
proof -
  obtain m p q where ls: "ls = [m, p, q]" by (rule sharing_invE [OF assms(1)])
  show ?thesis
  proof (cases m)
    case (Making i)
    then show ?thesis using ls by (intro exI [of _ 0]) (simp add: sharing_act_def sharing_main_def)
  next
    case Gone
    then have m: "made g = 2" using assms(1) ls by simp
    have r: "sharing_thread k r g \<noteq> None" if "k < 2" "counts_ok (cnt g) r r' \<or> counts_ok (cnt g) r' r" "\<nexists>v. r = Printed v" for k r r'
      using that m by (cases r) (auto simp: sharing_thread_def counts_ok_def split: option.splits)
    have c: "counts_ok (cnt g) p q" using assms(1) ls by simp
    show ?thesis
    proof (cases "\<exists>v. p = Printed v")
      case True
      then have "\<nexists>v. q = Printed v" using assms(2) ls Gone by (auto simp: all_gone_def)
      then show ?thesis using r [of 1 q p] c ls by (intro exI [of _ 2]) (auto simp: sharing_act_def numeral_2_eq_2)
    next
      case False
      then show ?thesis using r [of 0 p q] c ls by (intro exI [of _ 1]) (auto simp: sharing_act_def)
    qed
  qed (use assms(1) ls in auto)
qed

text \<open>
  The lines of \<open>sharing.c\<close>.  In every interleaving each thread prints its own message at most once; the numbers of the
  complete output are 1 and 2, in either order, or 1 twice, when an increment is lost; and as long as the
  output is not complete a thread can move.
\<close>

theorem sharing_prints:
  "let (g, ls) = run_threads sharing_act sched sharing_start in
    mset (outputs g) = mset (line_of_thread 0 (ls ! 1) @ line_of_thread 1 (ls ! 2))
    \<and> (all_gone ls \<longrightarrow> mset (outputs g) \<in> {{#(0, msgs ! 0, v), (1, msgs ! 1, w)#} |v w. (v, w) \<in> {(1, 1), (1, 2), (2, 1)}})
    \<and> (\<not> all_gone ls \<longrightarrow> (\<exists>t < 3. sharing_act t (ls ! t) g \<noteq> None))"
proof -
  obtain g ls where s: "run_threads sharing_act sched sharing_start = (g, ls)" by fastforce
  have i: "sharing_inv g ls" using sharing.run_keeps [of sharing_start sched] s by (simp add: sharing_start_def counts_ok_def)
  obtain m p q where ls: "ls = [m, p, q]" by (rule sharing_invE [OF i])
  have o: "mset (outputs g) = mset (line_of_thread 0 p @ line_of_thread 1 q)" and c: "counts_ok (cnt g) p q" using i ls by simp_all
  have "all_gone ls \<Longrightarrow> mset (outputs g) \<in> {{#(0, msgs ! 0, v), (1, msgs ! 1, w)#} |v w. (v, w) \<in> {(1, 1), (1, 2), (2, 1)}}"
    using o c by (cases p; cases q) (auto simp: counts_ok_def all_gone_def ls)
  then show ?thesis using o sharing_moves [OF i] by (simp add: s ls numeral_2_eq_2)
qed

text \<open>Both outcomes occur: thread after thread, and with both loads before the first store.\<close>

lemma sharing_outcomes:
  "map (snd \<circ> snd) (outputs (fst (run_threads sharing_act [0, 0, 0, 1, 1, 1, 2, 2, 2] sharing_start))) = [1, 2]"
  "map (snd \<circ> snd) (outputs (fst (run_threads sharing_act [0, 0, 0, 1, 2, 1, 2, 1, 2] sharing_start))) = [1, 1]"
  by (simp_all add: sharing_start_def move_def sharing_act_def sharing_main_def sharing_thread_def numeral_2_eq_2)

end
