(* ===== verification/Showbytes.thy ===== *)
theory Showbytes
  imports Prelude Complex_Main
begin

text \<open>
  \<open>02-03-bits-ints/show-bytes.c\<close>: the bytes of objects in memory.  An object is the list of its bytes in the order of their
  addresses, which is the little-endian order of the machine; the conversion of an \<open>int\<close> to a
  \<open>float\<close> yields the 32 bits of the nearest number of the IEEE format, the even one of two
  that are equally near.  The addresses of the variables are arguments.
\<close>

section \<open>Representation\<close>

text \<open>The \<open>n\<close> bytes of a number, the least significant byte first, and the number of a list of bytes.\<close>

definition bytes_of :: "nat \<Rightarrow> int \<Rightarrow> byte list" where
  "bytes_of n v = map (\<lambda>i. word_of_int (v div 2 ^ (8 * i))) [0..<n]"

fun number_of :: "byte list \<Rightarrow> int" where
  "number_of [] = 0"
| "number_of (b # bs) = uint b + 256 * number_of bs"

fun bit_length :: "nat \<Rightarrow> nat" where
  "bit_length m = (if m = 0 then 0 else Suc (bit_length (m div 2)))"

declare bit_length.simps [simp del]

text \<open>The significand of 24 bits, rounded, for a number of more than 24 bits.\<close>

definition round_to_even :: "nat \<Rightarrow> nat \<Rightarrow> nat" where
  "round_to_even m k = (let q = m div 2 ^ k; r = m mod 2 ^ k; half = 2 ^ (k - 1) in
     if half < r \<or> r = half \<and> odd q then q + 1 else q)"

definition float_significand :: "nat \<Rightarrow> nat \<times> nat" where
  "float_significand m = (let e = bit_length m - 1 in
     if e \<le> 23 then (m * 2 ^ (23 - e), e)
     else let q = round_to_even m (e - 23) in if q = 2 ^ 24 then (2 ^ 23, e + 1) else (q, e))"

text \<open>Sign, biased exponent and fraction.\<close>

definition float_of_int :: "int \<Rightarrow> 32 word" where
  "float_of_int x = (if x = 0 then 0 else let (q, e) = float_significand (nat \<bar>x\<bar>) in
     word_of_int ((if x < 0 then 2 ^ 31 else 0) + int (e + 127) * 2 ^ 23 + int (q - 2 ^ 23)))"

text \<open>The number that 32 bits stand for; infinities and the like do not occur here.\<close>

definition float_value :: "32 word \<Rightarrow> real" where
  "float_value w = (let u = uint w; s = u div 2 ^ 31; b = u div 2 ^ 23 mod 2 ^ 8; f = u mod 2 ^ 23 in
     (if s = 0 then 1 else - 1) * (if b = 0 then real_of_int f * 2 powr (- 149) else real_of_int (2 ^ 23 + f) * 2 powr (real_of_int b - 150)))"

section \<open>The program\<close>

datatype line = ByteLine int byte | EmptyLine | TextLine string "int list"

text \<open>An access beyond the object is \<open>None\<close>.\<close>

definition show_bytes :: "int \<Rightarrow> byte list \<Rightarrow> nat \<Rightarrow> line list option" where
  "show_bytes start object len = (case those (map (\<lambda>i. map_option (ByteLine (start + int i)) (rd object (int i))) [0..<len]) of
     None \<Rightarrow> None | Some ls \<Rightarrow> Some (ls @ [EmptyLine]))"

definition show_int :: "int \<Rightarrow> 32 word \<Rightarrow> line list option" where
  "show_int a x = show_bytes a (bytes_of 4 (uint x)) 4"

definition show_float :: "int \<Rightarrow> 32 word \<Rightarrow> line list option" where
  "show_float a bits = show_bytes a (bytes_of 4 (uint bits)) 4"

definition show_pointer :: "int \<Rightarrow> 64 word \<Rightarrow> line list option" where
  "show_pointer a p = show_bytes a (bytes_of 8 (uint p)) 8"

definition followed_by :: "line list option \<Rightarrow> line list option \<Rightarrow> line list option" where
  "followed_by x y = (case x of None \<Rightarrow> None | Some a \<Rightarrow> (case y of None \<Rightarrow> None | Some b \<Rightarrow> Some (a @ b)))"

abbreviation put_line :: "string \<Rightarrow> int list \<Rightarrow> line list option" where
  "put_line s xs \<equiv> Some [TextLine s xs]"

text \<open>\<open>adr\<close> has the addresses of the local variables and parameters by their names.\<close>

definition test_show_bytes :: "(string \<Rightarrow> int) \<Rightarrow> 32 word \<Rightarrow> line list option" where
  "test_show_bytes adr val = foldr followed_by
     [put_line ''Stack variable ival = %d'' [sint val], put_line ''(int)ival:'' [], show_int (adr ''x'') val,
      put_line ''(float)ival:'' [], show_float (adr ''x'') (float_of_int (sint val)),
      put_line ''&ival:'' [], show_pointer (adr ''x'') (word_of_int (adr ''ival''))] (Some [])"

definition simple_show :: "int \<Rightarrow> 32 word \<Rightarrow> line list option" where
  "simple_show a val = foldr followed_by [show_bytes a (bytes_of 4 (uint val)) 1, show_bytes a (bytes_of 4 (uint val)) 2,
     show_bytes a (bytes_of 4 (uint val)) 3] (Some [])"

definition simple_show_a :: "(string \<Rightarrow> int) \<Rightarrow> line list option" where
  "simple_show_a adr = simple_show (adr ''val'') 0x87654321"

definition simple_show_b :: "(string \<Rightarrow> int) \<Rightarrow> line list option" where
  "simple_show_b adr = simple_show (adr ''val'') 0x12345678"

definition float_eg :: "(string \<Rightarrow> int) \<Rightarrow> line list option" where
  "float_eg adr = foldr followed_by
     [put_line ''For x = %d'' [3490593], show_int (adr ''x'') 3490593, show_float (adr ''x'') (float_of_int 3490593),
      put_line ''For x = %d'' [3510593], show_int (adr ''x'') 3510593, show_float (adr ''x'') (float_of_int 3510593)] (Some [])"

text \<open>A string literal occupies one byte more than its length.\<close>

definition show_string :: "int \<Rightarrow> string \<Rightarrow> line list option" where
  "show_string a s = show_bytes a (map (\<lambda>c. of_nat (of_char c)) s @ [0]) (length s)"

definition string_ueg :: "(string \<Rightarrow> int) \<Rightarrow> line list option" where
  "string_ueg adr = show_string (adr ''ABCDEF'') ''ABCDEF''"

definition string_leg :: "(string \<Rightarrow> int) \<Rightarrow> line list option" where
  "string_leg adr = show_string (adr ''abcdef'') ''abcdef''"

definition show_twocomp :: "(string \<Rightarrow> int) \<Rightarrow> line list option" where
  "show_twocomp adr = (let x = 12345 :: 16 word; mx = - x in
     followed_by (show_bytes (adr ''x'') (bytes_of 2 (uint x)) 2) (show_bytes (adr ''mx'') (bytes_of 2 (uint mx)) 2))"

text \<open>\<open>strtol\<close> delivers a \<open>long\<close>, of which \<open>val\<close> gets the lower half.\<close>

definition show_bytes_main :: "(string \<Rightarrow> int) \<Rightarrow> 64 word option \<Rightarrow> line list option" where
  "show_bytes_main adr arg = (case arg of
     Some l \<Rightarrow> followed_by (put_line ''calling test_show_bytes'' []) (test_show_bytes adr (ucast l))
   | None \<Rightarrow> foldr followed_by [put_line ''calling show_twocomp'' [], show_twocomp adr, put_line ''Calling simple_show_a'' [], simple_show_a adr,
       put_line ''Calling simple_show_b'' [], simple_show_b adr, put_line ''Calling float_eg'' [], float_eg adr,
       put_line ''Calling string_ueg'' [], string_ueg adr, put_line ''Calling string_leg'' [], string_leg adr] (Some []))"

section \<open>Bytes\<close>

lemma bytes_of_Suc: "bytes_of (Suc n) v = word_of_int v # bytes_of n (v div 256)"
proof -
  have "v div 2 ^ (8 * Suc i) = v div 256 div 2 ^ (8 * i)" for i
    by (simp add: power_add zdiv_zmult2_eq)
  then show ?thesis unfolding bytes_of_def upt_conv_Cons [OF zero_less_Suc] map_upt_Suc
    by (simp add: map_Suc_upt [symmetric] del: upt_Suc)
qed

lemma number_of_bytes: "number_of (bytes_of n v) = v mod 2 ^ (8 * n)"
proof (induction n arbitrary: v)
  case 0
  then show ?case by (simp add: bytes_of_def)
next
  case (Suc n)
  have "v mod (256 * 2 ^ (8 * n)) = 256 * (v div 256 mod 2 ^ (8 * n)) + v mod 256" by (rule zmod_zmult2_eq) simp
  then show ?case by (simp add: bytes_of_Suc Suc power_add unsigned_of_int take_bit_eq_mod)
qed

lemma length_bytes_of [simp]: "length (bytes_of n v) = n"
  by (simp add: bytes_of_def)

lemma those_None: "x \<in> set xs \<Longrightarrow> f x = None \<Longrightarrow> those (map f xs) = None"
  by (induction xs) (auto split: option.splits)

lemma those_all: "(\<And>x. x \<in> set xs \<Longrightarrow> f x = Some (g x)) \<Longrightarrow> those (map f xs) = Some (map g xs)"
  by (induction xs) auto

text \<open>The bytes are shown in the order of their addresses if they are all part of the object.\<close>

lemma show_bytes_spec:
  "show_bytes a obj len = (if len \<le> length obj then Some (map (\<lambda>i. ByteLine (a + int i) (obj ! i)) [0..<len] @ [EmptyLine]) else None)"
proof (cases "len \<le> length obj")
  case True
  then have "those (map (\<lambda>i. map_option (ByteLine (a + int i)) (rd obj (int i))) [0..<len]) = Some (map (\<lambda>i. ByteLine (a + int i) (obj ! i)) [0..<len])"
    by (intro those_all) (simp add: mem_simps)
  then show ?thesis using True by (simp add: show_bytes_def)
next
  case False
  then have "those (map (\<lambda>i. map_option (ByteLine (a + int i)) (rd obj (int i))) [0..<len]) = None"
    by (intro those_None [of "length obj"]) (auto simp: rd_def)
  then show ?thesis using False by (simp add: show_bytes_def)
qed

fun shown :: "line list \<Rightarrow> byte list" where
  "shown [] = []"
| "shown (ByteLine a b # ls) = b # shown ls"
| "shown (_ # ls) = shown ls"

lemma shown_bytes: "shown (map (\<lambda>i. ByteLine (f i) (g i)) is @ [EmptyLine]) = map g is"
  by (induction "is") auto

lemma show_object:
  assumes "v < 2 ^ (8 * n)" "0 \<le> v"
  shows "\<exists>ls. show_bytes a (bytes_of n v) n = Some ls \<and> number_of (shown ls) = v
    \<and> ls = map (\<lambda>i. ByteLine (a + int i) (bytes_of n v ! i)) [0..<n] @ [EmptyLine]"
proof -
  have "map ((!) (bytes_of n v)) [0..<n] = bytes_of n v" using map_nth [of "bytes_of n v"] by simp
  then show ?thesis using assms number_of_bytes [of n v] by (simp add: show_bytes_spec shown_bytes)
qed

section \<open>Conversion to float\<close>

lemma bit_length_bounds: "0 < m \<Longrightarrow> 0 < bit_length m \<and> 2 ^ (bit_length m - 1) \<le> m \<and> m < 2 ^ bit_length m"
proof (induction m rule: bit_length.induct)
  case (1 m)
  have s: "bit_length m = Suc (bit_length (m div 2))" using 1(2) by (subst bit_length.simps) simp
  show ?case
  proof (cases "m div 2 = 0")
    case True
    then have "m = 1" using 1(2) by simp
    then show ?thesis by (simp add: bit_length.simps)
  next
    case False
    define k where "k = bit_length (m div 2)"
    have k: "0 < k" "2 ^ (k - 1) \<le> m div 2" "m div 2 < 2 ^ k" using 1(1) 1(2) False by (simp_all add: k_def)
    have "2 * 2 ^ (k - 1) = (2 :: nat) ^ k" using k(1) by (metis Suc_diff_1 power_Suc)
    then have "2 ^ k \<le> m" "m < 2 * 2 ^ k" using k(2,3) by linarith+
    then show ?thesis by (simp add: s k_def)
  qed
qed

text \<open>Rounding changes a number by at most half of the unit.\<close>

lemma round_to_even_near:
  assumes "0 < k"
  shows "\<bar>int (round_to_even m k) * 2 ^ k - int m\<bar> \<le> 2 ^ (k - 1)" "m div 2 ^ k \<le> round_to_even m k" "round_to_even m k \<le> Suc (m div 2 ^ k)"
proof -
  define q r where "q = m div 2 ^ k" and "r = m mod 2 ^ k"
  have m: "m = q * 2 ^ k + r" "r < 2 ^ k" unfolding q_def r_def by (simp_all only: div_mult_mod_eq mod_less_divisor zero_less_power zero_less_numeral)
  have two: "(2 :: nat) ^ k = 2 * 2 ^ (k - 1)" using assms by (metis Suc_diff_1 power_Suc)
  have im: "int m = int q * 2 ^ k + int r" using m(1) by simp
  have "int (round_to_even m k) = (if 2 ^ (k - 1) < r \<or> r = 2 ^ (k - 1) \<and> odd q then int q + 1 else int q)"
    by (simp add: round_to_even_def Let_def q_def r_def)
  moreover have "(2 :: int) ^ k = 2 * 2 ^ (k - 1)" using assms by (metis Suc_diff_1 power_Suc)
  moreover have "int r < 2 ^ k" using m(2) by (metis of_nat_less_iff of_nat_numeral of_nat_power)
  moreover have "2 ^ (k - 1) < r \<longleftrightarrow> 2 ^ (k - 1) < int r" "r = 2 ^ (k - 1) \<longleftrightarrow> int r = 2 ^ (k - 1)"
    by (metis of_nat_less_iff of_nat_numeral of_nat_power) (metis of_nat_eq_iff of_nat_numeral of_nat_power)
  ultimately show "\<bar>int (round_to_even m k) * 2 ^ k - int m\<bar> \<le> 2 ^ (k - 1)" unfolding im
    by (auto simp: algebra_simps abs_le_iff)
  show "m div 2 ^ k \<le> round_to_even m k" "round_to_even m k \<le> Suc (m div 2 ^ k)" by (simp_all add: round_to_even_def Let_def)
qed

text \<open>The significand has 24 bits, and times its unit it is the number, up to half of the unit.\<close>

lemma float_significand_near:
  assumes "0 < m" "m \<le> 2 ^ 31" "float_significand m = (q, e)"
  shows "2 ^ 23 \<le> q \<and> q < 2 ^ 24 \<and> e \<le> 31
    \<and> (if m < 2 ^ 24 then real q * 2 powr (real e - 23) = real m else \<bar>real q * 2 powr (real e - 23) - real m\<bar> \<le> 2 ^ (bit_length m - 1) / 2 ^ 24)"
proof -
  define b where "b = bit_length m - 1"
  have b: "2 ^ b \<le> m" "m < 2 * 2 ^ b" "bit_length m = Suc b" using bit_length_bounds [OF assms(1)] by (auto simp: b_def Suc_diff_1 simp flip: power_Suc)
  have "(2 :: nat) ^ b \<le> 2 ^ 31" using b(1) assms(2) by linarith
  then have b31: "b \<le> 31" by (rule power_le_imp_le_exp [rotated]) simp
  show ?thesis
  proof (cases "b \<le> 23")
    case True
    then have qe: "q = m * 2 ^ (23 - b)" "e = b" using assms(3) by (auto simp: float_significand_def b_def Let_def)
    have p: "(2 :: nat) ^ b * 2 ^ (23 - b) = 2 ^ 23" using True by (simp flip: power_add)
    have "2 ^ b * 2 ^ (23 - b) \<le> q" "q < 2 * 2 ^ b * 2 ^ (23 - b)" using b(1,2) unfolding qe by (auto intro: mult_right_mono mult_strict_right_mono)
    then have q: "2 ^ 23 \<le> q" "q < 2 ^ 24" using p by (simp_all add: mult.assoc)
    have "(2 :: nat) ^ b \<le> 2 ^ 23" using True by (intro power_increasing) auto
    then have "m < 2 ^ 24" using b(2) by simp
    moreover have "real q = real m * 2 powr real (23 - b)" unfolding powr_realpow [OF zero_less_numeral] by (simp add: qe)
    then have "real q * 2 powr (real e - 23) = real m * (2 powr real (23 - b) * 2 powr (real b - 23))" by (simp only: qe(2) mult.assoc)
    moreover have "2 powr real (23 - b) * 2 powr (real b - 23) = (1 :: real)" using True by (simp add: of_nat_diff flip: powr_add)
    ultimately have "m < 2 ^ 24" "real q * 2 powr (real e - 23) = real m" by (simp_all only: mult_1_right)
    then show ?thesis using q qe(2) True by simp
  next
    case False
    define k where "k = b - 23"
    have k: "0 < k" "b = k + 23" using False by (simp_all add: k_def)
    define r where "r = round_to_even m k"
    note near = round_to_even_near [OF k(1), of m, folded r_def]
    have "2 ^ 23 \<le> m div 2 ^ k" using b(1) k(2) by (simp add: less_eq_div_iff_mult_less_eq power_add mult.commute)
    moreover have "m div 2 ^ k < 2 ^ 24" using b(2) k(2) by (intro less_mult_imp_div_less) (simp add: power_add)
    ultimately have r: "2 ^ 23 \<le> r" "r \<le> 2 ^ 24" using near(2,3) by linarith+
    have qe: "(q, e) = (if r = 2 ^ 24 then (2 ^ 23, b + 1) else (r, b))"
      using assms(3) False unfolding float_significand_def Let_def b_def [symmetric] k_def [symmetric] r_def [symmetric] by (simp split: if_splits)
    have "\<bar>real_of_int (int r * 2 ^ k - int m)\<bar> \<le> real_of_int (2 ^ (k - 1))" using near(1) by (metis of_int_abs of_int_le_iff)
    then have d: "\<bar>real r * 2 ^ k - real m\<bar> \<le> 2 ^ (k - 1)" by simp
    have "real q * 2 powr (real e - 23) = real r * 2 ^ k"
    proof (cases "r = 2 ^ 24")
      case True
      then have "q = 2 ^ 23" "real e - 23 = real (Suc k)" using qe k(2) by simp_all
      then show ?thesis using True by (simp only: powr_realpow, simp?)
    next
      case False
      then have "q = r" "real e - 23 = real k" using qe k(2) by simp_all
      then show ?thesis by (simp only: powr_realpow, simp?)
    qed
    moreover have "(2 :: real) ^ (k - 1) = 2 ^ b / 2 ^ 24" using k by (cases k) (simp_all add: power_add)
    moreover have "2 ^ 24 \<le> m"
    proof -
      have "(2 :: nat) ^ 24 \<le> 2 ^ b" using False by (intro power_increasing) auto
      then show ?thesis using b(1) by linarith
    qed
    moreover have "e \<le> 31"
    proof (cases "r = 2 ^ 24 \<and> b = 31")
      case True
      then have m: "m = 2 ^ 31" "k = 8" using b(1) assms(2) k(2) by simp_all
      have "r = 2 ^ 23" unfolding r_def m by (simp add: round_to_even_def)
      then show ?thesis using True by simp
    qed (use qe b31 in \<open>auto split: if_splits\<close>)
    ultimately show ?thesis using d r qe b(3) by (auto split: if_splits)
  qed
qed

lemma float_value_parts:
  assumes "f < 2 ^ 23" "0 \<le> f" "0 < b" "b < 256"
  shows "float_value (word_of_int ((if neg then 2 ^ 31 else 0) + b * 2 ^ 23 + f))
    = (if neg then - 1 else 1) * (real_of_int (2 ^ 23 + f) * 2 powr (real_of_int b - 150))"
proof -
  define u where "u = (if neg then 2 ^ 31 else 0) + b * 2 ^ 23 + (f :: int)"
  have "b * 2 ^ 23 + f < 2 ^ 31" "0 \<le> b * 2 ^ 23 + f" using assms by simp_all
  then have u: "0 \<le> u" "u < 2 ^ 32" "u div 2 ^ 31 = (if neg then 1 else 0)" by (auto simp: u_def)
  have "u = 2 ^ 23 * ((if neg then 256 else 0) + b) + f" by (simp add: u_def)
  then have d: "u div 2 ^ 23 = (if neg then 256 else 0) + b" "u mod 2 ^ 23 = f"
    using int_div_pos_eq [OF _ assms(2,1)] int_mod_pos_eq [OF _ assms(2,1)] by blast+
  have "uint (word_of_int u :: 32 word) = u" using u(1,2) by (simp add: unsigned_of_int take_bit_int_eq_self)
  then show ?thesis unfolding u_def [symmetric] float_value_def Let_def using u(3) d assms by auto
qed

lemma float_of_int_value:
  assumes "x \<noteq> 0" "\<bar>x\<bar> \<le> 2 ^ 31" "float_significand (nat \<bar>x\<bar>) = (q, e)"
  shows "float_value (float_of_int x) = (if x < 0 then - 1 else 1) * (real q * 2 powr (real e - 23))"
proof -
  have m: "0 < nat \<bar>x\<bar>" "nat \<bar>x\<bar> \<le> 2 ^ 31" using assms(1,2) by (auto simp: nat_le_iff)
  have qe: "2 ^ 23 \<le> q" "q < 2 ^ 24" "e \<le> 31" using float_significand_near [OF m assms(3)] by simp_all
  have "float_value (word_of_int ((if x < 0 then 2 ^ 31 else 0) + int (e + 127) * 2 ^ 23 + int (q - 2 ^ 23)))
      = (if x < 0 then - 1 else 1) * (real_of_int (2 ^ 23 + int (q - 2 ^ 23)) * 2 powr (real_of_int (int (e + 127)) - 150))"
    using qe by (intro float_value_parts) auto
  moreover have "real_of_int (2 ^ 23 + int (q - 2 ^ 23)) = real q" using qe(1) by (simp add: of_nat_diff)
  moreover have "real_of_int (int (e + 127)) - 150 = real e - 23" by simp
  ultimately show ?thesis using assms(1,3) by (simp add: float_of_int_def)
qed

lemma sign_abs: "real_of_int k = (if k < 0 then - 1 else 1) * \<bar>real_of_int k\<bar>"
  by simp

text \<open>
  C37 (\<open>show_int\<close> and \<open>show_float\<close>).  For every \<open>int\<close> the bytes that \<open>show_int\<close> prints, at increasing addresses, are those of
  the number, the least significant byte first.  The bytes that \<open>show_float\<close> prints for the converted number stand for the same number if it has at most 24
  bits, and otherwise for a number that differs from it by at most half of the last place.
\<close>

theorem show_bytes_roundtrip:
  "\<exists>ls. show_int a x = Some ls \<and> number_of (shown ls) = uint x \<and> length (shown ls) = 4
    \<and> (\<exists>fs. show_float a (float_of_int (sint x)) = Some fs
      \<and> (if \<bar>sint x\<bar> < 2 ^ 24 then float_value (word_of_int (number_of (shown fs))) = real_of_int (sint x)
         else \<bar>float_value (word_of_int (number_of (shown fs))) - real_of_int (sint x)\<bar> \<le> 2 ^ (bit_length (nat \<bar>sint x\<bar>) - 1) / 2 ^ 24))"
proof -
  have b: "uint w < 2 ^ (8 * 4)" "0 \<le> uint w" for w :: "32 word" using uint_lt2p [of w] by simp_all
  obtain ls where ls: "show_int a x = Some ls" "number_of (shown ls) = uint x"
    "ls = map (\<lambda>i. ByteLine (a + int i) (bytes_of 4 (uint x) ! i)) [0..<4] @ [EmptyLine]"
    using show_object [OF b] by (auto simp: show_int_def)
  obtain fs where fs: "show_float a (float_of_int (sint x)) = Some fs" "number_of (shown fs) = uint (float_of_int (sint x))"
    using show_object [OF b] by (auto simp: show_float_def)
  have lim: "\<bar>sint x\<bar> \<le> 2 ^ 31" using sint_lt [of x] sint_ge [of x] by (simp add: abs_le_iff)
  have "if \<bar>sint x\<bar> < 2 ^ 24 then float_value (float_of_int (sint x)) = real_of_int (sint x)
     else \<bar>float_value (float_of_int (sint x)) - real_of_int (sint x)\<bar> \<le> 2 ^ (bit_length (nat \<bar>sint x\<bar>) - 1) / 2 ^ 24"
  proof (cases "sint x = 0")
    case True
    then show ?thesis by (simp add: float_of_int_def float_value_def)
  next
    case False
    define m where "m = nat \<bar>sint x\<bar>"
    have m: "0 < m" "m \<le> 2 ^ 31" "real m = \<bar>real_of_int (sint x)\<bar>" using False lim by (auto simp: m_def nat_le_iff)
    obtain q e where qe: "float_significand m = (q, e)" by (cases "float_significand m")
    define v where "v = real q * 2 powr (real e - 23)"
    have near: "if m < 2 ^ 24 then v = real m else \<bar>v - real m\<bar> \<le> 2 ^ (bit_length m - 1) / 2 ^ 24"
      using float_significand_near [OF m(1,2) qe] unfolding v_def by blast
    define s where "s = (if sint x < 0 then - 1 else 1 :: real)"
    have fv: "float_value (float_of_int (sint x)) = s * v"
      unfolding v_def s_def by (rule float_of_int_value [OF False lim]) (use qe in \<open>simp add: m_def\<close>)
    have y: "real_of_int (sint x) = s * real m" unfolding m(3) s_def by (rule sign_abs)
    have "\<bar>s * v - s * real m\<bar> = \<bar>v - real m\<bar>" by (simp add: s_def abs_minus_commute)
    moreover have "m < 2 ^ 24 \<longleftrightarrow> \<bar>sint x\<bar> < 2 ^ 24" by (simp add: m_def nat_less_iff)
    ultimately show ?thesis using near unfolding m_def [symmetric] fv y by presburger
  qed
  then show ?thesis using ls fs by (auto simp: shown_bytes)
qed

text \<open>The output of \<open>show_twocomp\<close>: 12345 is 0x3039, and its negation is 0xcfc7.\<close>

lemma twocomp_bytes: "bytes_of 2 12345 = [0x39, 0x30]" "bytes_of 2 53191 = [0xc7, 0xcf]"
  by code_simp+

lemma show_twocomp_prints:
  "show_twocomp adr = Some [ByteLine (adr ''x'') 0x39, ByteLine (adr ''x'' + 1) 0x30, EmptyLine,
     ByteLine (adr ''mx'') 0xc7, ByteLine (adr ''mx'' + 1) 0xcf, EmptyLine]"
  by (simp add: show_twocomp_def Let_def twocomp_bytes show_bytes_spec followed_by_def upt_rec)

text \<open>The program never leaves the objects that it shows.\<close>

lemma show_bytes_main_total: "show_bytes_main adr arg \<noteq> None"
  by (simp add: show_bytes_main_def test_show_bytes_def simple_show_a_def simple_show_b_def simple_show_def float_eg_def string_ueg_def string_leg_def
      show_string_def show_twocomp_def show_int_def show_float_def show_pointer_def show_bytes_spec followed_by_def Let_def split: option.splits)

end
