(* ===== verification/Layout.thy ===== *)
theory Layout
  imports Prelude
begin

text \<open>
  Sizes and layouts: the declarations of \<open>08-machine-data/decls.c\<close>, whose sizes the program prints, and the structures of
  \<open>struct_eg.c\<close>.  Types have the sizes and alignments of the machine (LP64); the fields of a structure are placed
  one after the other, each at the next multiple of its alignment, and the size of the
  structure is a multiple of the largest alignment.
\<close>

section \<open>Types\<close>

datatype ctype = CChar | CShort | CInt | CFloat | CDouble | CPtr ctype | CArr ctype nat

fun sizeof :: "ctype \<Rightarrow> nat" where
  "sizeof CChar = 1" | "sizeof CShort = 2" | "sizeof CInt = 4" | "sizeof CFloat = 4" | "sizeof CDouble = 8"
| "sizeof (CPtr t) = 8"
| "sizeof (CArr t n) = n * sizeof t"

fun alignof :: "ctype \<Rightarrow> nat" where
  "alignof (CArr t n) = alignof t"
| "alignof t = sizeof t"

text \<open>The type of \<open>*e\<close> for an expression of type \<open>t\<close>; only pointers and arrays can be dereferenced.\<close>

fun deref :: "ctype \<Rightarrow> ctype option" where
  "deref (CPtr t) = Some t" | "deref (CArr t n) = Some t" | "deref t = None"

section \<open>decls.c\<close>

text \<open>The lines printed for the variables, with \<open>k\<close> stars in front of each name; \<open>None\<close> would not compile.\<close>

fun derefs :: "nat \<Rightarrow> ctype \<Rightarrow> ctype option" where
  "derefs 0 t = Some t"
| "derefs (Suc k) t = do { t1 \<leftarrow> deref t; derefs k t1 }"

definition size_line :: "nat \<Rightarrow> string \<times> ctype \<Rightarrow> (string \<times> nat) option" where
  "size_line k v = map_option (\<lambda>t. (replicate k (CHR ''*'') @ fst v, sizeof t)) (derefs k (snd v))"

definition nest1 :: "(string \<times> nat) list option" where
  "nest1 = (let A1 = (''A1'', CArr CInt 3); A2 = (''A2'', CPtr CInt) in
     those [size_line 0 A1, size_line 0 A2, size_line 1 A1, size_line 1 A2])"

definition nest2 :: "(string \<times> nat) list option" where
  "nest2 = (let A1 = (''A1'', CArr CInt 3); A2 = (''A2'', CArr (CPtr CInt) 3); A3 = (''A3'', CPtr (CArr CInt 3));
       A4 = (''A4'', CArr (CPtr CInt) 3) in
     those (map (size_line 0) [A1, A2, A3, A4] @ map (size_line 1) [A1, A2, A3, A4] @ map (size_line 2) [A2, A3, A4]))"

definition nest3 :: "(string \<times> nat) list option" where
  "nest3 = (let A1 = (''A1'', CArr (CArr CInt 5) 3); A2 = (''A2'', CArr (CArr (CPtr CInt) 5) 3);
       A3 = (''A3'', CPtr (CArr (CArr CInt 5) 3)); A4 = (''A4'', CArr (CArr (CPtr CInt) 5) 3);
       A5 = (''A5'', CArr (CPtr (CArr CInt 5)) 3) in
     those (map (size_line 0) [A1, A2, A3, A4, A5] @ map (size_line 1) [A1, A2, A3, A4, A5]
       @ map (size_line 2) [A1, A2, A3, A4, A5] @ map (size_line 3) [A2, A3, A4, A5]))"

definition decls_main :: "(string \<times> (string \<times> nat) list) list option" where
  "decls_main = do { n1 \<leftarrow> nest1; n2 \<leftarrow> nest2; n3 \<leftarrow> nest3; Some [(''Nest 1:'', n1), (''Nest 2:'', n2), (''Nest 3:'', n3)] }"

text \<open>All expressions are well typed, and these are the numbers.\<close>

lemma decls_main_sizes:
  "map_option (map (\<lambda>(h, ls). map snd ls)) decls_main = Some
     [[12, 8, 4, 4], [12, 24, 8, 24, 4, 8, 12, 8, 4, 4, 4],
      [60, 120, 8, 120, 24, 20, 40, 60, 40, 8, 4, 8, 20, 8, 20, 4, 4, 4, 4]]"
  by (simp add: decls_main_def nest1_def nest2_def nest3_def size_line_def Let_def numeral_2_eq_2 numeral_3_eq_3)

section \<open>struct_eg.c\<close>

definition round_up :: "nat \<Rightarrow> nat \<Rightarrow> nat" where
  "round_up n a = (n + a - 1) div a * a"

fun offsets :: "nat \<Rightarrow> ctype list \<Rightarrow> nat list" where
  "offsets n [] = []"
| "offsets n (t # ts) = (let o1 = round_up n (alignof t) in o1 # offsets (o1 + sizeof t) ts)"

fun struct_end :: "nat \<Rightarrow> ctype list \<Rightarrow> nat" where
  "struct_end n [] = n"
| "struct_end n (t # ts) = struct_end (round_up n (alignof t) + sizeof t) ts"

definition struct_align :: "ctype list \<Rightarrow> nat" where
  "struct_align ts = fold max (map alignof ts) 1"

definition struct_size :: "ctype list \<Rightarrow> nat" where
  "struct_size ts = round_up (struct_end 0 ts) (struct_align ts)"

definition S1 :: "ctype list" where "S1 = [CChar, CArr CInt 2, CDouble]"
definition S2 :: "ctype list" where "S2 = [CDouble, CArr CInt 2, CChar]"
definition S3 :: "ctype list" where "S3 = [CShort, CFloat, CShort]"
definition S4 :: "ctype list" where "S4 = [CChar, CInt, CChar]"
definition S5 :: "ctype list" where "S5 = [CInt, CChar, CChar]"

text \<open>The array \<open>a\<close> of ten structures \<open>S3\<close> is a block of bytes; \<open>get_j\<close> reads the two bytes of the third field.\<close>

definition get_j :: "byte list \<Rightarrow> nat \<Rightarrow> (byte \<times> byte) option" where
  "get_j a idx = do { let p = int (idx * struct_size S3 + offsets 0 S3 ! 2);
     b0 \<leftarrow> rd a p; b1 \<leftarrow> rd a (p + 1); Some (b0, b1) }"

lemma alignof_pos: "0 < alignof t"
  by (induction t) auto

lemma round_up_props:
  assumes "0 < a"
  shows "n \<le> round_up n a" "a dvd round_up n a" "round_up n a < n + a"
proof -
  define q r where "q = (n + a - 1) div a" and "r = (n + a - 1) mod a"
  have e: "n + a - 1 = q * a + r" unfolding q_def r_def by (simp only: div_mult_mod_eq)
  have "r < a" using assms by (simp add: r_def)
  then show "n \<le> round_up n a" "round_up n a < n + a" using e assms unfolding round_up_def q_def [symmetric] by linarith+
  show "a dvd round_up n a" by (simp add: round_up_def)
qed

lemma struct_end_ge: "n \<le> struct_end n ts"
proof (induction ts arbitrary: n)
  case (Cons t ts)
  show ?case using Cons [of "round_up n (alignof t) + sizeof t"] round_up_props(1) [OF alignof_pos [of t], of n] by simp
qed simp

lemma length_offsets [simp]: "length (offsets n ts) = length ts"
  by (induction ts arbitrary: n) (auto simp: Let_def)

text \<open>The fields of a structure are aligned, do not overlap, and lie inside the structure.\<close>

lemma offsets_ok:
  "i < length ts \<Longrightarrow> n \<le> offsets n ts ! i \<and> alignof (ts ! i) dvd offsets n ts ! i \<and> offsets n ts ! i + sizeof (ts ! i) \<le> struct_end n ts
     \<and> (\<forall>j < length ts. i < j \<longrightarrow> offsets n ts ! i + sizeof (ts ! i) \<le> offsets n ts ! j)"
proof (induction ts arbitrary: n i)
  case (Cons t ts)
  let ?n = "round_up n (alignof t) + sizeof t"
  have r: "n \<le> round_up n (alignof t)" "alignof t dvd round_up n (alignof t)" using round_up_props [OF alignof_pos] by auto
  have o: "?n \<le> offsets ?n ts ! j" if "j < length ts" for j using Cons.IH [OF that, of ?n] by simp
  show ?case
  proof (cases i)
    case 0
    have "?n \<le> offsets n (t # ts) ! j" if "j < length (t # ts)" "0 < j" for j using o [of "j - 1"] that by (simp add: Let_def nth_Cons')
    then show ?thesis using 0 r struct_end_ge [of ?n ts] by (simp add: Let_def)
  next
    case (Suc k)
    then have k: "k < length ts" using Cons.prems by simp
    have "offsets ?n ts ! k + sizeof (ts ! k) \<le> offsets n (t # ts) ! j" if "j < length (t # ts)" "i < j" for j
      using Cons.IH [OF k, of ?n] that Suc by (cases j) (auto simp: Let_def)
    then show ?thesis using Cons.IH [OF k, of ?n] Suc r(1) by (auto simp: Let_def)
  qed
qed simp

lemma struct_eg_layouts:
  "map (\<lambda>s. (offsets 0 s, struct_size s)) [S1, S2, S3, S4, S5]
     = [([0, 4, 16], 24), ([0, 8, 16], 24), ([0, 4, 8], 12), ([0, 4, 8], 12), ([0, 4, 5], 8)]"
  by (simp add: S1_def S2_def S3_def S4_def S5_def struct_size_def struct_align_def round_up_def Let_def)

text \<open>\<open>get_j\<close> stays inside the array for the indices 0 to 9.\<close>

lemma get_j_spec:
  assumes "length a = 10 * struct_size S3"
  shows "get_j a idx = (if idx < 10 then Some (a ! (12 * idx + 8), a ! (12 * idx + 9)) else None)"
proof -
  have s: "struct_size S3 = 12" "offsets 0 S3 ! 2 = 8" using struct_eg_layouts by simp_all
  have "nat (int (idx * 12 + 8) + 1) = 12 * idx + 9" by simp
  then show ?thesis using assms by (auto simp: get_j_def s rd_def Let_def nat_add_distrib ac_simps)
qed

end
