(* ===== verification/Interpose.thy ===== *)
theory Interpose
  imports Vec
begin

text \<open>
  Linking: the three interposers of \<open>13-linking/interpose/mymalloc.c\<close>, which wrap \<open>malloc\<close> and \<open>free\<close> at run time, at link
  time and at compile time, the client \<open>int.c\<close>, and the main programs \<open>main.c\<close>, \<open>main2.c\<close> and \<open>dll.c\<close>.  The
  C library is an argument: its \<open>malloc\<close> and \<open>free\<close> on a heap of any type, and what the
  calls of the dynamic linker deliver.  Address 0 is the null pointer.
\<close>

section \<open>Wrappers\<close>

record 'h libc =
  real_malloc :: "64 word \<Rightarrow> 'h \<Rightarrow> 64 word \<times> 'h"
  real_free :: "64 word \<Rightarrow> 'h \<Rightarrow> 'h"

text \<open>What is printed: the format and the arguments.  \<open>Inl\<close> is the status with which the process ends.\<close>

type_synonym trace = "(string \<times> int list) list"

definition as_int :: "64 word \<Rightarrow> int" where
  "as_int nbytes = sint (ucast nbytes :: 32 word)"

definition wrap_malloc :: "'h libc \<Rightarrow> 64 word \<Rightarrow> 'h \<times> trace \<Rightarrow> int + 64 word \<times> 'h \<times> trace" where
  "wrap_malloc c nbytes = (\<lambda>(h, log). case real_malloc c nbytes h of
     (ptr, h1) \<Rightarrow> Inr (ptr, h1, log @ [(''malloc(%d) = %p'', [as_int nbytes, uint ptr])]))"

definition wrap_free :: "'h libc \<Rightarrow> 64 word \<Rightarrow> 'h \<times> trace \<Rightarrow> int + 'h \<times> trace" where
  "wrap_free c ptr = (\<lambda>(h, log). Inr (real_free c ptr h, log @ [(''free(%p)'', [uint ptr])]))"

definition mymalloc :: "'h libc \<Rightarrow> 64 word \<Rightarrow> 'h \<times> trace \<Rightarrow> int + 64 word \<times> 'h \<times> trace" where
  "mymalloc c nbytes = (\<lambda>(h, log). case real_malloc c nbytes h of
     (ptr, h1) \<Rightarrow> Inr (ptr, h1, log @ [(''malloc(%d)=%p'', [as_int nbytes, uint ptr])]))"

definition myfree :: "'h libc \<Rightarrow> 64 word \<Rightarrow> 'h \<times> trace \<Rightarrow> int + 'h \<times> trace" where
  "myfree c ptr = (\<lambda>(h, log). Inr (real_free c ptr h, log @ [(''free(%p)'', [uint ptr])]))"

text \<open>\<open>dlerror\<close> tells for a symbol the message of \<open>dlerror\<close> after \<open>dlsym\<close>, if there is one.\<close>

definition runtime_malloc :: "(string \<Rightarrow> string option) \<Rightarrow> 'h libc \<Rightarrow> 64 word \<Rightarrow> 'h \<times> trace \<Rightarrow> int + 64 word \<times> 'h \<times> trace" where
  "runtime_malloc dlerror c nbytes = (\<lambda>(h, log). if dlerror ''malloc'' \<noteq> None then Inl 1
     else case real_malloc c nbytes h of (ptr, h1) \<Rightarrow> Inr (ptr, h1, log @ [(''malloc(%d) = %p'', [as_int nbytes, uint ptr])]))"

definition runtime_free :: "(string \<Rightarrow> string option) \<Rightarrow> 'h libc \<Rightarrow> 64 word \<Rightarrow> 'h \<times> trace \<Rightarrow> int + 'h \<times> trace" where
  "runtime_free dlerror c ptr = (\<lambda>(h, log). if ptr = 0 then Inr (h, log)
     else if dlerror ''free'' \<noteq> None then Inl 1
     else Inr (real_free c ptr h, log @ [(''free(%p)'', [uint ptr])]))"

section \<open>Clients\<close>

text \<open>A client calls \<open>malloc\<close>, and \<open>free\<close> with the result of one of its earlier calls or with the null pointer.\<close>

datatype request = Alloc "64 word" | Release nat | ReleaseNull

fun pointer_of :: "64 word list \<Rightarrow> request \<Rightarrow> 64 word" where
  "pointer_of ps (Release k) = (if k < length ps then ps ! k else 0)"
| "pointer_of ps _ = 0"

fun client :: "(64 word \<Rightarrow> 's \<Rightarrow> int + 64 word \<times> 's) \<Rightarrow> (64 word \<Rightarrow> 's \<Rightarrow> int + 's) \<Rightarrow> request list \<Rightarrow> 64 word list \<Rightarrow> 's \<Rightarrow> int + 64 word list \<times> 's" where
  "client m f [] ps s = Inr (ps, s)"
| "client m f (Alloc n # rs) ps s = (case m n s of Inl e \<Rightarrow> Inl e | Inr (p, s1) \<Rightarrow> client m f rs (ps @ [p]) s1)"
| "client m f (r # rs) ps s = (case f (pointer_of ps r) s of Inl e \<Rightarrow> Inl e | Inr s1 \<Rightarrow> client m f rs ps s1)"

text \<open>The client linked with the C library alone, and \<open>int.c\<close>.\<close>

definition plain_client :: "'h libc \<Rightarrow> request list \<Rightarrow> 64 word list \<Rightarrow> 'h \<Rightarrow> int + 64 word list \<times> 'h" where
  "plain_client c = client (\<lambda>n h. Inr (real_malloc c n h)) (\<lambda>p h. Inr (real_free c p h))"

definition int_main :: "(64 word \<Rightarrow> 's \<Rightarrow> int + 64 word \<times> 's) \<Rightarrow> (64 word \<Rightarrow> 's \<Rightarrow> int + 's) \<Rightarrow> 's \<Rightarrow> int + 64 word list \<times> 's" where
  "int_main m f s = client m f [Alloc 32, Release 0] [] s"

section \<open>Transparency\<close>

text \<open>What the standard says of \<open>free(NULL)\<close>.\<close>

definition free_null_ok :: "'h libc \<Rightarrow> bool" where
  "free_null_ok c \<longleftrightarrow> (\<forall>h. real_free c 0 h = h)"

text \<open>The contract of an interposer: it returns what the library returns, changes the heap as the library does, and only prints.\<close>

locale interposer =
  fixes libc :: "'h libc"
    and m :: "64 word \<Rightarrow> 'h \<times> trace \<Rightarrow> int + 64 word \<times> 'h \<times> trace"
    and f :: "64 word \<Rightarrow> 'h \<times> trace \<Rightarrow> int + 'h \<times> trace"
  assumes malloc_law: "real_malloc libc n h = (p, h1) \<Longrightarrow> \<exists>ls. m n (h, log) = Inr (p, h1, log @ ls) \<and> length ls = 1"
    and free_law: "free_null_ok libc \<Longrightarrow> \<exists>ls. f p (h, log) = Inr (real_free libc p h, log @ ls) \<and> length ls \<le> 1 \<and> (p \<noteq> 0 \<longrightarrow> length ls = 1)"
begin

lemma transparent:
  assumes "free_null_ok libc" "plain_client libc rs ps h = Inr (qs, h1)"
  shows "\<exists>ls. client m f rs ps (h, log) = Inr (qs, h1, log @ ls) \<and> length ls \<le> length rs"
  using assms(2)
proof (induction rs arbitrary: ps h log)
  case Nil
  then show ?case by (simp add: plain_client_def)
next
  case (Cons r rs)
  have freeing: ?case if r: "\<And>n. r \<noteq> Alloc n"
  proof -
    let ?h = "real_free libc (pointer_of ps r) h"
    obtain l where l: "f (pointer_of ps r) (h, log) = Inr (?h, log @ l)" "length l \<le> 1" using free_law [OF assms(1)] by blast
    have "plain_client libc rs ps ?h = Inr (qs, h1)" using Cons.prems r by (cases r) (auto simp: plain_client_def)
    from Cons.IH [OF this, of "log @ l"] obtain ls where "client m f rs ps (?h, log @ l) = Inr (qs, h1, log @ l @ ls)" "length ls \<le> length rs" by auto
    then show ?thesis using l r by (cases r) (auto intro!: exI [of _ "l @ ls"])
  qed
  show ?case
  proof (cases r)
    case (Alloc n)
    obtain p h2 where p: "real_malloc libc n h = (p, h2)" by (cases "real_malloc libc n h")
    obtain l where l: "m n (h, log) = Inr (p, h2, log @ l)" "length l = 1" using malloc_law [OF p] by blast
    have "plain_client libc rs (ps @ [p]) h2 = Inr (qs, h1)" using Cons.prems p Alloc by (simp add: plain_client_def)
    from Cons.IH [OF this, of "log @ l"] obtain ls where "client m f rs (ps @ [p]) (h2, log @ l) = Inr (qs, h1, log @ l @ ls)" "length ls \<le> length rs" by auto
    then show ?thesis using l Alloc by (auto intro!: exI [of _ "l @ ls"])
  qed (use freeing in auto)
qed

end

interpretation linktime: interposer c "wrap_malloc c" "wrap_free c" for c
  by unfold_locales (auto simp: wrap_malloc_def wrap_free_def)

interpretation compiletime: interposer c "mymalloc c" "myfree c" for c
  by unfold_locales (auto simp: mymalloc_def myfree_def)

text \<open>The third interposer keeps the contract when the dynamic linker finds both functions.\<close>

interpretation runtime: interposer c "runtime_malloc (\<lambda>_. None) c" "runtime_free (\<lambda>_. None) c" for c
  by unfold_locales (auto simp: runtime_malloc_def runtime_free_def free_null_ok_def)

lemma plain_client_total: "\<exists>qs h1. plain_client c rs ps h = Inr (qs, h1)"
  unfolding plain_client_def
proof (induction rs arbitrary: ps h)
  case (Cons r rs)
  then show ?case by (cases r) (auto split: prod.splits)
qed simp


text \<open>A library that hands out increasing addresses, and forgets what is freed.\<close>

definition bump_libc :: "64 word libc" where
  "bump_libc = \<lparr>real_malloc = \<lambda>n h. (h, h + n), real_free = \<lambda>p h. h\<rparr>"


text \<open>\<open>int.c\<close> prints one line for its allocation and one for the release, with the same pointer.\<close>

lemma int_main_prints:
  "real_malloc c 32 h = (p, h1) \<Longrightarrow> int_main (wrap_malloc c) (wrap_free c) (h, [])
     = Inr ([p], real_free c p h1, [(''malloc(%d) = %p'', [32, uint p]), (''free(%p)'', [uint p])])"
  by (simp add: int_main_def wrap_malloc_def wrap_free_def as_int_def)

section \<open>Programs that are linked with addvec and sum\<close>

definition main_c :: "32 word option" where
  "main_c = sum_c [1, 2] 2"

text \<open>The line printed by \<open>main2.c\<close>: \<open>z = [%d %d]\<close>.\<close>

definition main2 :: "(int \<times> int) option" where
  "main2 = do { (_, z) \<leftarrow> addvec [1, 2] [3, 4] 2 (0, [0, 0]); z0 \<leftarrow> rd z 0; z1 \<leftarrow> rd z 1; Some (sint z0, sint z1) }"

text \<open>
  \<open>dll.c\<close>: whether the library is opened, whether the symbol is found, and the result of \<open>dlclose\<close>.  The result has the
  exit status and the line, if it is printed.
\<close>

definition dll_main :: "bool \<Rightarrow> string option \<Rightarrow> int \<Rightarrow> (int \<times> (int \<times> int) option) option" where
  "dll_main opened dlerror closed = (if \<not> opened then Some (1, None) else if dlerror \<noteq> None then Some (1, None)
     else do { line \<leftarrow> main2; Some (if closed < 0 then 1 else 0, Some line) })"

lemma linked_mains: "main_c = Some 3" "main2 = Some (4, 6)" "dll_main True None 0 = Some (0, Some (4, 6))"
proof -
  show "main_c = Some 3" by code_simp
  show m: "main2 = Some (4, 6)" by code_simp
  show "dll_main True None 0 = Some (0, Some (4, 6))" by (simp add: dll_main_def m)
qed

end
