(* ===== verification/Overflow.thy ===== *)
theory Overflow
  imports Prelude
begin

text \<open>
  Programs at the edge of their memory: \<open>09-machine-advanced/bufdemo.c\<close> and \<open>gadget.c\<close>, \<open>Noah/01_small_buf.c\<close>,
  \<open>19-malloc-basic/mallocex.c\<close>, \<open>20-malloc-advanced/ptr.c\<close> and \<open>18-vm-systems/badrefs.c\<close>.  An access outside an object
  is \<open>None\<close>, and the lemmas give the inputs for which it happens.  Characters are bytes.
\<close>

definition NL :: byte where "NL = 10"

section \<open>bufdemo.c\<close>

text \<open>The loop of \<open>gets\<close>: the input, the index of \<open>p\<close>, and the memory that \<open>dest\<close> points to.\<close>

fun gets_loop :: "byte list \<Rightarrow> int \<Rightarrow> byte list \<Rightarrow> (byte list \<times> int \<times> byte list) option" where
  "gets_loop [] p dest = Some (dest, p, [])"
| "gets_loop (c # cs) p dest = (if c = NL then Some (dest, p, cs)
     else do { d \<leftarrow> wr dest p c; gets_loop cs (p + 1) d })"

definition gets :: "byte list \<Rightarrow> byte list \<Rightarrow> (byte list \<times> byte list) option" where
  "gets inp dest = do { (d, p, rest) \<leftarrow> gets_loop inp 0 dest; d1 \<leftarrow> wr d p 0; Some (d1, rest) }"

text \<open>\<open>puts\<close> and \<open>printf("%s")\<close> print the characters up to the first zero, which has to be part of the object.\<close>

fun c_text :: "byte list \<Rightarrow> byte list option" where
  "c_text [] = None"
| "c_text (b # bs) = (if b = 0 then Some [] else map_option ((#) b) (c_text bs))"

text \<open>The buffer of four bytes with what it contains before the call.\<close>

definition bufdemo_echo :: "byte list \<Rightarrow> byte list \<Rightarrow> (byte list \<times> byte list) option" where
  "bufdemo_echo buf inp = do { (b, rest) \<leftarrow> gets inp buf; s \<leftarrow> c_text b; Some (s @ [NL], rest) }"

definition call_echo :: "byte list \<Rightarrow> byte list \<Rightarrow> (byte list \<times> byte list) option" where
  "call_echo buf inp = bufdemo_echo buf inp"

definition smash :: "string \<times> int" where
  "smash = (''I've been smashed!'', 0)"

definition bufdemo_main :: "byte list \<Rightarrow> byte list \<Rightarrow> (string \<times> byte list) option" where
  "bufdemo_main buf inp = do { (out, _) \<leftarrow> call_echo buf inp; Some (''Type a string:'', out) }"

definition first_line :: "byte list \<Rightarrow> byte list" where
  "first_line inp = takeWhile (\<lambda>c. c \<noteq> NL) inp"

lemma gets_loop_spec:
  "gets_loop inp (int (length xs)) (xs @ ys) = (if length (first_line inp) \<le> length ys
     then Some (xs @ first_line inp @ drop (length (first_line inp)) ys, int (length xs + length (first_line inp)), drop (Suc (length (first_line inp))) inp)
     else None)"
proof (induction inp arbitrary: xs ys)
  case Nil
  then show ?case by (simp add: first_line_def)
next
  case (Cons c cs)
  show ?case
  proof (cases "c = NL")
    case False
    show ?thesis
    proof (cases ys)
      case Nil
      then show ?thesis using False by (simp add: first_line_def wr_def)
    next
      case (Cons y ys1)
      have "wr (xs @ ys) (int (length xs)) c = Some ((xs @ [c]) @ ys1)" using Cons by (simp add: wr_nat)
      then show ?thesis using False Cons Cons.IH [of "xs @ [c]" ys1] by (simp add: first_line_def add.commute)
    qed
  qed (simp add: first_line_def)
qed

lemma c_text_append: "0 \<notin> set s \<Longrightarrow> c_text (s @ 0 # r) = Some s"
  by (induction s) auto

lemma c_text_takeWhile: "c_text (s @ 0 # r) = Some (takeWhile (\<lambda>b. b \<noteq> 0) s)"
  by (induction s) auto

lemma gets_spec:
  "gets inp dest = (if length (first_line inp) < length dest
     then Some (first_line inp @ 0 # drop (Suc (length (first_line inp))) dest, drop (Suc (length (first_line inp))) inp) else None)"
proof (cases "length (first_line inp) < length dest")
  case True
  let ?l = "first_line inp"
  have "drop (length ?l) dest = dest ! length ?l # drop (Suc (length ?l)) dest" using True by (simp add: Cons_nth_drop_Suc)
  moreover have "gets_loop inp 0 dest = Some (?l @ drop (length ?l) dest, int (length ?l), drop (Suc (length ?l)) inp)"
    using gets_loop_spec [of inp "[]" dest] True by simp
  ultimately show ?thesis using True wr_nat [of "length ?l" "?l @ drop (length ?l) dest" 0] by (simp add: gets_def)
next
  case False
  have "gets_loop inp 0 dest = (if length (first_line inp) = length dest then Some (first_line inp, int (length dest), drop (Suc (length dest)) inp) else None)"
    using gets_loop_spec [of inp "[]" dest] False by auto
  then show ?thesis using False by (auto simp: gets_def wr_def)
qed

text \<open>
  \<open>bufdemo.c\<close>. The program echoes the first line of its input, up to a zero byte in it, exactly if the line has at
  most three characters; with a longer line it writes past the end of the buffer.
\<close>

theorem bufdemo_overflow:
  assumes "length buf = 4"
  shows "call_echo buf inp = (if length (first_line inp) \<le> 3
     then Some (takeWhile (\<lambda>b. b \<noteq> 0) (first_line inp) @ [NL], drop (Suc (length (first_line inp))) inp) else None)"
  using assms by (auto simp: call_echo_def bufdemo_echo_def gets_spec c_text_takeWhile)

theorem bufdemo_overflow_witness:
  "call_echo [1, 2, 3, 4] [65, 66, 67, 10, 70] = Some ([65, 66, 67, 10], [70]) \<and> call_echo [1, 2, 3, 4] [65, 66, 67, 68, 10] = None"
  using bufdemo_overflow [of "[1, 2, 3, 4]" "[65, 66, 67, 10, 70]"] bufdemo_overflow [of "[1, 2, 3, 4]" "[65, 66, 67, 68, 10]"]
  by (simp add: first_line_def NL_def)

section \<open>01_small_buf.c and gadget.c\<close>

definition small_buf_main :: "byte list \<Rightarrow> byte list option" where
  "small_buf_main buf = do { b0 \<leftarrow> wr buf 0 97; b1 \<leftarrow> wr b0 1 98; b2 \<leftarrow> wr b1 2 99; b3 \<leftarrow> wr b2 3 100; c_text b3 }"

text \<open>The buffer has no room for the zero byte, so that the output runs past its end.\<close>

lemma small_buf_unterminated:
  assumes "length buf = 4"
  shows "small_buf_main buf = None"
proof -
  obtain a b c d where "buf = [a, b, c, d]" using assms by (auto simp: length_Suc_conv numeral_eq_Suc)
  then show ?thesis by (simp add: small_buf_main_def wr_def)
qed

definition ab_plus_c :: "64 word \<Rightarrow> 64 word \<Rightarrow> 64 word \<Rightarrow> 64 word" where
  "ab_plus_c a b c = a * b + c"

definition setval :: "(nat \<rightharpoonup> 32 word) \<Rightarrow> nat \<Rightarrow> (nat \<rightharpoonup> 32 word) option" where
  "setval h p = (case h p of None \<Rightarrow> None | Some _ \<Rightarrow> Some (h(p \<mapsto> 3347663060)))"

text \<open>The bytes of the stored constant in the order in which they are in memory: d4 48 89 c7.\<close>

lemma setval_bytes: "uint (3347663060 :: 32 word) = 0xd4 + 0x48 * 2 ^ 8 + 0x89 * 2 ^ 16 + 0xc7 * 2 ^ 24"
  by simp

section \<open>mallocex.c\<close>

text \<open>The block of \<open>n * sizeof(int)\<close> bytes, with the product of type \<open>size_t\<close>; \<open>None\<close> at the outside is an invalid access, at the inside the exit after a failed \<open>malloc\<close>.\<close>

fun fill_loop :: "nat \<Rightarrow> nat \<Rightarrow> 32 word list \<Rightarrow> 32 word list option" where
  "fill_loop i 0 p = Some p"
| "fill_loop i (Suc k) p = do { q \<leftarrow> wr p (int i) (of_nat i); fill_loop (Suc i) k q }"

definition malloc_foo :: "(64 word \<Rightarrow> 32 word list option) \<Rightarrow> 32 word \<Rightarrow> 32 word list option option" where
  "malloc_foo malloc n = (case malloc (scast n * 4) of None \<Rightarrow> Some None
     | Some p \<Rightarrow> map_option Some (fill_loop 0 (nat (sint n)) p))"

lemma fill_loop_spec: "length xs = i \<Longrightarrow> length ys = k \<Longrightarrow> fill_loop i k (xs @ ys) = Some (xs @ map of_nat [i..<i + k])"
proof (induction k arbitrary: i xs ys)
  case (Suc k)
  then obtain y zs where ys: "ys = y # zs" by (cases ys) auto
  have "wr (xs @ ys) (int i) (of_nat i) = Some ((xs @ [of_nat i]) @ zs)" using Suc.prems ys by (auto simp: wr_nat list_update_append)
  then show ?case using Suc.IH [of "xs @ [of_nat i]" "Suc i" zs] Suc.prems ys by (simp add: upt_conv_Cons del: upt_Suc)
qed simp

lemma malloc_foo_fills:
  assumes "0 \<le> sint n" "malloc (scast n * 4) = Some p" "length p = nat (sint n)"
  shows "malloc_foo malloc n = Some (Some (map of_nat [0..<nat (sint n)]))"
  using fill_loop_spec [of "[]" 0 p "nat (sint n)"] assms by (simp add: malloc_foo_def)

section \<open>ptr.c\<close>

text \<open>A pointer into the object \<open>baz\<close> is an offset in units of \<open>int\<close>; only offset 0 can be dereferenced.\<close>

definition ptr_main :: "(int \<times> int) list \<times> bool" where
  "ptr_main = (let p = 0; baz = [300 - 1 :: int] in
     case rd baz p of None \<Rightarrow> ([], False) | Some v1 \<Rightarrow>
       (case rd baz (p - 1) of None \<Rightarrow> ([(baz ! 0, v1)], False) | Some v2 \<Rightarrow>
         (case rd baz (p - 2) of None \<Rightarrow> ([(baz ! 0, v1), (baz ! 0, v2)], False)
          | Some v3 \<Rightarrow> ([(baz ! 0, v1), (baz ! 0, v2), (baz ! 0, v3)], True))))"

text \<open>Only the first line is defined: after \<open>*p--\<close> the pointer is in front of \<open>baz\<close>, and the next line reads through it.\<close>

lemma ptr_main_prints: "ptr_main = ([(299, 299)], False)"
  by (simp add: ptr_main_def rd_def)

section \<open>badrefs.c\<close>

datatype access = ReadA | WriteA

text \<open>
  \<open>allowed\<close> tells which accesses the page of an address permits; a forbidden one raises \<open>SIGSEGV\<close>, number 11, and
  the handler ends the program.  The result has the lines and the exit status.
\<close>

definition try_access :: "(64 word \<Rightarrow> access \<Rightarrow> bool) \<Rightarrow> int \<Rightarrow> 64 word \<Rightarrow> access \<Rightarrow> (string \<times> int list) list \<times> int" where
  "try_access allowed arg a x = (if allowed a x then ([(''%d: OK'', [arg])], 0) else ([(''%d: Received signal %d'', [arg, 11])], 0))"

definition badrefs_main :: "(64 word \<Rightarrow> access \<Rightarrow> bool) \<Rightarrow> 64 word \<Rightarrow> int \<Rightarrow> int \<Rightarrow> (string \<times> int list) list \<times> int" where
  "badrefs_main allowed main_adr argc arg = (if argc \<noteq> 2 then ([(''Usage: %s <k>'', [])], 1)
     else let go = (\<lambda>msg a x. case try_access allowed arg a x of (ls, st) \<Rightarrow> ((msg, []) # ls, st)) in
       if arg = 0 then go ''Page exists, but not allowed to read from kernel area'' 0x800000000000 ReadA
       else if arg = 1 then go ''Try to read from page that does not exist'' 0 ReadA
       else if arg = 2 then go ''Page exists, but not allowed to write to text area'' main_adr WriteA
       else if arg = 3 then go ''Try to read from page that does exist'' main_adr ReadA
       else ([(''Usage: %s <k>'', [])], 1))"

text \<open>With the usual address space only the last access succeeds.\<close>

lemma badrefs_signals:
  assumes "\<not> allowed 0x800000000000 ReadA" "\<not> allowed 0 ReadA" "\<not> allowed m WriteA" "allowed m ReadA" "k \<in> {0, 1, 2, 3}"
  shows "snd (hd (tl (fst (badrefs_main allowed m 2 k)))) = (if k = 3 then [3] else [k, 11])"
  using assms by (auto simp: badrefs_main_def try_access_def Let_def)

end
