(* ===== verification/Spec2Isabelle.thy ===== *)
theory Spec2Isabelle
  imports Tqsort Taskq Tiny Netconn Shell Mountain Machine Vec Films Psum Readers Races Prethreaded Mains Filmarrays Sortbench Reaping Procmask Openfiles Histogram Sigwait Echoprocs Handlers Execs Sharing Showbytes Layout Interpose Overflow
begin

text \<open>
  \<^bold>\<open>Verification of the C programs of a computer-science course repository\<close>

  The repository (\<open>src/\<close>) collects the programs of the course CMU 15-213 and of the book C Primer
  Plus.  They are small and complete: sorting with threads, robust I/O, network servers,
  a shell, synchronisation examples, matrix products with the measuring code around them,
  machine-level examples, and linked lists.  This development translates them into
  functions and step relations of HOL, one group of definitions per source file, and proves
  what makes them correct; where a program is wrong for some input, the exact condition is
  part of the statement.  File names below are relative to \<open>src/CMU15-213/\<close> unless they begin
  with \<open>C_Primer_Plus\<close>.

  \<^bold>\<open>Conventions.\<close>  An array is a list, and an access outside it is the value \<open>None\<close> (theory
  \<open>Prelude\<close>: \<open>rd\<close>, \<open>wr\<close>).  Machine integers are words, or integers with the wrap-around
  written out.  Pointers into an array are indices; heap objects are maps from addresses, and
  \<open>malloc\<close> may fail.  A loop with a bound is a total function, a loop that may run forever is
  a \<open>partial_function\<close> in the option type, whose theorems state that it returns.  The
  operating system is an argument: what a call delivers, how long a transfer is, which
  address is returned.  A process that ends through an error function is a
  value other than \<open>Ret\<close> of the type \<open>outcome\<close> (theory \<open>Csapp\<close>).  Concurrent programs are functions that
  perform the next action of a thread; theorems quantify over all schedules.

  \<^bold>\<open>Parts, theories and what is shown.\<close>

  \<^item> \<open>Prelude\<close>, \<open>Scheduling\<close>, \<open>Interleaving\<close>: shared vocabulary.  The locale \<open>scheduled\<close> is for threads
    that never wait, \<open>kept\<close>, \<open>semaphore\<close> and \<open>progressing\<close> are for threads that wait for
    semaphores: an invariant under every schedule, the balance of a semaphore, and that the
    threads finish when they are scheduled in turn.
  \<^item> \<open>Pqsort\<close>, \<open>Pqsort_Par\<close>, \<open>Partition_Par\<close>, \<open>Tqsort\<close>, \<open>Sortbench\<close> (\<open>26-parallelism/pqsort/pqsort.c\<close>,
    \<open>sortbench.c\<close>): serial quicksort, block copy, parallel partition and the multi-threaded sort.  Every routine
    terminates, stays inside its arrays, and sorts or partitions its range in every
    interleaving; the parallel partition keeps the contract of the serial one; the
    check of the benchmark never fails.
  \<^item> \<open>Taskq\<close> (\<open>pqsort/taskq.c\<close>): the linked list of threads refines a FIFO queue; \<open>join_tasks\<close>
    returns only when every task has ended, and can always return.
  \<^item> \<open>Rio\<close>, \<open>Sio\<close>, \<open>Csapp\<close>, \<open>Netconn\<close> (\<open>22-netprog2/csapp.c\<close>, \<open>16-io/csapp.c\<close>, \<open>hostinfo.c\<close>): transfers
    that short counts and interrupts do not disturb, line reading, number output, error
    wrappers, and the connection helpers with the descriptor table.
  \<^item> \<open>Echo\<close>, \<open>Tiny\<close>, \<open>Prethreaded\<close> (\<open>echo.c\<close>, \<open>cpfile.c\<close>, \<open>cpstdin.c\<close>, \<open>mmapcopy.c\<close>,
    \<open>22-netprog2/tiny\<close>, \<open>25-sync-advanced/echoservert_pre.c\<close>, \<open>echo_cnt.c\<close>): the programs on top
    of Rio.  \<open>Prethreaded\<close> composes the bounded buffer with the echo service: every client
    gets back what it sent, in every interleaving of the worker threads.
  \<^item> \<open>Mains\<close> (\<open>tiny.c\<close>, \<open>echoserveri.c\<close>, \<open>echoclient.c\<close>, \<open>shellex.c\<close>): the main programs.  Servers
    answer all clients in order, up to one that makes the service wait for ever; the shell evaluates
    the lines of its input in order.
  \<^item> \<open>Sbuf\<close>, \<open>Readers\<close>, \<open>Counters\<close>, \<open>Psum\<close>, \<open>Races\<close> (\<open>24-sync-basic\<close>, \<open>25-sync-advanced\<close>,
    \<open>26-parallelism/psum-*.c\<close>): the bounded buffer is a FIFO queue without deadlock, writers exclude
    everybody, no increment is lost under a mutex and half of them can be lost without it,
    the three parallel sums compute the same result, and every thread of \<open>norace.c\<close> gets its own argument.
  \<^item> \<open>Shell\<close> (\<open>15-ecf-signals/shellex.c\<close>): splitting of command lines, background jobs,
    built-in commands and the evaluation of a command.
  \<^item> \<open>Matmult\<close>, \<open>Clock\<close>, \<open>Sampler\<close>, \<open>Mmrun\<close>, \<open>Mountain\<close> (\<open>12-cache-memories\<close>): six loop orders
    and two blocked versions of the matrix product over an arbitrary arithmetic, the cycle
    counter, the k-best sampler, and the measuring programs.
  \<^item> \<open>Machine\<close>, \<open>Arrays\<close>, \<open>Vec\<close> (chapters 05 to 13): the versions of one function compute
    the same; the vector type refines a list of fixed length.
  \<^item> \<open>Filmlist\<close>, \<open>Films\<close>, \<open>Filmarrays\<close> (\<open>C_Primer_Plus/ADT\<close>, \<open>C_Primer_Plus/Data_Representation\<close>): the list type keeps
    the contract of its header file, and the programs that use it print what was entered.
  \<^item> \<open>Procs\<close>, \<open>Forks\<close>, \<open>Family\<close>, \<open>Reaping\<close>, \<open>Procmask\<close> (\<open>15-ecf-signals/forks.c\<close>, \<open>procmask1.c\<close>, \<open>procmask2.c\<close>, \<open>14-ecf-procs/fork.c\<close>): \<open>Procs\<close>
    is a kernel with a process table, pending and blocked signals and handlers, \<open>Forks\<close> has the eighteen functions and \<open>main\<close>.  The options 0 to 6 print a
    given multiset of lines, 10 and 11 report on every child, 11 in a fixed order, 14 can hang and 15
    cannot, \<open>procmask2\<close> deletes no job before it is added and \<open>procmask1\<close> can, in all cases for every
    interleaving of the processes and of the delivery of signals.
  \<^item> \<open>Sigwait\<close>, \<open>Handlers\<close>, \<open>Execs\<close> (\<open>15-ecf-signals/sigsuspend.c\<close>, \<open>waitforsignal.c\<close>, \<open>internal.c\<close>, \<open>restart.c\<close>,
    \<open>setjmp.c\<close>, \<open>sigint.c\<close>, \<open>sigintsafe.c\<close>, \<open>loop.c\<close>, \<open>execs.c\<close>): no signal is lost while a program waits for it, the alarm rings
    five times, every interrupt restarts the program, and the output of a child comes before that of the parent that waits for it.
  \<^item> \<open>Echothreads\<close>, \<open>Echoprocs\<close> (\<open>23-concprog/echoservert.c\<close>, \<open>echoserverp.c\<close>, \<open>echo.c\<close>): the servers with threads and with
    processes echo every connection exactly and leak neither blocks nor descriptors; no ended child is left
    when no signal is pending.
  \<^item> \<open>Openfiles\<close> (\<open>16-io/ffiles1.c\<close> to \<open>ffiles3.c\<close>, \<open>hello.c\<close>, \<open>statcheck.c\<close>): descriptor tables that share file positions, a
    buffered stream, and file modes.
  \<^item> \<open>Histogram\<close>, \<open>Sharing\<close> (\<open>23-concprog/race.c\<close>, \<open>24-sync-basic/sharing.c\<close>): unsynchronised accesses, with all results that the
    interleavings can give.
  \<^item> \<open>Showbytes\<close>, \<open>Layout\<close>, \<open>Interpose\<close>, \<open>Overflow\<close> (\<open>02-03-bits-ints/show-bytes.c\<close>, \<open>08-machine-data/decls.c\<close>, \<open>struct_eg.c\<close>,
    \<open>13-linking\<close>, \<open>09-machine-advanced\<close> and others): the bytes of integers and floating-point numbers, sizes and offsets,
    wrappers of \<open>malloc\<close> and \<open>free\<close> that only print, and the inputs on which a program leaves its memory.

  \<^bold>\<open>Interfaces.\<close>  The locales are the contracts between components: \<open>scheduled\<close> (thread routines),
  the queue contract of \<open>Taskq\<close>, the line reader contract of \<open>Rio\<close> and \<open>Csapp\<close>, the contract
  of an error wrapper (\<open>checked_call\<close>), the vector (\<open>bounded_vector\<close>) and the list type
  (\<open>list_adt\<close>), programs that create and reap children (\<open>reaper\<close>), the service of
  an iterative server (\<open>iterative_service\<close>), programs that wait for a signal (\<open>waiting_program\<close>), wrappers of the
  allocator (\<open>interposer\<close>), and \<open>kept\<close>, \<open>semaphore\<close>, \<open>progressing\<close>, \<open>own_elements\<close>.  Each is interpreted on the
  definitions that model the code.

  \<^bold>\<open>Bounds.\<close>  No function uses fuel.  A schedule is an arbitrary finite list; where the end of a
  run matters, the theorem gives the number of rounds after which it is reached.  Counters
  of type \<open>int\<close> keep their width, and the theorems state up to which count they hold
  (\<open>2 ^ 31\<close> insertions into the bounded buffer, \<open>2 ^ 30\<close> iterations of \<open>goodcnt\<close>).

  \<^bold>\<open>Idealisations.\<close>  Floating-point numbers are real numbers in the measuring code and an arbitrary
  arithmetic without laws in the matrix products.  A section of code between the lock
  and the unlock of a mutex is one action where the mutex protects all it touches
  (\<open>Partition_Par\<close>, \<open>Taskq\<close>, \<open>Prethreaded\<close>); in \<open>Counters\<close> and \<open>Psum\<close> loads and stores are
  separate actions.  The kernel of \<open>Procs\<close> models what the calls are documented to do: a process executes
  one call or one access to \<open>ccount\<close> at a time, a call of \<open>fork\<close> succeeds, and output appears when it is
  printed.  Output is the list of what is printed; prompts are left out.

  \<^bold>\<open>Not modelled.\<close>  The further copies of \<open>csapp.c\<close> in the other directories, which repeat the one of
  \<open>22-netprog2\<close>, and further copies of other programs; the wrappers that only pass their arguments on; programs that only print
  addresses (\<open>stack.c\<close>, \<open>locate.c\<close>) or read the clock (\<open>realtimer.c\<close>); \<open>signaldeadlock.c\<close>, whose behaviour depends on
  the locks inside \<open>printf\<close>; and everything in other languages.
\<close>

end
